(* ===== verification/Toyix_Prelude.thy ===== *)
theory Toyix_Prelude
  imports "HOL-Library.Word" "HOL-Library.While_Combinator"
begin

unbundle bit_operations_syntax

text \<open>
  Shared vocabulary of the Toyix development: the machine integers of the C sources as words,
  errors as values, page arithmetic, and the loop forms that several components share.

  A kernel routine that can stop the machine returns a sum: \<open>Inl (Panic msg)\<close> is a call of
  \<open>kernel_panic\<close> with that message, \<open>Inl (Fault msg)\<close> is a step whose meaning C leaves
  open (a null or dangling pointer, a header no routine has written), \<open>Inr x\<close> is a normal
  return.
\<close>

section \<open>Machine integers\<close>

type_synonym u8 = "8 word"
type_synonym u16 = "16 word"
type_synonym u32 = "32 word"
type_synonym u64 = "64 word"

section \<open>Errors as values\<close>

datatype kerror = Panic string | Fault string

type_synonym 'a res = "kerror + 'a"

definition bindE :: "'e + 'a \<Rightarrow> ('a \<Rightarrow> 'e + 'b) \<Rightarrow> 'e + 'b" where
  "bindE r f = (case r of Inl e \<Rightarrow> Inl e | Inr x \<Rightarrow> f x)"

lemma bindE_simps [simp]:
  "bindE (Inl e) f = Inl e"
  "bindE (Inr x) f = f x"
  by (simp_all add: bindE_def)

lemma bindE_eq_Inr_iff: "bindE r f = Inr y \<longleftrightarrow> (\<exists>x. r = Inr x \<and> f x = Inr y)"
  by (cases r) simp_all

lemma bindE_eq_Inl_iff:
  "bindE r f = Inl e \<longleftrightarrow> r = Inl e \<or> (\<exists>x. r = Inr x \<and> f x = Inl e)"
  by (cases r) simp_all

lemma if_Inl_eq_Inr: "((if c then Inl e else x) = Inr y) = (\<not> c \<and> x = Inr y)"
  by simp

lemma bindE_cong [fundef_cong]:
  "r = r' \<Longrightarrow> (\<And>x. r' = Inr x \<Longrightarrow> f x = f' x) \<Longrightarrow> bindE r f = bindE r' f'"
  by (cases r') auto

text \<open>
  A loop over the elements of a list whose body may fail, and sequencing for computations that
  may also not return (\<^const>\<open>None\<close>).
\<close>

primrec foldE :: "('a \<Rightarrow> 's \<Rightarrow> 'e + 's) \<Rightarrow> 'a list \<Rightarrow> 's \<Rightarrow> 'e + 's" where
  "foldE body [] s = Inr s"
| "foldE body (x # xs) s = bindE (body x s) (foldE body xs)"

lemma foldE_append: "foldE body (xs @ ys) s = bindE (foldE body xs s) (foldE body ys)"
  by (induction xs arbitrary: s) (auto simp: bindE_def split: sum.splits)

lemma foldE_invariant:
  assumes "foldE body xs s = Inr t" and "P s"
    and "\<And>x s t. x \<in> set xs \<Longrightarrow> P s \<Longrightarrow> body x s = Inr t \<Longrightarrow> P t"
  shows "P t"
  using assms by (induction xs arbitrary: s) (auto simp: bindE_eq_Inr_iff)

definition bindO :: "('e + 'a) option \<Rightarrow> ('a \<Rightarrow> ('e + 'b) option) \<Rightarrow> ('e + 'b) option" where
  "bindO r f = (case r of None \<Rightarrow> None | Some (Inl e) \<Rightarrow> Some (Inl e) | Some (Inr x) \<Rightarrow> f x)"

lemma bindO_simps [simp]:
  "bindO None f = None"
  "bindO (Some (Inl e)) f = Some (Inl e)"
  "bindO (Some (Inr x)) f = f x"
  by (simp_all add: bindO_def)

lemma bindO_eq_Inr_iff:
  "bindO r f = Some (Inr y) \<longleftrightarrow> (\<exists>x. r = Some (Inr x) \<and> f x = Some (Inr y))"
  by (auto simp: bindO_def split: option.splits sum.splits)

lemma bindO_eq_None_iff: "bindO r f = None \<longleftrightarrow> r = None \<or> (\<exists>x. r = Some (Inr x) \<and> f x = None)"
  by (auto simp: bindO_def split: option.splits sum.splits)

definition ensure :: "bool \<Rightarrow> string \<Rightarrow> unit res" where
  "ensure c msg = (if c then Inr () else Inl (Panic msg))"

lemma ensure_simps [simp]: "ensure True msg = Inr ()" "ensure False msg = Inl (Panic msg)"
  by (simp_all add: ensure_def)

lemma ensure_eq_Inr [simp]: "ensure c msg = Inr u \<longleftrightarrow> c"
  by (simp add: ensure_def)

section \<open>Words\<close>

lemma unat_Suc_of_less:
  fixes a b :: "'a::len word"
  assumes "a < b"
  shows "unat (a + 1) = Suc (unat a)"
proof -
  have "unat b < 2 ^ LENGTH('a)" and "unat a < unat b"
    using assms by (simp_all add: word_less_nat_alt)
  then have "unat a + 1 < 2 ^ LENGTH('a)" by linarith
  then show ?thesis by (simp add: unat_word_ariths)
qed

lemma word_div_mod_inject:
  fixes a b n :: "'a::len word"
  assumes "a div n = b div n" and "a mod n = b mod n"
  shows "a = b"
  by (metis assms div_mult_mod_eq)

lemma and_not_mask_eq_minus:
  fixes x :: "'a::len word"
  shows "x AND NOT (mask n) = x - take_bit n x"
proof -
  have "x - take_bit n x = x AND NOT (take_bit n x)"
    by (rule disjunctive_diff_eq_and_not)
      (rule bit_eqI, auto simp: bit_and_iff bit_not_iff bit_take_bit_iff)
  also have "\<dots> = x AND NOT (mask n)"
    by (rule bit_eqI) (auto simp: bit_and_iff bit_not_iff bit_take_bit_iff bit_mask_iff)
  finally show ?thesis ..
qed

lemma unat_and_not_mask:
  fixes x :: "'a::len word"
  shows "unat (x AND NOT (mask n)) = unat x div 2 ^ n * 2 ^ n"
proof -
  have le: "take_bit n x \<le> x"
    by (simp only: word_le_nat_alt unsigned_take_bit_eq take_bit_nat_less_eq_self)
  have "unat (x - take_bit n x) = unat x - take_bit n (unat x)"
    by (simp only: unat_sub [OF le] unsigned_take_bit_eq)
  also have "\<dots> = unat x div 2 ^ n * 2 ^ n"
    by (simp add: take_bit_eq_mod minus_mod_eq_div_mult)
  finally show ?thesis by (simp only: and_not_mask_eq_minus)
qed

lemma and_mask_eq_0_iff:
  fixes x :: "'a::len word"
  shows "x AND mask n = 0 \<longleftrightarrow> 2 ^ n dvd unat x"
  by (metis take_bit_eq_mask dvd_eq_mod_eq_0 take_bit_eq_mod unat_eq_zero unsigned_take_bit_eq)

lemma and_single_bit:
  fixes x :: "'a::len word"
  shows "x AND push_bit k 1 = (if bit x k then push_bit k 1 else 0)"
proof (rule bit_word_eqI)
  fix n assume "n < LENGTH('a)"
  then show "bit (x AND push_bit k 1) n = bit (if bit x k then push_bit k 1 else 0 :: 'a word) n"
    by (cases "n = k") (auto simp: bit_simps)
qed

lemma u32_4095: "(4095 :: u32) = mask 12"
  by (simp add: mask_eq_exp_minus_1)

lemma unat_u32_less [simp]: "unat (x :: u32) < 4294967296"
  by (rule order_less_le_trans [OF unsigned_less]) simp

section \<open>Page arithmetic\<close>

definition page_aligned :: "u32 \<Rightarrow> bool" where
  "page_aligned a \<longleftrightarrow> a AND 4095 = 0"

lemma page_aligned_iff: "page_aligned a \<longleftrightarrow> 4096 dvd unat a"
  by (simp add: page_aligned_def u32_4095 and_mask_eq_0_iff)

lemma page_alignedE:
  assumes "page_aligned a"
  obtains k where "unat a = 4096 * k" and "k < 1048576"
proof -
  from assms obtain k where k: "unat a = 4096 * k" by (auto simp: page_aligned_iff)
  have "unat a < 4294967296" by simp
  with k have "k < 1048576" by simp
  with k that show thesis by blast
qed

lemma page_aligned_0 [simp]: "page_aligned 0"
  by (simp add: page_aligned_def)

lemma page_aligned_add_page [simp]: "page_aligned a \<Longrightarrow> page_aligned (a + 4096)"
  by (auto simp: page_aligned_iff unat_word_ariths dvd_mod_iff)

text \<open>The page count between two aligned addresses, and the pages themselves.\<close>

definition pages_between :: "u32 \<Rightarrow> u32 \<Rightarrow> nat" where
  "pages_between a b = (unat b - unat a) div 4096"

definition page_list :: "u32 \<Rightarrow> u32 \<Rightarrow> u32 list" where
  "page_list a b = map (\<lambda>i. a + 4096 * word_of_nat i) [0..<pages_between a b]"

lemma aligned_step:
  assumes "page_aligned a" and "page_aligned b" and "a < b"
  shows "unat (a + 4096) = unat a + 4096" and "unat a + 4096 \<le> unat b"
proof -
  from assms(1,2) obtain i j where ij: "unat a = 4096 * i" "unat b = 4096 * j"
    unfolding page_aligned_iff dvd_def by blast
  from assms(3) ij have "i < j" by (simp add: word_less_nat_alt)
  then show le: "unat a + 4096 \<le> unat b" using ij by simp
  have "unat a + 4096 < 4294967296" using le unat_u32_less [of b] by linarith
  then show "unat (a + 4096) = unat a + 4096"
    by (simp add: unat_word_ariths)
qed

lemma pages_between_step:
  assumes "page_aligned a" and "page_aligned b" and "a < b"
  shows "pages_between a b = Suc (pages_between (a + 4096) b)"
  using aligned_step [OF assms] by (simp add: pages_between_def)

lemma page_list_step:
  assumes "page_aligned a" and "page_aligned b" and "a < b"
  shows "page_list a b = a # page_list (a + 4096) b"
  unfolding page_list_def pages_between_step [OF assms] upt_conv_Cons [OF zero_less_Suc]
  by (simp add: map_Suc_upt [symmetric] algebra_simps del: upt_Suc)

lemma page_list_empty: "b \<le> a \<Longrightarrow> page_list a b = []"
  by (simp add: page_list_def pages_between_def word_le_nat_alt)

text \<open>
  The C loop \<open>for (a = start; a < end; a += 4096) body\<close>. On page-aligned bounds the step
  cannot wrap, the loop ends, and it runs the body once on every page of \<^const>\<open>page_list\<close>.
\<close>

definition page_loop :: "(u32 \<Rightarrow> 's \<Rightarrow> 's) \<Rightarrow> u32 \<Rightarrow> u32 \<Rightarrow> 's \<Rightarrow> 's" where
  "page_loop body start end s =
     snd (while (\<lambda>(a, _). a < end) (\<lambda>(a, s). (a + 4096, body a s)) (start, s))"

lemma page_loop_terminates:
  assumes "page_aligned start" and "page_aligned end"
  shows "\<exists>t. while_option (\<lambda>(a, _). a < end) (\<lambda>(a, s). (a + 4096, body a s)) (start, s) = Some t"
  using assms(1)
proof (induction "pages_between start end" arbitrary: start s)
  case 0
  have "\<not> start < end" using pages_between_step [OF 0(2) assms(2)] 0(1) by auto
  then show ?case by (subst while_option_unfold) simp
next
  case (Suc n)
  show ?case
  proof (cases "start < end")
    case True
    then have "n = pages_between (start + 4096) end"
      using pages_between_step [OF Suc(3) assms(2)] Suc(2) by simp
    from Suc(1) [OF this page_aligned_add_page [OF Suc(3)]] True show ?thesis
      by (subst while_option_unfold) simp
  next
    case False
    then show ?thesis by (subst while_option_unfold) simp
  qed
qed

lemma page_loop_unfold:
  "page_loop body start end s =
     (if start < end then page_loop body (start + 4096) end (body start s) else s)"
  unfolding page_loop_def by (subst while_unfold) simp

lemma page_loop_fold:
  assumes "page_aligned start" and "page_aligned end"
  shows "page_loop body start end s = fold body (page_list start end) s"
  using assms(1)
proof (induction "pages_between start end" arbitrary: start s)
  case 0
  have "\<not> start < end" using pages_between_step [OF 0(2) assms(2)] 0(1) by auto
  then show ?case by (subst page_loop_unfold) (simp add: page_list_empty)
next
  case (Suc n)
  show ?case
  proof (cases "start < end")
    case True
    then have "n = pages_between (start + 4096) end"
      using pages_between_step [OF Suc(3) assms(2)] Suc(2) by simp
    from Suc(1) [OF this page_aligned_add_page [OF Suc(3)]] True show ?thesis
      by (subst page_loop_unfold) (simp add: page_list_step [OF Suc(3) assms(2) True])
  next
    case False
    then show ?thesis by (subst page_loop_unfold) (simp add: page_list_empty)
  qed
qed

lemma set_page_list:
  assumes "page_aligned a" and "page_aligned b"
  shows "set (page_list a b) = {p. page_aligned p \<and> a \<le> p \<and> p < b}"
  using assms(1)
proof (induction "pages_between a b" arbitrary: a)
  case 0
  have "\<not> a < b" using pages_between_step [OF 0(2) assms(2)] 0(1) by auto
  then show ?case by (auto simp: page_list_empty)
next
  case (Suc n)
  show ?case
  proof (cases "a < b")
    case True
    note st = aligned_step [OF Suc(3) assms(2) True]
    have "n = pages_between (a + 4096) b"
      using pages_between_step [OF Suc(3) assms(2) True] Suc(2) by simp
    from Suc(1) [OF this page_aligned_add_page [OF Suc(3)]]
    have IH: "set (page_list (a + 4096) b) = {p. page_aligned p \<and> a + 4096 \<le> p \<and> p < b}" .
    have "a + 4096 \<le> p" if "page_aligned p" "a \<le> p" "p \<noteq> a" for p
    proof -
      from that have "a < p" by simp
      from aligned_step [OF Suc(3) that(1) this] show ?thesis by (simp add: word_le_nat_alt)
    qed
    moreover have "a \<le> p" if "a + 4096 \<le> p" for p
      using that st(1) by (simp add: word_le_nat_alt)
    ultimately show ?thesis
      using IH True Suc(3) by (auto simp: page_list_step [OF Suc(3) assms(2) True])
  next
    case False
    then show ?thesis by (auto simp: page_list_empty)
  qed
qed

section \<open>Words of a text\<close>

text \<open>The words of a text: the maximal runs of characters that do not satisfy \<open>sp\<close>; \<open>w\<close> is the word being read.\<close>

fun words_by :: "('a \<Rightarrow> bool) \<Rightarrow> 'a list \<Rightarrow> 'a list \<Rightarrow> 'a list list" where
  "words_by sp [] w = (if w = [] then [] else [w])"
| "words_by sp (c # cs) w =
     (if sp c then (if w = [] then [] else [w]) @ words_by sp cs [] else words_by sp cs (w @ [c]))"

lemma words_by_drop: "words_by sp (dropWhile sp l) [] = words_by sp l []"
  by (induction l) auto

lemma words_by_take:
  "words_by sp l w = (if w @ takeWhile (\<lambda>c. \<not> sp c) l = [] then [] else [w @ takeWhile (\<lambda>c. \<not> sp c) l])
     @ words_by sp (dropWhile (\<lambda>c. \<not> sp c) l) []"
  by (induction l arbitrary: w) auto

lemma words_by_start:
  assumes "start = dropWhile sp l" and "start \<noteq> []"
  shows "words_by sp l [] = takeWhile (\<lambda>c. \<not> sp c) start # words_by sp (dropWhile (\<lambda>c. \<not> sp c) start) []"
proof -
  have "\<not> sp (hd start)" using hd_dropWhile [of sp l] assms by simp
  then have "takeWhile (\<lambda>c. \<not> sp c) start \<noteq> []" using assms(2) by (cases start) auto
  then show ?thesis using words_by_take [of sp start "[]"] words_by_drop [of sp l] assms(1) by simp
qed

lemma words_by_end: "dropWhile sp l = [] \<Longrightarrow> words_by sp l [] = []"
  by (metis words_by_drop words_by.simps(1))

lemma words_by_tl: "words_by sp (tl (dropWhile (\<lambda>c. \<not> sp c) l)) [] = words_by sp (dropWhile (\<lambda>c. \<not> sp c) l) []"
  by (induction l) auto

end
