(* ===== verification/Thread_Queue.thy ===== *)
theory Thread_Queue
  imports Toyix_Prelude
begin

text \<open>
  Threads and the doubly linked queues they are kept on: \<open>thread_t\<close> of
  \<open>include/kernel/thread.h\<close>, \<open>queue_push\<close> and \<open>queue_pop\<close> of \<open>kernel/thread.c\<close>, and the
  same two operations on a \<open>wait_queue_t\<close> in \<open>kernel/wait_queue.c\<close>. Threads live in a store
  from addresses to records; following a pointer to no thread is a fault. The lemmas show that
  both pairs of operations implement a first-in first-out list of thread addresses and touch only
  the links of the queue's own members.
\<close>

section \<open>Threads\<close>

abbreviation (input) THREAD_MAGIC :: u32 where "THREAD_MAGIC \<equiv> 0x54485244"
abbreviation (input) THREAD_STACK_SIZE :: u32 where "THREAD_STACK_SIZE \<equiv> 16384"

datatype thread_state = THREAD_NEW | THREAD_READY | THREAD_RUNNING | THREAD_BLOCKED
  | THREAD_SLEEPING | THREAD_ZOMBIE

record thread =
  t_magic :: u32
  t_id :: u32
  t_name :: string
  t_state :: thread_state
  t_esp :: u32
  t_stack_base :: u32
  t_stack_size :: u32
  t_entry :: u32
  t_arg :: u32
  t_process :: u32
  t_wake_tick :: u32
  t_next :: u32
  t_prev :: u32

type_synonym threads = "u32 \<rightharpoonup> thread"

definition get_thread :: "u32 \<Rightarrow> threads \<Rightarrow> thread res" where
  "get_thread a st = (case st a of None \<Rightarrow> Inl (Fault ''thread'') | Some t \<Rightarrow> Inr t)"

definition upd_thread :: "u32 \<Rightarrow> (thread \<Rightarrow> thread) \<Rightarrow> threads \<Rightarrow> threads res" where
  "upd_thread a f st = (case st a of None \<Rightarrow> Inl (Fault ''thread'') | Some t \<Rightarrow> Inr (st(a \<mapsto> f t)))"

definition validate_thread :: "u32 \<Rightarrow> threads \<Rightarrow> thread res" where
  "validate_thread thread st =
     (if thread = 0 then Inl (Panic ''thread: null thread pointer'')
      else bindE (get_thread thread st) (\<lambda>t.
        if t_magic t \<noteq> THREAD_MAGIC then Inl (Panic ''thread: magic mismatch'') else Inr t))"

definition thread_state_name :: "thread_state \<Rightarrow> string" where
  "thread_state_name state = (case state of
     THREAD_NEW \<Rightarrow> ''NEW'' | THREAD_READY \<Rightarrow> ''READY'' | THREAD_RUNNING \<Rightarrow> ''RUNNING''
   | THREAD_BLOCKED \<Rightarrow> ''BLOCKED'' | THREAD_SLEEPING \<Rightarrow> ''SLEEPING'' | THREAD_ZOMBIE \<Rightarrow> ''ZOMBIE'')"

partial_function (option) count_loop :: "u32 \<Rightarrow> u32 \<Rightarrow> threads \<Rightarrow> u32 res option" where
  "count_loop t count st =
     (if t = 0 then Some (Inr count)
      else case validate_thread t st of
        Inl e \<Rightarrow> Some (Inl e)
      | Inr r \<Rightarrow> count_loop (t_next r) (count + 1) st)"

definition count_list :: "u32 \<Rightarrow> threads \<Rightarrow> u32 res option" where
  "count_list head st = count_loop head 0 st"

definition thread_kernel_stack_top :: "thread option \<Rightarrow> u32" where
  "thread_kernel_stack_top thread = (case thread of None \<Rightarrow> 0
     | Some t \<Rightarrow> if t_stack_base t = 0 then 0 else t_stack_base t + t_stack_size t)"

section \<open>Queues of kernel/thread.c\<close>

text \<open>A queue is its head and tail pointer; the two functions take and return both.\<close>

record tqueue =
  q_head :: u32
  q_tail :: u32

definition queue_push :: "u32 \<Rightarrow> tqueue \<times> threads \<Rightarrow> (tqueue \<times> threads) res" where
  "queue_push thread = (\<lambda>(q, st).
     bindE (validate_thread thread st) (\<lambda>_.
     bindE (upd_thread thread (\<lambda>t. t\<lparr>t_next := 0, t_prev := q_tail q\<rparr>) st) (\<lambda>st1.
     if q_tail q \<noteq> 0
     then bindE (upd_thread (q_tail q) (\<lambda>t. t\<lparr>t_next := thread\<rparr>) st1) (\<lambda>st2.
          Inr (q\<lparr>q_tail := thread\<rparr>, st2))
     else Inr (q\<lparr>q_head := thread, q_tail := thread\<rparr>, st1))))"

definition queue_pop :: "tqueue \<times> threads \<Rightarrow> (u32 \<times> tqueue \<times> threads) res" where
  "queue_pop = (\<lambda>(q, st).
     let thread = q_head q in
     if thread = 0 then Inr (0, q, st)
     else bindE (get_thread thread st) (\<lambda>t.
       let q1 = q\<lparr>q_head := t_next t\<rparr> in
       bindE (if q_head q1 \<noteq> 0
              then bindE (upd_thread (q_head q1) (\<lambda>n. n\<lparr>t_prev := 0\<rparr>) st) (\<lambda>st1. Inr (q1, st1))
              else Inr (q1\<lparr>q_tail := 0\<rparr>, st)) (\<lambda>(q2, st1).
       bindE (upd_thread thread (\<lambda>t. t\<lparr>t_next := 0, t_prev := 0\<rparr>) st1) (\<lambda>st2.
       Inr (thread, q2, st2)))))"

section \<open>Wait queues of kernel/wait_queue.c\<close>

record wait_queue =
  wq_name :: string
  wq_head :: u32
  wq_tail :: u32

definition wait_queue_push_locked :: "u32 \<Rightarrow> wait_queue \<times> threads \<Rightarrow> (wait_queue \<times> threads) res" where
  "wait_queue_push_locked thread = (\<lambda>(queue, st).
     if thread = 0 then Inl (Panic ''wait_queue_push_locked received null pointer'')
     else bindE (upd_thread thread (\<lambda>t. t\<lparr>t_next := 0, t_prev := wq_tail queue\<rparr>) st) (\<lambda>st1.
       if wq_tail queue \<noteq> 0
       then bindE (upd_thread (wq_tail queue) (\<lambda>t. t\<lparr>t_next := thread\<rparr>) st1) (\<lambda>st2.
            Inr (queue\<lparr>wq_tail := thread\<rparr>, st2))
       else Inr (queue\<lparr>wq_head := thread, wq_tail := thread\<rparr>, st1)))"

definition wait_queue_pop_locked :: "wait_queue \<times> threads \<Rightarrow> (u32 \<times> wait_queue \<times> threads) res" where
  "wait_queue_pop_locked = (\<lambda>(queue, st).
     let thread = wq_head queue in
     if thread = 0 then Inr (0, queue, st)
     else bindE (get_thread thread st) (\<lambda>t.
       let q1 = queue\<lparr>wq_head := t_next t\<rparr> in
       bindE (if wq_head q1 \<noteq> 0
              then bindE (upd_thread (wq_head q1) (\<lambda>n. n\<lparr>t_prev := 0\<rparr>) st) (\<lambda>st1. Inr (q1, st1))
              else Inr (q1\<lparr>wq_tail := 0\<rparr>, st)) (\<lambda>(q2, st1).
       bindE (upd_thread thread (\<lambda>t. t\<lparr>t_next := 0, t_prev := 0\<rparr>) st1) (\<lambda>st2.
       Inr (thread, q2, st2)))))"

partial_function (option) wait_count_loop :: "u32 \<Rightarrow> u32 \<Rightarrow> threads \<Rightarrow> u32 res option" where
  "wait_count_loop t count st =
     (if t = 0 then Some (Inr count)
      else case get_thread t st of
        Inl e \<Rightarrow> Some (Inl e)
      | Inr r \<Rightarrow> wait_count_loop (t_next r) (count + 1) st)"

definition wait_queue_count_locked :: "wait_queue \<Rightarrow> threads \<Rightarrow> u32 res option" where
  "wait_queue_count_locked queue st = wait_count_loop (wq_head queue) 0 st"

definition wait_queue_count :: "wait_queue option \<Rightarrow> threads \<Rightarrow> u32 res option" where
  "wait_queue_count queue st = (case queue of None \<Rightarrow> Some (Inr 0) | Some q \<Rightarrow> wait_queue_count_locked q st)"

definition wait_queue_init :: "string option \<Rightarrow> wait_queue \<Rightarrow> wait_queue" where
  "wait_queue_init name queue =
     \<lparr>wq_name = (case name of Some n \<Rightarrow> n | None \<Rightarrow> ''unnamed''), wq_head = 0, wq_tail = 0\<rparr>"

section \<open>Linked segments\<close>

text \<open>\<open>tseg st p xs q\<close>: the threads \<open>xs\<close> are linked in this order, with \<open>p\<close> before the first and
  \<open>q\<close> behind the last.\<close>

definition hd0 :: "u32 list \<Rightarrow> u32 \<Rightarrow> u32" where
  "hd0 xs q = (case xs of [] \<Rightarrow> q | x # _ \<Rightarrow> x)"

definition last0 :: "u32 \<Rightarrow> u32 list \<Rightarrow> u32" where
  "last0 p xs = (if xs = [] then p else last xs)"

primrec tseg :: "threads \<Rightarrow> u32 \<Rightarrow> u32 list \<Rightarrow> u32 \<Rightarrow> bool" where
  "tseg st p [] q \<longleftrightarrow> True"
| "tseg st p (a # as) q \<longleftrightarrow> a \<noteq> 0 \<and> (\<exists>t. st a = Some t \<and> t_prev t = p \<and> t_next t = hd0 as q)
     \<and> tseg st a as q"

definition queue_of :: "threads \<Rightarrow> u32 \<Rightarrow> u32 \<Rightarrow> u32 list \<Rightarrow> bool" where
  "queue_of st h t xs \<longleftrightarrow> tseg st 0 xs 0 \<and> distinct xs \<and> h = hd0 xs 0 \<and> t = last0 0 xs"

lemma hd0_simps [simp]: "hd0 [] q = q" "hd0 (x # xs) q = x" "hd0 (xs @ ys) q = hd0 xs (hd0 ys q)"
  by (simp_all add: hd0_def split: list.splits)

lemma last0_simps [simp]: "last0 p [] = p" "last0 p (x # xs) = last0 x xs"
  "last0 p (xs @ ys) = last0 (last0 p xs) ys"
  by (simp_all add: last0_def)

lemma tseg_append: "tseg st p (xs @ ys) q \<longleftrightarrow> tseg st p xs (hd0 ys q) \<and> tseg st (last0 p xs) ys q"
  by (induction xs arbitrary: p) auto

lemma tseg_nonzero: "tseg st p xs q \<Longrightarrow> 0 \<notin> set xs"
  by (induction xs arbitrary: p) auto

lemma tseg_in_store: "tseg st p xs q \<Longrightarrow> a \<in> set xs \<Longrightarrow> \<exists>t. st a = Some t"
  by (induction xs arbitrary: p) auto

lemma tseg_cong:
  assumes "tseg st p xs q"
    and "\<And>a. a \<in> set xs \<Longrightarrow> \<exists>t t'. st a = Some t \<and> st' a = Some t' \<and> t_next t' = t_next t \<and> t_prev t' = t_prev t"
  shows "tseg st' p xs q"
  using assms
proof (induction xs arbitrary: p)
  case (Cons a as)
  have "tseg st' a as q" by (rule Cons.IH) (use Cons.prems in auto)
  moreover obtain t t' where "st a = Some t" "st' a = Some t'" "t_next t' = t_next t" "t_prev t' = t_prev t"
    using Cons.prems(2) [of a] by auto
  ultimately show ?case using Cons.prems(1) by auto
qed simp

lemma tseg_upd_outside: "tseg st p xs q \<Longrightarrow> a \<notin> set xs \<Longrightarrow> tseg (st(a := v)) p xs q"
  by (rule tseg_cong, assumption) (auto dest: tseg_in_store)

lemma hd0_eq_0: "tseg st p xs q \<Longrightarrow> hd0 xs 0 = 0 \<longleftrightarrow> xs = []"
  by (cases xs) auto

lemma last0_eq_0: "tseg st 0 xs q \<Longrightarrow> last0 0 xs = 0 \<longleftrightarrow> xs = []"
  using tseg_nonzero [of st 0 xs q] by (auto simp: last0_def dest: last_in_set)

lemma tseg_set_last_next:
  assumes "tseg st p (xs @ [a]) q" and "distinct (xs @ [a])" and "st a = Some t"
  shows "tseg (st(a \<mapsto> t\<lparr>t_next := q'\<rparr>)) p (xs @ [a]) q'"
proof -
  have "tseg (st(a \<mapsto> t\<lparr>t_next := q'\<rparr>)) p xs a"
    using assms by (intro tseg_upd_outside) (auto simp: tseg_append)
  with assms show ?thesis by (auto simp: tseg_append)
qed

lemma tseg_set_first_prev:
  assumes "tseg st p (a # xs) q" and "distinct (a # xs)" and "st a = Some t"
  shows "tseg (st(a \<mapsto> t\<lparr>t_prev := p'\<rparr>)) p' (a # xs) q"
proof -
  have "tseg (st(a \<mapsto> t\<lparr>t_prev := p'\<rparr>)) a xs q"
    using assms by (intro tseg_upd_outside) auto
  with assms show ?thesis by auto
qed

section \<open>First in, first out\<close>

text \<open>A step that changes at most the links of the threads in \<open>A\<close>.\<close>

definition relinked :: "u32 set \<Rightarrow> threads \<Rightarrow> threads \<Rightarrow> bool" where
  "relinked A st st' \<longleftrightarrow> (\<forall>x. x \<notin> A \<longrightarrow> st' x = st x)
     \<and> (\<forall>x. st x = None \<longrightarrow> st' x = None)
     \<and> (\<forall>x t. st x = Some t \<longrightarrow> (\<exists>n p. st' x = Some (t\<lparr>t_next := n, t_prev := p\<rparr>)))"

lemma relinked_refl [simp]: "relinked A st st"
  by (auto simp: relinked_def) (metis thread.surjective thread.update_convs(12,13))

lemma relinked_trans: "relinked A st st' \<Longrightarrow> relinked B st' st'' \<Longrightarrow> relinked (A \<union> B) st st''"
  by (fastforce simp: relinked_def)

lemma relinked_mono: "relinked A st st' \<Longrightarrow> A \<subseteq> B \<Longrightarrow> relinked B st st'"
  by (auto simp: relinked_def)

lemma relinked_outside: "relinked A st st' \<Longrightarrow> x \<notin> A \<Longrightarrow> st' x = st x"
  by (simp add: relinked_def)

lemma relinked_fields:
  assumes "relinked A st st'" and "st x = Some t"
  obtains n p where "st' x = Some (t\<lparr>t_next := n, t_prev := p\<rparr>)"
  using assms unfolding relinked_def by blast

lemma relinked_None: "relinked A st st' \<Longrightarrow> st' x = None \<longleftrightarrow> st x = None"
  unfolding relinked_def by (metis option.exhaust option.distinct(1))

lemma relinked_upd:
  assumes "st a = Some t" and "a \<in> A"
  shows "relinked A st (st(a \<mapsto> t\<lparr>t_next := n, t_prev := p\<rparr>))"
    and "relinked A st (st(a \<mapsto> t\<lparr>t_next := n\<rparr>))" and "relinked A st (st(a \<mapsto> t\<lparr>t_prev := p\<rparr>))"
proof -
  have *: "\<exists>n p. t = t\<lparr>t_next := n, t_prev := p\<rparr>" for t :: thread
    by (metis thread.surjective thread.update_convs(12,13))
  have n: "\<exists>n' p'. t\<lparr>t_next := n\<rparr> = t\<lparr>t_next := n', t_prev := p'\<rparr>"
    by (intro exI [of _ n] exI [of _ "t_prev t"]) simp
  have p: "\<exists>n' p'. t\<lparr>t_prev := p\<rparr> = t\<lparr>t_next := n', t_prev := p'\<rparr>"
    by (intro exI [of _ "t_next t"] exI [of _ p]) simp
  show "relinked A st (st(a \<mapsto> t\<lparr>t_next := n, t_prev := p\<rparr>))"
    "relinked A st (st(a \<mapsto> t\<lparr>t_next := n\<rparr>))" "relinked A st (st(a \<mapsto> t\<lparr>t_prev := p\<rparr>))"
    using assms * n p by (auto simp: relinked_def)
qed

lemma queue_of_relinked:
  assumes "queue_of st h t xs" and "relinked A st st'" and "A \<inter> set xs = {}"
  shows "queue_of st' h t xs"
proof -
  have "tseg st' 0 xs 0"
  proof (rule tseg_cong)
    show "tseg st 0 xs 0" using assms(1) by (simp add: queue_of_def)
    fix a assume a: "a \<in> set xs"
    then have "st' a = st a" using assms(2,3) by (auto intro: relinked_outside)
    with tseg_in_store [OF \<open>tseg st 0 xs 0\<close> a]
    show "\<exists>t t'. st a = Some t \<and> st' a = Some t' \<and> t_next t' = t_next t \<and> t_prev t' = t_prev t" by auto
  qed
  with assms(1) show ?thesis by (simp add: queue_of_def)
qed

text \<open>
  The contract of a queue: \<open>push\<close> appends, \<open>pop\<close> takes the first, and both change nothing but the
  links of the threads on the queue.
\<close>

locale thread_fifo =
  fixes head tail :: "'q \<Rightarrow> u32"
    and push :: "u32 \<Rightarrow> 'q \<times> threads \<Rightarrow> ('q \<times> threads) res"
    and pop :: "'q \<times> threads \<Rightarrow> (u32 \<times> 'q \<times> threads) res"
  assumes push_law: "queue_of st (head q) (tail q) xs \<Longrightarrow> a \<noteq> 0 \<Longrightarrow> a \<notin> set xs \<Longrightarrow> st a = Some t \<Longrightarrow>
      t_magic t = THREAD_MAGIC \<Longrightarrow>
      \<exists>q' st'. push a (q, st) = Inr (q', st') \<and> queue_of st' (head q') (tail q') (xs @ [a])
        \<and> relinked (insert a (set xs)) st st'"
    and pop_empty: "queue_of st (head q) (tail q) [] \<Longrightarrow> pop (q, st) = Inr (0, q, st)"
    and pop_law: "queue_of st (head q) (tail q) (a # xs) \<Longrightarrow>
      \<exists>q' st'. pop (q, st) = Inr (a, q', st') \<and> queue_of st' (head q') (tail q') xs
        \<and> relinked (set (a # xs)) st st'"
begin

lemma push_all:
  assumes "queue_of st (head q) (tail q) xs" and "distinct (xs @ as)" and "0 \<notin> set as"
    and "\<And>a. a \<in> set as \<Longrightarrow> \<exists>t. st a = Some t \<and> t_magic t = THREAD_MAGIC"
  shows "\<exists>q' st'. foldE push as (q, st) = Inr (q', st') \<and> queue_of st' (head q') (tail q') (xs @ as)
    \<and> relinked (set xs \<union> set as) st st'"
  using assms
proof (induction as arbitrary: q st xs)
  case (Cons a as)
  from Cons.prems(4) [of a] obtain t where "st a = Some t" "t_magic t = THREAD_MAGIC" by auto
  with push_law [OF Cons.prems(1), of a t] Cons.prems obtain q1 st1 where
    1: "push a (q, st) = Inr (q1, st1)" "queue_of st1 (head q1) (tail q1) (xs @ [a])"
    "relinked (insert a (set xs)) st st1" by auto
  have "\<exists>t. st1 b = Some t \<and> t_magic t = THREAD_MAGIC" if "b \<in> set as" for b
    using Cons.prems(4) [of b] that 1(3) by (auto elim: relinked_fields)
  with Cons.IH [OF 1(2)] Cons.prems(2,3) obtain q2 st2 where
    2: "foldE push as (q1, st1) = Inr (q2, st2)" "queue_of st2 (head q2) (tail q2) ((xs @ [a]) @ as)"
    "relinked (set (xs @ [a]) \<union> set as) st1 st2" by auto
  have "relinked (insert a (set xs) \<union> (set (xs @ [a]) \<union> set as)) st st2"
    by (rule relinked_trans [OF 1(3) 2(3)])
  then have "relinked (set xs \<union> set (a # as)) st st2" by (rule relinked_mono) auto
  with 1 2 show ?case by auto
qed simp

text \<open>Popping \<open>n\<close> times returns the first \<open>n\<close> threads in order.\<close>

primrec pop_many :: "nat \<Rightarrow> 'q \<times> threads \<Rightarrow> (u32 list \<times> 'q \<times> threads) res" where
  "pop_many 0 s = Inr ([], s)"
| "pop_many (Suc n) s = bindE (pop s) (\<lambda>(a, s1). bindE (pop_many n s1) (\<lambda>(as, s2). Inr (a # as, s2)))"

lemma pop_many_order:
  assumes "queue_of st (head q) (tail q) (as @ xs)"
  shows "\<exists>q' st'. pop_many (length as) (q, st) = Inr (as, q', st') \<and> queue_of st' (head q') (tail q') xs
    \<and> relinked (set (as @ xs)) st st'"
  using assms
proof (induction as arbitrary: q st)
  case (Cons a as)
  then obtain q1 st1 where 1: "pop (q, st) = Inr (a, q1, st1)" "queue_of st1 (head q1) (tail q1) (as @ xs)"
    "relinked (set (a # as @ xs)) st st1"
    using pop_law [of st q a "as @ xs"] by auto
  then obtain q2 st2 where 2: "pop_many (length as) (q1, st1) = Inr (as, q2, st2)"
    "queue_of st2 (head q2) (tail q2) xs" "relinked (set (as @ xs)) st1 st2" using Cons.IH by blast
  have "relinked (set (a # as @ xs) \<union> set (as @ xs)) st st2" by (rule relinked_trans [OF 1(3) 2(3)])
  then have "relinked (set ((a # as) @ xs)) st st2" by (rule relinked_mono) auto
  with 1(1) 2(1,2) show ?case by auto
qed simp

end

lemma queue_of_append:
  assumes q: "queue_of st h e xs" and a: "a \<noteq> 0" "a \<notin> set xs" "st a = Some t"
  defines "st1 \<equiv> st(a \<mapsto> t\<lparr>t_next := 0, t_prev := e\<rparr>)"
  shows "xs = [] \<Longrightarrow> queue_of st1 a a [a]"
    and "xs \<noteq> [] \<Longrightarrow> \<exists>u. st1 e = Some u \<and> queue_of (st1(e \<mapsto> u\<lparr>t_next := a\<rparr>)) h a (xs @ [a])
       \<and> relinked (insert a (set xs)) st (st1(e \<mapsto> u\<lparr>t_next := a\<rparr>))"
    and "relinked (insert a (set xs)) st st1"
proof -
  show "xs = [] \<Longrightarrow> queue_of st1 a a [a]" using q a by (simp add: queue_of_def st1_def)
  show r1: "relinked (insert a (set xs)) st st1"
    unfolding st1_def using a(3) by (intro relinked_upd) auto
  assume "xs \<noteq> []"
  then obtain ys b where xs: "xs = ys @ [b]" by (metis rev_exhaust)
  have e: "e = b" using q xs by (simp add: queue_of_def)
  have seg: "tseg st1 0 (ys @ [b]) 0" and d: "distinct (ys @ [b])"
    using q a xs by (auto simp: queue_of_def st1_def intro: tseg_upd_outside)
  then obtain u where u: "st1 b = Some u" by (auto simp: tseg_append)
  have "tseg (st1(b \<mapsto> u\<lparr>t_next := a\<rparr>)) 0 (ys @ [b]) a" by (rule tseg_set_last_next [OF seg d u])
  then have "queue_of (st1(e \<mapsto> u\<lparr>t_next := a\<rparr>)) h a (xs @ [a])"
    using q a xs e d by (auto simp: queue_of_def tseg_append st1_def)
  moreover have "relinked (insert a (set xs) \<union> insert a (set xs)) st (st1(e \<mapsto> u\<lparr>t_next := a\<rparr>))"
    by (rule relinked_trans [OF r1]) (use u xs e in \<open>auto intro: relinked_upd\<close>)
  ultimately show "\<exists>u. st1 e = Some u \<and> queue_of (st1(e \<mapsto> u\<lparr>t_next := a\<rparr>)) h a (xs @ [a])
       \<and> relinked (insert a (set xs)) st (st1(e \<mapsto> u\<lparr>t_next := a\<rparr>))"
    using u e by auto
qed

lemma queue_of_remove_first:
  assumes q: "queue_of st h e (a # xs)"
  obtains t where "st a = Some t" and "t_next t = hd0 xs 0" and "h = a" and "a \<noteq> 0"
    and "xs = [] \<Longrightarrow> relinked {a} st (st(a \<mapsto> t\<lparr>t_next := 0, t_prev := 0\<rparr>))"
    and "xs \<noteq> [] \<Longrightarrow> \<exists>u. hd0 xs 0 \<noteq> 0 \<and> hd0 xs 0 \<noteq> a \<and> st (hd0 xs 0) = Some u
       \<and> queue_of (st(hd0 xs 0 \<mapsto> u\<lparr>t_prev := 0\<rparr>, a \<mapsto> t\<lparr>t_next := 0, t_prev := 0\<rparr>)) (hd0 xs 0) e xs
       \<and> relinked (set (a # xs)) st (st(hd0 xs 0 \<mapsto> u\<lparr>t_prev := 0\<rparr>, a \<mapsto> t\<lparr>t_next := 0, t_prev := 0\<rparr>))"
proof -
  from q obtain t where t: "st a = Some t" "t_next t = hd0 xs 0" "h = a" "a \<noteq> 0" "a \<notin> set xs" "distinct xs"
    and seg: "tseg st a xs 0" and e: "e = last0 a xs" by (auto simp: queue_of_def)
  have "\<exists>u. hd0 xs 0 \<noteq> 0 \<and> hd0 xs 0 \<noteq> a \<and> st (hd0 xs 0) = Some u
       \<and> queue_of (st(hd0 xs 0 \<mapsto> u\<lparr>t_prev := 0\<rparr>, a \<mapsto> t\<lparr>t_next := 0, t_prev := 0\<rparr>)) (hd0 xs 0) e xs
       \<and> relinked (set (a # xs)) st (st(hd0 xs 0 \<mapsto> u\<lparr>t_prev := 0\<rparr>, a \<mapsto> t\<lparr>t_next := 0, t_prev := 0\<rparr>))"
    if "xs \<noteq> []"
  proof -
    from that obtain b ys where xs: "xs = b # ys" by (cases xs) auto
    with seg obtain u where u: "st b = Some u" "b \<noteq> 0" by auto
    have ab: "b \<noteq> a" using t xs by auto
    have "tseg (st(b \<mapsto> u\<lparr>t_prev := 0\<rparr>)) 0 xs 0"
      using tseg_set_first_prev [of st a b ys 0 u 0] seg t u xs by simp
    then have "tseg (st(b \<mapsto> u\<lparr>t_prev := 0\<rparr>, a \<mapsto> t\<lparr>t_next := 0, t_prev := 0\<rparr>)) 0 xs 0"
      by (rule tseg_upd_outside) (use t in simp)
    moreover have "relinked (set (a # xs) \<union> set (a # xs)) st (st(b \<mapsto> u\<lparr>t_prev := 0\<rparr>, a \<mapsto> t\<lparr>t_next := 0, t_prev := 0\<rparr>))"
      by (rule relinked_trans [of _ _ "st(b \<mapsto> u\<lparr>t_prev := 0\<rparr>)"]) (use t u xs ab in \<open>auto intro: relinked_upd\<close>)
    ultimately show ?thesis using u t e xs ab by (auto simp: queue_of_def)
  qed
  with that t show thesis by (auto intro: relinked_upd)
qed

lemma queue_push_law:
  assumes q: "queue_of st (q_head q) (q_tail q) xs" and a: "a \<noteq> 0" "a \<notin> set xs" "st a = Some t"
    and m: "t_magic t = THREAD_MAGIC"
  shows "\<exists>q' st'. queue_push a (q, st) = Inr (q', st') \<and> queue_of st' (q_head q') (q_tail q') (xs @ [a])
    \<and> relinked (insert a (set xs)) st st'"
proof (cases "xs = []")
  case True
  with q a m queue_of_append [OF q a] show ?thesis
    by (simp add: queue_push_def validate_thread_def get_thread_def upd_thread_def queue_of_def)
next
  case False
  then have "q_tail q \<noteq> 0" using q last0_eq_0 [of st xs 0] by (auto simp: queue_of_def)
  with False a m queue_of_append(2) [OF q a False] show ?thesis
    by (auto simp: queue_push_def validate_thread_def get_thread_def upd_thread_def)
qed

lemma wait_queue_push_law:
  assumes q: "queue_of st (wq_head q) (wq_tail q) xs" and a: "a \<noteq> 0" "a \<notin> set xs" "st a = Some t"
  shows "\<exists>q' st'. wait_queue_push_locked a (q, st) = Inr (q', st')
    \<and> queue_of st' (wq_head q') (wq_tail q') (xs @ [a]) \<and> relinked (insert a (set xs)) st st'"
proof (cases "xs = []")
  case True
  with q a queue_of_append [OF q a] show ?thesis
    by (simp add: wait_queue_push_locked_def upd_thread_def queue_of_def)
next
  case False
  then have "wq_tail q \<noteq> 0" using q last0_eq_0 [of st xs 0] by (auto simp: queue_of_def)
  with False a queue_of_append(2) [OF q a False] show ?thesis
    by (auto simp: wait_queue_push_locked_def upd_thread_def)
qed

lemma queue_pop_law:
  assumes q: "queue_of st (q_head q) (q_tail q) (a # xs)"
  shows "\<exists>q' st'. queue_pop (q, st) = Inr (a, q', st') \<and> queue_of st' (q_head q') (q_tail q') xs
    \<and> relinked (set (a # xs)) st st'"
  by (rule queue_of_remove_first [OF q], cases "xs = []")
     (auto simp: queue_pop_def get_thread_def upd_thread_def Let_def queue_of_def elim: relinked_mono)

lemma wait_queue_pop_law:
  assumes q: "queue_of st (wq_head q) (wq_tail q) (a # xs)"
  shows "\<exists>q' st'. wait_queue_pop_locked (q, st) = Inr (a, q', st') \<and> queue_of st' (wq_head q') (wq_tail q') xs
    \<and> relinked (set (a # xs)) st st'"
  by (rule queue_of_remove_first [OF q], cases "xs = []")
     (auto simp: wait_queue_pop_locked_def get_thread_def upd_thread_def Let_def queue_of_def elim: relinked_mono)

interpretation tq: thread_fifo q_head q_tail queue_push queue_pop
proof
  show "queue_of st (q_head q) (q_tail q) [] \<Longrightarrow> queue_pop (q, st) = Inr (0, q, st)" for st q
    by (simp add: queue_pop_def queue_of_def)
qed (use queue_push_law queue_pop_law in blast)+

interpretation wq: thread_fifo wq_head wq_tail wait_queue_push_locked wait_queue_pop_locked
proof
  show "queue_of st (wq_head q) (wq_tail q) [] \<Longrightarrow> wait_queue_pop_locked (q, st) = Inr (0, q, st)" for st q
    by (simp add: wait_queue_pop_locked_def queue_of_def)
qed (use wait_queue_push_law wait_queue_pop_law in blast)+

lemma wait_queue_init_empty: "queue_of st (wq_head (wait_queue_init n q)) (wq_tail (wait_queue_init n q)) []"
  by (simp add: wait_queue_init_def queue_of_def)

lemma count_loop_queue:
  assumes "tseg st p xs 0" and "\<And>a t. a \<in> set xs \<Longrightarrow> st a = Some t \<Longrightarrow> t_magic t = THREAD_MAGIC"
  shows "count_loop (hd0 xs 0) c st = Some (Inr (c + word_of_nat (length xs)))"
  using assms
proof (induction xs arbitrary: p c)
  case Nil
  then show ?case by (subst count_loop.simps) simp
next
  case (Cons a as)
  then obtain t where t: "st a = Some t" "t_next t = hd0 as 0" "a \<noteq> 0" by auto
  moreover have "t_magic t = THREAD_MAGIC" using Cons.prems(2) t by auto
  ultimately have "count_loop a c st = count_loop (hd0 as 0) (c + 1) st"
    by (subst count_loop.simps) (simp add: validate_thread_def get_thread_def)
  also have "\<dots> = Some (Inr (c + 1 + word_of_nat (length as)))"
    by (rule Cons.IH) (use Cons.prems in auto)
  finally show ?case by (simp add: algebra_simps)
qed

lemma wait_count_loop_queue:
  assumes "tseg st p xs 0"
  shows "wait_count_loop (hd0 xs 0) c st = Some (Inr (c + word_of_nat (length xs)))"
  using assms
proof (induction xs arbitrary: p c)
  case Nil
  then show ?case by (subst wait_count_loop.simps) simp
next
  case (Cons a as)
  then obtain t where t: "st a = Some t" "t_next t = hd0 as 0" "a \<noteq> 0" by auto
  then have "wait_count_loop a c st = wait_count_loop (hd0 as 0) (c + 1) st"
    by (subst wait_count_loop.simps) (simp add: get_thread_def)
  also have "\<dots> = Some (Inr (c + 1 + word_of_nat (length as)))"
    by (rule Cons.IH) (use Cons.prems in auto)
  finally show ?case by (simp add: algebra_simps)
qed

text \<open>
  C14. A wait queue is first in, first out: threads pushed one after the other on an initialised
  queue are popped in the same order and leave it empty, the count in between is their number, and
  neither pushing nor popping changes any field of any thread but the two links of those pushed.
\<close>

theorem wait_queue_fifo:
  assumes "distinct as" and "0 \<notin> set as" and "\<And>a. a \<in> set as \<Longrightarrow> \<exists>t. st a = Some t \<and> t_magic t = THREAD_MAGIC"
  shows "\<exists>q st1 q2 st2. foldE wait_queue_push_locked as (wait_queue_init name q0, st) = Inr (q, st1)
    \<and> wait_queue_count (Some q) st1 = Some (Inr (word_of_nat (length as))) \<and> relinked (set as) st st1
    \<and> thread_fifo.pop_many wait_queue_pop_locked (length as) (q, st1) = Inr (as, q2, st2)
    \<and> wq_head q2 = 0 \<and> wq_tail q2 = 0 \<and> relinked (set as) st1 st2"
proof -
  obtain q st1 where 1: "foldE wait_queue_push_locked as (wait_queue_init name q0, st) = Inr (q, st1)"
    "queue_of st1 (wq_head q) (wq_tail q) as" "relinked (set as) st st1"
    using wq.push_all [of st "wait_queue_init name q0" "[]" as] wait_queue_init_empty assms by auto
  then obtain q2 st2 where 2: "thread_fifo.pop_many wait_queue_pop_locked (length as) (q, st1) = Inr (as, q2, st2)"
    "queue_of st2 (wq_head q2) (wq_tail q2) []" "relinked (set as) st1 st2" using wq.pop_many_order [of st1 q as "[]"] by auto
  have "wait_queue_count (Some q) st1 = Some (Inr (word_of_nat (length as)))"
    using wait_count_loop_queue [of st1 0 as 0] 1(2)
    by (simp add: wait_queue_count_def wait_queue_count_locked_def queue_of_def)
  moreover have "wq_head q2 = 0" "wq_tail q2 = 0" using 2(2) by (simp_all add: queue_of_def)
  ultimately show ?thesis using 1(1,3) 2(1,3) by blast
qed

definition sample_thread :: thread where
  "sample_thread = \<lparr>t_magic = THREAD_MAGIC, t_id = 1, t_name = ''t'', t_state = THREAD_RUNNING, t_esp = 0,
     t_stack_base = 0, t_stack_size = 0, t_entry = 0, t_arg = 0, t_process = 0, t_wake_tick = 0,
     t_next = 0, t_prev = 0\<rparr>"

definition sample_queue :: wait_queue where
  "sample_queue = \<lparr>wq_name = ''q'', wq_head = 0, wq_tail = 0\<rparr>"

definition sample_store :: threads where
  "sample_store = [8 \<mapsto> sample_thread, 16 \<mapsto> sample_thread]"

theorem wait_queue_fifo_witness:
  "\<exists>q st1 q2 st2. foldE wait_queue_push_locked [8, 16] (wait_queue_init None sample_queue, sample_store) = Inr (q, st1)
    \<and> thread_fifo.pop_many wait_queue_pop_locked (length [8, 16 :: u32]) (q, st1) = Inr ([8, 16], q2, st2)
    \<and> map_option t_state (st2 16) = Some THREAD_RUNNING"
proof -
  have "\<exists>t. sample_store a = Some t \<and> t_magic t = THREAD_MAGIC" if "a \<in> set [8, 16]" for a :: u32
    using that by (auto simp: sample_thread_def sample_store_def)
  with wait_queue_fifo [of "[8, 16]" sample_store None sample_queue] obtain q st1 q2 st2 where
    *: "foldE wait_queue_push_locked [8, 16] (wait_queue_init None sample_queue, sample_store) = Inr (q, st1)"
    "thread_fifo.pop_many wait_queue_pop_locked (length [8, 16 :: u32]) (q, st1) = Inr ([8, 16], q2, st2)"
    "relinked (set [8, 16]) sample_store st1" "relinked (set [8, 16]) st1 st2" by fastforce
  have "sample_store 16 = Some sample_thread" by (simp add: sample_store_def)
  with *(3) obtain n p where "st1 16 = Some (sample_thread\<lparr>t_next := n, t_prev := p\<rparr>)" by (rule relinked_fields)
  with *(4) obtain n' p' where "st2 16 = Some (sample_thread\<lparr>t_next := n, t_prev := p\<rparr>\<lparr>t_next := n', t_prev := p'\<rparr>)"
    by (rule relinked_fields)
  then have "map_option t_state (st2 16) = Some THREAD_RUNNING" by (simp add: sample_thread_def)
  with *(1,2) show ?thesis by blast
qed

end
