(* ===== verification/Scheduler.thy ===== *)
theory Scheduler
  imports Thread_Queue
begin

text \<open>
  The scheduler of \<open>kernel/thread.c\<close>: the ready, sleep and zombie queues, the sleep queue ordered
  by wake-up tick, blocking and waking, the timer tick, and the choice of the next thread on a
  scheduling interrupt. An \<open>irq_save\<close>/\<open>irq_restore\<close> section is one step. The functions that end
  in \<open>thread_yield\<close> return whether they yield; the switch itself is \<open>schedule_pick\<close>. Creation and
  reaping of threads, which allocate, and the address-space switch are in the theory \<open>Kernel\<close>.

  The lemmas relate the linked queues to lists of threads and show that the sleep queue stays
  ordered, that exactly the due sleepers wake, and that scheduling is round robin.
\<close>

section \<open>State\<close>

record sched =
  threads :: threads
  bootstrap_thread :: u32
  idle_thread :: u32
  current_thread :: u32
  ready :: tqueue
  sleeping :: tqueue
  zombies :: tqueue
  next_thread_id :: u32
  zombie_created_count :: u32
  zombie_reaped_count :: u32
  scheduler_initialized :: bool
  preemption_enabled :: bool
  ticks_per_slice :: u32
  current_slice_ticks :: u32
  reschedule_requested :: bool
  scheduler_ticks :: u32
  tss_esp0 :: u32

definition set_thread :: "u32 \<Rightarrow> (thread \<Rightarrow> thread) \<Rightarrow> sched \<Rightarrow> sched res" where
  "set_thread a f s = bindE (upd_thread a f (threads s)) (\<lambda>st. Inr (s\<lparr>threads := st\<rparr>))"

section \<open>Queue operations\<close>

definition ready_push :: "u32 \<Rightarrow> sched \<Rightarrow> sched res" where
  "ready_push thread s =
     (if thread = idle_thread s then Inr s
      else bindE (set_thread thread (\<lambda>t. t\<lparr>t_state := THREAD_READY\<rparr>) s) (\<lambda>s1.
           bindE (queue_push thread (ready s1, threads s1)) (\<lambda>(q, st).
           Inr (s1\<lparr>ready := q, threads := st\<rparr>))))"

definition ready_pop :: "sched \<Rightarrow> (u32 \<times> sched) res" where
  "ready_pop s = bindE (queue_pop (ready s, threads s)) (\<lambda>(a, q, st). Inr (a, s\<lparr>ready := q, threads := st\<rparr>))"

definition zombie_push :: "u32 \<Rightarrow> sched \<Rightarrow> sched res" where
  "zombie_push thread s =
     (if thread = idle_thread s \<or> thread = bootstrap_thread s then Inr s
      else bindE (queue_push thread (zombies s, threads s)) (\<lambda>(q, st).
           Inr (s\<lparr>zombies := q, threads := st\<rparr>)))"

definition zombie_pop :: "sched \<Rightarrow> (u32 \<times> sched) res" where
  "zombie_pop s = bindE (queue_pop (zombies s, threads s)) (\<lambda>(a, q, st). Inr (a, s\<lparr>zombies := q, threads := st\<rparr>))"

definition sleep_pop_front :: "sched \<Rightarrow> (u32 \<times> sched) res" where
  "sleep_pop_front s = bindE (queue_pop (sleeping s, threads s)) (\<lambda>(a, q, st). Inr (a, s\<lparr>sleeping := q, threads := st\<rparr>))"

definition tick_reached :: "u32 \<Rightarrow> u32 \<Rightarrow> bool" where
  "tick_reached now target \<longleftrightarrow> sint (now - target) \<ge> 0"

partial_function (option) sleep_seek :: "u32 \<Rightarrow> u32 \<Rightarrow> threads \<Rightarrow> u32 res option" where
  "sleep_seek current wake st =
     (if current = 0 then Some (Inr 0)
      else case get_thread current st of
        Inl e \<Rightarrow> Some (Inl e)
      | Inr t \<Rightarrow> if \<not> tick_reached (t_wake_tick t) wake then sleep_seek (t_next t) wake st
                 else Some (Inr current))"

definition sleep_insert :: "u32 \<Rightarrow> sched \<Rightarrow> sched res option" where
  "sleep_insert thread s =
     bindO (Some (validate_thread thread (threads s))) (\<lambda>t.
     bindO (Some (set_thread thread (\<lambda>t. t\<lparr>t_state := THREAD_SLEEPING, t_next := 0, t_prev := 0\<rparr>) s)) (\<lambda>s1.
     let head = q_head (sleeping s1) in
     if head = 0 then Some (Inr (s1\<lparr>sleeping := \<lparr>q_head = thread, q_tail = thread\<rparr>\<rparr>))
     else bindO (sleep_seek head (t_wake_tick t) (threads s1)) (\<lambda>current.
       if current = head
       then Some (bindE (set_thread thread (\<lambda>t. t\<lparr>t_next := head\<rparr>) s1) (\<lambda>s2.
                  bindE (set_thread head (\<lambda>t. t\<lparr>t_prev := thread\<rparr>) s2) (\<lambda>s3.
                  Inr (s3\<lparr>sleeping := (sleeping s3)\<lparr>q_head := thread\<rparr>\<rparr>))))
       else if current = 0
       then Some (bindE (set_thread thread (\<lambda>t. t\<lparr>t_prev := q_tail (sleeping s1)\<rparr>) s1) (\<lambda>s2.
                  bindE (set_thread (q_tail (sleeping s1)) (\<lambda>t. t\<lparr>t_next := thread\<rparr>) s2) (\<lambda>s3.
                  Inr (s3\<lparr>sleeping := (sleeping s3)\<lparr>q_tail := thread\<rparr>\<rparr>))))
       else Some (bindE (get_thread current (threads s1)) (\<lambda>c.
                  let previous = t_prev c in
                  bindE (set_thread previous (\<lambda>t. t\<lparr>t_next := thread\<rparr>) s1) (\<lambda>s2.
                  bindE (set_thread thread (\<lambda>t. t\<lparr>t_prev := previous, t_next := current\<rparr>) s2) (\<lambda>s3.
                  set_thread current (\<lambda>t. t\<lparr>t_prev := thread\<rparr>) s3)))))))"

partial_function (option) wake_due_sleepers :: "sched \<Rightarrow> sched res option" where
  "wake_due_sleepers s =
     (if q_head (sleeping s) = 0 then Some (Inr s)
      else case get_thread (q_head (sleeping s)) (threads s) of
        Inl e \<Rightarrow> Some (Inl e)
      | Inr h \<Rightarrow>
          if \<not> tick_reached (scheduler_ticks s) (t_wake_tick h) then Some (Inr s)
          else case bindE (sleep_pop_front s) (\<lambda>(thread, s1).
                    bindE (validate_thread thread (threads s1)) (\<lambda>_.
                    ready_push thread s1)) of
            Inl e \<Rightarrow> Some (Inl e)
          | Inr s2 \<Rightarrow> wake_due_sleepers (s2\<lparr>reschedule_requested := True\<rparr>))"

definition thread_ready_count :: "sched \<Rightarrow> u32 res option" where
  "thread_ready_count s = count_list (q_head (ready s)) (threads s)"

definition thread_sleeping_count :: "sched \<Rightarrow> u32 res option" where
  "thread_sleeping_count s = count_list (q_head (sleeping s)) (threads s)"

definition thread_zombie_count :: "sched \<Rightarrow> u32 res option" where
  "thread_zombie_count s = count_list (q_head (zombies s)) (threads s)"

definition thread_ticks :: "sched \<Rightarrow> u32" where
  "thread_ticks s = scheduler_ticks s"

section \<open>Thread operations\<close>

definition thread_start :: "u32 \<Rightarrow> sched \<Rightarrow> sched res" where
  "thread_start thread s =
     (if thread = 0 then Inl (Panic ''thread_start received null thread'')
      else bindE (validate_thread thread (threads s)) (\<lambda>t.
        if t_state t \<noteq> THREAD_NEW then Inl (Panic ''thread_start called on non-new thread'')
        else ready_push thread s))"

definition thread_current :: "sched \<Rightarrow> u32" where
  "thread_current s = current_thread s"

definition thread_set_process :: "u32 \<Rightarrow> u32 \<Rightarrow> sched \<Rightarrow> sched res" where
  "thread_set_process thread process s =
     bindE (validate_thread thread (threads s)) (\<lambda>_. set_thread thread (\<lambda>t. t\<lparr>t_process := process\<rparr>) s)"

definition thread_get_process :: "u32 \<Rightarrow> sched \<Rightarrow> u32 res" where
  "thread_get_process thread s = bindE (validate_thread thread (threads s)) (\<lambda>t. Inr (t_process t))"

definition thread_block_current :: "sched \<Rightarrow> sched res" where
  "thread_block_current s =
     (let self = current_thread s in
      bindE (validate_thread self (threads s)) (\<lambda>t.
      if self = idle_thread s then Inl (Panic ''idle thread attempted to block'')
      else if t_state t \<noteq> THREAD_RUNNING
      then Inl (Panic ''thread_block_current called on non-running thread'')
      else bindE (set_thread self (\<lambda>t. t\<lparr>t_state := THREAD_BLOCKED\<rparr>) s) (\<lambda>s1.
           Inr (s1\<lparr>reschedule_requested := True\<rparr>))))"

definition thread_wake :: "u32 \<Rightarrow> sched \<Rightarrow> sched res" where
  "thread_wake thread s =
     (if thread = 0 then Inr s
      else bindE (validate_thread thread (threads s)) (\<lambda>t.
        if t_state t = THREAD_BLOCKED
        then bindE (ready_push thread s) (\<lambda>s1. Inr (s1\<lparr>reschedule_requested := True\<rparr>))
        else Inr s))"

definition thread_sleep_ticks :: "u32 \<Rightarrow> bool \<Rightarrow> sched \<Rightarrow> (bool \<times> sched) res option" where
  "thread_sleep_ticks ticks interrupts_enabled s =
     (if ticks = 0 then Some (Inr (True, s))
      else if \<not> interrupts_enabled
      then Some (Inl (Panic ''thread_sleep_ticks called with interrupts disabled''))
      else
        (let self = current_thread s in
         bindO (Some (validate_thread self (threads s))) (\<lambda>_.
         if self = idle_thread s then Some (Inr (False, s))
         else bindO (Some (set_thread self (\<lambda>t. t\<lparr>t_wake_tick := scheduler_ticks s + ticks\<rparr>) s)) (\<lambda>s1.
              bindO (sleep_insert self s1) (\<lambda>s2.
              Some (Inr (True, s2\<lparr>reschedule_requested := True\<rparr>)))))))"

definition thread_exit :: "sched \<Rightarrow> sched res" where
  "thread_exit s =
     (let old_thread = current_thread s in
      bindE (validate_thread old_thread (threads s)) (\<lambda>_.
      bindE (set_thread old_thread (\<lambda>t. t\<lparr>t_state := THREAD_ZOMBIE\<rparr>) s) (\<lambda>s1.
      bindE (zombie_push old_thread s1) (\<lambda>s2.
      Inr (s2\<lparr>zombie_created_count := zombie_created_count s2 + 1, reschedule_requested := True\<rparr>)))))"

text \<open>
  The choice and bookkeeping of \<open>thread_schedule_from_interrupt\<close>, all of it but the call of
  \<open>address_space_switch\<close>. The result 0 means that the interrupted thread goes on.
\<close>

definition switch_to :: "u32 \<Rightarrow> sched \<Rightarrow> (u32 \<times> sched) res" where
  "switch_to nxt s2 =
     (let next_thread = (if nxt = 0 then idle_thread s2 else nxt) in
      bindE (validate_thread next_thread (threads s2)) (\<lambda>n.
      bindE (set_thread next_thread (\<lambda>t. t\<lparr>t_state := THREAD_RUNNING\<rparr>) s2) (\<lambda>s3.
      let s4 = s3\<lparr>current_thread := next_thread\<rparr>;
          next_stack_top = thread_kernel_stack_top (threads s4 next_thread);
          s5 = (if next_stack_top \<noteq> 0 then s4\<lparr>tss_esp0 := next_stack_top\<rparr> else s4)
      in Inr (t_esp n, s5\<lparr>current_slice_ticks := 0, reschedule_requested := False\<rparr>))))"

definition schedule_pick :: "u32 \<Rightarrow> sched \<Rightarrow> (u32 \<times> sched) res" where
  "schedule_pick frame s =
     (if frame = 0 then Inl (Panic ''scheduler received null interrupt frame'')
      else if \<not> scheduler_initialized s then Inr (0, s)
      else
        (let old_thread = current_thread s in
         bindE (validate_thread old_thread (threads s)) (\<lambda>old.
         bindE (set_thread old_thread (\<lambda>t. t\<lparr>t_esp := frame\<rparr>) s) (\<lambda>s1.
         if q_head (ready s1) = 0 \<and> (old_thread = idle_thread s1 \<or> t_state old = THREAD_RUNNING)
         then Inr (0, s1\<lparr>current_slice_ticks := 0, reschedule_requested := False\<rparr>)
         else
           bindE (if q_head (ready s1) = 0 then Inr (idle_thread s1, s1)
                  else bindE (if old_thread \<noteq> idle_thread s1 \<and> t_state old = THREAD_RUNNING
                              then ready_push old_thread s1 else Inr s1) ready_pop) (\<lambda>(nxt, s2).
           switch_to nxt s2)))))"

definition thread_on_timer_tick :: "sched \<Rightarrow> sched res option" where
  "thread_on_timer_tick s =
     (if \<not> scheduler_initialized s then Some (Inr s)
      else bindO (wake_due_sleepers (s\<lparr>scheduler_ticks := scheduler_ticks s + 1\<rparr>)) (\<lambda>s1.
        if \<not> preemption_enabled s1 then Some (Inr s1)
        else if q_head (ready s1) = 0 then Some (Inr (s1\<lparr>current_slice_ticks := 0\<rparr>))
        else
          (let s2 = s1\<lparr>current_slice_ticks := current_slice_ticks s1 + 1\<rparr>
           in Some (Inr (if current_slice_ticks s2 \<ge> ticks_per_slice s2
                         then s2\<lparr>reschedule_requested := True\<rparr> else s2)))))"

definition thread_should_reschedule :: "sched \<Rightarrow> bool" where
  "thread_should_reschedule s = reschedule_requested s"

definition thread_preemption_init :: "u32 \<Rightarrow> sched \<Rightarrow> sched" where
  "thread_preemption_init requested_ticks_per_slice s =
     s\<lparr>ticks_per_slice := (if requested_ticks_per_slice = 0 then 1 else requested_ticks_per_slice),
       current_slice_ticks := 0, reschedule_requested := False, preemption_enabled := True\<rparr>"

section \<open>Ticks\<close>

lemma sint_nonneg_iff: "0 \<le> sint (w :: u32) \<longleftrightarrow> unat w < 2 ^ 31"
proof -
  have "0 \<le> sint w \<longleftrightarrow> \<not> bit w 31" using bit_last_iff [of w] by auto
  also have "\<dots> \<longleftrightarrow> \<not> bit (unat w) 31" by (simp add: bit_unsigned_iff)
  also have "\<dots> \<longleftrightarrow> even (unat w div 2 ^ 31)" by (simp add: bit_iff_odd)
  also have "\<dots> \<longleftrightarrow> unat w < 2 ^ 31"
  proof -
    have "unat w div 2 ^ 31 < 2" by (rule less_mult_imp_div_less) simp
    then have "unat w div 2 ^ 31 = 0 \<or> unat w div 2 ^ 31 = 1" by linarith
    then show ?thesis by (auto simp: div_eq_0_iff)
  qed
  finally show ?thesis .
qed

lemma tick_reached_order:
  fixes now x y :: u32
  assumes "unat (x - now) < 2 ^ 31" and "unat (y - now) < 2 ^ 31"
  shows "tick_reached x y \<longleftrightarrow> unat (y - now) \<le> unat (x - now)"
proof -
  have eq: "x - y = (x - now) - (y - now)" by simp
  show ?thesis
  proof (cases "unat (y - now) \<le> unat (x - now)")
    case True
    then have "unat (x - y) = unat (x - now) - unat (y - now)"
      unfolding eq by (subst unat_sub) (simp_all add: word_le_nat_alt)
    with True assms show ?thesis by (simp add: tick_reached_def sint_nonneg_iff)
  next
    case False
    then have "unat (x - y) = unat (x - now) + 2 ^ 32 - unat (y - now)"
      unfolding eq unat_sub_if_size by (simp add: word_size)
    with False assms show ?thesis by (simp add: tick_reached_def sint_nonneg_iff)
  qed
qed

lemma tick_reached_now: "tick_reached now x \<longleftrightarrow> x = now \<or> \<not> unat (x - now) \<le> 2 ^ 31"
proof (cases "x = now")
  case False
  have "0 < unat (x - now)" using False by (simp add: unat_gt_0)
  moreover have eq: "now - x = 0 - (x - now)" by simp
  ultimately have "unat (now - x) = 2 ^ 32 - unat (x - now)"
    unfolding eq unat_sub_if_size by (simp add: word_size)
  with False show ?thesis by (auto simp: tick_reached_def sint_nonneg_iff not_le)
qed (simp add: tick_reached_def)

section \<open>The scheduler's lists\<close>

text \<open>
  The part of a thread the invariant speaks about, apart from the links: its magic, state and
  wake-up tick. Moving threads between queues changes links only, so it keeps this view.
\<close>

type_synonym tview = "u32 \<rightharpoonup> u32 \<times> thread_state \<times> u32"

definition view :: "threads \<Rightarrow> tview" where
  "view st a = map_option (\<lambda>t. (t_magic t, t_state t, t_wake_tick t)) (st a)"

definition due :: "u32 \<Rightarrow> tview \<Rightarrow> u32 \<Rightarrow> nat" where
  "due now v a = unat (snd (snd (the (v a))) - now)"

definition states_ok :: "tview \<Rightarrow> u32 \<Rightarrow> u32 \<Rightarrow> u32 list \<Rightarrow> u32 list \<Rightarrow> u32 list \<Rightarrow> bool" where
  "states_ok v idle boot rs ss zs \<longleftrightarrow> (\<forall>a m x w. v a = Some (m, x, w) \<longrightarrow>
     a \<noteq> 0 \<and> m = THREAD_MAGIC \<and> (x = THREAD_READY) = (a \<in> set rs) \<and> (x = THREAD_SLEEPING) = (a \<in> set ss)
     \<and> (x = THREAD_ZOMBIE \<and> a \<noteq> idle \<and> a \<noteq> boot) = (a \<in> set zs))
   \<and> idle \<in> dom v \<and> idle \<notin> set rs \<union> set ss"

definition sleep_order :: "u32 \<Rightarrow> tview \<Rightarrow> u32 list \<Rightarrow> bool" where
  "sleep_order now v ss \<longleftrightarrow> sorted_wrt (\<lambda>a b. due now v a \<le> due now v b) ss \<and> (\<forall>a\<in>set ss. due now v a < 2 ^ 31)"

definition queues_ok :: "sched \<Rightarrow> u32 list \<Rightarrow> u32 list \<Rightarrow> u32 list \<Rightarrow> bool" where
  "queues_ok s rs ss zs \<longleftrightarrow>
     queue_of (threads s) (q_head (ready s)) (q_tail (ready s)) rs
   \<and> queue_of (threads s) (q_head (sleeping s)) (q_tail (sleeping s)) ss
   \<and> queue_of (threads s) (q_head (zombies s)) (q_tail (zombies s)) zs"

definition sched_inv :: "sched \<Rightarrow> u32 list \<Rightarrow> u32 list \<Rightarrow> u32 list \<Rightarrow> bool" where
  "sched_inv s rs ss zs \<longleftrightarrow> queues_ok s rs ss zs
   \<and> states_ok (view (threads s)) (idle_thread s) (bootstrap_thread s) rs ss zs
   \<and> current_thread s \<in> dom (threads s)
   \<and> sleep_order (scheduler_ticks s) (view (threads s)) ss"

lemma view_Some [simp]: "st a = Some t \<Longrightarrow> view st a = Some (t_magic t, t_state t, t_wake_tick t)"
  by (simp add: view_def)

lemma view_eq_Some: "view st a = Some (m, x, w) \<longleftrightarrow>
    (\<exists>t. st a = Some t \<and> t_magic t = m \<and> t_state t = x \<and> t_wake_tick t = w)"
  by (auto simp: view_def)

lemma dom_view [simp]: "dom (view st) = dom st"
  by (auto simp: view_def dom_def)

lemma view_upd: "view (st(a \<mapsto> t)) = (view st)(a \<mapsto> (t_magic t, t_state t, t_wake_tick t))"
  by (auto simp: view_def fun_eq_iff)

lemma relinked_view: "relinked A st st' \<Longrightarrow> view st' = view st"
proof (rule ext)
  fix a assume r: "relinked A st st'"
  show "view st' a = view st a"
  proof (cases "st a")
    case None
    then show ?thesis using r by (simp add: view_def relinked_None)
  next
    case (Some t)
    obtain n p where "st' a = Some (t\<lparr>t_next := n, t_prev := p\<rparr>)" by (rule relinked_fields [OF r Some])
    with Some show ?thesis by (simp add: view_def)
  qed
qed

lemma relinked_dom: "relinked A st st' \<Longrightarrow> dom st' = dom st"
  using relinked_view dom_view by metis

lemma queue_of_keep_links:
  assumes "queue_of st h e xs" and "st a = Some t" and "t_next t' = t_next t" and "t_prev t' = t_prev t"
  shows "queue_of (st(a \<mapsto> t')) h e xs"
proof -
  have "tseg (st(a \<mapsto> t')) 0 xs 0"
  proof (rule tseg_cong)
    show seg: "tseg st 0 xs 0" using assms(1) by (simp add: queue_of_def)
    fix b assume "b \<in> set xs"
    from tseg_in_store [OF seg this] show "\<exists>u u'. st b = Some u \<and> (st(a \<mapsto> t')) b = Some u'
        \<and> t_next u' = t_next u \<and> t_prev u' = t_prev u" using assms by auto
  qed
  with assms(1) show ?thesis by (simp add: queue_of_def)
qed

lemma queues_ok_keep_links:
  assumes "queues_ok s rs ss zs" and "threads s a = Some t" and "t_next t' = t_next t" and "t_prev t' = t_prev t"
  shows "queues_ok (s\<lparr>threads := (threads s)(a \<mapsto> t')\<rparr>) rs ss zs"
  using assms by (simp add: queues_ok_def queue_of_keep_links)

lemma queues_disjoint:
  assumes "queues_ok s rs ss zs" and "states_ok (view (threads s)) i b rs ss zs"
  shows "set rs \<inter> set ss = {}" and "set rs \<inter> set zs = {}" and "set ss \<inter> set zs = {}"
    and "set rs \<union> set ss \<union> set zs \<subseteq> dom (threads s)"
proof -
  have d: "a \<in> dom (threads s)" if "a \<in> set rs \<or> a \<in> set ss \<or> a \<in> set zs" for a
    using that assms(1) by (auto simp: queues_ok_def queue_of_def dom_def dest: tseg_in_store)
  then show "set rs \<union> set ss \<union> set zs \<subseteq> dom (threads s)" by blast
  have "\<not> (a \<in> set rs \<and> a \<in> set ss) \<and> \<not> (a \<in> set rs \<and> a \<in> set zs) \<and> \<not> (a \<in> set ss \<and> a \<in> set zs)" for a
  proof (cases "a \<in> dom (threads s)")
    case True
    then obtain t where "threads s a = Some t" by auto
    then have "view (threads s) a = Some (t_magic t, t_state t, t_wake_tick t)" by simp
    with assms(2) have "(t_state t = THREAD_READY) = (a \<in> set rs)" "(t_state t = THREAD_SLEEPING) = (a \<in> set ss)"
      "a \<in> set zs \<Longrightarrow> t_state t = THREAD_ZOMBIE" unfolding states_ok_def by blast+
    then show ?thesis by auto
  qed (use d in blast)
  then show "set rs \<inter> set ss = {}" "set rs \<inter> set zs = {}" "set ss \<inter> set zs = {}" by blast+
qed

definition apart :: "u32 list \<Rightarrow> u32 list \<Rightarrow> u32 list \<Rightarrow> bool" where
  "apart rs ss zs \<longleftrightarrow> set rs \<inter> set ss = {} \<and> set rs \<inter> set zs = {} \<and> set ss \<inter> set zs = {}"

lemma sched_inv_apart: "sched_inv s rs ss zs \<Longrightarrow> apart rs ss zs"
  unfolding sched_inv_def apart_def using queues_disjoint by blast

lemma ready_push_queues:
  assumes q: "queues_ok s rs ss zs" and ap: "apart rs ss zs" and a: "a \<notin> set rs \<union> set ss \<union> set zs"
    and t: "threads s a = Some t" "t_magic t = THREAD_MAGIC" "a \<noteq> 0" "a \<noteq> idle_thread s"
  shows "\<exists>q' st. ready_push a s = Inr (s\<lparr>ready := q', threads := st\<rparr>)
    \<and> queues_ok (s\<lparr>ready := q', threads := st\<rparr>) (rs @ [a]) ss zs
    \<and> view st = (view (threads s))(a \<mapsto> (t_magic t, THREAD_READY, t_wake_tick t))
    \<and> relinked (insert a (set rs)) ((threads s)(a \<mapsto> t\<lparr>t_state := THREAD_READY\<rparr>)) st"
proof -
  define st1 where "st1 = (threads s)(a \<mapsto> t\<lparr>t_state := THREAD_READY\<rparr>)"
  have q1: "queues_ok (s\<lparr>threads := st1\<rparr>) rs ss zs"
    unfolding st1_def by (rule queues_ok_keep_links [OF q t(1)]) simp_all
  have "queue_of st1 (q_head (ready s)) (q_tail (ready s)) rs" using q1 by (simp add: queues_ok_def)
  then obtain q' st where p: "queue_push a (ready s, st1) = Inr (q', st)"
    "queue_of st (q_head q') (q_tail q') (rs @ [a])" "relinked (insert a (set rs)) st1 st"
    using tq.push_law [of st1 "ready s" rs a "t\<lparr>t_state := THREAD_READY\<rparr>"] a t by (auto simp: st1_def)
  have "queues_ok (s\<lparr>ready := q', threads := st\<rparr>) (rs @ [a]) ss zs"
    using p(2) q1 queue_of_relinked [OF _ p(3)] a ap by (auto simp: queues_ok_def apart_def)
  moreover have "view st = (view (threads s))(a \<mapsto> (t_magic t, THREAD_READY, t_wake_tick t))"
    using relinked_view [OF p(3)] by (simp add: st1_def view_upd)
  moreover have "ready_push a s = Inr (s\<lparr>ready := q', threads := st\<rparr>)"
    using p(1) t by (simp add: ready_push_def set_thread_def upd_thread_def st1_def)
  ultimately show ?thesis using p(3) unfolding st1_def by blast
qed

lemma ready_pop_queues:
  assumes q: "queues_ok s (a # rs) ss zs" and ap: "apart (a # rs) ss zs"
  shows "\<exists>q' st. ready_pop s = Inr (a, s\<lparr>ready := q', threads := st\<rparr>)
    \<and> queues_ok (s\<lparr>ready := q', threads := st\<rparr>) rs ss zs \<and> relinked (set (a # rs)) (threads s) st"
proof -
  obtain q' st where p: "queue_pop (ready s, threads s) = Inr (a, q', st)"
    "queue_of st (q_head q') (q_tail q') rs" "relinked (set (a # rs)) (threads s) st"
    using tq.pop_law [of "threads s" "ready s" a rs] q by (auto simp: queues_ok_def)
  then have "queues_ok (s\<lparr>ready := q', threads := st\<rparr>) rs ss zs"
    using q queue_of_relinked [OF _ p(3)] ap by (auto simp: queues_ok_def apart_def)
  with p show ?thesis by (auto simp: ready_pop_def)
qed

lemma sleep_pop_queues:
  assumes q: "queues_ok s rs (a # ss) zs" and ap: "apart rs (a # ss) zs"
  shows "\<exists>q' st. sleep_pop_front s = Inr (a, s\<lparr>sleeping := q', threads := st\<rparr>)
    \<and> queues_ok (s\<lparr>sleeping := q', threads := st\<rparr>) rs ss zs \<and> relinked (set (a # ss)) (threads s) st"
proof -
  obtain q' st where p: "queue_pop (sleeping s, threads s) = Inr (a, q', st)"
    "queue_of st (q_head q') (q_tail q') ss" "relinked (set (a # ss)) (threads s) st"
    using tq.pop_law [of "threads s" "sleeping s" a ss] q by (auto simp: queues_ok_def)
  then have "queues_ok (s\<lparr>sleeping := q', threads := st\<rparr>) rs ss zs"
    using q queue_of_relinked [OF _ p(3)] ap by (auto simp: queues_ok_def apart_def)
  with p show ?thesis by (auto simp: sleep_pop_front_def)
qed

lemma zombie_push_queues:
  assumes q: "queues_ok s rs ss zs" and ap: "apart rs ss zs" and a: "a \<notin> set rs \<union> set ss \<union> set zs"
    and t: "threads s a = Some t" "t_magic t = THREAD_MAGIC" "a \<noteq> 0" "a \<noteq> idle_thread s" "a \<noteq> bootstrap_thread s"
  shows "\<exists>q' st. zombie_push a s = Inr (s\<lparr>zombies := q', threads := st\<rparr>)
    \<and> queues_ok (s\<lparr>zombies := q', threads := st\<rparr>) rs ss (zs @ [a]) \<and> relinked (insert a (set zs)) (threads s) st"
proof -
  have "queue_of (threads s) (q_head (zombies s)) (q_tail (zombies s)) zs" using q by (simp add: queues_ok_def)
  then obtain q' st where p: "queue_push a (zombies s, threads s) = Inr (q', st)"
    "queue_of st (q_head q') (q_tail q') (zs @ [a])" "relinked (insert a (set zs)) (threads s) st"
    using tq.push_law [of "threads s" "zombies s" zs a t] a t by auto
  then have "queues_ok (s\<lparr>zombies := q', threads := st\<rparr>) rs ss (zs @ [a])"
    using q queue_of_relinked [OF _ p(3), of _ _ rs] queue_of_relinked [OF _ p(3), of _ _ ss] a ap
    by (auto simp: queues_ok_def apart_def Int_commute)
  with p t show ?thesis by (auto simp: zombie_push_def)
qed

section \<open>Waking sleepers\<close>

lemma states_okD:
  assumes "states_ok (view st) i b rs ss zs" and "st a = Some t"
  shows "a \<noteq> 0" and "t_magic t = THREAD_MAGIC" and "(t_state t = THREAD_READY) = (a \<in> set rs)"
    and "(t_state t = THREAD_SLEEPING) = (a \<in> set ss)"
    and "(t_state t = THREAD_ZOMBIE \<and> a \<noteq> i \<and> a \<noteq> b) = (a \<in> set zs)"
  using assms(1) view_Some [of st a t, OF assms(2)] unfolding states_ok_def by blast+

lemma wake_one_sleeper:
  assumes inv: "sched_inv s rs (a # ss) zs"
  shows "\<exists>s'. bindE (sleep_pop_front s) (\<lambda>(thread, s1).
        bindE (validate_thread thread (threads s1)) (\<lambda>_. ready_push thread s1)) = Inr s'
    \<and> sched_inv s' (rs @ [a]) ss zs
    \<and> (\<exists>w. view (threads s') = (view (threads s))(a \<mapsto> (THREAD_MAGIC, THREAD_READY, w))
         \<and> due (scheduler_ticks s) (view (threads s)) a = unat (w - scheduler_ticks s))
    \<and> s' = s\<lparr>threads := threads s', sleeping := sleeping s', ready := ready s'\<rparr>
    \<and> (\<forall>b. b \<notin> set rs \<union> set (a # ss) \<longrightarrow> threads s' b = threads s b)"
proof -
  have q: "queues_ok s rs (a # ss) zs" and so: "states_ok (view (threads s)) (idle_thread s) (bootstrap_thread s) rs (a # ss) zs"
    using inv by (simp_all add: sched_inv_def)
  note ap = sched_inv_apart [OF inv]
  obtain t where t: "threads s a = Some t" using queues_disjoint(4) [OF q so] by auto
  note ok = states_okD [OF so t]
  obtain q1 st1 where p: "sleep_pop_front s = Inr (a, s\<lparr>sleeping := q1, threads := st1\<rparr>)"
    "queues_ok (s\<lparr>sleeping := q1, threads := st1\<rparr>) rs ss zs" "relinked (set (a # ss)) (threads s) st1"
    using sleep_pop_queues [OF q ap] by blast
  obtain n pv where t1: "st1 a = Some (t\<lparr>t_next := n, t_prev := pv\<rparr>)" by (rule relinked_fields [OF p(3) t])
  have "a \<notin> set rs \<union> set ss \<union> set zs" and ap': "apart rs ss zs"
    using ap q by (auto simp: apart_def queues_ok_def queue_of_def)
  moreover have idle: "a \<noteq> idle_thread s" using so by (auto simp: states_ok_def)
  ultimately obtain q2 st2 where r: "ready_push a (s\<lparr>sleeping := q1, threads := st1\<rparr>) = Inr (s\<lparr>sleeping := q1, ready := q2, threads := st2\<rparr>)"
    "queues_ok (s\<lparr>sleeping := q1, ready := q2, threads := st2\<rparr>) (rs @ [a]) ss zs"
    "view st2 = (view st1)(a \<mapsto> (t_magic t, THREAD_READY, t_wake_tick t))"
    "relinked (insert a (set rs)) (st1(a \<mapsto> t\<lparr>t_next := n, t_prev := pv, t_state := THREAD_READY\<rparr>)) st2"
    using ready_push_queues [OF p(2) ap', of a "t\<lparr>t_next := n, t_prev := pv\<rparr>"] t1 ok by auto
  have v: "view st2 = (view (threads s))(a \<mapsto> (THREAD_MAGIC, THREAD_READY, t_wake_tick t))"
    using r(3) relinked_view [OF p(3)] ok(2) by simp
  have d: "a \<notin> set ss" "distinct ss" using q by (auto simp: queues_ok_def queue_of_def)
  have "states_ok (view st2) (idle_thread s) (bootstrap_thread s) (rs @ [a]) ss zs"
    using so ok idle d ap unfolding v states_ok_def apart_def by auto
  moreover have "sleep_order (scheduler_ticks s) (view st2) ss"
  proof -
    have "due (scheduler_ticks s) (view st2) b = due (scheduler_ticks s) (view (threads s)) b" if "b \<in> set ss" for b
      using that d by (auto simp: v due_def)
    moreover have "sleep_order (scheduler_ticks s) (view (threads s)) ss"
      using inv by (simp add: sched_inv_def sleep_order_def)
    ultimately show ?thesis unfolding sleep_order_def by (metis (mono_tags, lifting) sorted_wrt_mono_rel)
  qed
  moreover have "current_thread s \<in> dom st2"
    using inv v dom_view [of st2] by (auto simp: sched_inv_def)
  ultimately have "sched_inv (s\<lparr>sleeping := q1, ready := q2, threads := st2\<rparr>) (rs @ [a]) ss zs"
    using r(2) by (simp add: sched_inv_def)
  moreover have "validate_thread a st1 = Inr (t\<lparr>t_next := n, t_prev := pv\<rparr>)"
    using t1 ok by (simp add: validate_thread_def get_thread_def)
  moreover have "st2 b = threads s b" if "b \<notin> set rs \<union> set (a # ss)" for b
    using that relinked_outside [OF r(4), of b] relinked_outside [OF p(3), of b] by simp
  ultimately show ?thesis
    using p(1) r(1) v t by (auto simp: due_def intro!: exI [of _ "s\<lparr>sleeping := q1, ready := q2, threads := st2\<rparr>"])
qed

lemma tick_reached_due:
  assumes "view st a = Some (m, x, w)" and "due now (view st) a < 2 ^ 31"
  shows "tick_reached now w \<longleftrightarrow> due now (view st) a = 0"
  using assms unfolding tick_reached_now due_def by (auto simp: unat_eq_zero)

lemma wake_due_sleepers_list:
  assumes "sched_inv s rs ss zs"
  defines "now \<equiv> scheduler_ticks s"
  defines "isdue \<equiv> \<lambda>a. due now (view (threads s)) a = 0"
  shows "\<exists>s'. wake_due_sleepers s = Some (Inr s')
    \<and> sched_inv s' (rs @ takeWhile isdue ss) (dropWhile isdue ss) zs
    \<and> (\<forall>b. b \<notin> set (takeWhile isdue ss) \<longrightarrow> view (threads s') b = view (threads s) b)
    \<and> s' = s\<lparr>threads := threads s', sleeping := sleeping s', ready := ready s',
         reschedule_requested := (takeWhile isdue ss \<noteq> [] \<or> reschedule_requested s)\<rparr>
    \<and> (\<forall>b. b \<notin> set rs \<union> set ss \<longrightarrow> threads s' b = threads s b)"
  using assms(1) unfolding isdue_def now_def
proof (induction ss arbitrary: s rs)
  case Nil
  then have "q_head (sleeping s) = 0" by (simp add: sched_inv_def queues_ok_def queue_of_def)
  then show ?case using Nil by (subst wake_due_sleepers.simps) simp
next
  case (Cons a ss)
  let ?now = "scheduler_ticks s" and ?v = "view (threads s)"
  have q: "queues_ok s rs (a # ss) zs" using Cons.prems by (simp add: sched_inv_def)
  then have hd: "q_head (sleeping s) = a" "a \<noteq> 0" by (auto simp: queues_ok_def queue_of_def)
  obtain t where t: "threads s a = Some t"
    using q by (auto simp: queues_ok_def queue_of_def)
  have lt: "due ?now ?v a < 2 ^ 31" using Cons.prems by (simp add: sched_inv_def sleep_order_def)
  note reach = tick_reached_due [of "threads s" a, OF view_Some [of "threads s" a t, OF t] lt]
  show ?case
  proof (cases "due ?now ?v a = 0")
    case False
    then show ?thesis using hd t reach Cons.prems
      by (subst wake_due_sleepers.simps) (simp add: get_thread_def)
  next
    case True
    obtain s1 w where s1: "bindE (sleep_pop_front s) (\<lambda>(thread, s1).
        bindE (validate_thread thread (threads s1)) (\<lambda>_. ready_push thread s1)) = Inr s1"
      "sched_inv s1 (rs @ [a]) ss zs" "view (threads s1) = ?v(a \<mapsto> (THREAD_MAGIC, THREAD_READY, w))"
      "s1 = s\<lparr>threads := threads s1, sleeping := sleeping s1, ready := ready s1\<rparr>"
      "\<forall>b. b \<notin> set rs \<union> set (a # ss) \<longrightarrow> threads s1 b = threads s b"
      using wake_one_sleeper [OF Cons.prems] by blast
    have now: "scheduler_ticks s1 = ?now" by (subst s1(4)) simp
    have a: "a \<notin> set ss" using q by (auto simp: queues_ok_def queue_of_def)
    have same: "due ?now (view (threads s1)) b = due ?now ?v b" if "b \<in> set ss" for b
      using that a s1(3) by (auto simp: due_def)
    let ?s1 = "s1\<lparr>reschedule_requested := True\<rparr>"
    have inv1: "sched_inv ?s1 (rs @ [a]) ss zs" using s1(2) by (simp add: sched_inv_def queues_ok_def)
    have tw: "takeWhile (\<lambda>b. due ?now (view (threads s1)) b = 0) ss = takeWhile (\<lambda>b. due ?now ?v b = 0) ss"
      "dropWhile (\<lambda>b. due ?now (view (threads s1)) b = 0) ss = dropWhile (\<lambda>b. due ?now ?v b = 0) ss"
      using same by (auto intro!: takeWhile_cong dropWhile_cong)
    obtain s2 where s2: "wake_due_sleepers ?s1 = Some (Inr s2)"
      "sched_inv s2 ((rs @ [a]) @ takeWhile (\<lambda>b. due ?now ?v b = 0) ss) (dropWhile (\<lambda>b. due ?now ?v b = 0) ss) zs"
      "\<forall>b. b \<notin> set (takeWhile (\<lambda>b. due ?now ?v b = 0) ss) \<longrightarrow> view (threads s2) b = view (threads s1) b"
      "s2 = ?s1\<lparr>threads := threads s2, sleeping := sleeping s2, ready := ready s2, reschedule_requested := True\<rparr>"
      "\<forall>b. b \<notin> set (rs @ [a]) \<union> set ss \<longrightarrow> threads s2 b = threads s1 b"
      using Cons.IH [OF inv1] now tw by auto
    have w: "wake_due_sleepers s = Some (Inr s2)"
      using hd t reach True s1(1) s2(1) by (subst wake_due_sleepers.simps) (simp add: get_thread_def)
    have "s2 = s\<lparr>threads := threads s2, sleeping := sleeping s2, ready := ready s2, reschedule_requested := True\<rparr>"
      by (subst s2(4), subst s1(4)) simp
    moreover have "\<forall>b. b \<notin> set rs \<union> set (a # ss) \<longrightarrow> threads s2 b = threads s b" using s2(5) s1(5) by auto
    ultimately show ?thesis using w s2(2,3) s1(3) True by auto
  qed
qed

lemma takeWhile_sorted_filter:
  "sorted_wrt (\<lambda>a b. (f a :: nat) \<le> f b) xs \<Longrightarrow> takeWhile (\<lambda>a. f a = 0) xs = filter (\<lambda>a. f a = 0) xs
     \<and> dropWhile (\<lambda>a. f a = 0) xs = filter (\<lambda>a. f a \<noteq> 0) xs"
proof (induction xs)
  case (Cons x xs)
  then show ?case
  proof (cases "f x = 0")
    case False
    then have "\<forall>a\<in>set xs. f a \<noteq> 0" using Cons.prems by auto
    with False show ?thesis by (auto simp: filter_empty_conv filter_id_conv)
  qed auto
qed simp

lemma due_tick:
  assumes "1 \<le> due now v a" shows "due (now + 1) v a = due now v a - 1"
proof -
  have "snd (snd (the (v a))) - (now + 1) = (snd (snd (the (v a))) - now) - 1" by simp
  with assms show ?thesis by (simp only: due_def) (simp add: unat_sub word_le_nat_alt)
qed

lemma thread_on_timer_tick_list:
  assumes inv: "sched_inv s rs ss zs" and pos: "\<forall>a\<in>set ss. 1 \<le> due (scheduler_ticks s) (view (threads s)) a"
    and init: "scheduler_initialized s"
  defines "d \<equiv> due (scheduler_ticks s) (view (threads s))"
  shows "\<exists>s'. thread_on_timer_tick s = Some (Inr s')
    \<and> sched_inv s' (rs @ filter (\<lambda>a. d a = 1) ss) (filter (\<lambda>a. d a \<noteq> 1) ss) zs
    \<and> (\<forall>a\<in>set ss. d a \<noteq> 1 \<longrightarrow> due (scheduler_ticks s') (view (threads s')) a = d a - 1)
    \<and> scheduler_ticks s' = scheduler_ticks s + 1 \<and> scheduler_initialized s'
    \<and> current_thread s' = current_thread s \<and> idle_thread s' = idle_thread s
    \<and> (\<forall>b. b \<notin> set rs \<union> set ss \<longrightarrow> threads s' b = threads s b)"
proof -
  let ?s = "s\<lparr>scheduler_ticks := scheduler_ticks s + 1\<rparr>" and ?v = "view (threads s)"
  let ?d = "due (scheduler_ticks s + 1) ?v"
  have d1: "?d a = d a - 1" "1 \<le> d a" if "a \<in> set ss" for a
    using due_tick [of "scheduler_ticks s" ?v a] pos that by (simp_all add: d_def)
  have so: "sleep_order (scheduler_ticks s) ?v ss" using inv by (simp add: sched_inv_def)
  then have so': "sleep_order (scheduler_ticks s + 1) ?v ss"
    unfolding sleep_order_def d_def [symmetric] using d1
    by (auto intro: sorted_wrt_mono_rel [of ss "\<lambda>a b. d a \<le> d b"] diff_le_mono)
  have inv1: "sched_inv ?s rs ss zs" using inv so' by (simp add: sched_inv_def queues_ok_def)
  have "sorted_wrt (\<lambda>a b. ?d a \<le> ?d b) ss" using so' by (simp add: sleep_order_def)
  note tw = takeWhile_sorted_filter [OF this]
  have f: "filter (\<lambda>a. ?d a = 0) ss = filter (\<lambda>a. d a = 1) ss" "filter (\<lambda>a. ?d a \<noteq> 0) ss = filter (\<lambda>a. d a \<noteq> 1) ss"
    using d1 by (auto intro!: filter_cong) fastforce+
  obtain s1 where s1: "wake_due_sleepers ?s = Some (Inr s1)"
    "sched_inv s1 (rs @ filter (\<lambda>a. d a = 1) ss) (filter (\<lambda>a. d a \<noteq> 1) ss) zs"
    "\<forall>b. b \<notin> set (filter (\<lambda>a. d a = 1) ss) \<longrightarrow> view (threads s1) b = ?v b"
    "s1 = ?s\<lparr>threads := threads s1, sleeping := sleeping s1, ready := ready s1,
         reschedule_requested := (filter (\<lambda>a. d a = 1) ss \<noteq> [] \<or> reschedule_requested ?s)\<rparr>"
    "\<forall>b. b \<notin> set rs \<union> set ss \<longrightarrow> threads s1 b = threads s b"
    using wake_due_sleepers_list [OF inv1] by (auto simp: tw f simp del: neq0_conv One_nat_def)
  have fields: "scheduler_ticks s1 = scheduler_ticks s + 1" "scheduler_initialized s1" "current_thread s1 = current_thread s"
    "idle_thread s1 = idle_thread s" using init by (subst s1(4), simp)+
  have due1: "due (scheduler_ticks s1) (view (threads s1)) a = d a - 1" if "a \<in> set ss" "d a \<noteq> 1" for a
    using s1(3) that d1(1) [of a] fields(1) by (simp add: due_def)
  define c where "c = (if \<not> preemption_enabled s1 then current_slice_ticks s1
      else if q_head (ready s1) = 0 then 0 else current_slice_ticks s1 + 1)"
  define r where "r = (preemption_enabled s1 \<and> q_head (ready s1) \<noteq> 0 \<and> ticks_per_slice s1 \<le> c \<or> reschedule_requested s1)"
  let ?t = "s1\<lparr>current_slice_ticks := c, reschedule_requested := r\<rparr>"
  have t: "thread_on_timer_tick s = Some (Inr ?t)"
    using s1(1) init by (auto simp: thread_on_timer_tick_def Let_def c_def r_def)
  have inv': "sched_inv ?t (rs @ filter (\<lambda>a. d a = 1) ss) (filter (\<lambda>a. d a \<noteq> 1) ss) zs"
    using s1(2) by (simp add: sched_inv_def queues_ok_def)
  have sel: "scheduler_ticks ?t = scheduler_ticks s1" "threads ?t = threads s1" by simp_all
  show ?thesis
  proof (intro exI conjI)
    show "thread_on_timer_tick s = Some (Inr ?t)" by (rule t)
    show "sched_inv ?t (rs @ filter (\<lambda>a. d a = 1) ss) (filter (\<lambda>a. d a \<noteq> 1) ss) zs" by (rule inv')
    show "\<forall>a\<in>set ss. d a \<noteq> 1 \<longrightarrow> due (scheduler_ticks ?t) (view (threads ?t)) a = d a - 1"
      unfolding sel by (intro ballI impI due1)
    show "\<forall>b. b \<notin> set rs \<union> set ss \<longrightarrow> threads ?t b = threads s b" unfolding sel by (rule s1(5))
  qed (simp_all add: fields)
qed

section \<open>Inserting into the sleep queue\<close>

lemma queue_of_insert_first:
  assumes q: "queue_of st h e (b # bs)" and a: "a \<noteq> 0" "a \<notin> set (b # bs)" "st a = Some t"
    and v: "st b = Some v" and t: "t_prev t = 0"
  shows "queue_of (st(a \<mapsto> t\<lparr>t_next := b\<rparr>, b \<mapsto> v\<lparr>t_prev := a\<rparr>)) a e (a # b # bs)"
proof -
  have "tseg (st(b \<mapsto> v\<lparr>t_prev := a\<rparr>)) a (b # bs) 0"
    using q v by (intro tseg_set_first_prev [of _ 0]) (auto simp: queue_of_def)
  then have "tseg (st(b \<mapsto> v\<lparr>t_prev := a\<rparr>, a \<mapsto> t\<lparr>t_next := b\<rparr>)) a (b # bs) 0"
    by (rule tseg_upd_outside) (use a in auto)
  moreover have "st(a \<mapsto> t\<lparr>t_next := b\<rparr>, b \<mapsto> v\<lparr>t_prev := a\<rparr>) = st(b \<mapsto> v\<lparr>t_prev := a\<rparr>, a \<mapsto> t\<lparr>t_next := b\<rparr>)"
    using a by (auto simp: fun_eq_iff)
  ultimately show ?thesis using q a t by (auto simp: queue_of_def)
qed

lemma queue_of_insert_between:
  assumes q: "queue_of st h e (as @ p # b # bs)" and a: "a \<noteq> 0" "a \<notin> set (as @ p # b # bs)"
    and st: "st a = Some t" "st p = Some u" "st b = Some v"
  defines "st' \<equiv> st(p \<mapsto> u\<lparr>t_next := a\<rparr>, a \<mapsto> t\<lparr>t_prev := p, t_next := b\<rparr>, b \<mapsto> v\<lparr>t_prev := a\<rparr>)"
  shows "t_prev v = p" and "p \<noteq> b" and "queue_of st' h e (as @ p # a # b # bs)"
proof -
  have seg: "tseg st 0 (as @ [p]) b" "tseg st p (b # bs) 0" and d: "distinct (as @ p # b # bs)"
    using q by (auto simp: queue_of_def tseg_append)
  then show "t_prev v = p" "p \<noteq> b" using st by auto
  have "tseg (st(p \<mapsto> u\<lparr>t_next := a\<rparr>)) 0 (as @ [p]) a"
    using seg(1) d st by (intro tseg_set_last_next [of _ _ _ _ b]) auto
  then have 1: "tseg st' 0 (as @ [p]) a"
    unfolding st'_def by (intro tseg_upd_outside [where st = "_(a \<mapsto> _)"] tseg_upd_outside [where a = a]) (use a d in auto)
  have "tseg (st(b \<mapsto> v\<lparr>t_prev := a\<rparr>)) a (b # bs) 0"
    using seg(2) d st by (intro tseg_set_first_prev [of _ p]) auto
  then have "tseg (st(b \<mapsto> v\<lparr>t_prev := a\<rparr>, p \<mapsto> u\<lparr>t_next := a\<rparr>, a \<mapsto> t\<lparr>t_prev := p, t_next := b\<rparr>)) a (b # bs) 0"
    by (intro tseg_upd_outside [where st = "_(p \<mapsto> _)"] tseg_upd_outside [where a = p]) (use a d in auto)
  moreover have "st' = st(b \<mapsto> v\<lparr>t_prev := a\<rparr>, p \<mapsto> u\<lparr>t_next := a\<rparr>, a \<mapsto> t\<lparr>t_prev := p, t_next := b\<rparr>)"
    using a d by (auto simp: st'_def fun_eq_iff)
  ultimately have 2: "tseg st' a (b # bs) 0" by simp
  have "st' a = Some (t\<lparr>t_prev := p, t_next := b\<rparr>)" using a by (auto simp: st'_def)
  then have "tseg st' 0 ((as @ [p]) @ a # b # bs) 0"
    by (subst tseg_append) (use 1 2 a in simp)
  with q a show "queue_of st' h e (as @ p # a # b # bs)" by (auto simp: queue_of_def)
qed

lemma sleep_seek_list:
  assumes "tseg st p (as @ bs) 0"
    and "\<And>a t. a \<in> set as \<Longrightarrow> st a = Some t \<Longrightarrow> \<not> tick_reached (t_wake_tick t) w"
    and "\<And>t. bs \<noteq> [] \<Longrightarrow> st (hd bs) = Some t \<Longrightarrow> tick_reached (t_wake_tick t) w"
  shows "sleep_seek (hd0 (as @ bs) 0) w st = Some (Inr (hd0 bs 0))"
  using assms
proof (induction as arbitrary: p)
  case Nil
  then show ?case by (cases bs) (subst sleep_seek.simps, auto simp: get_thread_def)+
next
  case (Cons a as)
  then obtain t where "a \<noteq> 0" "st a = Some t" "t_next t = hd0 (as @ bs) 0" "tseg st a (as @ bs) 0" by auto
  moreover have "\<not> tick_reached (t_wake_tick t) w" using Cons.prems(2) [of a] \<open>st a = Some t\<close> by simp
  moreover have "sleep_seek (hd0 (as @ bs) 0) w st = Some (Inr (hd0 bs 0))"
    by (rule Cons.IH [OF \<open>tseg st a (as @ bs) 0\<close>]) (use Cons.prems(2,3) in auto)
  ultimately show ?case by (subst sleep_seek.simps) (simp add: get_thread_def)
qed

lemma set_thread_Some:
  "threads s a = Some t \<Longrightarrow> set_thread a f s = Inr (s\<lparr>threads := (threads s)(a \<mapsto> f t)\<rparr>)"
  by (simp add: set_thread_def upd_thread_def)

lemma relinked_step:
  assumes r: "relinked A st st'" and t: "st' a = Some t" and a: "a \<in> A"
  shows "relinked A st (st'(a \<mapsto> t\<lparr>t_prev := p, t_next := n\<rparr>))"
    and "relinked A st (st'(a \<mapsto> t\<lparr>t_next := n\<rparr>))" and "relinked A st (st'(a \<mapsto> t\<lparr>t_prev := p\<rparr>))"
proof -
  have eq: "t\<lparr>t_prev := p, t_next := n\<rparr> = t\<lparr>t_next := n, t_prev := p\<rparr>" by simp
  show "relinked A st (st'(a \<mapsto> t\<lparr>t_prev := p, t_next := n\<rparr>))"
    unfolding eq using relinked_trans [OF r relinked_upd(1) [of st' a t A p n, OF t a]] by simp
  show "relinked A st (st'(a \<mapsto> t\<lparr>t_next := n\<rparr>))"
    using relinked_trans [OF r relinked_upd(2) [of st' a t A n, OF t a]] by simp
  show "relinked A st (st'(a \<mapsto> t\<lparr>t_prev := p\<rparr>))"
    using relinked_trans [OF r relinked_upd(3) [of st' a t A p, OF t a]] by simp
qed

text \<open>
  Insertion puts the thread before the first sleeper that is not due earlier. Up to the links of
  the sleepers and the thread's own, only its state changes.
\<close>

lemma sleep_insert_list:
  assumes q: "queue_of (threads s) (q_head (sleeping s)) (q_tail (sleeping s)) (as @ bs)"
    and a: "a \<noteq> 0" "a \<notin> set (as @ bs)" "threads s a = Some t" "t_magic t = THREAD_MAGIC"
    and before: "\<And>x u. x \<in> set as \<Longrightarrow> threads s x = Some u \<Longrightarrow> \<not> tick_reached (t_wake_tick u) (t_wake_tick t)"
    and after: "\<And>u. bs \<noteq> [] \<Longrightarrow> threads s (hd bs) = Some u \<Longrightarrow> tick_reached (t_wake_tick u) (t_wake_tick t)"
  defines "st0 \<equiv> (threads s)(a \<mapsto> t\<lparr>t_state := THREAD_SLEEPING\<rparr>)"
  shows "\<exists>q' st'. sleep_insert a s = Some (Inr (s\<lparr>threads := st', sleeping := q'\<rparr>))
    \<and> queue_of st' (q_head q') (q_tail q') (as @ a # bs) \<and> relinked (insert a (set (as @ bs))) st0 st'"
proof -
  let ?A = "insert a (set (as @ bs))" and ?t1 = "t\<lparr>t_state := THREAD_SLEEPING, t_next := 0, t_prev := 0\<rparr>"
  let ?h = "q_head (sleeping s)" and ?e = "q_tail (sleeping s)"
  define st1 where "st1 = (threads s)(a \<mapsto> ?t1)"
  have r1: "relinked ?A st0 st1"
    using relinked_upd(1) [of st0 a "t\<lparr>t_state := THREAD_SLEEPING\<rparr>" ?A 0 0] by (simp add: st0_def st1_def)
  have st1a: "st1 a = Some ?t1" by (simp add: st1_def)
  have q1: "queue_of st1 ?h ?e (as @ bs)"
    using q a by (simp add: queue_of_def st1_def tseg_upd_outside)
  have seek: "sleep_seek ?h (t_wake_tick t) st1 = Some (Inr (hd0 bs 0))"
  proof -
    have "sleep_seek (hd0 (as @ bs) 0) (t_wake_tick t) st1 = Some (Inr (hd0 bs 0))"
    proof (rule sleep_seek_list)
      show "tseg st1 0 (as @ bs) 0" using q1 by (simp add: queue_of_def)
    qed (use a before after in \<open>auto simp: st1_def split: if_splits\<close>)
    then show ?thesis using q1 by (simp add: queue_of_def)
  qed
  have start: "validate_thread a (threads s) = Inr t"
    "set_thread a (\<lambda>t. t\<lparr>t_state := THREAD_SLEEPING, t_next := 0, t_prev := 0\<rparr>) s = Inr (s\<lparr>threads := st1\<rparr>)"
    using a by (simp_all add: validate_thread_def get_thread_def set_thread_def upd_thread_def st1_def)
  have nz: "0 \<notin> set (as @ bs)" "distinct (as @ bs)" "?h = hd0 (as @ bs) 0" "?e = last0 0 (as @ bs)"
    using q1 tseg_nonzero unfolding queue_of_def by blast+
  note defs = sleep_insert_def start seek Let_def set_thread_Some get_thread_def
  consider (none) "as = []" "bs = []" | (first) b bs' where "as = []" "bs = b # bs'"
    | (last) as' p where "as = as' @ [p]" "bs = []"
    | (mid) as' p b bs' where "as = as' @ [p]" "bs = b # bs'"
    by (metis list.exhaust rev_exhaust)
  then show ?thesis
  proof cases
    case none
    with nz st1a a(1) r1 show ?thesis
      by (intro exI [of _ "\<lparr>q_head = a, q_tail = a\<rparr>"] exI [of _ st1]) (auto simp: defs queue_of_def)
  next
    case first
    then obtain v where v: "st1 b = Some v" using q1 by (auto simp: queue_of_def)
    have "queue_of (st1(a \<mapsto> ?t1\<lparr>t_next := b\<rparr>, b \<mapsto> v\<lparr>t_prev := a\<rparr>)) a ?e (a # b # bs')"
      using q1 a st1a v first by (intro queue_of_insert_first) auto
    moreover have "relinked ?A st0 (st1(a \<mapsto> ?t1\<lparr>t_next := b\<rparr>, b \<mapsto> v\<lparr>t_prev := a\<rparr>))"
      using first a v st1a by (intro relinked_step r1) auto
    ultimately show ?thesis using first nz a(1,2) v st1a
      by (intro exI [of _ "(sleeping s)\<lparr>q_head := a\<rparr>"] exI) (auto simp: defs)
  next
    case last
    then obtain u where u: "st1 p = Some u" using q1 by (auto simp: queue_of_def tseg_append)
    have "\<exists>u. (st1(a \<mapsto> ?t1\<lparr>t_next := 0, t_prev := ?e\<rparr>)) ?e = Some u \<and>
        queue_of (st1(a \<mapsto> ?t1\<lparr>t_next := 0, t_prev := ?e\<rparr>, ?e \<mapsto> u\<lparr>t_next := a\<rparr>)) ?h a ((as @ bs) @ [a])"
      using queue_of_append(2) [OF q1 a(1,2) st1a] last by blast
    moreover have e: "?e = p" using nz last by simp
    ultimately have "queue_of (st1(a \<mapsto> ?t1\<lparr>t_prev := p\<rparr>, p \<mapsto> u\<lparr>t_next := a\<rparr>)) ?h a (as @ [a])"
      using last u a by auto
    moreover have "relinked ?A st0 (st1(a \<mapsto> ?t1\<lparr>t_prev := p\<rparr>, p \<mapsto> u\<lparr>t_next := a\<rparr>))"
      using last a u st1a by (intro relinked_step r1) auto
    moreover have "?h \<noteq> 0" using nz last by (cases as') auto
    ultimately show ?thesis using last e a(1,2) u st1a
      by (intro exI [of _ "(sleeping s)\<lparr>q_tail := a\<rparr>"] exI) (auto simp: defs)
  next
    case mid
    then obtain u v where uv: "st1 p = Some u" "st1 b = Some v" using q1 by (auto simp: queue_of_def tseg_append)
    have q1': "queue_of st1 ?h ?e (as' @ p # b # bs')" using q1 mid by simp
    note ins = queue_of_insert_between [OF q1' a(1) _ st1a uv]
    have "relinked ?A st0 (st1(p \<mapsto> u\<lparr>t_next := a\<rparr>, a \<mapsto> ?t1\<lparr>t_prev := p, t_next := b\<rparr>, b \<mapsto> v\<lparr>t_prev := a\<rparr>))"
      using mid a uv st1a nz by (intro relinked_step r1) auto
    moreover have "?h \<noteq> 0" "b \<noteq> ?h" "b \<noteq> 0" using nz mid by (cases as'; auto)+
    ultimately show ?thesis using mid a(1,2) uv st1a ins
      by (intro exI [of _ "sleeping s"] exI) (auto simp: defs)
  qed
qed

section \<open>The operations keep the invariant\<close>

text \<open>
  A step that leaves the queues alone and gives thread \<open>a\<close>, on no queue and not becoming a member
  of one, a new state or wake-up tick.
\<close>

lemma sleep_order_upd [simp]: "a \<notin> set ss \<Longrightarrow> sleep_order now (v(a := r)) ss = sleep_order now v ss"
proof -
  assume a: "a \<notin> set ss"
  then have "due now (v(a := r)) b = due now v b" if "b \<in> set ss" for b using that by (auto simp: due_def)
  then show ?thesis by (auto simp: sleep_order_def intro: sorted_wrt_mono_rel [of ss, rotated])
qed

lemma sched_inv_set:
  assumes inv: "sched_inv s rs ss zs" and t: "threads s a = Some t"
    and out: "a \<notin> set rs \<union> set ss \<union> set zs"
    and t': "t_magic t' = t_magic t" "t_next t' = t_next t" "t_prev t' = t_prev t"
      "t_state t' \<noteq> THREAD_READY" "t_state t' \<noteq> THREAD_SLEEPING"
      "t_state t' = THREAD_ZOMBIE \<Longrightarrow> a = idle_thread s \<or> a = bootstrap_thread s"
  shows "sched_inv (s\<lparr>threads := (threads s)(a \<mapsto> t')\<rparr>) rs ss zs"
proof -
  have so: "states_ok (view (threads s)) (idle_thread s) (bootstrap_thread s) rs ss zs"
    using inv by (simp add: sched_inv_def)
  note ok = states_okD [OF so t]
  have "queues_ok (s\<lparr>threads := (threads s)(a \<mapsto> t')\<rparr>) rs ss zs"
    by (rule queues_ok_keep_links [of _ _ _ _ a t]) (use inv t t' in \<open>simp_all add: sched_inv_def\<close>)
  moreover have "states_ok (view ((threads s)(a \<mapsto> t'))) (idle_thread s) (bootstrap_thread s) rs ss zs"
    using so ok t' out unfolding states_ok_def view_upd by auto
  moreover have "sleep_order (scheduler_ticks s) (view ((threads s)(a \<mapsto> t'))) ss"
    using inv out by (simp add: sched_inv_def view_upd)
  ultimately show ?thesis using inv by (auto simp: sched_inv_def)
qed

lemma sched_inv_esp:
  assumes inv: "sched_inv s rs ss zs" and t: "threads s a = Some t"
  shows "sched_inv (s\<lparr>threads := (threads s)(a \<mapsto> t\<lparr>t_esp := e\<rparr>)\<rparr>) rs ss zs"
proof -
  have "queues_ok (s\<lparr>threads := (threads s)(a \<mapsto> t\<lparr>t_esp := e\<rparr>)\<rparr>) rs ss zs"
    by (rule queues_ok_keep_links [of _ _ _ _ a t]) (use inv t in \<open>simp_all add: sched_inv_def\<close>)
  moreover have "view ((threads s)(a \<mapsto> t\<lparr>t_esp := e\<rparr>)) = view (threads s)"
    using t by (auto simp: view_upd fun_eq_iff)
  ultimately show ?thesis using inv t by (auto simp: sched_inv_def)
qed

lemma ready_push_inv:
  assumes inv: "sched_inv s rs ss zs" and t: "threads s a = Some t" and out: "a \<notin> set rs \<union> set ss \<union> set zs"
    and idle: "a \<noteq> idle_thread s"
  shows "\<exists>s'. ready_push a s = Inr s' \<and> sched_inv s' (rs @ [a]) ss zs
    \<and> s' = s\<lparr>ready := ready s', threads := threads s'\<rparr>
    \<and> relinked (insert a (set rs)) ((threads s)(a \<mapsto> t\<lparr>t_state := THREAD_READY\<rparr>)) (threads s')"
proof -
  have so: "states_ok (view (threads s)) (idle_thread s) (bootstrap_thread s) rs ss zs"
    and q: "queues_ok s rs ss zs" using inv by (simp_all add: sched_inv_def)
  note ok = states_okD [OF so t]
  obtain q' st where p: "ready_push a s = Inr (s\<lparr>ready := q', threads := st\<rparr>)"
    "queues_ok (s\<lparr>ready := q', threads := st\<rparr>) (rs @ [a]) ss zs"
    "view st = (view (threads s))(a \<mapsto> (t_magic t, THREAD_READY, t_wake_tick t))"
    "relinked (insert a (set rs)) ((threads s)(a \<mapsto> t\<lparr>t_state := THREAD_READY\<rparr>)) st"
    using ready_push_queues [OF q sched_inv_apart [OF inv] out t ok(2,1) idle] by blast
  have "states_ok (view st) (idle_thread s) (bootstrap_thread s) (rs @ [a]) ss zs"
    using so ok out idle unfolding p(3) states_ok_def by auto
  moreover have "sleep_order (scheduler_ticks s) (view st) ss"
    using inv out by (simp add: sched_inv_def p(3))
  moreover have "current_thread s \<in> dom st" using inv p(3) dom_view [of st] by (auto simp: sched_inv_def)
  ultimately show ?thesis using p
    by (intro exI [of _ "s\<lparr>ready := q', threads := st\<rparr>"]) (simp add: sched_inv_def)
qed

section \<open>Scheduling\<close>

lemma run_first_ready:
  assumes inv: "sched_inv s (a # rs) ss zs" and t: "threads s a = Some t"
  shows "\<exists>s' t'. ready_pop s = Inr (a, s') \<and> threads s' a = Some t' \<and> t_magic t' = THREAD_MAGIC \<and> t_esp t' = t_esp t
    \<and> a \<noteq> 0 \<and> sched_inv (s'\<lparr>threads := (threads s')(a \<mapsto> t'\<lparr>t_state := THREAD_RUNNING\<rparr>)\<rparr>) rs ss zs
    \<and> s' = s\<lparr>ready := ready s', threads := threads s'\<rparr> \<and> relinked (set (a # rs)) (threads s) (threads s')"
proof -
  have so: "states_ok (view (threads s)) (idle_thread s) (bootstrap_thread s) (a # rs) ss zs"
    and q: "queues_ok s (a # rs) ss zs" using inv by (simp_all add: sched_inv_def)
  note ok = states_okD [OF so t]
  note ap = sched_inv_apart [OF inv]
  obtain q' st where p: "ready_pop s = Inr (a, s\<lparr>ready := q', threads := st\<rparr>)"
    "queues_ok (s\<lparr>ready := q', threads := st\<rparr>) rs ss zs" "relinked (set (a # rs)) (threads s) st"
    using ready_pop_queues [OF q ap] by blast
  obtain n pv where t1: "st a = Some (t\<lparr>t_next := n, t_prev := pv\<rparr>)" by (rule relinked_fields [OF p(3) t])
  define t' where "t' = t\<lparr>t_next := n, t_prev := pv\<rparr>"
  let ?st = "st(a \<mapsto> t'\<lparr>t_state := THREAD_RUNNING\<rparr>)"
  have d: "a \<notin> set rs \<union> set ss \<union> set zs" using q ap by (auto simp: queues_ok_def queue_of_def apart_def)
  have v: "view ?st = (view (threads s))(a \<mapsto> (THREAD_MAGIC, THREAD_RUNNING, t_wake_tick t))"
    using relinked_view [OF p(3)] ok(2) by (simp add: view_upd t'_def)
  have "queues_ok (s\<lparr>ready := q', threads := ?st\<rparr>) rs ss zs"
    using queues_ok_keep_links [OF p(2), of a t' "t'\<lparr>t_state := THREAD_RUNNING\<rparr>"] t1 by (simp add: t'_def)
  moreover have "states_ok (view ?st) (idle_thread s) (bootstrap_thread s) rs ss zs"
    using so ok d unfolding v states_ok_def by auto
  moreover have "sleep_order (scheduler_ticks s) (view ?st) ss"
    using inv d by (simp add: v sched_inv_def)
  moreover have "current_thread s \<in> dom ?st"
    using inv relinked_dom [OF p(3)] by (auto simp: sched_inv_def)
  ultimately have "sched_inv (s\<lparr>ready := q', threads := ?st\<rparr>) rs ss zs" by (simp add: sched_inv_def)
  with p t1 ok show ?thesis
    by (intro exI [of _ "s\<lparr>ready := q', threads := st\<rparr>"] exI [of _ t']) (simp add: t'_def)
qed

lemma sched_inv_current: "sched_inv s rs ss zs \<Longrightarrow> a \<in> dom (threads s) \<Longrightarrow> sched_inv (s\<lparr>current_thread := a\<rparr>) rs ss zs"
  by (simp add: sched_inv_def queues_ok_def)

lemma sched_inv_flags [simp]:
  "sched_inv (s\<lparr>current_slice_ticks := c\<rparr>) rs ss zs = sched_inv s rs ss zs"
  "sched_inv (s\<lparr>reschedule_requested := r\<rparr>) rs ss zs = sched_inv s rs ss zs"
  "sched_inv (s\<lparr>tss_esp0 := e\<rparr>) rs ss zs = sched_inv s rs ss zs"
  "sched_inv (s\<lparr>zombie_created_count := z\<rparr>) rs ss zs = sched_inv s rs ss zs"
  by (simp_all add: sched_inv_def queues_ok_def)

lemma switch_to_law:
  assumes "a \<noteq> 0" and "threads s a = Some t" and "t_magic t = THREAD_MAGIC"
  defines "stack \<equiv> thread_kernel_stack_top (Some t)"
  shows "switch_to a s = Inr (t_esp t, s\<lparr>threads := (threads s)(a \<mapsto> t\<lparr>t_state := THREAD_RUNNING\<rparr>), current_thread := a,
      tss_esp0 := (if stack \<noteq> 0 then stack else tss_esp0 s), current_slice_ticks := 0, reschedule_requested := False\<rparr>)"
  using assms
  by (simp add: switch_to_def validate_thread_def get_thread_def set_thread_Some Let_def thread_kernel_stack_top_def)

text \<open>The state after a switch from the interrupted thread to \<open>a\<close>.\<close>

definition running :: "sched \<Rightarrow> u32 \<Rightarrow> bool" where
  "running s a \<longleftrightarrow> map_option (fst \<circ> snd) (view (threads s) a) = Some THREAD_RUNNING"

lemma running_Some [simp]: "threads s a = Some t \<Longrightarrow> running s a \<longleftrightarrow> t_state t = THREAD_RUNNING"
  by (simp add: running_def)

definition links :: "threads \<Rightarrow> u32 \<Rightarrow> (u32 \<times> u32) option" where
  "links st a = map_option (\<lambda>t. (t_next t, t_prev t)) (st a)"

lemma links_upd [simp]: "links (st(a \<mapsto> t)) b = (if b = a then Some (t_next t, t_prev t) else links st b)"
  by (simp add: links_def)

lemma links_Some [simp]: "st a = Some t \<Longrightarrow> links st a = Some (t_next t, t_prev t)"
  by (simp add: links_def)

lemma links_outside: "relinked A st st' \<Longrightarrow> b \<notin> A \<Longrightarrow> links st' b = links st b"
  by (simp add: links_def relinked_outside)

definition switched :: "u32 \<Rightarrow> u32 \<Rightarrow> u32 list \<Rightarrow> u32 list \<Rightarrow> u32 list \<Rightarrow> sched \<Rightarrow> u32 \<times> sched \<Rightarrow> bool" where
  "switched frame a rs ss zs s = (\<lambda>(r, s'). sched_inv s' rs ss zs \<and> current_thread s' = a
     \<and> scheduler_ticks s' = scheduler_ticks s \<and> idle_thread s' = idle_thread s \<and> bootstrap_thread s' = bootstrap_thread s
     \<and> scheduler_initialized s' = scheduler_initialized s
     \<and> \<not> reschedule_requested s' \<and> current_slice_ticks s' = 0
     \<and> map_option t_esp (threads s' (current_thread s)) = Some frame
     \<and> (\<forall>b. b \<noteq> current_thread s \<longrightarrow> map_option t_esp (threads s' b) = map_option t_esp (threads s b))
     \<and> (\<forall>b. b \<noteq> a \<and> \<not> (b = current_thread s \<and> running s b) \<longrightarrow> view (threads s') b = view (threads s) b)
     \<and> (\<forall>b. b \<notin> insert a (set rs) \<and> \<not> (b = current_thread s \<and> running s b) \<longrightarrow> links (threads s') b = links (threads s) b))"

lemma switch_to_idle:
  assumes inv: "sched_inv s rs ss zs" and old: "threads s (current_thread s) = Some old"
    and idle: "current_thread s \<noteq> idle_thread s" and f: "t_esp old = frame"
  shows "\<exists>r s' t. switch_to (idle_thread s) s = Inr (r, s') \<and> switched frame (idle_thread s) rs ss zs s (r, s')
     \<and> r = t_esp (the (threads s (idle_thread s)))
     \<and> threads s' (idle_thread s) = Some t \<and> t_state t = THREAD_RUNNING"
proof -
  have so: "states_ok (view (threads s)) (idle_thread s) (bootstrap_thread s) rs ss zs"
    using inv by (simp add: sched_inv_def)
  then obtain t where t: "threads s (idle_thread s) = Some t" by (auto simp: states_ok_def)
  note ok = states_okD [OF so t]
  have out: "idle_thread s \<notin> set rs \<union> set ss \<union> set zs" using so ok(5) by (simp add: states_ok_def)
  show ?thesis
    using switch_to_law [OF ok(1) t ok(2)] t old idle f
      sched_inv_current [OF sched_inv_set [OF inv t out, of "t\<lparr>t_state := THREAD_RUNNING\<rparr>"], of "idle_thread s"]
    by (auto simp: switched_def view_upd)
qed

lemma switch_to_ready:
  assumes inv: "sched_inv s (a # rs) ss zs" and old: "threads s (current_thread s) = Some old" and f: "t_esp old = frame"
  shows "\<exists>r s' t. bindE (ready_pop s) (\<lambda>(nxt, s2). switch_to nxt s2) = Inr (r, s') \<and> switched frame a rs ss zs s (r, s')
     \<and> r = t_esp (the (threads s a)) \<and> threads s' a = Some t \<and> t_state t = THREAD_RUNNING"
proof -
  have so: "states_ok (view (threads s)) (idle_thread s) (bootstrap_thread s) (a # rs) ss zs"
    and q: "queues_ok s (a # rs) ss zs" using inv by (simp_all add: sched_inv_def)
  obtain t where t: "threads s a = Some t" using queues_disjoint(4) [OF q so] by auto
  obtain s1 t1 where p: "ready_pop s = Inr (a, s1)" "threads s1 a = Some t1" "t_magic t1 = THREAD_MAGIC" "t_esp t1 = t_esp t"
    "a \<noteq> 0" "sched_inv (s1\<lparr>threads := (threads s1)(a \<mapsto> t1\<lparr>t_state := THREAD_RUNNING\<rparr>)\<rparr>) rs ss zs"
    "s1 = s\<lparr>ready := ready s1, threads := threads s1\<rparr>" "relinked (set (a # rs)) (threads s) (threads s1)"
    using run_first_ready [OF inv t] by blast
  have esp: "map_option t_esp (threads s1 b) = map_option t_esp (threads s b)" for b
  proof (cases "threads s b")
    case (Some u)
    then obtain n pv where "threads s1 b = Some (u\<lparr>t_next := n, t_prev := pv\<rparr>)" by (rule relinked_fields [OF p(8)])
    with Some show ?thesis by simp
  qed (use relinked_None [OF p(8)] in simp)
  have sel: "current_thread s1 = current_thread s" "scheduler_ticks s1 = scheduler_ticks s" "idle_thread s1 = idle_thread s"
    "bootstrap_thread s1 = bootstrap_thread s" "scheduler_initialized s1 = scheduler_initialized s" by (subst p(7), simp)+
  have esp_old: "map_option t_esp (threads s1 (current_thread s)) = Some frame" using esp [of "current_thread s"] old f by simp
  show ?thesis
    using p(1) switch_to_law [OF p(5,2,3)] p(4) esp_old relinked_view [OF p(8)] t sel sched_inv_current [OF p(6), of a] p(2)
      old f esp [THEN trans] links_outside [OF p(8)]
    by (cases "current_thread s = a") (simp_all add: switched_def view_upd del: map_option_eq_Some)
qed

lemma switched_before:
  assumes "switched frame a rs ss zs s1 x" and "current_thread s1 = current_thread s"
    "scheduler_ticks s1 = scheduler_ticks s" "idle_thread s1 = idle_thread s" "bootstrap_thread s1 = bootstrap_thread s"
    "scheduler_initialized s1 = scheduler_initialized s"
    and esp: "\<And>b. b \<noteq> current_thread s \<Longrightarrow> map_option t_esp (threads s1 b) = map_option t_esp (threads s b)"
    and v: "\<And>b. \<not> (b = current_thread s \<and> running s b) \<Longrightarrow> view (threads s1) b = view (threads s) b"
    and u: "\<And>b. b \<notin> insert a (set rs) \<Longrightarrow> \<not> (b = current_thread s \<and> running s b) \<Longrightarrow> links (threads s1) b = links (threads s) b"
  shows "switched frame a rs ss zs s x"
proof -
  have "\<not> (b = current_thread s1 \<and> running s1 b)" if "\<not> (b = current_thread s \<and> running s b)" for b
    using that v [OF that] assms(2) by (simp add: running_def)
  with assms show ?thesis by (auto simp: switched_def simp del: map_option_eq_Some)
qed

lemma relinked_esp: "relinked A st st' \<Longrightarrow> map_option t_esp (st' b) = map_option t_esp (st b)"
proof (cases "st b")
  case (Some u)
  assume r: "relinked A st st'"
  obtain n pv where "st' b = Some (u\<lparr>t_next := n, t_prev := pv\<rparr>)" by (rule relinked_fields [OF r Some])
  with Some show ?thesis by simp
qed (simp add: relinked_None)

lemma requeue_current:
  assumes inv: "sched_inv s rs ss zs" and old: "threads s (current_thread s) = Some old"
    and idle: "current_thread s \<noteq> idle_thread s" and run: "t_state old = THREAD_RUNNING"
  shows "\<exists>s'. ready_push (current_thread s) s = Inr s' \<and> sched_inv s' (rs @ [current_thread s]) ss zs
    \<and> s' = s\<lparr>ready := ready s', threads := threads s'\<rparr>
    \<and> (\<forall>b. map_option t_esp (threads s' b) = map_option t_esp (threads s b))
    \<and> (\<forall>b. b \<noteq> current_thread s \<longrightarrow> view (threads s') b = view (threads s) b)
    \<and> (\<forall>b. b \<notin> insert (current_thread s) (set rs) \<longrightarrow> links (threads s') b = links (threads s) b)"
proof -
  have so: "states_ok (view (threads s)) (idle_thread s) (bootstrap_thread s) rs ss zs"
    using inv by (simp add: sched_inv_def)
  have out: "current_thread s \<notin> set rs \<union> set ss \<union> set zs" using states_okD(3-5) [OF so old] run by auto
  obtain s' where p: "ready_push (current_thread s) s = Inr s'" "sched_inv s' (rs @ [current_thread s]) ss zs"
    "s' = s\<lparr>ready := ready s', threads := threads s'\<rparr>"
    and r: "relinked (insert (current_thread s) (set rs)) ((threads s)(current_thread s \<mapsto> old\<lparr>t_state := THREAD_READY\<rparr>)) (threads s')"
    using ready_push_inv [OF inv old out idle] by blast
  have "\<forall>b. map_option t_esp (threads s' b) = map_option t_esp (threads s b)"
    using relinked_esp [OF r] old by simp
  moreover have "\<forall>b. b \<noteq> current_thread s \<longrightarrow> view (threads s') b = view (threads s) b"
    using relinked_view [OF r] by (simp add: view_upd)
  moreover have "\<forall>b. b \<notin> insert (current_thread s) (set rs) \<longrightarrow> links (threads s') b = links (threads s) b"
    using links_outside [OF r] by auto
  ultimately show ?thesis using p by blast
qed

lemma requeue_and_switch:
  assumes inv: "sched_inv s (a # rs) ss zs" and old: "threads s (current_thread s) = Some old" and f: "t_esp old = frame"
  defines "keep \<equiv> current_thread s \<noteq> idle_thread s \<and> t_state old = THREAD_RUNNING"
  shows "\<exists>r s'. bindE (bindE (if keep then ready_push (current_thread s) s else Inr s) ready_pop) (\<lambda>(nxt, s2). switch_to nxt s2) = Inr (r, s')
     \<and> switched frame a (rs @ (if keep then [current_thread s] else [])) ss zs s (r, s')
     \<and> r = t_esp (the (threads s a)) \<and> map_option t_state (threads s' a) = Some THREAD_RUNNING"
proof -
  let ?c = "current_thread s" and ?kept = "if keep then [current_thread s] else []"
  obtain s2 where s2: "(if keep then ready_push ?c s else Inr s) = Inr s2" "sched_inv s2 (a # rs @ ?kept) ss zs"
    "s2 = s\<lparr>ready := ready s2, threads := threads s2\<rparr>" "\<forall>b. map_option t_esp (threads s2 b) = map_option t_esp (threads s b)"
    "\<forall>b. \<not> (b = ?c \<and> running s b) \<longrightarrow> view (threads s2) b = view (threads s) b"
    "\<forall>b. b \<notin> set (a # rs) \<and> \<not> (b = ?c \<and> running s b) \<longrightarrow> links (threads s2) b = links (threads s) b"
    using requeue_current [OF inv old] inv old by (cases keep) (auto simp: keep_def simp del: map_option_eq_Some)
  have sel2: "current_thread s2 = ?c" "scheduler_ticks s2 = scheduler_ticks s" "idle_thread s2 = idle_thread s"
    "bootstrap_thread s2 = bootstrap_thread s" "scheduler_initialized s2 = scheduler_initialized s" by (subst s2(3), simp)+
  obtain o2 where o2: "threads s2 ?c = Some o2" "t_esp o2 = frame" using s2(4) [rule_format, of ?c] old f by auto
  obtain r s' t where fin: "bindE (ready_pop s2) (\<lambda>(nxt, s2). switch_to nxt s2) = Inr (r, s')"
    "switched frame a (rs @ ?kept) ss zs s2 (r, s')" "r = t_esp (the (threads s2 a))" "threads s' a = Some t" "t_state t = THREAD_RUNNING"
    using switch_to_ready [OF s2(2), of o2 frame] o2 sel2 by auto
  have "switched frame a (rs @ ?kept) ss zs s (r, s')"
  proof (rule switched_before [OF fin(2) sel2])
    show "links (threads s2) b = links (threads s) b" if "b \<notin> insert a (set (rs @ ?kept))" "\<not> (b = ?c \<and> running s b)" for b
      using s2(6) that by auto
  qed (use s2(4,5) in blast)+
  moreover obtain u where "threads s2 a = Some u" using queues_disjoint(4) s2(2) by (force simp: sched_inv_def)
  then have "r = t_esp (the (threads s a))" using s2(4) [rule_format, of a] fin(3) by (cases "threads s a") auto
  ultimately show ?thesis using fin s2(1) by (intro exI [of _ r] exI [of _ s']) simp
qed

lemma schedule_pick_law:
  assumes inv: "sched_inv s rs ss zs" and init: "scheduler_initialized s" and f: "frame \<noteq> 0"
    and old: "threads s (current_thread s) = Some old"
  defines "kept \<equiv> if current_thread s \<noteq> idle_thread s \<and> t_state old = THREAD_RUNNING then [current_thread s] else []"
    and "goes_on \<equiv> rs = [] \<and> (current_thread s = idle_thread s \<or> t_state old = THREAD_RUNNING)"
  defines "a \<equiv> hd (rs @ kept @ [idle_thread s])"
  shows "\<exists>r s'. schedule_pick frame s = Inr (r, s') \<and> switched frame a (tl (rs @ kept)) ss zs s (r, s')
     \<and> r = (if goes_on then 0 else if a = current_thread s then frame else t_esp (the (threads s a)))
     \<and> (if goes_on then view (threads s') = view (threads s) else map_option t_state (threads s' a) = Some THREAD_RUNNING)"
proof -
  let ?c = "current_thread s"
  define s1 where "s1 = s\<lparr>threads := (threads s)(?c \<mapsto> old\<lparr>t_esp := frame\<rparr>)\<rparr>"
  have sel: "current_thread s1 = ?c" "scheduler_ticks s1 = scheduler_ticks s" "idle_thread s1 = idle_thread s"
    "bootstrap_thread s1 = bootstrap_thread s" "scheduler_initialized s1 = scheduler_initialized s" "ready s1 = ready s"
    "threads s1 = (threads s)(?c \<mapsto> old\<lparr>t_esp := frame\<rparr>)" by (simp_all add: s1_def)
  have inv1: "sched_inv s1 rs ss zs" unfolding s1_def by (rule sched_inv_esp [OF inv old])
  have so: "states_ok (view (threads s)) (idle_thread s) (bootstrap_thread s) rs ss zs" and q: "queues_ok s rs ss zs"
    using inv by (simp_all add: sched_inv_def)
  note ok = states_okD [OF so old]
  have head: "q_head (ready s) = 0 \<longleftrightarrow> rs = []"
    using q hd0_eq_0 by (auto simp: queues_ok_def queue_of_def)
  have pick: "schedule_pick frame s = (if goes_on then Inr (0, s1\<lparr>current_slice_ticks := 0, reschedule_requested := False\<rparr>)
      else bindE (if rs = [] then Inr (idle_thread s, s1)
           else bindE (if ?c \<noteq> idle_thread s \<and> t_state old = THREAD_RUNNING then ready_push ?c s1 else Inr s1) ready_pop)
         (\<lambda>(nxt, s2). switch_to nxt s2))"
    using f init old ok(1,2) by (simp add: schedule_pick_def validate_thread_def get_thread_def set_thread_Some sel
        head goes_on_def flip: s1_def)
  have v1: "view (threads s1) = view (threads s)" using old by (auto simp: sel view_upd fun_eq_iff)
  have old1: "threads s1 (current_thread s1) = Some (old\<lparr>t_esp := frame\<rparr>)" by (simp add: sel)
  have from_s1: "switched frame b xs ss zs s x" if "switched frame b xs ss zs s1 x" for b xs x
    by (rule switched_before [OF that]) (use old in \<open>simp_all add: sel v1 [unfolded sel]\<close>)
  show ?thesis
  proof (cases goes_on)
    case True
    then have "rs @ kept = [] \<and> a = idle_thread s \<and> ?c = idle_thread s \<or> rs @ kept = [?c] \<and> a = ?c"
      by (auto simp: goes_on_def kept_def a_def)
    then show ?thesis using True pick inv1 old
      by (auto simp: switched_def sel goes_on_def v1 [unfolded sel] simp flip: s1_def)
  next
    case nogo: False
    show ?thesis
    proof (cases "rs = []")
      case True
      with nogo have k: "kept = []" "a = idle_thread s" "?c \<noteq> idle_thread s" by (auto simp: goes_on_def kept_def a_def)
      from old1 obtain r s' t where fin: "switch_to (idle_thread s1) s1 = Inr (r, s')" "switched frame (idle_thread s1) rs ss zs s1 (r, s')"
        "r = t_esp (the (threads s1 (idle_thread s1)))" "threads s' (idle_thread s1) = Some t" "t_state t = THREAD_RUNNING"
        using switch_to_idle [OF inv1, of _ frame] k sel by auto
      then show ?thesis using pick nogo True k from_s1 [OF fin(2)] by (simp add: sel)
    next
      case False
      then have a: "rs = a # tl rs" "tl (rs @ kept) = tl rs @ kept" by (auto simp: a_def)
      then have "sched_inv s1 (a # tl rs) ss zs" using inv1 by simp
      note step = requeue_and_switch [OF this old1, of frame, simplified, unfolded sel(1,3)]
      have "schedule_pick frame s = bindE (bindE (if ?c \<noteq> idle_thread s \<and> t_state old = THREAD_RUNNING
          then ready_push ?c s1 else Inr s1) ready_pop) (\<lambda>(nxt, s2). switch_to nxt s2)"
        using pick nogo False by simp
      with step obtain r s' where
        fin: "schedule_pick frame s = Inr (r, s')" "switched frame a (tl rs @ kept) ss zs s1 (r, s')"
        "r = t_esp (the (threads s1 a))" "\<exists>t. threads s' a = Some t \<and> t_state t = THREAD_RUNNING"
        unfolding kept_def by (metis (no_types, lifting))
      then show ?thesis using nogo from_s1 [OF fin(2)] a(2) by (intro exI [of _ r] exI [of _ s']) (simp add: sel)
    qed
  qed
qed

section \<open>Blocking, waking, sleeping, exiting\<close>

lemma running_outside:
  assumes "sched_inv s rs ss zs" and "threads s a = Some t" and "t_state t \<notin> {THREAD_READY, THREAD_SLEEPING, THREAD_ZOMBIE}"
  shows "a \<notin> set rs \<union> set ss \<union> set zs" and "a \<noteq> 0" and "t_magic t = THREAD_MAGIC"
proof -
  have so: "states_ok (view (threads s)) (idle_thread s) (bootstrap_thread s) rs ss zs"
    using assms(1) by (simp add: sched_inv_def)
  show "a \<notin> set rs \<union> set ss \<union> set zs" "a \<noteq> 0" "t_magic t = THREAD_MAGIC"
    using states_okD [OF so assms(2)] assms(3) by auto
qed

lemma thread_block_current_law:
  assumes inv: "sched_inv s rs ss zs" and t: "threads s (current_thread s) = Some t" "t_state t = THREAD_RUNNING"
    and idle: "current_thread s \<noteq> idle_thread s"
  defines "s' \<equiv> s\<lparr>threads := (threads s)(current_thread s \<mapsto> t\<lparr>t_state := THREAD_BLOCKED\<rparr>), reschedule_requested := True\<rparr>"
  shows "thread_block_current s = Inr s'" and "sched_inv s' rs ss zs"
proof -
  note out = running_outside [OF inv t(1)]
  show "thread_block_current s = Inr s'"
    using out t idle by (simp add: thread_block_current_def validate_thread_def get_thread_def set_thread_Some s'_def Let_def)
  show "sched_inv s' rs ss zs"
    unfolding s'_def sched_inv_flags by (rule sched_inv_set [OF inv t(1)]) (use out t in simp_all)
qed

lemma thread_wake_law:
  assumes inv: "sched_inv s rs ss zs" and t: "threads s a = Some t" and idle: "idle_thread s = a \<Longrightarrow> t_state t \<noteq> THREAD_BLOCKED"
  shows "\<exists>s'. thread_wake a s = Inr s'
    \<and> sched_inv s' (if t_state t = THREAD_BLOCKED then rs @ [a] else rs) ss zs
    \<and> s' = s\<lparr>ready := ready s', threads := threads s', reschedule_requested := (t_state t = THREAD_BLOCKED \<or> reschedule_requested s)\<rparr>
    \<and> (\<forall>b. b \<noteq> a \<or> t_state t \<noteq> THREAD_BLOCKED \<longrightarrow> view (threads s') b = view (threads s) b)
    \<and> (\<forall>b. b \<notin> insert a (set rs) \<longrightarrow> threads s' b = threads s b)"
proof -
  have so: "states_ok (view (threads s)) (idle_thread s) (bootstrap_thread s) rs ss zs" using inv by (simp add: sched_inv_def)
  note ok = states_okD [OF so t]
  show ?thesis
  proof (cases "t_state t = THREAD_BLOCKED")
    case True
    then have out: "a \<notin> set rs \<union> set ss \<union> set zs" using running_outside [OF inv t] by simp
    obtain s1 where p: "ready_push a s = Inr s1" "sched_inv s1 (rs @ [a]) ss zs" "s1 = s\<lparr>ready := ready s1, threads := threads s1\<rparr>"
      "relinked (insert a (set rs)) ((threads s)(a \<mapsto> t\<lparr>t_state := THREAD_READY\<rparr>)) (threads s1)"
      using ready_push_inv [OF inv t out] idle True by blast
    have "view (threads s1) b = view (threads s) b" if "b \<noteq> a" for b
      using relinked_view [OF p(4)] that by (simp add: view_upd)
    moreover have "\<forall>b. b \<notin> insert a (set rs) \<longrightarrow> threads s1 b = threads s b" using relinked_outside [OF p(4)] by auto
    ultimately show ?thesis using p True t ok
      by (intro exI [of _ "s1\<lparr>reschedule_requested := True\<rparr>"], subst p(3))
         (simp add: thread_wake_def validate_thread_def get_thread_def)
  next
    case False
    then show ?thesis using inv t ok by (simp add: thread_wake_def validate_thread_def get_thread_def)
  qed
qed

lemma thread_start_law:
  assumes inv: "sched_inv s rs ss zs" and t: "threads s a = Some t" "t_state t = THREAD_NEW" and idle: "a \<noteq> idle_thread s"
  shows "\<exists>s'. thread_start a s = Inr s' \<and> sched_inv s' (rs @ [a]) ss zs
    \<and> s' = s\<lparr>ready := ready s', threads := threads s'\<rparr> \<and> (\<forall>b. b \<noteq> a \<longrightarrow> view (threads s') b = view (threads s) b)"
proof -
  note out = running_outside [OF inv t(1), simplified t(2), simplified]
  obtain s1 where p: "ready_push a s = Inr s1" "sched_inv s1 (rs @ [a]) ss zs" "s1 = s\<lparr>ready := ready s1, threads := threads s1\<rparr>"
    "relinked (insert a (set rs)) ((threads s)(a \<mapsto> t\<lparr>t_state := THREAD_READY\<rparr>)) (threads s1)"
    using ready_push_inv [OF inv t(1) _ idle] out by auto
  have "view (threads s1) b = view (threads s) b" if "b \<noteq> a" for b
    using relinked_view [OF p(4)] that by (simp add: view_upd)
  with p t out show ?thesis by (auto simp: thread_start_def validate_thread_def get_thread_def)
qed

lemma thread_exit_law:
  assumes inv: "sched_inv s rs ss zs" and t: "threads s (current_thread s) = Some t" "t_state t = THREAD_RUNNING"
    and idle: "current_thread s \<noteq> idle_thread s"
  defines "c \<equiv> current_thread s"
  shows "\<exists>s'. thread_exit s = Inr s' \<and> sched_inv s' rs ss (if c = bootstrap_thread s then zs else zs @ [c])
    \<and> view (threads s') = (view (threads s))(c \<mapsto> (THREAD_MAGIC, THREAD_ZOMBIE, t_wake_tick t))
    \<and> s' = s\<lparr>threads := threads s', zombies := zombies s',
              zombie_created_count := zombie_created_count s + 1, reschedule_requested := True\<rparr>"
proof -
  note out = running_outside [OF inv t(1), simplified t(2), simplified, folded c_def]
  let ?s1 = "s\<lparr>threads := (threads s)(c \<mapsto> t\<lparr>t_state := THREAD_ZOMBIE\<rparr>)\<rparr>"
  have set: "set_thread c (\<lambda>t. t\<lparr>t_state := THREAD_ZOMBIE\<rparr>) s = Inr ?s1" "validate_thread c (threads s) = Inr t"
    using t out by (simp_all add: set_thread_Some validate_thread_def get_thread_def c_def)
  show ?thesis
  proof (cases "c = bootstrap_thread s")
    case True
    have "sched_inv ?s1 rs ss zs" by (rule sched_inv_set [OF inv]) (use t out True in \<open>simp_all add: c_def\<close>)
    then show ?thesis using set True out
      by (simp add: thread_exit_def zombie_push_def view_upd flip: c_def)
  next
    case False
    have so: "states_ok (view (threads s)) (idle_thread s) (bootstrap_thread s) rs ss zs" and q: "queues_ok s rs ss zs"
      using inv by (simp_all add: sched_inv_def)
    have "queues_ok ?s1 rs ss zs" by (rule queues_ok_keep_links [OF q, of c t]) (use t in \<open>simp_all add: c_def\<close>)
    then obtain q' st where p: "zombie_push c ?s1 = Inr (?s1\<lparr>zombies := q', threads := st\<rparr>)"
      "queues_ok (?s1\<lparr>zombies := q', threads := st\<rparr>) rs ss (zs @ [c])" "relinked (insert c (set zs)) (threads ?s1) st"
      using zombie_push_queues [OF _ sched_inv_apart [OF inv], of ?s1 c "t\<lparr>t_state := THREAD_ZOMBIE\<rparr>"] out False idle
      by (auto simp: c_def)
    have v: "view st = (view (threads s))(c \<mapsto> (THREAD_MAGIC, THREAD_ZOMBIE, t_wake_tick t))"
      using relinked_view [OF p(3)] out by (simp add: view_upd)
    have "states_ok (view st) (idle_thread s) (bootstrap_thread s) rs ss (zs @ [c])"
      using so out False idle unfolding v states_ok_def by (auto simp: c_def)
    moreover have "current_thread s \<in> dom st" using inv v dom_view [of st] by (auto simp: sched_inv_def)
    moreover have "sleep_order (scheduler_ticks s) (view st) ss" using inv out by (simp add: v sched_inv_def)
    ultimately have "sched_inv (?s1\<lparr>zombies := q', threads := st\<rparr>) rs ss (zs @ [c])" using p(2) by (simp add: sched_inv_def)
    then show ?thesis using set p(1) False v by (simp add: thread_exit_def flip: c_def)
  qed
qed

lemma due_upd [simp]: "due now (v(a \<mapsto> (m, x, w))) b = (if b = a then unat (w - now) else due now v b)"
  by (simp add: due_def)

lemma sleep_order_insert:
  assumes "sleep_order now v ss" and "a \<notin> set ss" and "n < 2 ^ 31" and "unat (w - now) = n"
  shows "sleep_order now (v(a \<mapsto> (m, x, w)))
      (takeWhile (\<lambda>b. due now v b < n) ss @ a # dropWhile (\<lambda>b. due now v b < n) ss)"
proof -
  let ?as = "takeWhile (\<lambda>b. due now v b < n) ss" and ?bs = "dropWhile (\<lambda>b. due now v b < n) ss"
  have s: "sorted_wrt (\<lambda>a b. due now v a \<le> due now v b) (?as @ ?bs)" "\<forall>a\<in>set ss. due now v a < 2 ^ 31"
    using assms(1) by (simp_all add: sleep_order_def)
  have after: "n \<le> due now v b" if b: "b \<in> set ?bs" for b
  proof -
    obtain c cs where bs: "?bs = c # cs" by (rule list.set_cases [OF b])
    then have "\<not> due now v c < n" using hd_dropWhile [of "\<lambda>b. due now v b < n" ss] by auto
    with s(1) bs b show ?thesis by (auto simp: sorted_wrt_append)
  qed
  have mem: "b \<in> set ss" if "b \<in> set ?as \<or> b \<in> set ?bs" for b
    using that by (meson set_takeWhileD set_dropWhileD)
  let ?d = "due now (v(a \<mapsto> (m, x, w)))"
  have d: "?d b = due now v b" if "b \<in> set ?as \<or> b \<in> set ?bs" for b using mem [OF that] assms(2) by auto
  have da: "?d a = n" using assms(4) by simp
  have before: "due now v b < n" if "b \<in> set ?as" for b using set_takeWhileD [OF that] by blast
  have "sorted_wrt (\<lambda>a b. ?d a \<le> ?d b) ?as" "sorted_wrt (\<lambda>a b. ?d a \<le> ?d b) ?bs"
    using s(1) d unfolding sorted_wrt_append by (blast intro: sorted_wrt_mono_rel [rotated] ord_eq_le_trans ord_le_eq_trans sym)+
  moreover have "?d b \<le> ?d c" if "b \<in> set ?as" "c \<in> set (a # ?bs)" for b c
  proof (cases "c = a")
    case True
    then show ?thesis using before [OF that(1)] d [OF disjI1 [OF that(1)]] da by simp
  next
    case False
    then have c: "c \<in> set ?bs" using that(2) by simp
    then have "due now v b \<le> due now v c" using s(1) that(1) unfolding sorted_wrt_append by blast
    then show ?thesis using d [OF disjI1 [OF that(1)]] d [OF disjI2 [OF c]] by linarith
  qed
  moreover have "?d a \<le> ?d c" if "c \<in> set ?bs" for c using after [OF that] d [OF disjI2 [OF that]] da by linarith
  ultimately have "sorted_wrt (\<lambda>a b. ?d a \<le> ?d b) (?as @ a # ?bs)" unfolding sorted_wrt_append by simp
  moreover have "\<forall>b\<in>set (?as @ a # ?bs). ?d b < 2 ^ 31" 
  proof
    fix b assume "b \<in> set (?as @ a # ?bs)"
    then consider "b = a" | "b \<in> set ?as \<or> b \<in> set ?bs" by auto
    then show "?d b < 2 ^ 31"
    proof cases
      case 2
      then show ?thesis using d [OF 2] mem [OF 2] s(2) by metis
    qed (use da assms(3) in simp)
  qed
  ultimately show ?thesis unfolding sleep_order_def by blast
qed

lemma sleep_insert_sorted:
  assumes q: "queues_ok s rs ss zs" and c: "c \<notin> set ss" "c \<noteq> 0" "threads s c = Some t" "t_magic t = THREAD_MAGIC"
    and order: "sleep_order now (view (threads s)) ss" and n: "unat (t_wake_tick t - now) < 2 ^ 31"
  defines "early \<equiv> \<lambda>b. due now (view (threads s)) b < unat (t_wake_tick t - now)"
  shows "\<exists>q' st. sleep_insert c s = Some (Inr (s\<lparr>threads := st, sleeping := q'\<rparr>))
    \<and> queue_of st (q_head q') (q_tail q') (takeWhile early ss @ c # dropWhile early ss)
    \<and> relinked (insert c (set ss)) ((threads s)(c \<mapsto> t\<lparr>t_state := THREAD_SLEEPING\<rparr>)) st"
proof -
  let ?as = "takeWhile early ss" and ?bs = "dropWhile early ss"
  have sub: "set ?as \<subseteq> set ss" "set ?bs \<subseteq> set ss" by (auto dest: set_takeWhileD set_dropWhileD)
  have cmp: "tick_reached (t_wake_tick u) (t_wake_tick t) \<longleftrightarrow> \<not> early x" if "x \<in> set ss" "threads s x = Some u" for x u
    using order that n tick_reached_order [of "t_wake_tick u" now "t_wake_tick t"]
    by (auto simp: sleep_order_def early_def due_def)
  have "\<exists>q' st. sleep_insert c s = Some (Inr (s\<lparr>threads := st, sleeping := q'\<rparr>))
    \<and> queue_of st (q_head q') (q_tail q') (?as @ c # ?bs)
    \<and> relinked (insert c (set (?as @ ?bs))) ((threads s)(c \<mapsto> t\<lparr>t_state := THREAD_SLEEPING\<rparr>)) st"
  proof (rule sleep_insert_list)
    show "queue_of (threads s) (q_head (sleeping s)) (q_tail (sleeping s)) (?as @ ?bs)"
      using q by (simp add: queues_ok_def)
    show "\<not> tick_reached (t_wake_tick u) (t_wake_tick t)" if "x \<in> set ?as" "threads s x = Some u" for x u
      using that sub cmp [of x u] by (auto dest!: set_takeWhileD)
    show "tick_reached (t_wake_tick u) (t_wake_tick t)" if "?bs \<noteq> []" "threads s (hd ?bs) = Some u" for u
    proof -
      have "hd ?bs \<in> set ss" using that(1) sub hd_in_set by blast
      then show ?thesis using that cmp [of "hd ?bs" u] hd_dropWhile [OF that(1)] by auto
    qed
  qed (use c sub in auto)
  then show ?thesis by simp
qed

lemma thread_sleep_ticks_law:
  assumes inv: "sched_inv s rs ss zs" and t: "threads s (current_thread s) = Some t" "t_state t = THREAD_RUNNING"
    and idle: "current_thread s \<noteq> idle_thread s" and n: "n \<noteq> 0" "unat n < 2 ^ 31"
  defines "early \<equiv> \<lambda>b. due (scheduler_ticks s) (view (threads s)) b < unat n" and "c \<equiv> current_thread s"
  shows "\<exists>s'. thread_sleep_ticks n True s = Some (Inr (True, s'))
    \<and> sched_inv s' rs (takeWhile early ss @ c # dropWhile early ss) zs
    \<and> view (threads s') = (view (threads s))(c \<mapsto> (THREAD_MAGIC, THREAD_SLEEPING, scheduler_ticks s + n))
    \<and> s' = s\<lparr>threads := threads s', sleeping := sleeping s', reschedule_requested := True\<rparr>"
proof -
  note out = running_outside [OF inv t(1), simplified t(2), simplified, folded c_def]
  let ?now = "scheduler_ticks s" and ?v = "view (threads s)" and ?ss = "takeWhile early ss @ c # dropWhile early ss"
  let ?t = "t\<lparr>t_wake_tick := ?now + n\<rparr>"
  define s1 where "s1 = s\<lparr>threads := (threads s)(c \<mapsto> ?t)\<rparr>"
  have so: "states_ok ?v (idle_thread s) (bootstrap_thread s) rs ss zs" and order: "sleep_order ?now ?v ss"
    and q: "queues_ok s rs ss zs" using inv by (simp_all add: sched_inv_def)
  have q1: "queues_ok s1 rs ss zs"
    unfolding s1_def by (rule queues_ok_keep_links [OF q, of c t]) (use t in \<open>simp_all add: c_def\<close>)
  have early: "due ?now (view (threads s1)) b < unat n \<longleftrightarrow> early b" if "b \<in> set ss" for b
    using that out by (auto simp: early_def s1_def view_upd)
  then have tw: "takeWhile (\<lambda>b. due ?now (view (threads s1)) b < unat n) ss = takeWhile early ss"
    "dropWhile (\<lambda>b. due ?now (view (threads s1)) b < unat n) ss = dropWhile early ss"
    by (auto intro: takeWhile_cong dropWhile_cong)
  have "sleep_order ?now (view (threads s1)) ss" using order out by (simp add: s1_def view_upd)
  then obtain q' st where p: "sleep_insert c s1 = Some (Inr (s1\<lparr>threads := st, sleeping := q'\<rparr>))"
    "queue_of st (q_head q') (q_tail q') ?ss"
    "relinked (insert c (set ss)) ((threads s1)(c \<mapsto> ?t\<lparr>t_state := THREAD_SLEEPING\<rparr>)) st"
    using sleep_insert_sorted [OF q1, of c ?t ?now] out n by (auto simp: s1_def tw [unfolded s1_def, simplified])
  have v: "view st = ?v(c \<mapsto> (THREAD_MAGIC, THREAD_SLEEPING, ?now + n))"
    using relinked_view [OF p(3)] out by (simp add: s1_def view_upd)
  have keep: "queue_of st h e xs" if "queue_of (threads s1) h e xs" "insert c (set ss) \<inter> set xs = {}" for h e xs
    by (rule queue_of_relinked [OF queue_of_keep_links [OF that(1), of c ?t] p(3) that(2)]) (simp_all add: s1_def)
  have "set ss \<inter> set rs = {}" "set ss \<inter> set zs = {}" using sched_inv_apart [OF inv] by (auto simp: apart_def)
  moreover have "queue_of (threads s1) (q_head (ready s)) (q_tail (ready s)) rs"
    "queue_of (threads s1) (q_head (zombies s)) (q_tail (zombies s)) zs" using q1 by (simp_all add: queues_ok_def s1_def)
  ultimately have "queues_ok (s\<lparr>threads := st, sleeping := q'\<rparr>) rs ?ss zs"
    using p(2) keep out by (simp add: queues_ok_def)
  moreover have "set ?ss = insert c (set ss)" by (metis takeWhile_dropWhile_id set_append Un_insert_right list.simps(15))
  then have "states_ok (view st) (idle_thread s) (bootstrap_thread s) rs ?ss zs"
    using so out idle unfolding v states_ok_def by (auto simp: c_def)
  moreover have "sleep_order ?now (view st) ?ss"
    unfolding v early_def by (rule sleep_order_insert [OF order]) (use out n in simp_all)
  moreover have "current_thread s \<in> dom st" using inv v dom_view [of st] by (auto simp: sched_inv_def)
  ultimately have "sched_inv (s\<lparr>threads := st, sleeping := q'\<rparr>) rs ?ss zs" by (simp add: sched_inv_def)
  moreover have "thread_sleep_ticks n True s = Some (Inr (True, s\<lparr>threads := st, sleeping := q', reschedule_requested := True\<rparr>))"
    using n out t idle p(1) by (simp add: thread_sleep_ticks_def validate_thread_def get_thread_def set_thread_Some s1_def
        Let_def flip: c_def)
  ultimately show ?thesis using v
    by (intro exI [of _ "s\<lparr>threads := st, sleeping := q', reschedule_requested := True\<rparr>"]) simp
qed

section \<open>Interleavings\<close>

text \<open>
  The atomic steps of the scheduler in any order: timer ticks and scheduling interrupts at any
  time, the calls of the running thread, and wake-ups.
\<close>

datatype sched_op = Tick | Schedule u32 | Block | Wake u32 | Sleep u32 | Exit | Start u32

definition lift_res :: "sched res \<Rightarrow> sched res option" where
  "lift_res r = Some r"

fun run_op :: "sched_op \<Rightarrow> sched \<Rightarrow> sched res option" where
  "run_op Tick s = thread_on_timer_tick s"
| "run_op (Schedule frame) s = lift_res (bindE (schedule_pick frame s) (\<lambda>(_, s'). Inr s'))"
| "run_op Block s = lift_res (thread_block_current s)"
| "run_op (Wake a) s = lift_res (thread_wake a s)"
| "run_op (Sleep n) s = bindO (thread_sleep_ticks n True s) (\<lambda>(_, s'). lift_res (Inr s'))"
| "run_op Exit s = lift_res (thread_exit s)"
| "run_op (Start a) s = lift_res (thread_start a s)"

definition state_of :: "sched \<Rightarrow> u32 \<Rightarrow> thread_state option" where
  "state_of s a = map_option t_state (threads s a)"

text \<open>
  When the code may take a step: a thread calls in only while it runs, the idle thread neither
  blocks, sleeps nor exits, and no thread sleeps for \<open>2^31\<close> ticks or more.
\<close>

fun enabled :: "sched_op \<Rightarrow> sched \<Rightarrow> bool" where
  "enabled Tick s \<longleftrightarrow> True"
| "enabled (Schedule frame) s \<longleftrightarrow> frame \<noteq> 0"
| "enabled Block s \<longleftrightarrow> state_of s (current_thread s) = Some THREAD_RUNNING \<and> current_thread s \<noteq> idle_thread s"
| "enabled (Wake a) s \<longleftrightarrow> state_of s a \<noteq> None \<and> a \<noteq> idle_thread s"
| "enabled (Sleep n) s \<longleftrightarrow> state_of s (current_thread s) = Some THREAD_RUNNING \<and> current_thread s \<noteq> idle_thread s
     \<and> n \<noteq> 0 \<and> unat n < 2 ^ 31"
| "enabled Exit s \<longleftrightarrow> state_of s (current_thread s) = Some THREAD_RUNNING \<and> current_thread s \<noteq> idle_thread s"
| "enabled (Start a) s \<longleftrightarrow> state_of s a = Some THREAD_NEW \<and> a \<noteq> idle_thread s"

definition sched_ok :: "sched \<Rightarrow> u32 list \<Rightarrow> u32 list \<Rightarrow> u32 list \<Rightarrow> bool" where
  "sched_ok s rs ss zs \<longleftrightarrow> sched_inv s rs ss zs \<and> scheduler_initialized s
     \<and> (\<forall>a\<in>set ss. 1 \<le> due (scheduler_ticks s) (view (threads s)) a)"

definition remaining :: "sched \<Rightarrow> u32 \<Rightarrow> nat" where
  "remaining s a = due (scheduler_ticks s) (view (threads s)) a"

lemma state_of_ready: "sched_inv s rs ss zs \<Longrightarrow> a \<in> set rs \<Longrightarrow> state_of s a = Some THREAD_READY"
  and state_of_sleeping: "sched_inv s rs ss zs \<Longrightarrow> state_of s a = Some THREAD_SLEEPING \<longleftrightarrow> a \<in> set ss"
proof -
  assume inv: "sched_inv s rs ss zs"
  then have so: "states_ok (view (threads s)) (idle_thread s) (bootstrap_thread s) rs ss zs" and q: "queues_ok s rs ss zs"
    by (simp_all add: sched_inv_def)
  have dom: "\<exists>t. threads s a = Some t" if "a \<in> set rs \<or> a \<in> set ss" using that queues_disjoint(4) [OF q so] by auto
  show "a \<in> set rs \<Longrightarrow> state_of s a = Some THREAD_READY" using dom states_okD(3) [OF so] by (auto simp: state_of_def)
  show "state_of s a = Some THREAD_SLEEPING \<longleftrightarrow> a \<in> set ss" using dom states_okD(4) [OF so] by (auto simp: state_of_def)
qed

text \<open>A step keeps the invariant and shortens the sleeps by one exactly when it is a tick.\<close>

definition step_ok :: "sched_op \<Rightarrow> sched \<Rightarrow> u32 list \<Rightarrow> sched \<Rightarrow> u32 list \<Rightarrow> u32 list \<Rightarrow> u32 list \<Rightarrow> bool" where
  "step_ok op s ss s' rs' ss' zs' \<longleftrightarrow> sched_ok s' rs' ss' zs'
     \<and> (\<forall>a\<in>set ss. if op = Tick \<and> remaining s a = 1 then a \<in> set rs'
         else a \<in> set ss' \<and> remaining s' a = remaining s a - (if op = Tick then 1 else 0))"

lemma step_ok_view:
  assumes inv: "sched_inv s' rs' ss' zs'" and ok: "sched_ok s rs ss zs"
    and same: "\<And>a. a \<in> set ss \<Longrightarrow> view (threads s') a = view (threads s) a"
    and sel: "scheduler_ticks s' = scheduler_ticks s" "scheduler_initialized s' = scheduler_initialized s"
    and sub: "set ss \<subseteq> set ss'" and new: "\<And>a. a \<in> set ss' - set ss \<Longrightarrow> 1 \<le> remaining s' a" and op: "op \<noteq> Tick"
  shows "step_ok op s ss s' rs' ss' zs'"
proof -
  have r: "remaining s' a = remaining s a" if "a \<in> set ss" for a using same [OF that] sel by (simp add: remaining_def due_def)
  have "1 \<le> remaining s' a" if "a \<in> set ss'" for a
    using r [of a] new [of a] that ok by (cases "a \<in> set ss") (auto simp: sched_ok_def remaining_def)
  then show ?thesis using inv ok sel sub op r by (auto simp: step_ok_def sched_ok_def remaining_def)
qed

lemma state_ofD: "state_of s a = Some x \<Longrightarrow> \<exists>t. threads s a = Some t \<and> t_state t = x"
  by (auto simp: state_of_def)

lemma not_sleeping:
  assumes "sched_inv s rs ss zs" and "threads s c = Some t" and "t_state t \<noteq> THREAD_SLEEPING" and "a \<in> set ss"
  shows "a \<noteq> c"
  using state_of_sleeping [OF assms(1), of a] assms by (auto simp: state_of_def)

lemma run_tick:
  assumes ok: "sched_ok s rs ss zs"
  shows "\<exists>s' rs' ss' zs'. run_op Tick s = Some (Inr s') \<and> step_ok Tick s ss s' rs' ss' zs'"
proof -
  from ok have inv: "sched_inv s rs ss zs" "scheduler_initialized s"
    and pos: "\<forall>a\<in>set ss. 1 \<le> due (scheduler_ticks s) (view (threads s)) a" by (simp_all add: sched_ok_def)
  let ?d = "due (scheduler_ticks s) (view (threads s))"
  from thread_on_timer_tick_list [OF inv(1) pos inv(2)] obtain s' where
    s': "thread_on_timer_tick s = Some (Inr s')" "sched_inv s' (rs @ filter (\<lambda>a. ?d a = 1) ss) (filter (\<lambda>a. ?d a \<noteq> 1) ss) zs"
    "\<forall>a\<in>set ss. ?d a \<noteq> 1 \<longrightarrow> due (scheduler_ticks s') (view (threads s')) a = ?d a - 1" "scheduler_initialized s'"
    by blast
  have "1 \<le> ?d a - 1" if "a \<in> set ss" "?d a \<noteq> 1" for a using bspec [OF pos that(1)] that(2) by linarith
  then have "step_ok Tick s ss s' (rs @ filter (\<lambda>a. ?d a = 1) ss) (filter (\<lambda>a. ?d a \<noteq> 1) ss) zs"
    using s'(2,3,4) by (simp add: step_ok_def sched_ok_def remaining_def)
  with s'(1) show ?thesis unfolding run_op.simps by blast
qed

lemma run_schedule:
  assumes ok: "sched_ok s rs ss zs" and f: "frame \<noteq> 0"
  shows "\<exists>s' rs' ss' zs'. run_op (Schedule frame) s = Some (Inr s') \<and> step_ok (Schedule frame) s ss s' rs' ss' zs'"
proof -
  from ok have inv: "sched_inv s rs ss zs" "scheduler_initialized s" by (simp_all add: sched_ok_def)
  then obtain old where old: "threads s (current_thread s) = Some old" by (auto simp: sched_inv_def)
  define kept where "kept = (if current_thread s \<noteq> idle_thread s \<and> t_state old = THREAD_RUNNING then [current_thread s] else [])"
  obtain r s' where s': "schedule_pick frame s = Inr (r, s')"
    "switched frame (hd (rs @ kept @ [idle_thread s])) (tl (rs @ kept)) ss zs s (r, s')"
    using schedule_pick_law [OF inv f old] unfolding kept_def by blast
  have so: "states_ok (view (threads s)) (idle_thread s) (bootstrap_thread s) rs ss zs" using inv(1) by (simp add: sched_inv_def)
  have ne: "a \<noteq> hd (rs @ kept @ [idle_thread s]) \<and> \<not> (a = current_thread s \<and> running s a)" if a: "a \<in> set ss" for a
  proof -
    have "a \<notin> set rs" "a \<noteq> idle_thread s" using a sched_inv_apart [OF inv(1)] so by (auto simp: apart_def states_ok_def)
    moreover have "a \<noteq> current_thread s" if "t_state old = THREAD_RUNNING"
      using not_sleeping [OF inv(1) old _ a] that by simp
    ultimately show ?thesis using old by (cases rs) (auto simp: kept_def)
  qed
  have "step_ok (Schedule frame) s ss s' (tl (rs @ kept)) ss zs"
    by (rule step_ok_view [OF _ ok]) (use s'(2) ne in \<open>auto simp: switched_def\<close>)
  with s'(1) show ?thesis by (auto simp: lift_res_def)
qed

lemma run_block:
  assumes ok: "sched_ok s rs ss zs" and en: "enabled Block s"
  shows "\<exists>s' rs' ss' zs'. run_op Block s = Some (Inr s') \<and> step_ok Block s ss s' rs' ss' zs'"
proof -
  have inv: "sched_inv s rs ss zs" using ok by (simp add: sched_ok_def)
  obtain t where t: "threads s (current_thread s) = Some t" "t_state t = THREAD_RUNNING" and i: "current_thread s \<noteq> idle_thread s"
    using en state_ofD by fastforce
  note law = thread_block_current_law [OF inv t i]
  have "step_ok Block s ss (s\<lparr>threads := (threads s)(current_thread s \<mapsto> t\<lparr>t_state := THREAD_BLOCKED\<rparr>), reschedule_requested := True\<rparr>) rs ss zs"
    by (rule step_ok_view [OF law(2) ok]) (use not_sleeping [OF inv t(1)] t(2) in \<open>auto simp: view_upd\<close>)
  with law(1) show ?thesis by (auto simp: lift_res_def)
qed

lemma run_wake:
  assumes ok: "sched_ok s rs ss zs" and en: "enabled (Wake a) s"
  shows "\<exists>s' rs' ss' zs'. run_op (Wake a) s = Some (Inr s') \<and> step_ok (Wake a) s ss s' rs' ss' zs'"
proof -
  have inv: "sched_inv s rs ss zs" using ok by (simp add: sched_ok_def)
  obtain t where t: "threads s a = Some t" and i: "a \<noteq> idle_thread s" using en by (auto simp: state_of_def)
  obtain s' where s': "thread_wake a s = Inr s'" "sched_inv s' (if t_state t = THREAD_BLOCKED then rs @ [a] else rs) ss zs"
    "s' = s\<lparr>ready := ready s', threads := threads s', reschedule_requested := (t_state t = THREAD_BLOCKED \<or> reschedule_requested s)\<rparr>"
    "\<forall>b. b \<noteq> a \<or> t_state t \<noteq> THREAD_BLOCKED \<longrightarrow> view (threads s') b = view (threads s) b"
    using thread_wake_law [OF inv t] i by blast
  have sel: "scheduler_ticks s' = scheduler_ticks s" "scheduler_initialized s' = scheduler_initialized s" by (subst s'(3), simp)+
  have "step_ok (Wake a) s ss s' (if t_state t = THREAD_BLOCKED then rs @ [a] else rs) ss zs"
  proof (rule step_ok_view [OF s'(2) ok])
    show "view (threads s') b = view (threads s) b" if "b \<in> set ss" for b
      using s'(4) not_sleeping [OF inv t _ that] by (cases "t_state t = THREAD_BLOCKED") auto
  qed (use sel in auto)
  with s'(1) show ?thesis by (auto simp: lift_res_def)
qed

lemma run_start:
  assumes ok: "sched_ok s rs ss zs" and en: "enabled (Start a) s"
  shows "\<exists>s' rs' ss' zs'. run_op (Start a) s = Some (Inr s') \<and> step_ok (Start a) s ss s' rs' ss' zs'"
proof -
  have inv: "sched_inv s rs ss zs" using ok by (simp add: sched_ok_def)
  obtain t where t: "threads s a = Some t" "t_state t = THREAD_NEW" and i: "a \<noteq> idle_thread s" using en state_ofD by fastforce
  obtain s' where s': "thread_start a s = Inr s'" "sched_inv s' (rs @ [a]) ss zs"
    "s' = s\<lparr>ready := ready s', threads := threads s'\<rparr>" "\<forall>b. b \<noteq> a \<longrightarrow> view (threads s') b = view (threads s) b"
    using thread_start_law [OF inv t i] by blast
  have sel: "scheduler_ticks s' = scheduler_ticks s" "scheduler_initialized s' = scheduler_initialized s" by (subst s'(3), simp)+
  have "step_ok (Start a) s ss s' (rs @ [a]) ss zs"
    by (rule step_ok_view [OF s'(2) ok]) (use s'(4) sel not_sleeping [OF inv t(1)] t(2) in auto)
  with s'(1) show ?thesis by (auto simp: lift_res_def)
qed

lemma run_exit:
  assumes ok: "sched_ok s rs ss zs" and en: "enabled Exit s"
  shows "\<exists>s' rs' ss' zs'. run_op Exit s = Some (Inr s') \<and> step_ok Exit s ss s' rs' ss' zs'"
proof -
  have inv: "sched_inv s rs ss zs" using ok by (simp add: sched_ok_def)
  obtain t where t: "threads s (current_thread s) = Some t" "t_state t = THREAD_RUNNING" and i: "current_thread s \<noteq> idle_thread s"
    using en state_ofD by fastforce
  obtain s' zs' where s': "thread_exit s = Inr s'" "sched_inv s' rs ss zs'"
    "view (threads s') = (view (threads s))(current_thread s \<mapsto> (THREAD_MAGIC, THREAD_ZOMBIE, t_wake_tick t))"
    "s' = s\<lparr>threads := threads s', zombies := zombies s', zombie_created_count := zombie_created_count s + 1, reschedule_requested := True\<rparr>"
    using thread_exit_law [OF inv t i] by blast
  have sel: "scheduler_ticks s' = scheduler_ticks s" "scheduler_initialized s' = scheduler_initialized s" by (subst s'(4), simp)+
  have "step_ok Exit s ss s' rs ss zs'"
    by (rule step_ok_view [OF s'(2) ok]) (use s'(3) sel not_sleeping [OF inv t(1)] t(2) in auto)
  with s'(1) show ?thesis by (auto simp: lift_res_def)
qed

lemma run_sleep:
  assumes ok: "sched_ok s rs ss zs" and en: "enabled (Sleep n) s"
  shows "\<exists>s' rs' ss' zs'. run_op (Sleep n) s = Some (Inr s') \<and> step_ok (Sleep n) s ss s' rs' ss' zs'
    \<and> state_of s' (current_thread s) = Some THREAD_SLEEPING \<and> remaining s' (current_thread s) = unat n"
proof -
  have inv: "sched_inv s rs ss zs" using ok by (simp add: sched_ok_def)
  obtain t where t: "threads s (current_thread s) = Some t" "t_state t = THREAD_RUNNING" and i: "current_thread s \<noteq> idle_thread s"
    and n: "n \<noteq> 0" "unat n < 2 ^ 31" using en state_ofD by fastforce
  let ?e = "\<lambda>b. due (scheduler_ticks s) (view (threads s)) b < unat n"
  let ?ss = "takeWhile ?e ss @ current_thread s # dropWhile ?e ss"
  obtain s' where s': "thread_sleep_ticks n True s = Some (Inr (True, s'))" "sched_inv s' rs ?ss zs"
    "view (threads s') = (view (threads s))(current_thread s \<mapsto> (THREAD_MAGIC, THREAD_SLEEPING, scheduler_ticks s + n))"
    "s' = s\<lparr>threads := threads s', sleeping := sleeping s', reschedule_requested := True\<rparr>"
    using thread_sleep_ticks_law [OF inv t i n] by blast
  have sel: "scheduler_ticks s' = scheduler_ticks s" "scheduler_initialized s' = scheduler_initialized s" by (subst s'(4), simp)+
  have set: "set ?ss = insert (current_thread s) (set ss)"
    by (metis takeWhile_dropWhile_id set_append Un_insert_right list.simps(15))
  have rem: "remaining s' (current_thread s) = unat n" by (simp add: remaining_def s'(3) sel)
  have "1 \<le> unat n" using n(1) by (simp add: Suc_le_eq unat_gt_0)
  then have "step_ok (Sleep n) s ss s' rs ?ss zs"

  proof (intro step_ok_view [OF s'(2) ok])
    show "1 \<le> remaining s' a" if "a \<in> set ?ss - set ss" for a
      using that rem \<open>1 \<le> unat n\<close> unfolding set by auto
    show "set ss \<subseteq> set ?ss" unfolding set by blast
  qed (use s'(3) sel not_sleeping [OF inv t(1)] t(2) in auto)
  moreover have "state_of s' (current_thread s) = Some THREAD_SLEEPING"
    using state_of_sleeping [OF s'(2)] set by auto
  ultimately show ?thesis using s'(1) rem unfolding run_op.simps lift_res_def by fastforce
qed

lemma run_op_law:
  assumes "sched_ok s rs ss zs" and "enabled op s"
  shows "\<exists>s' rs' ss' zs'. run_op op s = Some (Inr s') \<and> step_ok op s ss s' rs' ss' zs'"
proof (cases op)
  case (Sleep n)
  then show ?thesis using run_sleep [OF assms(1), of n] assms(2) by blast
qed (use assms run_tick run_schedule run_block run_wake run_start run_exit in \<open>simp_all only: enabled.simps\<close>, (blast | fastforce)+)

fun run_ops :: "sched_op list \<Rightarrow> sched \<Rightarrow> sched res option" where
  "run_ops [] s = Some (Inr s)"
| "run_ops (op # ops) s = bindO (run_op op s) (run_ops ops)"

fun enabled_ops :: "sched_op list \<Rightarrow> sched \<Rightarrow> bool" where
  "enabled_ops [] s \<longleftrightarrow> True"
| "enabled_ops (op # ops) s \<longleftrightarrow> enabled op s \<and> (\<forall>s'. run_op op s = Some (Inr s') \<longrightarrow> enabled_ops ops s')"

lemma run_ops_ok:
  assumes "sched_ok s rs ss zs" and "enabled_ops ops s"
  shows "\<exists>s' rs' ss' zs'. run_ops ops s = Some (Inr s') \<and> sched_ok s' rs' ss' zs'"
  using assms
proof (induction ops arbitrary: s rs ss zs)
  case (Cons op ops)
  then obtain s1 rs1 ss1 zs1 where "run_op op s = Some (Inr s1)" "step_ok op s ss s1 rs1 ss1 zs1"
    using run_op_law [of s rs ss zs op] by auto
  with Cons.prems(2) Cons.IH [of s1 rs1 ss1 zs1] show ?case by (auto simp: step_ok_def)
qed auto

lemma run_ops_sleeping:
  assumes "sched_ok s rs ss zs" and "enabled_ops ops s" and "a \<in> set ss"
    and "length (filter ((=) Tick) ops) < remaining s a"
  shows "\<exists>s' rs' ss' zs'. run_ops ops s = Some (Inr s') \<and> sched_ok s' rs' ss' zs' \<and> a \<in> set ss'
    \<and> remaining s' a = remaining s a - length (filter ((=) Tick) ops)"
  using assms
proof (induction ops arbitrary: s rs ss zs)
  case (Cons op ops)
  then obtain s1 rs1 ss1 zs1 where op: "run_op op s = Some (Inr s1)" "step_ok op s ss s1 rs1 ss1 zs1"
    using run_op_law [of s rs ss zs op] by auto
  have "\<not> (op = Tick \<and> remaining s a = 1)" using Cons.prems(4) by (auto split: if_splits)
  with op(2) Cons.prems(3) have s1: "sched_ok s1 rs1 ss1 zs1" "a \<in> set ss1"
    "remaining s1 a = remaining s a - (if op = Tick then 1 else 0)" by (auto simp: step_ok_def)
  moreover have "enabled_ops ops s1" using Cons.prems(2) op(1) by simp
  moreover have "length (filter ((=) Tick) ops) < remaining s1 a" using Cons.prems(4) s1(3) by (auto split: if_splits)
  ultimately obtain s' rs' ss' zs' where "run_ops ops s1 = Some (Inr s')" "sched_ok s' rs' ss' zs'" "a \<in> set ss'"
    "remaining s' a = remaining s1 a - length (filter ((=) Tick) ops)" using Cons.IH [of s1 rs1 ss1 zs1] by blast
  then show ?case using op(1) s1(3) by (intro exI [of _ s']) auto
qed auto

lemma enabled_ops_append: "enabled_ops (xs @ ys) s \<Longrightarrow> enabled_ops xs s"
  by (induction xs arbitrary: s) auto

definition sample_sched :: sched where
  "sample_sched = \<lparr>threads = [16 \<mapsto> sample_thread\<lparr>t_state := THREAD_RUNNING\<rparr>, 32 \<mapsto> sample_thread\<lparr>t_state := THREAD_RUNNING\<rparr>],
     bootstrap_thread = 32, idle_thread = 16, current_thread = 32, ready = \<lparr>q_head = 0, q_tail = 0\<rparr>,
     sleeping = \<lparr>q_head = 0, q_tail = 0\<rparr>, zombies = \<lparr>q_head = 0, q_tail = 0\<rparr>, next_thread_id = 3,
     zombie_created_count = 0, zombie_reaped_count = 0, scheduler_initialized = True, preemption_enabled = True,
     ticks_per_slice = 1, current_slice_ticks = 0, reschedule_requested = False, scheduler_ticks = 0xFFFFFFFF, tss_esp0 = 0\<rparr>"

lemma sample_sched_ok: "sched_ok sample_sched [] [] []"
  by (auto simp: sched_ok_def sample_sched_def sched_inv_def queues_ok_def queue_of_def states_ok_def sleep_order_def
      view_def sample_thread_def split: if_splits)

text \<open>
  C15. Whatever the order of timer ticks, scheduling interrupts, blocking, waking, sleeping, exiting
  and starting threads, no step panics, faults or fails to return, and the scheduler's invariant
  holds after it: the three queues are well linked, a thread is on the ready, sleep or zombie queue
  exactly according to its state, and the sleep queue is ordered by time left with every time left
  positive.
\<close>

theorem scheduler_run_invariant:
  assumes "sched_ok s rs ss zs" and "enabled_ops ops s"
  shows "\<exists>s' rs' ss' zs'. run_ops ops s = Some (Inr s') \<and> sched_ok s' rs' ss' zs'"
  by (rule run_ops_ok [OF assms])

theorem scheduler_run_invariant_witness:
  "\<exists>s' rs' ss' zs'. run_ops [Block, Tick, Schedule 8, Tick] sample_sched = Some (Inr s') \<and> sched_ok s' rs' ss' zs'"
  by (rule scheduler_run_invariant [OF sample_sched_ok]) (simp add: sample_sched_def state_of_def sample_thread_def)

text \<open>
  C16. A thread that sleeps for \<open>n\<close> ticks, \<open>0 < n < 2^31\<close>, is still asleep after any sequence of
  scheduler steps with \<open>n - 1\<close> timer ticks among them and is ready after the next tick; this holds
  across the wrap-around of the tick counter.
\<close>

theorem thread_sleep_wakes_on_time:
  assumes ok: "sched_ok s rs ss zs" and en: "enabled (Sleep n) s" and s1: "run_op (Sleep n) s = Some (Inr s1)"
    and ops: "enabled_ops (ops @ [Tick]) s1" and k: "Suc (length (filter ((=) Tick) ops)) = unat n"
  shows "\<exists>s2 s3. run_ops ops s1 = Some (Inr s2) \<and> state_of s2 (current_thread s) = Some THREAD_SLEEPING
    \<and> run_op Tick s2 = Some (Inr s3) \<and> state_of s3 (current_thread s) = Some THREAD_READY"
proof -
  obtain rs1 ss1 zs1 where 1: "sched_ok s1 rs1 ss1 zs1" "state_of s1 (current_thread s) = Some THREAD_SLEEPING"
    "remaining s1 (current_thread s) = unat n"
    using run_sleep [OF ok en] s1 by (auto simp: step_ok_def)
  then have "current_thread s \<in> set ss1" using state_of_sleeping by (auto simp: sched_ok_def)
  then obtain s2 rs2 ss2 zs2 where 2: "run_ops ops s1 = Some (Inr s2)" "sched_ok s2 rs2 ss2 zs2" "current_thread s \<in> set ss2"
    "remaining s2 (current_thread s) = 1"
    using run_ops_sleeping [OF 1(1) enabled_ops_append [OF ops]] 1(3) k by (metis add_diff_cancel_right' lessI plus_1_eq_Suc)
  then obtain s3 rs3 ss3 zs3 where 3: "run_op Tick s2 = Some (Inr s3)" "step_ok Tick s2 ss2 s3 rs3 ss3 zs3"
    using run_tick by blast
  then have "sched_inv s3 rs3 ss3 zs3" "current_thread s \<in> set rs3"
    using 2(3,4) by (auto simp: step_ok_def sched_ok_def)
  then have "state_of s3 (current_thread s) = Some THREAD_READY" by (rule state_of_ready)
  moreover have "state_of s2 (current_thread s) = Some THREAD_SLEEPING"
    using 2(2,3) state_of_sleeping by (auto simp: sched_ok_def)
  ultimately show ?thesis using 2(1) 3(1) by blast
qed

theorem thread_sleep_wakes_on_time_witness:
  "\<exists>s1 s2 s3. run_op (Sleep 3) sample_sched = Some (Inr s1) \<and> run_ops [Tick, Schedule 8, Tick] s1 = Some (Inr s2)
    \<and> state_of s2 32 = Some THREAD_SLEEPING \<and> run_op Tick s2 = Some (Inr s3) \<and> state_of s3 32 = Some THREAD_READY"
proof -
  have en: "enabled (Sleep 3) sample_sched" by (simp add: sample_sched_def state_of_def sample_thread_def)
  from run_sleep [OF sample_sched_ok this] obtain s1 where "run_op (Sleep 3) sample_sched = Some (Inr s1)" by blast
  with thread_sleep_wakes_on_time [OF sample_sched_ok en this, of "[Tick, Schedule 8, Tick]"]
  show ?thesis by (auto simp: sample_sched_def)
qed

text \<open>
  C17. Scheduling is round robin. The interrupted thread, if it was running and is not the idle
  thread, goes to the tail of the ready queue, and the head of that queue runs next, or the idle
  thread if it is empty; the interrupted thread goes on if it alone can run. The interrupted
  thread's stack pointer is saved, the result is the saved stack pointer of the thread chosen (0 to
  go on), and no other thread's state or wake-up time changes.
\<close>

theorem schedule_round_robin:
  assumes "sched_inv s rs ss zs" and "scheduler_initialized s" and "frame \<noteq> 0"
    and "threads s (current_thread s) = Some old"
  defines "kept \<equiv> if current_thread s \<noteq> idle_thread s \<and> t_state old = THREAD_RUNNING then [current_thread s] else []"
    and "goes_on \<equiv> rs = [] \<and> (current_thread s = idle_thread s \<or> t_state old = THREAD_RUNNING)"
  defines "a \<equiv> hd (rs @ kept @ [idle_thread s])"
  shows "\<exists>r s'. schedule_pick frame s = Inr (r, s') \<and> switched frame a (tl (rs @ kept)) ss zs s (r, s')
     \<and> r = (if goes_on then 0 else if a = current_thread s then frame else t_esp (the (threads s a)))
     \<and> (if goes_on then view (threads s') = view (threads s) else map_option t_state (threads s' a) = Some THREAD_RUNNING)"
  using schedule_pick_law [OF assms(1-4)] unfolding kept_def goes_on_def a_def .

theorem schedule_round_robin_witness:
  "\<exists>r s'. schedule_pick 8 sample_sched = Inr (r, s') \<and> switched 8 32 [] [] [] sample_sched (r, s') \<and> r = 0"
  using schedule_round_robin [of sample_sched "[]" "[]" "[]" 8] sample_sched_ok
  by (force simp: sched_ok_def sample_sched_def sample_thread_def)

end
