(* ===== verification/Byte_Memory.thy ===== *)
theory Byte_Memory
  imports Toyix_Prelude
begin

text \<open>
  Physical memory as a function from addresses to bytes, the 32-bit little-endian accesses the
  paging code makes, and the block routines of \<open>kernel/lib/mem.c\<close> (\<open>memset\<close>,
  \<open>memcpy\<close>, \<open>memmove\<close>, \<open>memcmp\<close>). A C loop over an index \<open>i\<close> from
  \<open>0\<close> to \<open>count - 1\<close> is a \<open>fold\<close> over \<open>[0..<unat count]\<close>; pointer arithmetic
  wraps at 32 bits. The lemmas give each routine a closed form, and frame rules for the entries
  of distinct page tables.
\<close>

type_synonym memory = "u32 \<Rightarrow> u8"

section \<open>The block routines of kernel/lib/mem.c\<close>

definition memset :: "memory \<Rightarrow> u32 \<Rightarrow> u32 \<Rightarrow> u32 \<Rightarrow> memory" where
  "memset m dest value count =
     fold (\<lambda>i m. m(dest + word_of_nat i := ucast value)) [0..<unat count] m"

definition copy_up :: "memory \<Rightarrow> u32 \<Rightarrow> u32 \<Rightarrow> nat list \<Rightarrow> memory" where
  "copy_up m d s is = fold (\<lambda>i m. m(d + word_of_nat i := m (s + word_of_nat i))) is m"

definition memcpy :: "memory \<Rightarrow> u32 \<Rightarrow> u32 \<Rightarrow> u32 \<Rightarrow> memory" where
  "memcpy m dest src count = copy_up m dest src [0..<unat count]"

definition memmove :: "memory \<Rightarrow> u32 \<Rightarrow> u32 \<Rightarrow> u32 \<Rightarrow> memory" where
  "memmove m dest src count =
     (if dest = src \<or> count = 0 then m
      else if dest < src then copy_up m dest src [0..<unat count]
      else copy_up m dest src (rev [0..<unat count]))"

fun memcmp_loop :: "memory \<Rightarrow> u32 \<Rightarrow> u32 \<Rightarrow> nat list \<Rightarrow> int" where
  "memcmp_loop m a b [] = 0"
| "memcmp_loop m a b (i # is) =
     (if m (a + word_of_nat i) \<noteq> m (b + word_of_nat i)
      then uint (m (a + word_of_nat i)) - uint (m (b + word_of_nat i))
      else memcmp_loop m a b is)"

definition memcmp :: "memory \<Rightarrow> u32 \<Rightarrow> u32 \<Rightarrow> u32 \<Rightarrow> int" where
  "memcmp m left right count = memcmp_loop m left right [0..<unat count]"

section \<open>32-bit accesses\<close>

definition load32 :: "memory \<Rightarrow> u32 \<Rightarrow> u32" where
  "load32 m a = ucast (m a) OR push_bit 8 (ucast (m (a + 1)))
     OR push_bit 16 (ucast (m (a + 2))) OR push_bit 24 (ucast (m (a + 3)))"

definition store32 :: "memory \<Rightarrow> u32 \<Rightarrow> u32 \<Rightarrow> memory" where
  "store32 m a v = m(a := ucast v, a + 1 := ucast (drop_bit 8 v),
     a + 2 := ucast (drop_bit 16 v), a + 3 := ucast (drop_bit 24 v))"

section \<open>Closed forms\<close>

lemma word_of_nat_eq_diff_iff:
  fixes x d :: u32
  assumes "i < 2 ^ 32"
  shows "x = d + word_of_nat i \<longleftrightarrow> unat (x - d) = i"
proof -
  have "x = d + word_of_nat i \<longleftrightarrow> x - d = word_of_nat i" by (auto simp: algebra_simps)
  also have "\<dots> \<longleftrightarrow> unat (x - d) = i"
    using assms by (auto simp: word_unat_eq_iff unat_of_nat take_bit_eq_mod)
  finally show ?thesis .
qed

lemma unat_le_u32: "k \<le> unat (n :: u32) \<Longrightarrow> k < 2 ^ 32"
  by (rule order_le_less_trans [of _ "unat n"]) simp_all

lemma memset_closed: "memset m d v n x = (if x - d < n then ucast v else m x)"
proof -
  have "fold (\<lambda>i m. m(d + word_of_nat i := ucast v)) [0..<k] m x =
      (if unat (x - d) < k then ucast v else m x)" if "k \<le> unat n" for k
    using that
  proof (induction k)
    case 0
    then show ?case by simp
  next
    case (Suc k)
    have "k < 2 ^ 32" using Suc.prems by (intro unat_le_u32 [of _ n]) simp
    from word_of_nat_eq_diff_iff [OF this, of x d] Suc show ?case
      by (auto simp: less_Suc_eq)
  qed
  then show ?thesis by (simp add: memset_def word_less_nat_alt)
qed

text \<open>
  Copying upwards is the simultaneous copy when no offset is read after it has been written:
  the destination lies below the source, or the two ranges do not meet. Copying downwards is
  the simultaneous copy when the destination lies above the source.
\<close>

lemma u32_plus_of_nat_eq_iff:
  fixes s d :: u32
  assumes "unat s + j < 2 ^ 32" and "unat d + i < 2 ^ 32"
  shows "s + word_of_nat j = d + word_of_nat i \<longleftrightarrow> unat s + j = unat d + i"
  using assms by (auto simp: word_unat_eq_iff unat_word_ariths unat_of_nat take_bit_eq_mod)

lemma copy_up_upwards:
  assumes "unat d + k \<le> 2 ^ 32" and "unat s + k \<le> 2 ^ 32" and "k < 2 ^ 32"
    and "unat d < unat s \<or> unat s + k \<le> unat d"
  shows "copy_up m d s [0..<k] x = (if unat (x - d) < k then m (s + (x - d)) else m x)"
  using assms
proof (induction k arbitrary: x)
  case 0
  then show ?case by (simp add: copy_up_def)
next
  case (Suc k)
  have IH: "copy_up m d s [0..<k] y = (if unat (y - d) < k then m (s + (y - d)) else m y)" for y
    using Suc by auto
  have k: "k < 2 ^ 32" using Suc.prems(3) by simp
  have "s + word_of_nat k \<noteq> d + word_of_nat i" if "i < k" for i
    using that Suc.prems by (auto simp: u32_plus_of_nat_eq_iff)
  then have "s + word_of_nat k \<noteq> d + word_of_nat (unat (s + word_of_nat k - d))"
    if "unat (s + word_of_nat k - d) < k"
    using that by blast
  then have "\<not> unat (s + word_of_nat k - d) < k" by auto
  then have src: "copy_up m d s [0..<k] (s + word_of_nat k) = m (s + word_of_nat k)"
    by (simp only: IH if_False)
  have "copy_up m d s [0..<Suc k] x =
      (if x = d + word_of_nat k then m (s + word_of_nat k) else copy_up m d s [0..<k] x)"
    using src by (simp add: copy_up_def)
  also have "\<dots> = (if unat (x - d) < Suc k then m (s + (x - d)) else m x)"
    using word_of_nat_eq_diff_iff [OF k, of x d] by (auto simp: IH less_Suc_eq)
  finally show ?case .
qed

lemma copy_up_downwards:
  assumes "unat d + k \<le> 2 ^ 32" and "unat s + k \<le> 2 ^ 32" and "k < 2 ^ 32" and "unat s < unat d"
  shows "copy_up m d s (rev [0..<k]) x = (if unat (x - d) < k then m (s + (x - d)) else m x)"
  using assms
proof (induction k arbitrary: m)
  case 0
  then show ?case by (simp add: copy_up_def)
next
  case (Suc k)
  let ?m = "m(d + word_of_nat k := m (s + word_of_nat k))"
  have k: "k < 2 ^ 32" using Suc.prems(3) by simp
  have "copy_up m d s (rev [0..<Suc k]) x = copy_up ?m d s (rev [0..<k]) x"
    by (simp add: copy_up_def)
  also have "\<dots> = (if unat (x - d) < k then ?m (s + (x - d)) else ?m x)"
    using Suc by auto
  also have "\<dots> = (if unat (x - d) < Suc k then m (s + (x - d)) else m x)"
  proof -
    have "s + (x - d) \<noteq> d + word_of_nat k" if "unat (x - d) < k"
    proof -
      have "s + word_of_nat (unat (x - d)) \<noteq> d + word_of_nat k"
        using that Suc.prems by (subst u32_plus_of_nat_eq_iff) auto
      then show ?thesis by simp
    qed
    then show ?thesis
      using word_of_nat_eq_diff_iff [OF k, of x d] by (auto simp: less_Suc_eq)
  qed
  finally show ?case .
qed

text \<open>\<open>memmove\<close> moves correctly for every overlap of the two ranges.\<close>

lemma memmove_closed:
  assumes "unat d + unat n \<le> 2 ^ 32" and "unat s + unat n \<le> 2 ^ 32"
  shows "memmove m d s n x = (if x - d < n then m (s + (x - d)) else m x)"
proof -
  have lt: "unat n < 2 ^ 32" by (rule unat_le_u32 [OF order_refl])
  consider "d = s \<or> n = 0" | "\<not> (d = s \<or> n = 0)" "unat d < unat s"
    | "\<not> (d = s \<or> n = 0)" "unat s < unat d"
    by (metis linorder_neqE_nat word_unat_eq_iff)
  then show ?thesis
  proof cases
    case 1
    then show ?thesis by (auto simp: memmove_def)
  next
    case 2
    with copy_up_upwards [OF assms lt] show ?thesis
      by (simp add: memmove_def word_less_nat_alt)
  next
    case 3
    with copy_up_downwards [OF assms lt] show ?thesis
      by (simp add: memmove_def word_less_nat_alt)
  qed
qed

text \<open>\<open>memcpy\<close> copies correctly when the ranges do not overlap.\<close>

lemma memcpy_closed:
  assumes "unat d + unat n \<le> 2 ^ 32" and "unat s + unat n \<le> 2 ^ 32"
    and "unat d + unat n \<le> unat s \<or> unat s + unat n \<le> unat d"
  shows "memcpy m d s n x = (if x - d < n then m (s + (x - d)) else m x)"
proof (cases "n = 0")
  case True
  then show ?thesis by (simp add: memcpy_def copy_up_def)
next
  case False
  then have "unat d < unat s \<or> unat s + unat n \<le> unat d"
    using assms(3) by (auto simp: unat_gt_0)
  from copy_up_upwards [OF assms(1,2) unat_le_u32 [OF order_refl] this] show ?thesis
    by (simp add: memcpy_def word_less_nat_alt)
qed

lemma memcmp_loop_0_iff:
  "memcmp_loop m a b is = 0 \<longleftrightarrow>
     (\<forall>i \<in> set is. m (a + word_of_nat i) = m (b + word_of_nat i))"
  by (induction "is") (auto simp: word_uint_eq_iff)

lemma memcmp_0_iff:
  "memcmp m a b n = 0 \<longleftrightarrow> (\<forall>i < unat n. m (a + word_of_nat i) = m (b + word_of_nat i))"
  by (auto simp: memcmp_def memcmp_loop_0_iff)

section \<open>Tables of 32-bit entries\<close>

text \<open>
  \<open>table[i]\<close> for a \<open>uint32_t *table\<close> at a physical address: the entries of page
  directories and page tables. Entries of distinct tables, and distinct entries of one table, do
  not overlap, so a write to one entry leaves the others alone.
\<close>

definition table_entry :: "memory \<Rightarrow> u32 \<Rightarrow> u32 \<Rightarrow> u32" where
  "table_entry m table i = load32 m (table + 4 * i)"

definition set_table_entry :: "memory \<Rightarrow> u32 \<Rightarrow> u32 \<Rightarrow> u32 \<Rightarrow> memory" where
  "set_table_entry m table i v = store32 m (table + 4 * i) v"

lemma load32_store32_same [simp]: "load32 (store32 m a v) a = v"
proof (rule bit_word_eqI)
  fix n assume n: "n < LENGTH(32)"
  let ?B = "\<lambda>k. k \<le> n \<and> n - k < 8 \<and> bit v n"
  have "bit (load32 (store32 m a v) a) n \<longleftrightarrow> ?B 0 \<or> ?B 8 \<or> ?B 16 \<or> ?B 24"
    using n by (auto simp: load32_def store32_def bit_or_iff bit_push_bit_iff bit_unsigned_iff
        bit_drop_bit_eq)
  also have "\<dots> \<longleftrightarrow> bit v n" using n by (simp, arith)
  finally show "bit (load32 (store32 m a v) a) n = bit v n" .
qed

lemma store32_other:
  "x \<noteq> a \<Longrightarrow> x \<noteq> a + 1 \<Longrightarrow> x \<noteq> a + 2 \<Longrightarrow> x \<noteq> a + 3 \<Longrightarrow> store32 m a v x = m x"
  by (simp add: store32_def)

lemma load32_cong:
  "m a = m' a \<Longrightarrow> m (a + 1) = m' (a + 1) \<Longrightarrow> m (a + 2) = m' (a + 2) \<Longrightarrow>
     m (a + 3) = m' (a + 3) \<Longrightarrow> load32 m a = load32 m' a"
  by (simp add: load32_def)

lemma unat_entry_byte:
  fixes p i k :: u32
  assumes "page_aligned p" and "i < 1024" and "k < 4"
  shows "unat (p + 4 * i + k) = unat p + 4 * unat i + unat k"
proof -
  obtain j where "unat p = 4096 * j" "j < 1048576" using assms(1) by (rule page_alignedE)
  then have p: "unat p \<le> 4294967296 - 4096" by simp
  have i: "unat i < 1024" and k: "unat k < 4" using assms(2,3) by (simp_all add: word_less_nat_alt)
  have "unat (4 * i) = 4 * unat i" using i by (simp add: unat_word_ariths)
  with p i k show ?thesis by (simp add: unat_word_ariths)
qed

lemma entry_bytes_disjoint:
  fixes p q i j k l :: u32
  assumes "page_aligned p" "page_aligned q" "i < 1024" "j < 1024" "k < 4" "l < 4"
    and "\<not> (p = q \<and> i = j)"
  shows "p + 4 * i + k \<noteq> q + 4 * j + l"
proof
  assume "p + 4 * i + k = q + 4 * j + l"
  then have eq: "unat p + 4 * unat i + unat k = unat q + 4 * unat j + unat l"
    using unat_entry_byte [OF assms(1,3,5)] unat_entry_byte [OF assms(2,4,6)] by simp
  have lt: "unat i < 1024" "unat j < 1024" "unat k < 4" "unat l < 4"
    using assms by (simp_all add: word_less_nat_alt)
  obtain a where "unat p = 4096 * a" using assms(1) by (rule page_alignedE)
  moreover obtain b where "unat q = 4096 * b" using assms(2) by (rule page_alignedE)
  ultimately have ab: "unat p = 4096 * a" "unat q = 4096 * b" by simp_all
  have "(4096 * a + (4 * unat i + unat k)) div 4096 = (4096 * b + (4 * unat j + unat l)) div 4096"
    using eq ab by (simp only: add.assoc)
  then have "a = b" using lt by simp
  have "(4 * unat i + unat k) div 4 = (4 * unat j + unat l) div 4"
    using eq ab \<open>a = b\<close> by (simp only: add.assoc add_left_cancel)
  then have "unat i = unat j" using lt by simp
  then show False using \<open>a = b\<close> assms(7) ab by (simp add: word_unat_eq_iff)
qed

lemma table_entry_set:
  assumes "page_aligned p" "page_aligned q" "i < 1024" "j < 1024"
  shows "table_entry (set_table_entry m p i v) q j =
    (if p = q \<and> i = j then v else table_entry m q j)"
proof (cases "p = q \<and> i = j")
  case True
  then show ?thesis by (simp add: table_entry_def set_table_entry_def)
next
  case False
  have "store32 m (p + 4 * i) v (q + 4 * j + l) = m (q + 4 * j + l)" if "l < 4" for l
  proof (rule store32_other)
    show "q + 4 * j + l \<noteq> p + 4 * i"
      using entry_bytes_disjoint [OF assms, of 0 l] that False by auto
    show "q + 4 * j + l \<noteq> p + 4 * i + 1"
      using entry_bytes_disjoint [OF assms, of 1 l] that False by auto
    show "q + 4 * j + l \<noteq> p + 4 * i + 2"
      using entry_bytes_disjoint [OF assms, of 2 l] that False by auto
    show "q + 4 * j + l \<noteq> p + 4 * i + 3"
      using entry_bytes_disjoint [OF assms, of 3 l] that False by auto
  qed
  note other = this
  have "load32 (store32 m (p + 4 * i) v) (q + 4 * j) = load32 m (q + 4 * j)"
    by (rule load32_cong) (use other [of 0] other [of 1] other [of 2] other [of 3] in simp_all)
  then show ?thesis unfolding table_entry_def set_table_entry_def using False by (simp only: if_False)
qed

text \<open>Clearing a page clears the entries of that table only.\<close>

lemma page_byte_diff:
  fixes p q i k :: u32
  assumes "page_aligned p" "page_aligned q" "i < 1024" "k < 4"
  shows "q + 4 * i + k - p < 4096 \<longleftrightarrow> q = p"
proof -
  have q: "unat (q + 4 * i + k) = unat q + 4 * unat i + unat k"
    by (rule unat_entry_byte [OF assms(2-4)])
  have lt: "unat i < 1024" "unat k < 4" using assms by (simp_all add: word_less_nat_alt)
  obtain a where a: "unat p = 4096 * a" "a < 1048576" using assms(1) by (rule page_alignedE)
  obtain b where b: "unat q = 4096 * b" "b < 1048576" using assms(2) by (rule page_alignedE)
  note ab = a(1) b(1)
  have "unat (q + 4 * i + k - p) < 4096 \<longleftrightarrow> a = b"
  proof (cases "a \<le> b")
    case True
    then have "unat (q + 4 * i + k - p) = 4096 * b + 4 * unat i + unat k - 4096 * a"
      unfolding unat_sub_if_size q ab by simp
    with True lt show ?thesis by linarith
  next
    case False
    then have "\<not> 4096 * a \<le> 4096 * b + 4 * unat i + unat k" using lt by linarith
    then have "unat (q + 4 * i + k - p) = 4096 * b + 4 * unat i + unat k + 2 ^ 32 - 4096 * a"
      unfolding unat_sub_if_size q ab word_size by simp
    with False a b show ?thesis by simp
  qed
  moreover have "a = b \<longleftrightarrow> q = p" using ab by (auto simp: word_unat_eq_iff)
  ultimately show ?thesis by (simp add: word_less_nat_alt)
qed

lemma table_entry_memset_page:
  assumes "page_aligned p" "page_aligned q" "i < 1024"
  shows "table_entry (memset m p 0 4096) q i = (if q = p then 0 else table_entry m q i)"
proof -
  have "memset m p 0 4096 (q + 4 * i + k) = (if q = p then 0 else m (q + 4 * i + k))"
    if "k < 4" for k
    using page_byte_diff [OF assms that] by (simp add: memset_closed)
  from this [of 0] this [of 1] this [of 2] this [of 3] show ?thesis
    by (simp add: table_entry_def load32_def)
qed

end
