(* ===== verification/Pmm.thy ===== *)
theory Pmm
  imports Byte_Memory
begin

text \<open>
  The physical memory manager, \<open>kernel/pmm.c\<close>: a bitmap with one bit per 4 KiB frame
  (set = used), five counters, the initialisation from the Multiboot memory map, and the page
  allocators. \<open>frame_bitmap\<close> is the C byte array as a function from index to byte. The
  Multiboot structures are read from memory at the offsets of \<open>arch/x86/multiboot.h\<close>; the
  linker symbols \<open>__kernel_start\<close> and \<open>__kernel_end\<close> are arguments. Console output is
  not part of the state.

  The lemmas show what each operation does to the set of free frames, that the counter
  \<open>free_frames\<close> always equals the size of that set, and what the allocators return.
\<close>

section \<open>State and bitmap\<close>

abbreviation (input) PMM_PAGE_SIZE :: u32 where "PMM_PAGE_SIZE \<equiv> 4096"
abbreviation (input) PMM_INVALID_PAGE :: u32 where "PMM_INVALID_PAGE \<equiv> 0"
abbreviation (input) PMM_MAX_FRAMES :: u32 where "PMM_MAX_FRAMES \<equiv> 1048576"
abbreviation (input) PMM_BITMAP_BYTES :: u32 where "PMM_BITMAP_BYTES \<equiv> 131072"

record pmm =
  frame_bitmap :: "u32 \<Rightarrow> u8"
  total_frames :: u32
  usable_frames :: u32
  reserved_frames :: u32
  free_frames :: u32
  highest_physical_addr :: u32

record pmm_stats =
  st_total_frames :: u32
  st_usable_frames :: u32
  st_reserved_frames :: u32
  st_free_frames :: u32
  st_used_frames :: u32
  st_highest_physical_addr :: u32

definition align_down_page :: "u32 \<Rightarrow> u32" where
  "align_down_page value = value AND NOT (PMM_PAGE_SIZE - 1)"

definition align_up_page :: "u32 \<Rightarrow> u32" where
  "align_up_page value = (value + PMM_PAGE_SIZE - 1) AND NOT (PMM_PAGE_SIZE - 1)"

definition frame_index_from_addr :: "u32 \<Rightarrow> u32" where
  "frame_index_from_addr physical_addr = physical_addr div PMM_PAGE_SIZE"

definition addr_from_frame_index :: "u32 \<Rightarrow> u32" where
  "addr_from_frame_index frame_index = frame_index * PMM_PAGE_SIZE"

definition bitmap_test :: "pmm \<Rightarrow> u32 \<Rightarrow> bool" where
  "bitmap_test s frame_index \<longleftrightarrow>
     (ucast (frame_bitmap s (frame_index div 8)) :: u32)
       AND push_bit (unat (frame_index mod 8)) 1 \<noteq> 0"

definition bitmap_set :: "pmm \<Rightarrow> u32 \<Rightarrow> pmm" where
  "bitmap_set s frame_index = s\<lparr>frame_bitmap := (frame_bitmap s)(frame_index div 8 :=
     ucast ((ucast (frame_bitmap s (frame_index div 8)) :: u32)
       OR push_bit (unat (frame_index mod 8)) 1))\<rparr>"

definition bitmap_clear :: "pmm \<Rightarrow> u32 \<Rightarrow> pmm" where
  "bitmap_clear s frame_index = s\<lparr>frame_bitmap := (frame_bitmap s)(frame_index div 8 :=
     ucast ((ucast (frame_bitmap s (frame_index div 8)) :: u32)
       AND NOT (push_bit (unat (frame_index mod 8)) 1)))\<rparr>"

definition mark_frame_used :: "u32 \<Rightarrow> pmm \<Rightarrow> pmm" where
  "mark_frame_used frame_index s =
     (if frame_index \<ge> PMM_MAX_FRAMES then s
      else if \<not> bitmap_test s frame_index then
        (let s1 = bitmap_set s frame_index in
         if free_frames s1 > 0 then s1\<lparr>free_frames := free_frames s1 - 1\<rparr> else s1)
      else s)"

definition mark_frame_free :: "u32 \<Rightarrow> pmm \<Rightarrow> pmm" where
  "mark_frame_free frame_index s =
     (if frame_index \<ge> PMM_MAX_FRAMES then s
      else if bitmap_test s frame_index then
        (let s1 = bitmap_clear s frame_index in s1\<lparr>free_frames := free_frames s1 + 1\<rparr>)
      else s)"

definition reserve_range :: "u32 \<Rightarrow> u32 \<Rightarrow> pmm \<Rightarrow> pmm" where
  "reserve_range start_addr end_addr =
     page_loop (\<lambda>addr. mark_frame_used (frame_index_from_addr addr))
       (align_down_page start_addr) (align_up_page end_addr)"

definition free_range :: "u32 \<Rightarrow> u32 \<Rightarrow> pmm \<Rightarrow> pmm" where
  "free_range start_addr end_addr =
     page_loop (\<lambda>addr. mark_frame_free (frame_index_from_addr addr))
       (align_up_page start_addr) (align_down_page end_addr)"

definition mark_all_frames_used :: "pmm \<Rightarrow> pmm" where
  "mark_all_frames_used s =
     (let s1 = fold (\<lambda>i s. s\<lparr>frame_bitmap := (frame_bitmap s)(word_of_nat i := 0xFF)\<rparr>)
                 [0..<unat PMM_BITMAP_BYTES] s
      in s1\<lparr>free_frames := 0\<rparr>)"

section \<open>Initialisation from the Multiboot memory map\<close>

abbreviation (input) MULTIBOOT_MEMORY_AVAILABLE :: u32 where "MULTIBOOT_MEMORY_AVAILABLE \<equiv> 1"
abbreviation (input) MULTIBOOT_INFO_MEM_MAP :: u32 where "MULTIBOOT_INFO_MEM_MAP \<equiv> 64"
abbreviation (input) SIZEOF_MULTIBOOT_INFO :: u32 where "SIZEOF_MULTIBOOT_INFO \<equiv> 52"

definition mbi_flags :: "memory \<Rightarrow> u32 \<Rightarrow> u32" where
  "mbi_flags m mbi = load32 m mbi"

definition mbi_mmap_length :: "memory \<Rightarrow> u32 \<Rightarrow> u32" where
  "mbi_mmap_length m mbi = load32 m (mbi + 44)"

definition mbi_mmap_addr :: "memory \<Rightarrow> u32 \<Rightarrow> u32" where
  "mbi_mmap_addr m mbi = load32 m (mbi + 48)"

record mmap_entry =
  e_size :: u32
  base_addr_low :: u32
  base_addr_high :: u32
  length_low :: u32
  length_high :: u32
  e_type :: u32

definition mmap_entry_at :: "memory \<Rightarrow> u32 \<Rightarrow> mmap_entry" where
  "mmap_entry_at m c = \<lparr>e_size = load32 m c, base_addr_low = load32 m (c + 4),
     base_addr_high = load32 m (c + 8), length_low = load32 m (c + 12),
     length_high = load32 m (c + 16), e_type = load32 m (c + 20)\<rparr>"

definition entry_base :: "mmap_entry \<Rightarrow> u64" where
  "entry_base e = push_bit 32 (ucast (base_addr_high e)) OR ucast (base_addr_low e)"

definition entry_length :: "mmap_entry \<Rightarrow> u64" where
  "entry_length e = push_bit 32 (ucast (length_high e)) OR ucast (length_low e)"

definition discover_entry :: "mmap_entry \<Rightarrow> pmm \<Rightarrow> pmm" where
  "discover_entry e s =
     (let base = entry_base e; length = entry_length e; end = base + length in
      if e_type e = MULTIBOOT_MEMORY_AVAILABLE then
        if base < 0x100000000 then
          (let usable_start = ucast base :: u32;
               usable_end = (if end > 0x100000000 then 0xFFFFFFFF else ucast end :: u32);
               s1 = free_range usable_start usable_end s;
               start_frame = frame_index_from_addr (align_up_page usable_start);
               end_frame = frame_index_from_addr (align_down_page usable_end);
               s2 = (if end_frame > start_frame
                     then s1\<lparr>usable_frames := usable_frames s1 + (end_frame - start_frame)\<rparr>
                     else s1)
           in if usable_end > highest_physical_addr s2
              then s2\<lparr>highest_physical_addr := usable_end\<rparr> else s2)
        else s
      else s)"

text \<open>
  The walk over the map advances by a length read from the map, so it may not end: \<^const>\<open>None\<close>
  is a walk that never returns.
\<close>

partial_function (option) discover_loop :: "memory \<Rightarrow> u32 \<Rightarrow> u32 \<Rightarrow> pmm \<Rightarrow> pmm option" where
  "discover_loop m cursor mmap_end s =
     (if cursor < mmap_end
      then discover_loop m (cursor + (e_size (mmap_entry_at m cursor) + 4)) mmap_end
             (discover_entry (mmap_entry_at m cursor) s)
      else Some s)"

definition discover_from_mmap :: "memory \<Rightarrow> u32 \<Rightarrow> pmm \<Rightarrow> pmm option" where
  "discover_from_mmap m mbi s =
     discover_loop m (mbi_mmap_addr m mbi) (mbi_mmap_addr m mbi + mbi_mmap_length m mbi) s"

definition reserve_kernel_and_boot_data :: "memory \<Rightarrow> u32 \<Rightarrow> u32 \<Rightarrow> u32 \<Rightarrow> pmm \<Rightarrow> pmm" where
  "reserve_kernel_and_boot_data m mbi kernel_start kernel_end s =
     (let s1 = reserve_range 0 0x100000 s;
          s2 = reserve_range kernel_start kernel_end s1;
          s3 = reserve_range mbi (mbi + SIZEOF_MULTIBOOT_INFO) s2
      in if mbi_flags m mbi AND MULTIBOOT_INFO_MEM_MAP \<noteq> 0
         then reserve_range (mbi_mmap_addr m mbi) (mbi_mmap_addr m mbi + mbi_mmap_length m mbi) s3
         else s3)"

definition pmm_init :: "memory \<Rightarrow> u32 \<Rightarrow> u32 \<Rightarrow> u32 \<Rightarrow> pmm \<Rightarrow> pmm res option" where
  "pmm_init m mbi kernel_start kernel_end s =
     (if mbi = 0 then Some (Inl (Panic ''pmm_init received null Multiboot info pointer''))
      else
        (let s1 = (mark_all_frames_used s)\<lparr>total_frames := PMM_MAX_FRAMES, usable_frames := 0,
                    reserved_frames := 0, highest_physical_addr := 0\<rparr>
         in if mbi_flags m mbi AND MULTIBOOT_INFO_MEM_MAP = 0
            then Some (Inl (Panic ''Multiboot memory map is missing''))
            else map_option (\<lambda>s2.
                   let s3 = reserve_kernel_and_boot_data m mbi kernel_start kernel_end s2
                   in Inr (s3\<lparr>reserved_frames := total_frames s3 - free_frames s3\<rparr>))
                 (discover_from_mmap m mbi s1)))"

section \<open>Allocation\<close>

text \<open>The loop \<open>for (frame = from; frame < max; ++frame) if (!bitmap_test(frame)) ...\<close>.\<close>

function scan_free :: "pmm \<Rightarrow> u32 \<Rightarrow> u32 \<Rightarrow> u32 option" where
  "scan_free s frame max_frame =
     (if frame < max_frame
      then if \<not> bitmap_test s frame then Some frame else scan_free s (frame + 1) max_frame
      else None)"
  by pat_completeness auto
termination
  by (relation "measure (\<lambda>(s, frame, max_frame). unat max_frame - unat frame)")
     (auto simp: unat_Suc_of_less word_less_nat_alt)

declare scan_free.simps [simp del]

definition pmm_alloc_page :: "pmm \<Rightarrow> u32 \<times> pmm" where
  "pmm_alloc_page s =
     (case scan_free s 256 PMM_MAX_FRAMES of
        Some frame \<Rightarrow> (addr_from_frame_index frame, mark_frame_used frame s)
      | None \<Rightarrow> (PMM_INVALID_PAGE, s))"

definition max_frame_below :: "u32 \<Rightarrow> u32" where
  "max_frame_below max_exclusive =
     (let max_frame = max_exclusive div PMM_PAGE_SIZE
      in if max_frame > PMM_MAX_FRAMES then PMM_MAX_FRAMES else max_frame)"

definition pmm_alloc_page_below :: "u32 \<Rightarrow> pmm \<Rightarrow> u32 \<times> pmm" where
  "pmm_alloc_page_below max_exclusive s =
     (case scan_free s 256 (max_frame_below max_exclusive) of
        Some frame \<Rightarrow> (addr_from_frame_index frame, mark_frame_used frame s)
      | None \<Rightarrow> (PMM_INVALID_PAGE, s))"

function scan_run :: "pmm \<Rightarrow> u32 \<Rightarrow> u32 \<Rightarrow> u32 \<Rightarrow> u32 \<Rightarrow> u32 \<Rightarrow> u32 option" where
  "scan_run s page_count frame max_frame run_start run_length =
     (if frame < max_frame
      then if \<not> bitmap_test s frame then
             (let run_start' = (if run_length = 0 then frame else run_start);
                  run_length' = run_length + 1
              in if run_length' = page_count then Some run_start'
                 else scan_run s page_count (frame + 1) max_frame run_start' run_length')
           else scan_run s page_count (frame + 1) max_frame 0 0
      else None)"
  by pat_completeness auto
termination
  by (relation "measure (\<lambda>(s, n, frame, max_frame, st, len). unat max_frame - unat frame)")
     (auto simp: unat_Suc_of_less word_less_nat_alt)

declare scan_run.simps [simp del]

definition pmm_alloc_contiguous_pages_below :: "u32 \<Rightarrow> u32 \<Rightarrow> pmm \<Rightarrow> u32 \<times> pmm" where
  "pmm_alloc_contiguous_pages_below page_count max_exclusive s =
     (if page_count = 0 then (PMM_INVALID_PAGE, s)
      else
        (case scan_run s page_count 256 (max_frame_below max_exclusive) 0 0 of
           Some run_start \<Rightarrow>
             (addr_from_frame_index run_start,
              fold (\<lambda>i. mark_frame_used (run_start + word_of_nat i)) [0..<unat page_count] s)
         | None \<Rightarrow> (PMM_INVALID_PAGE, s)))"

definition pmm_free_page :: "u32 \<Rightarrow> pmm \<Rightarrow> pmm res" where
  "pmm_free_page physical_addr s =
     (if physical_addr AND (PMM_PAGE_SIZE - 1) \<noteq> 0
      then Inl (Panic ''pmm_free_page received unaligned address'')
      else if physical_addr < 0x100000
      then Inl (Panic ''pmm_free_page attempted to free low memory'')
      else Inr (mark_frame_free (frame_index_from_addr physical_addr) s))"

definition pmm_get_stats :: "pmm \<Rightarrow> pmm_stats" where
  "pmm_get_stats s = \<lparr>st_total_frames = total_frames s, st_usable_frames = usable_frames s,
     st_reserved_frames = reserved_frames s, st_free_frames = free_frames s,
     st_used_frames = total_frames s - free_frames s,
     st_highest_physical_addr = highest_physical_addr s\<rparr>"

section \<open>Bitmap and counter\<close>

lemma bitmap_test_iff:
  "bitmap_test s f \<longleftrightarrow> bit (frame_bitmap s (f div 8)) (unat (f mod 8))"
proof -
  have "unat (f mod 8) < 8" by (simp add: unat_mod)
  then show ?thesis
    unfolding bitmap_test_def bit_iff_and_push_bit_not_eq_0 [symmetric]
    by (simp add: bit_ucast_iff)
qed

lemma bitmap_test_set [simp]: "bitmap_test (bitmap_set s f) g \<longleftrightarrow> g = f \<or> bitmap_test s g"
proof -
  have "unat (g mod 8) < 8" "unat (f mod 8) < 8" by (simp_all add: unat_mod)
  moreover have "g = f \<longleftrightarrow> g div 8 = f div 8 \<and> unat (g mod 8) = unat (f mod 8)"
    using word_div_mod_inject [of g 8 f] by (auto simp: word_unat_eq_iff [symmetric])
  ultimately show ?thesis
    by (auto simp: bitmap_test_iff bitmap_set_def bit_simps)
qed

lemma bitmap_test_clear [simp]: "bitmap_test (bitmap_clear s f) g \<longleftrightarrow> g \<noteq> f \<and> bitmap_test s g"
proof -
  have "unat (g mod 8) < 8" "unat (f mod 8) < 8" by (simp_all add: unat_mod)
  moreover have "g = f \<longleftrightarrow> g div 8 = f div 8 \<and> unat (g mod 8) = unat (f mod 8)"
    using word_div_mod_inject [of g 8 f] by (auto simp: word_unat_eq_iff [symmetric])
  ultimately show ?thesis
    by (auto simp: bitmap_test_iff bitmap_clear_def bit_simps)
qed

lemma bitmap_test_frame [simp]:
  "bitmap_test (s\<lparr>total_frames := a\<rparr>) f = bitmap_test s f"
  "bitmap_test (s\<lparr>usable_frames := a\<rparr>) f = bitmap_test s f"
  "bitmap_test (s\<lparr>reserved_frames := a\<rparr>) f = bitmap_test s f"
  "bitmap_test (s\<lparr>free_frames := a\<rparr>) f = bitmap_test s f"
  "bitmap_test (s\<lparr>highest_physical_addr := a\<rparr>) f = bitmap_test s f"
  by (simp_all add: bitmap_test_iff)

lemma free_frames_bitmap [simp]:
  "free_frames (bitmap_set s f) = free_frames s"
  "free_frames (bitmap_clear s f) = free_frames s"
  by (simp_all add: bitmap_set_def bitmap_clear_def)

text \<open>The frames the allocators may hand out, and the invariant of the manager.\<close>

definition free_set :: "pmm \<Rightarrow> u32 set" where
  "free_set s = {f. f < PMM_MAX_FRAMES \<and> \<not> bitmap_test s f}"

definition pmm_inv :: "pmm \<Rightarrow> bool" where
  "pmm_inv s \<longleftrightarrow> unat (free_frames s) = card (free_set s)"

lemma finite_free_set [simp]: "finite (free_set s)"
  by (rule finite_subset [OF subset_UNIV]) simp

lemma card_free_set_le: "card (free_set s) \<le> 1048576"
proof -
  have "unat ` free_set s \<subseteq> {0..<1048576}"
    by (auto simp: free_set_def word_less_nat_alt)
  from card_mono [OF _ this] have "card (unat ` free_set s) \<le> 1048576" by simp
  moreover have "card (unat ` free_set s) = card (free_set s)"
    by (rule card_image) (simp add: inj_on_def word_unat_eq_iff [symmetric])
  ultimately show ?thesis by simp
qed

lemma free_set_update [simp]:
  "free_set (s\<lparr>total_frames := a\<rparr>) = free_set s"
  "free_set (s\<lparr>usable_frames := a\<rparr>) = free_set s"
  "free_set (s\<lparr>reserved_frames := a\<rparr>) = free_set s"
  "free_set (s\<lparr>free_frames := a\<rparr>) = free_set s"
  "free_set (s\<lparr>highest_physical_addr := a\<rparr>) = free_set s"
  by (simp_all add: free_set_def)

lemma pmm_inv_update [simp]:
  "pmm_inv (s\<lparr>total_frames := a\<rparr>) = pmm_inv s"
  "pmm_inv (s\<lparr>usable_frames := a\<rparr>) = pmm_inv s"
  "pmm_inv (s\<lparr>reserved_frames := a\<rparr>) = pmm_inv s"
  "pmm_inv (s\<lparr>highest_physical_addr := a\<rparr>) = pmm_inv s"
  by (simp_all add: pmm_inv_def)

lemma free_set_mark_used [simp]: "free_set (mark_frame_used f s) = free_set s - {f}"
  by (auto simp: mark_frame_used_def Let_def free_set_def)

lemma free_set_mark_free [simp]:
  "free_set (mark_frame_free f s) = (if f < PMM_MAX_FRAMES then insert f (free_set s) else free_set s)"
  by (auto simp: mark_frame_free_def Let_def free_set_def)

lemma pmm_inv_mark_used [simp]:
  assumes "pmm_inv s" shows "pmm_inv (mark_frame_used f s)"
proof (cases "f \<in> free_set s")
  case True
  then have "card (free_set s) > 0" by (auto simp: card_gt_0_iff)
  with assms have pos: "free_frames s > 0" by (simp add: pmm_inv_def word_less_nat_alt)
  have "free_frames (mark_frame_used f s) = free_frames s - 1"
    using True pos by (auto simp: mark_frame_used_def Let_def free_set_def)
  moreover have "unat (free_frames s - 1) = unat (free_frames s) - 1"
    using pos by (subst unat_minus_one) auto
  ultimately show ?thesis using True assms by (simp add: pmm_inv_def)
next
  case False
  then have "mark_frame_used f s = s"
    by (auto simp: mark_frame_used_def free_set_def)
  with assms show ?thesis by simp
qed

lemma pmm_inv_mark_free [simp]:
  assumes "pmm_inv s" shows "pmm_inv (mark_frame_free f s)"
proof (cases "f < PMM_MAX_FRAMES \<and> f \<notin> free_set s")
  case True
  then have "free_frames (mark_frame_free f s) = free_frames s + 1"
    by (auto simp: mark_frame_free_def Let_def free_set_def)
  moreover have "unat (free_frames s + 1) = unat (free_frames s) + 1"
    using card_free_set_le [of s] assms by (simp add: pmm_inv_def unat_word_ariths)
  ultimately show ?thesis using True assms by (simp add: pmm_inv_def)
next
  case False
  then have "mark_frame_free f s = s"
    by (auto simp: mark_frame_free_def free_set_def)
  with assms show ?thesis by simp
qed

lemma mark_frame_frame [simp]:
  "total_frames (mark_frame_used f s) = total_frames s"
  "total_frames (mark_frame_free f s) = total_frames s"
  by (simp_all add: mark_frame_used_def mark_frame_free_def Let_def bitmap_set_def bitmap_clear_def)

lemma fold_mark_used [simp]:
  "free_set (fold (\<lambda>i. mark_frame_used (h i)) xs s) = free_set s - h ` set xs"
  "pmm_inv s \<Longrightarrow> pmm_inv (fold (\<lambda>i. mark_frame_used (h i)) xs s)"
  "total_frames (fold (\<lambda>i. mark_frame_used (h i)) xs s) = total_frames s"
  by (induction xs arbitrary: s) auto

lemma fold_mark_free:
  "(\<And>i. i \<in> set xs \<Longrightarrow> h i < PMM_MAX_FRAMES) \<Longrightarrow>
   free_set (fold (\<lambda>i. mark_frame_free (h i)) xs s) = free_set s \<union> h ` set xs"
  by (induction xs arbitrary: s) auto

lemma fold_mark_free_inv [simp]:
  "pmm_inv s \<Longrightarrow> pmm_inv (fold (\<lambda>i. mark_frame_free (h i)) xs s)"
  "total_frames (fold (\<lambda>i. mark_frame_free (h i)) xs s) = total_frames s"
  by (induction xs arbitrary: s) auto

section \<open>Ranges\<close>

lemma frame_index_less [simp]: "frame_index_from_addr a < PMM_MAX_FRAMES"
proof -
  have "unat a div 4096 < 1048576" by (rule less_mult_imp_div_less) simp
  then show ?thesis by (simp add: frame_index_from_addr_def word_less_nat_alt unat_div)
qed

lemma unat_align_down: "unat (align_down_page a) = unat a div 4096 * 4096"
  using unat_and_not_mask [of a 12] by (simp add: align_down_page_def u32_4095)

lemma aligned_align_down [simp]: "page_aligned (align_down_page a)"
  by (simp add: page_aligned_iff unat_align_down)

lemma align_up_eq: "align_up_page a = align_down_page (a + 4095)"
  by (simp add: align_up_page_def align_down_page_def algebra_simps)

lemma aligned_align_up [simp]: "page_aligned (align_up_page a)"
  by (simp add: align_up_eq)

lemma unat_align_up:
  "unat a \<le> 0xFFFFF000 \<Longrightarrow> unat (align_up_page a) = (unat a + 4095) div 4096 * 4096"
  by (simp add: align_up_eq unat_align_down unat_word_ariths)

lemma frame_of_addr_of_frame [simp]:
  assumes "f < PMM_MAX_FRAMES"
  shows "unat (addr_from_frame_index f) = unat f * 4096"
    and "frame_index_from_addr (addr_from_frame_index f) = f"
    and "page_aligned (addr_from_frame_index f)"
proof -
  have "unat f < 1048576" using assms by (simp add: word_less_nat_alt)
  then show *: "unat (addr_from_frame_index f) = unat f * 4096"
    by (simp add: addr_from_frame_index_def unat_word_ariths)
  then show "frame_index_from_addr (addr_from_frame_index f) = f"
    by (simp add: frame_index_from_addr_def word_unat_eq_iff unat_div)
  show "page_aligned (addr_from_frame_index f)" using * by (simp add: page_aligned_iff)
qed

lemma addr_of_frame_of_addr:
  assumes "page_aligned a" shows "addr_from_frame_index (frame_index_from_addr a) = a"
proof -
  from assms have "4096 dvd unat a" by (simp add: page_aligned_iff)
  then show ?thesis
    by (simp add: word_unat_eq_iff) (simp add: frame_index_from_addr_def unat_div)
qed

text \<open>The frames whose page lies in an address range.\<close>

definition frames_in :: "u32 \<Rightarrow> u32 \<Rightarrow> u32 set" where
  "frames_in a b = {f. f < PMM_MAX_FRAMES \<and> a \<le> addr_from_frame_index f \<and> addr_from_frame_index f < b}"

lemma frames_of_page_list:
  assumes "page_aligned a" and "page_aligned b"
  shows "frame_index_from_addr ` set (page_list a b) = frames_in a b"
proof -
  have "\<exists>p. f = frame_index_from_addr p \<and> page_aligned p \<and> a \<le> p \<and> p < b"
    if "f \<in> frames_in a b" for f
    using that by (intro exI [of _ "addr_from_frame_index f"]) (auto simp: frames_in_def)
  then show ?thesis
    unfolding set_page_list [OF assms]
    by (auto simp: frames_in_def addr_of_frame_of_addr)
qed

lemma free_set_reserve_range [simp]:
  "free_set (reserve_range a b s) = free_set s - frames_in (align_down_page a) (align_up_page b)"
  by (simp add: reserve_range_def page_loop_fold frames_of_page_list)

lemma reserve_range_inv [simp]:
  "pmm_inv s \<Longrightarrow> pmm_inv (reserve_range a b s)"
  "total_frames (reserve_range a b s) = total_frames s"
  by (simp_all add: reserve_range_def page_loop_fold)

lemma free_set_free_range [simp]:
  "free_set (free_range a b s) = free_set s \<union> frames_in (align_up_page a) (align_down_page b)"
  by (simp add: free_range_def page_loop_fold fold_mark_free frames_of_page_list)

lemma free_range_inv [simp]:
  "pmm_inv s \<Longrightarrow> pmm_inv (free_range a b s)"
  "total_frames (free_range a b s) = total_frames s"
  by (simp_all add: free_range_def page_loop_fold)

section \<open>Initialisation\<close>

lemma fold_bitmap_fill:
  "frame_bitmap (fold (\<lambda>i s. s\<lparr>frame_bitmap := (frame_bitmap s)(h i := v)\<rparr>) xs s) =
     (\<lambda>j. if j \<in> h ` set xs then v else frame_bitmap s j)"
  by (induction xs arbitrary: s) auto

lemma free_set_mark_all [simp]: "free_set (mark_all_frames_used s) = {}"
proof -
  have "bitmap_test (mark_all_frames_used s) f" if "f < PMM_MAX_FRAMES" for f
  proof -
    have "unat f < 1048576" using that by (simp add: word_less_nat_alt)
    then have "unat f div 8 < 131072" by simp
    then have "f div 8 \<in> word_of_nat ` set [0..<unat PMM_BITMAP_BYTES]"
      by (intro image_eqI [of _ _ "unat (f div 8)"]) (simp, simp add: unat_div)
    then have "frame_bitmap (mark_all_frames_used s) (f div 8) = 0xFF"
      unfolding mark_all_frames_used_def Let_def by (simp add: fold_bitmap_fill del: set_upt)
    moreover have "(0xFF :: u8) = mask 8" by (simp add: mask_eq_exp_minus_1)
    moreover have "unat (f mod 8) < 8" by (simp add: unat_mod)
    ultimately show ?thesis by (simp only: bitmap_test_iff bit_mask_iff) simp
  qed
  then show ?thesis by (auto simp: free_set_def)
qed

lemma pmm_inv_mark_all [simp]: "pmm_inv (mark_all_frames_used s)"
  unfolding pmm_inv_def free_set_mark_all by (simp add: mark_all_frames_used_def Let_def)

text \<open>The frames that the code frees for an entry of the map, in its own arithmetic, and the entries a walk visits.\<close>

definition entry_frames :: "mmap_entry \<Rightarrow> u32 set" where
  "entry_frames e =
     (if e_type e = MULTIBOOT_MEMORY_AVAILABLE \<and> entry_base e < 0x100000000
      then frames_in (align_up_page (ucast (entry_base e)))
             (align_down_page (if entry_base e + entry_length e > 0x100000000 then 0xFFFFFFFF
                               else ucast (entry_base e + entry_length e)))
      else {})"

lemma free_set_discover_entry [simp]:
  "free_set (discover_entry e s) = free_set s \<union> entry_frames e"
  by (simp add: discover_entry_def entry_frames_def Let_def)

lemma discover_entry_inv [simp]:
  "pmm_inv s \<Longrightarrow> pmm_inv (discover_entry e s)"
  "total_frames (discover_entry e s) = total_frames s"
  by (simp_all add: discover_entry_def Let_def)

inductive visits :: "memory \<Rightarrow> u32 \<Rightarrow> u32 \<Rightarrow> u32 \<Rightarrow> bool" for m mmap_end where
  here: "cursor < mmap_end \<Longrightarrow> visits m mmap_end cursor cursor"
| later: "cursor < mmap_end \<Longrightarrow>
    visits m mmap_end (cursor + (e_size (mmap_entry_at m cursor) + 4)) c \<Longrightarrow>
    visits m mmap_end cursor c"

inductive_cases visitsE: "visits m mmap_end cursor c"

lemma visits_iff:
  "visits m mmap_end cursor c \<longleftrightarrow> cursor < mmap_end \<and>
     (c = cursor \<or> visits m mmap_end (cursor + (e_size (mmap_entry_at m cursor) + 4)) c)"
  by (blast intro: visits.intros elim: visitsE)

definition map_frames :: "memory \<Rightarrow> u32 \<Rightarrow> u32 \<Rightarrow> u32 set" where
  "map_frames m mmap_end cursor =
     (\<Union>c\<in>Collect (visits m mmap_end cursor). entry_frames (mmap_entry_at m c))"

lemma map_frames_step:
  "map_frames m mmap_end cursor =
     (if cursor < mmap_end
      then entry_frames (mmap_entry_at m cursor)
             \<union> map_frames m mmap_end (cursor + (e_size (mmap_entry_at m cursor) + 4))
      else {})"
proof (cases "cursor < mmap_end")
  case True
  then have "Collect (visits m mmap_end cursor) = insert cursor
      (Collect (visits m mmap_end (cursor + (e_size (mmap_entry_at m cursor) + 4))))"
    by (auto intro: visits.intros elim: visitsE)
  with True show ?thesis by (simp add: map_frames_def)
next
  case False
  then have "Collect (visits m mmap_end cursor) = {}" by (auto elim: visitsE)
  with False show ?thesis by (simp add: map_frames_def)
qed

lemma discover_loop_result:
  assumes "discover_loop m cursor mmap_end s = Some t"
  shows "free_set t = free_set s \<union> map_frames m mmap_end cursor
    \<and> (pmm_inv s \<longrightarrow> pmm_inv t) \<and> total_frames t = total_frames s"
  using assms
proof (induct rule: discover_loop.raw_induct [rotated, consumes 1, case_names step])
  case (step discover m cursor mmap_end s t)
  show ?case
  proof (cases "cursor < mmap_end")
    case True
    with step(2)
    have "discover m (cursor + (e_size (mmap_entry_at m cursor) + 4)) mmap_end
            (discover_entry (mmap_entry_at m cursor) s) = Some t" by simp
    from step(1) [OF this] True show ?thesis
      by (simp add: map_frames_step [of m mmap_end cursor] Un_assoc)
  next
    case False
    with step(2) show ?thesis by (simp add: map_frames_step [of m mmap_end cursor])
  qed
qed

text \<open>The walk ends when no entry on it carries the cursor past the end of the address space.\<close>

definition map_bounded :: "memory \<Rightarrow> u32 \<Rightarrow> u32 \<Rightarrow> bool" where
  "map_bounded m mmap_end cursor \<longleftrightarrow>
     (\<forall>c. visits m mmap_end cursor c \<longrightarrow> unat c + unat (e_size (mmap_entry_at m c)) + 4 < 2 ^ 32)"

lemma discover_loop_terminates:
  assumes "map_bounded m mmap_end cursor"
  shows "\<exists>t. discover_loop m cursor mmap_end s = Some t"
  using assms
proof (induction "unat mmap_end - unat cursor" arbitrary: cursor s rule: less_induct)
  case less
  show ?case
  proof (cases "cursor < mmap_end")
    case True
    define next_cursor where "next_cursor = cursor + (e_size (mmap_entry_at m cursor) + 4)"
    have "unat cursor + unat (e_size (mmap_entry_at m cursor)) + 4 < 2 ^ 32"
      using less.prems True by (auto simp: map_bounded_def intro: visits.here)
    then have "unat next_cursor = unat cursor + (unat (e_size (mmap_entry_at m cursor)) + 4)"
      by (simp add: next_cursor_def unat_word_ariths)
    then have "unat mmap_end - unat next_cursor < unat mmap_end - unat cursor"
      using True by (simp add: word_less_nat_alt)
    moreover have "map_bounded m mmap_end next_cursor"
      using less.prems True by (auto simp: map_bounded_def next_cursor_def intro: visits.later)
    ultimately have "\<exists>t. discover_loop m next_cursor mmap_end
        (discover_entry (mmap_entry_at m cursor) s) = Some t" by (rule less.hyps)
    with True show ?thesis by (subst discover_loop.simps) (simp add: next_cursor_def)
  next
    case False
    then show ?thesis by (subst discover_loop.simps) simp
  qed
qed

text \<open>The frames that the code reserves for the boot data, and what initialisation leaves free.\<close>

definition boot_frames :: "memory \<Rightarrow> u32 \<Rightarrow> u32 \<Rightarrow> u32 \<Rightarrow> u32 set" where
  "boot_frames m mbi kernel_start kernel_end =
     frames_in 0 0x100000
     \<union> frames_in (align_down_page kernel_start) (align_up_page kernel_end)
     \<union> frames_in (align_down_page mbi) (align_up_page (mbi + SIZEOF_MULTIBOOT_INFO))
     \<union> frames_in (align_down_page (mbi_mmap_addr m mbi))
         (align_up_page (mbi_mmap_addr m mbi + mbi_mmap_length m mbi))"

lemma reserve_boot_data:
  assumes "mbi_flags m mbi AND MULTIBOOT_INFO_MEM_MAP \<noteq> 0"
  shows "free_set (reserve_kernel_and_boot_data m mbi ks ke s) = free_set s - boot_frames m mbi ks ke"
proof -
  have "align_down_page 0 = 0" "align_up_page 0x100000 = 0x100000"
    by (simp_all add: align_down_page_def align_up_page_def)
  with assms show ?thesis
    by (auto simp: reserve_kernel_and_boot_data_def Let_def boot_frames_def)
qed

lemma reserve_boot_data_inv [simp]:
  "pmm_inv s \<Longrightarrow> pmm_inv (reserve_kernel_and_boot_data m mbi ks ke s)"
  "total_frames (reserve_kernel_and_boot_data m mbi ks ke s) = total_frames s"
  by (simp_all add: reserve_kernel_and_boot_data_def Let_def)

lemma pmm_init_result:
  assumes "pmm_init m mbi ks ke s = Some (Inr t)"
  shows "pmm_inv t"
    and "free_set t = map_frames m (mbi_mmap_addr m mbi + mbi_mmap_length m mbi) (mbi_mmap_addr m mbi)
           - boot_frames m mbi ks ke"
    and "total_frames t = PMM_MAX_FRAMES"
    and "reserved_frames t = PMM_MAX_FRAMES - free_frames t"
proof -
  define s1 where "s1 = (mark_all_frames_used s)\<lparr>total_frames := PMM_MAX_FRAMES, usable_frames := 0,
                    reserved_frames := 0, highest_physical_addr := 0\<rparr>"
  from assms obtain s2 where flag: "mbi_flags m mbi AND MULTIBOOT_INFO_MEM_MAP \<noteq> 0"
    and s2: "discover_from_mmap m mbi s1 = Some s2"
    and t: "t = (reserve_kernel_and_boot_data m mbi ks ke s2)\<lparr>reserved_frames :=
       total_frames (reserve_kernel_and_boot_data m mbi ks ke s2)
       - free_frames (reserve_kernel_and_boot_data m mbi ks ke s2)\<rparr>"
    by (auto simp: pmm_init_def Let_def s1_def split: if_splits)
  note r = discover_loop_result [OF s2 [unfolded discover_from_mmap_def]]
  have s1: "free_set s1 = {}" "pmm_inv s1" "total_frames s1 = PMM_MAX_FRAMES"
    by (simp_all add: s1_def)
  from r s1 show "pmm_inv t" "total_frames t = PMM_MAX_FRAMES"
    "reserved_frames t = PMM_MAX_FRAMES - free_frames t" by (simp_all add: t)
  from r s1 flag show "free_set t = map_frames m (mbi_mmap_addr m mbi + mbi_mmap_length m mbi)
    (mbi_mmap_addr m mbi) - boot_frames m mbi ks ke" by (simp add: t reserve_boot_data)
qed

section \<open>The memory map in exact arithmetic\<close>

text \<open>
  A region of the map and a range of boot data as sets of addresses, without any wrap-around: the frames a
  region contains completely, and the frames that share a byte with a range.
\<close>

definition region_start :: "mmap_entry \<Rightarrow> nat" where
  "region_start e = unat (base_addr_low e) + 2 ^ 32 * unat (base_addr_high e)"

definition region_end :: "mmap_entry \<Rightarrow> nat" where
  "region_end e = region_start e + (unat (length_low e) + 2 ^ 32 * unat (length_high e))"

definition region_contains :: "mmap_entry \<Rightarrow> u32 \<Rightarrow> bool" where
  "region_contains e f \<longleftrightarrow> e_type e = MULTIBOOT_MEMORY_AVAILABLE
     \<and> region_start e \<le> unat f * 4096 \<and> (unat f + 1) * 4096 \<le> region_end e"

definition frame_meets :: "u32 \<Rightarrow> nat \<Rightarrow> nat \<Rightarrow> bool" where
  "frame_meets f a b \<longleftrightarrow> unat f * 4096 < b \<and> a < (unat f + 1) * 4096"

text \<open>
  The available regions that the code handles: not one that starts in the last page below 4 GiB, which
  \<open>align_up_page\<close> rounds up to 0, nor one that ends exactly at 4 GiB, whose end is cast to 0, nor one that
  ends beyond 2^64.
\<close>

definition regular_region :: "mmap_entry \<Rightarrow> bool" where
  "regular_region e \<longleftrightarrow> e_type e = MULTIBOOT_MEMORY_AVAILABLE \<and> region_start e < 2 ^ 32 \<longrightarrow>
     region_start e \<le> 0xFFFFF000 \<and> region_end e \<noteq> 2 ^ 32 \<and> region_end e < 2 ^ 64"

lemma unat_ucast_u64: "unat (ucast (x :: u32) :: u64) = unat x"
  by transfer simp

lemma unat_ucast_u32: "unat (ucast (x :: u64) :: u32) = unat x mod 2 ^ 32"
  by (simp add: unsigned_ucast_eq take_bit_eq_mod)

lemma unat_u64_pair:
  fixes h l :: u32
  shows "unat (push_bit 32 (ucast h) OR ucast l :: u64) = unat l + 2 ^ 32 * unat h"
proof -
  have "push_bit 32 (ucast h) OR ucast l = push_bit 32 (ucast h) + (ucast l :: u64)"
    by (rule disjunctive_add [symmetric]) (auto simp: bit_push_bit_iff bit_unsigned_iff dest: bit_imp_le_length)
  moreover have "unat (push_bit 32 (ucast h :: u64)) = 2 ^ 32 * unat h"
    using unat_u32_less [of h] by (simp add: push_bit_eq_mult unat_word_ariths unat_ucast_u64)
  moreover have "unat (ucast l :: u64) = unat l" by (rule unat_ucast_u64)
  moreover have "4294967296 * unat h + unat l < 18446744073709551616" using unat_u32_less [of h] unat_u32_less [of l] by linarith
  ultimately show ?thesis by (simp add: unat_word_ariths)
qed

lemma unat_entry:
  "unat (entry_base e) = region_start e"
  "unat (entry_base e) + unat (entry_length e) = region_end e"
  by (simp_all add: entry_base_def entry_length_def region_start_def region_end_def unat_u64_pair)

lemma round_up_le: "(a + 4095) div 4096 * 4096 \<le> n * 4096 \<longleftrightarrow> a \<le> n * (4096 :: nat)"
  using div_less_iff_less_mult [of 4096 "a + 4095" "n + 1"] by (simp add: less_Suc_eq_le)

lemma less_round_down: "n * 4096 < b div 4096 * 4096 \<longleftrightarrow> (n + 1) * 4096 \<le> (b :: nat)"
  using less_eq_div_iff_mult_less_eq [of 4096 "n + 1" b] by (simp add: Suc_le_eq)

lemma round_down_le: "a div 4096 * 4096 \<le> n * 4096 \<longleftrightarrow> a < (n + 1) * (4096 :: nat)"
  using div_less_iff_less_mult [of 4096 a "n + 1"] by (simp add: less_Suc_eq_le)

lemma less_round_up: "n * 4096 < (b + 4095) div 4096 * 4096 \<longleftrightarrow> n * 4096 < (b :: nat)"
  using less_eq_div_iff_mult_less_eq [of 4096 "n + 1" "b + 4095"] by (simp add: Suc_le_eq)

lemma frames_inside:
  assumes "unat a \<le> 0xFFFFF000"
  shows "f \<in> frames_in (align_up_page a) (align_down_page b)
    \<longleftrightarrow> f < PMM_MAX_FRAMES \<and> unat a \<le> unat f * 4096 \<and> (unat f + 1) * 4096 \<le> unat b"
  using unat_align_up [OF assms] unat_align_down [of b]
  by (auto simp: frames_in_def word_le_nat_alt word_less_nat_alt round_up_le less_round_down)

lemma frames_meeting:
  assumes "unat b \<le> 0xFFFFF000"
  shows "f \<in> frames_in (align_down_page a) (align_up_page b) \<longleftrightarrow> f < PMM_MAX_FRAMES \<and> frame_meets f (unat a) (unat b)"
  using unat_align_up [OF assms] unat_align_down [of a]
  by (auto simp: frames_in_def frame_meets_def word_le_nat_alt word_less_nat_alt round_down_le less_round_up)

lemma entry_frames_exact:
  assumes "regular_region e"
  shows "f \<in> entry_frames e \<longleftrightarrow> f < 0xFFFFF \<and> region_contains e f"
proof (cases "e_type e = MULTIBOOT_MEMORY_AVAILABLE \<and> region_start e < 2 ^ 32")
  case False
  then have "entry_frames e = {}" by (auto simp: entry_frames_def word_less_nat_alt unat_entry)
  moreover have "\<not> (f < 0xFFFFF \<and> region_contains e f)"
    using False by (auto simp: region_contains_def word_less_nat_alt)
  ultimately show ?thesis by blast
next
  case True
  then have r: "region_start e \<le> 0xFFFFF000" "region_end e \<noteq> 2 ^ 32" "region_end e < 2 ^ 64"
    using assms by (simp_all add: regular_region_def)
  have e: "unat (entry_base e + entry_length e) = region_end e" using r(3) unat_entry [of e] by (simp add: unat_word_ariths)
  have b: "unat (ucast (entry_base e) :: u32) = region_start e" using True unat_entry(1) [of e] by (simp add: unat_ucast_u32)
  define u :: u32 where "u = (if entry_base e + entry_length e > 0x100000000 then 0xFFFFFFFF else ucast (entry_base e + entry_length e))"
  have u: "unat u = (if region_end e > 2 ^ 32 then 0xFFFFFFFF else region_end e)"
    using r(2) e by (auto simp: u_def word_less_nat_alt unat_ucast_u32)
  have "entry_frames e = frames_in (align_up_page (ucast (entry_base e))) (align_down_page u)"
    using True unat_entry(1) [of e] by (simp add: entry_frames_def u_def word_less_nat_alt)
  then have "f \<in> entry_frames e \<longleftrightarrow> f < PMM_MAX_FRAMES \<and> region_start e \<le> unat f * 4096 \<and> (unat f + 1) * 4096 \<le> unat u"
    using frames_inside [of "ucast (entry_base e)" f u] b r(1) by simp
  also have "\<dots> \<longleftrightarrow> f < 0xFFFFF \<and> region_contains e f"
    using True r(2) by (auto simp: u region_contains_def word_less_nat_alt)
  finally show ?thesis .
qed

lemma boot_frames_exact:
  assumes "unat ke \<le> 0xFFFFF000" and "unat mbi + 52 \<le> 0xFFFFF000"
    and "unat (mbi_mmap_addr m mbi) + unat (mbi_mmap_length m mbi) \<le> 0xFFFFF000" and "f < PMM_MAX_FRAMES"
  shows "f \<in> boot_frames m mbi ks ke \<longleftrightarrow> frame_meets f 0 0x100000 \<or> frame_meets f (unat ks) (unat ke)
    \<or> frame_meets f (unat mbi) (unat mbi + 52)
    \<or> frame_meets f (unat (mbi_mmap_addr m mbi)) (unat (mbi_mmap_addr m mbi) + unat (mbi_mmap_length m mbi))"
proof -
  have "unat (mbi + 52) = unat mbi + 52" "unat (mbi_mmap_addr m mbi + mbi_mmap_length m mbi)
      = unat (mbi_mmap_addr m mbi) + unat (mbi_mmap_length m mbi)"
    using assms(2,3) by (simp_all add: unat_word_ariths)
  moreover have "f \<in> frames_in 0 0x100000 \<longleftrightarrow> frame_meets f 0 0x100000"
    using assms(4) by (simp add: frames_in_def frame_meets_def word_less_nat_alt)
  ultimately show ?thesis using assms by (simp add: boot_frames_def frames_meeting)
qed

section \<open>Allocation\<close>

lemma scan_free_Some:
  "scan_free s f M = Some g \<Longrightarrow>
   f \<le> g \<and> g < M \<and> \<not> bitmap_test s g \<and> (\<forall>h. f \<le> h \<and> h < g \<longrightarrow> bitmap_test s h)"
proof (induction s f M rule: scan_free.induct)
  case (1 s f M)
  show ?case
  proof (cases "f < M \<and> bitmap_test s f")
    case True
    then have "f \<le> h \<longleftrightarrow> h = f \<or> f + 1 \<le> h" for h
      using unat_Suc_of_less [of f M] by (auto simp: word_le_nat_alt word_unat_eq_iff)
    with True 1 show ?thesis by (subst (asm) (2) scan_free.simps) auto
  next
    case False
    with 1(2) show ?thesis by (subst (asm) scan_free.simps) (auto split: if_splits)
  qed
qed

lemma scan_free_None:
  "scan_free s f M = None \<Longrightarrow> f \<le> h \<Longrightarrow> h < M \<Longrightarrow> bitmap_test s h"
proof (induction s f M rule: scan_free.induct)
  case (1 s f M)
  from 1(3,4) have "f < M" by simp
  moreover from this 1(2) have used: "bitmap_test s f"
    and "scan_free s (f + 1) M = None"
    by (subst (asm) scan_free.simps, simp split: if_splits)+
  moreover have "f \<le> h \<longleftrightarrow> h = f \<or> f + 1 \<le> h"
    using unat_Suc_of_less [of f M] \<open>f < M\<close> by (auto simp: word_le_nat_alt word_unat_eq_iff)
  ultimately show ?case using 1 by auto
qed

lemma max_frame_below_le: "max_frame_below b \<le> PMM_MAX_FRAMES"
  by (auto simp: max_frame_below_def Let_def not_less)

lemma frame_below_iff:
  assumes "f < PMM_MAX_FRAMES"
  shows "f < max_frame_below b \<longleftrightarrow> unat (addr_from_frame_index f) + 4096 \<le> unat b"
  using assms by (auto simp: max_frame_below_def Let_def word_less_nat_alt unat_div)

text \<open>The common tail of the two single-page allocators.\<close>

definition take_frame :: "u32 option \<Rightarrow> pmm \<Rightarrow> u32 \<times> pmm" where
  "take_frame r s = (case r of Some frame \<Rightarrow> (addr_from_frame_index frame, mark_frame_used frame s)
                     | None \<Rightarrow> (PMM_INVALID_PAGE, s))"

lemma alloc_take_frame:
  "pmm_alloc_page s = take_frame (scan_free s 256 PMM_MAX_FRAMES) s"
  "pmm_alloc_page_below b s = take_frame (scan_free s 256 (max_frame_below b)) s"
  by (simp_all add: pmm_alloc_page_def pmm_alloc_page_below_def take_frame_def)

definition free_pages :: "pmm \<Rightarrow> u32 set" where
  "free_pages s = addr_from_frame_index ` free_set s"

lemma inj_on_addr_from_frame: "inj_on addr_from_frame_index {f. f < PMM_MAX_FRAMES}"
  by (rule inj_on_inverseI [where g = frame_index_from_addr]) simp

lemma free_set_bound: "f \<in> free_set s \<Longrightarrow> f < PMM_MAX_FRAMES"
  by (simp add: free_set_def)

lemma free_pages_diff:
  "f < PMM_MAX_FRAMES \<Longrightarrow> addr_from_frame_index ` (free_set s - {f}) = free_pages s - {addr_from_frame_index f}"
  unfolding free_pages_def
  by (subst inj_on_image_set_diff [OF inj_on_addr_from_frame]) (auto dest: free_set_bound)

lemma free_pages_iff:
  "p \<in> free_pages s \<longleftrightarrow> page_aligned p \<and> frame_index_from_addr p \<in> free_set s"
  by (auto simp: free_pages_def free_set_bound image_iff addr_of_frame_of_addr
           intro!: bexI [of _ "frame_index_from_addr p"])

lemma take_frame_None [simp]: "take_frame None s = (0, s)"
  by (simp add: take_frame_def)

lemma take_frame_Some:
  assumes "M \<le> PMM_MAX_FRAMES" and "scan_free s 256 M = Some f"
  defines "p \<equiv> addr_from_frame_index f" and "t \<equiv> mark_frame_used f s"
  shows "take_frame (scan_free s 256 M) s = (p, t)"
    and "p \<in> free_pages s" and "0x100000 \<le> p" and "frame_index_from_addr p = f" and "f < M"
    and "free_pages t = free_pages s - {p}"
    and "\<And>q. q \<in> free_pages s \<Longrightarrow> 0x100000 \<le> q \<Longrightarrow> p \<le> q"
proof -
  note f = scan_free_Some [OF assms(2)]
  from f assms(1) have bound: "f < PMM_MAX_FRAMES" by (auto intro: less_le_trans)
  have p: "unat p = unat f * 4096" using bound by (simp add: p_def)
  show "take_frame (scan_free s 256 M) s = (p, t)"
    using assms(2) by (simp add: take_frame_def p_def t_def)
  show "p \<in> free_pages s" using f bound by (simp add: free_pages_def p_def free_set_def)
  show "0x100000 \<le> p" using f p by (simp add: word_le_nat_alt)
  show "frame_index_from_addr p = f" using bound by (simp add: p_def)
  show "f < M" using f by simp
  show "free_pages t = free_pages s - {p}"
    using bound by (simp add: t_def p_def free_pages_diff free_pages_def [of "mark_frame_used f s"])
  fix q assume q: "q \<in> free_pages s" "0x100000 \<le> q"
  then obtain g where g: "g \<in> free_set s" "q = addr_from_frame_index g" by (auto simp: free_pages_def)
  then have gq: "g < PMM_MAX_FRAMES" "\<not> bitmap_test s g" "unat q = unat g * 4096"
    by (auto simp: free_set_def)
  with q(2) have "256 \<le> g" by (simp add: word_le_nat_alt)
  with f gq(2) have "f \<le> g" by (meson not_le)
  with gq(3) p show "p \<le> q" by (simp add: word_le_nat_alt)
qed

lemma take_frame_inv: "pmm_inv s \<Longrightarrow> take_frame r s = (p, t) \<Longrightarrow> pmm_inv t"
  by (auto simp: take_frame_def split: option.splits)

text \<open>
  What a user of a page allocator relies on: failure is address 0 and changes nothing, a
  successful call returns an aligned page that was available and no longer is.
\<close>

locale page_allocator =
  fixes inv :: "'s \<Rightarrow> bool" and avail :: "'s \<Rightarrow> u32 set" and alloc :: "'s \<Rightarrow> u32 \<times> 's"
  assumes alloc_inv: "inv s \<Longrightarrow> alloc s = (p, t) \<Longrightarrow> inv t"
    and alloc_fail: "alloc s = (0, t) \<Longrightarrow> t = s"
    and alloc_page: "alloc s = (p, t) \<Longrightarrow> p \<noteq> 0 \<Longrightarrow>
          page_aligned p \<and> 0x100000 \<le> p \<and> p \<in> avail s \<and> avail t = avail s - {p}"
begin

lemma alloc_zero: "alloc s = (0, t) \<longleftrightarrow> fst (alloc s) = 0 \<and> t = s"
  using alloc_fail by (cases "alloc s") auto

lemma alloc_fresh:
  assumes "held \<inter> avail s = {}" and "alloc s = (p, t)" and "p \<noteq> 0"
  shows "p \<notin> held" and "insert p held \<inter> avail t = {}"
  using assms alloc_page [OF assms(2,3)] by auto

lemma alloc_avail_subset: "alloc s = (p, t) \<Longrightarrow> avail t \<subseteq> avail s"
  using alloc_page [of s p t] alloc_fail [of s t] by (cases "p = 0") auto

end

lemma free_pages_aligned: "p \<in> free_pages s \<Longrightarrow> page_aligned p"
  by (simp add: free_pages_iff)

lemma take_frame_page_allocator:
  assumes "M \<le> PMM_MAX_FRAMES"
  shows "page_allocator pmm_inv free_pages (\<lambda>s. take_frame (scan_free s 256 M) s)"
proof
  fix s t p
  show "pmm_inv s \<Longrightarrow> take_frame (scan_free s 256 M) s = (p, t) \<Longrightarrow> pmm_inv t"
    by (rule take_frame_inv)
  show "take_frame (scan_free s 256 M) s = (0, t) \<Longrightarrow> t = s"
    using take_frame_Some(1,3) [OF assms, of s]
    by (cases "scan_free s 256 M") (auto simp: take_frame_def)
  show "take_frame (scan_free s 256 M) s = (p, t) \<Longrightarrow> p \<noteq> 0 \<Longrightarrow>
    page_aligned p \<and> 0x100000 \<le> p \<and> p \<in> free_pages s \<and> free_pages t = free_pages s - {p}"
    using take_frame_Some [OF assms, of s]
    by (cases "scan_free s 256 M") (auto intro: free_pages_aligned)
qed

interpretation any_page: page_allocator pmm_inv free_pages pmm_alloc_page
  unfolding alloc_take_frame by (rule take_frame_page_allocator) simp

interpretation page_below: page_allocator pmm_inv free_pages "pmm_alloc_page_below b" for b
  unfolding alloc_take_frame by (rule take_frame_page_allocator [OF max_frame_below_le])

lemma pmm_alloc_page_below_bound:
  assumes "pmm_alloc_page_below b s = (p, t)" and "p \<noteq> 0"
  shows "unat p + 4096 \<le> unat b"
proof (cases "scan_free s 256 (max_frame_below b)")
  case None
  with assms show ?thesis by (simp add: alloc_take_frame)
next
  case (Some f)
  note tf = take_frame_Some [OF max_frame_below_le Some]
  have "f < PMM_MAX_FRAMES" using tf(5) max_frame_below_le [of b] by (auto intro: less_le_trans)
  with frame_below_iff [of f b] tf(1,5) assms(1) show ?thesis by (auto simp: alloc_take_frame)
qed

text \<open>The run search, on natural numbers: a window of \<open>n\<close> frames from \<open>w\<close> on.\<close>

definition free_at :: "pmm \<Rightarrow> nat \<Rightarrow> bool" where
  "free_at s i \<longleftrightarrow> \<not> bitmap_test s (word_of_nat i)"

definition free_window :: "pmm \<Rightarrow> nat \<Rightarrow> nat \<Rightarrow> bool" where
  "free_window s n w \<longleftrightarrow> (\<forall>i. w \<le> i \<and> i < w + n \<longrightarrow> free_at s i)"

text \<open>What holds at the head of the loop: the last \<open>run_length\<close> frames are free.\<close>

definition run_state :: "pmm \<Rightarrow> u32 \<Rightarrow> u32 \<Rightarrow> u32 \<Rightarrow> u32 \<Rightarrow> bool" where
  "run_state s n f st len \<longleftrightarrow>
     unat len < unat n \<and> unat len \<le> unat f \<and> (len \<noteq> 0 \<longrightarrow> unat st = unat f - unat len)
     \<and> free_window s (unat len) (unat f - unat len)"

lemma run_state_0 [simp]: "run_state s n f 0 0 \<longleftrightarrow> 0 < unat n"
  by (auto simp: run_state_def free_window_def)

lemma free_window_Suc:
  assumes "free_window s k (m - k)" and "k \<le> m" and "free_at s m"
  shows "free_window s (Suc k) (m - k)"
  using assms unfolding free_window_def
  by (metis add_Suc_right le_add_diff_inverse2 less_antisym)

lemma run_state_extend:
  assumes "run_state s n f st len" and "f < M" and "\<not> bitmap_test s f" and "len + 1 \<noteq> n"
  shows "run_state s n (f + 1) (if len = 0 then f else st) (len + 1)"
    and "unat (f + 1) - unat (len + 1) = unat f - unat len"
proof -
  have "len < n" using assms(1) by (simp add: run_state_def word_less_nat_alt)
  then have len: "unat (len + 1) = unat len + 1" by (simp add: unat_Suc_of_less)
  have f: "unat (f + 1) = unat f + 1" using assms(2) by (simp add: unat_Suc_of_less)
  show "unat (f + 1) - unat (len + 1) = unat f - unat len" by (simp add: len f)
  have "unat len + 1 \<noteq> unat n" using assms(4) len by (simp add: word_unat_eq_iff)
  moreover have "free_window s (Suc (unat len)) (unat f - unat len)"
    using assms(1,3) by (intro free_window_Suc) (auto simp: run_state_def free_at_def)
  ultimately show "run_state s n (f + 1) (if len = 0 then f else st) (len + 1)"
    using assms(1) by (auto simp: run_state_def len f)
qed

lemma used_blocks_window:
  assumes "bitmap_test s f" and "w \<le> unat f" and "unat f < w + n"
  shows "\<not> free_window s n w"
  using assms by (auto simp: free_window_def free_at_def intro!: exI [of _ "unat f"])

lemma run_state_blocks:
  assumes "run_state s n f st len" and "bitmap_test s f" and "unat f - unat len \<le> w" and "w \<le> unat f"
  shows "\<not> free_window s (unat n) w"
  by (rule used_blocks_window [OF assms(2,4)]) (use assms(1,3) in \<open>auto simp: run_state_def\<close>)

lemma scan_run_Some:
  assumes "scan_run s n f M st len = Some r" and "run_state s n f st len"
  shows "unat r + unat n \<le> unat M \<and> unat f - unat len \<le> unat r \<and> free_window s (unat n) (unat r)
    \<and> (\<forall>w. unat f - unat len \<le> w \<and> w < unat r \<longrightarrow> \<not> free_window s (unat n) w)"
  using assms
proof (induction s n f M st len rule: scan_run.induct)
  case (1 s n f M st len)
  let ?st = "if len = 0 then f else st"
  from 1(3) have fM: "f < M" by (subst (asm) scan_run.simps) (simp split: if_splits)
  have f: "unat (f + 1) = unat f + 1" using fM by (simp add: unat_Suc_of_less)
  consider (used) "bitmap_test s f" | (found) "\<not> bitmap_test s f" "len + 1 = n"
    | (more) "\<not> bitmap_test s f" "len + 1 \<noteq> n" by blast
  then show ?case
  proof cases
    case used
    with 1(3) fM have "scan_run s n (f + 1) M 0 0 = Some r"
      by (subst (asm) scan_run.simps) simp
    moreover have "run_state s n (f + 1) 0 0" using 1(4) unfolding run_state_0 by (simp add: run_state_def)
    ultimately have IH: "unat r + unat n \<le> unat M" "unat f + 1 \<le> unat r"
      "free_window s (unat n) (unat r)"
      "\<And>w. unat f + 1 \<le> w \<Longrightarrow> w < unat r \<Longrightarrow> \<not> free_window s (unat n) w"
      using 1(2) fM used f by auto
    have "\<not> free_window s (unat n) w" if "unat f - unat len \<le> w" "w < unat r" for w
      using that IH(4) [of w] run_state_blocks [OF 1(4) used that(1)]
      by (cases "w \<le> unat f") auto
    with IH show ?thesis by auto
  next
    case found
    from found 1(3) fM have r: "r = ?st" by (subst (asm) scan_run.simps) simp
    have n: "unat n = unat len + 1"
      using found(2) unat_Suc_of_less [of len n] 1(4) by (auto simp: run_state_def word_less_nat_alt)
    have st: "unat ?st = unat f - unat len" using 1(4) by (simp add: run_state_def)
    have "free_window s (unat n) (unat f - unat len)"
      unfolding n Suc_eq_plus1 [symmetric]
      using 1(4) found(1) by (intro free_window_Suc) (auto simp: run_state_def free_at_def)
    with 1(4) fM show ?thesis by (auto simp: r st n run_state_def word_less_nat_alt)
  next
    case more
    with 1(3) fM have "scan_run s n (f + 1) M ?st (len + 1) = Some r"
      by (subst (asm) scan_run.simps) simp
    with 1(1) [OF fM more(1) refl refl more(2)] run_state_extend [OF 1(4) fM more] show ?thesis by simp
  qed
qed

lemma scan_run_None:
  assumes "scan_run s n f M st len = None" and "run_state s n f st len"
    and "unat f - unat len \<le> w" and "w + unat n \<le> unat M"
  shows "\<not> free_window s (unat n) w"
  using assms
proof (induction s n f M st len rule: scan_run.induct)
  case (1 s n f M st len)
  let ?st = "if len = 0 then f else st"
  show ?case
  proof (cases "f < M")
    case False
    with 1(4,5,6) show ?thesis by (auto simp: run_state_def word_less_nat_alt)
  next
    case fM: True
    have f: "unat (f + 1) = unat f + 1" using fM by (simp add: unat_Suc_of_less)
    show ?thesis
    proof (cases "bitmap_test s f")
      case used: True
      with 1(3) fM have "scan_run s n (f + 1) M 0 0 = None"
        by (subst (asm) scan_run.simps) simp
      moreover have "run_state s n (f + 1) 0 0" using 1(4) unfolding run_state_0 by (simp add: run_state_def)
      ultimately have IH: "unat f + 1 \<le> w \<Longrightarrow> \<not> free_window s (unat n) w"
        using 1(2,6) fM used f by auto
      then show ?thesis
        using run_state_blocks [OF 1(4) used 1(5)] by (cases "w \<le> unat f") auto
    next
      case free: False
      with 1(3) fM have more: "len + 1 \<noteq> n" and "scan_run s n (f + 1) M ?st (len + 1) = None"
        by (subst (asm) scan_run.simps, simp add: Let_def split: if_splits)+
      with 1(1) [OF fM free refl refl more] run_state_extend [OF 1(4) fM free more] 1(5,6)
      show ?thesis by simp
    qed
  qed
qed

section \<open>Contiguous allocation and release\<close>

definition run_pages :: "u32 \<Rightarrow> u32 \<Rightarrow> u32 set" where
  "run_pages p n = (\<lambda>i. p + word_of_nat i * PMM_PAGE_SIZE) ` {0..<unat n}"

lemma pmm_alloc_run:
  assumes "pmm_alloc_contiguous_pages_below n b s = (p, t)" and "p \<noteq> 0"
  shows "page_aligned p" and "0x100000 \<le> p" and "unat p + unat n * 4096 \<le> unat b"
    and "run_pages p n \<subseteq> free_pages s" and "free_pages t = free_pages s - run_pages p n"
    and "p \<in> run_pages p n"
proof -
  from assms obtain r where n: "n \<noteq> 0" and r: "scan_run s n 256 (max_frame_below b) 0 0 = Some r"
    and p: "p = addr_from_frame_index r"
    and t: "t = fold (\<lambda>i. mark_frame_used (r + word_of_nat i)) [0..<unat n] s"
    by (auto simp: pmm_alloc_contiguous_pages_below_def split: if_splits option.splits)
  have n0: "0 < unat n" using n by (simp add: unat_gt_0)
  have "run_state s n 256 0 0" unfolding run_state_0 by (rule n0)
  from scan_run_Some [OF r this] have
    fit: "unat r + unat n \<le> unat (max_frame_below b)" and lo: "256 \<le> unat r"
    and win: "free_window s (unat n) (unat r)" by simp_all
  have M: "unat (max_frame_below b) \<le> 1048576"
    using max_frame_below_le [of b] by (simp add: word_le_nat_alt)
  have fr: "unat (r + word_of_nat i) = unat r + i" and fr': "r + word_of_nat i < PMM_MAX_FRAMES"
    if "i < unat n" for i
    using that fit M by (simp_all add: unat_word_ariths word_less_nat_alt unat_of_nat)
  have r: "r < PMM_MAX_FRAMES" using fr' [of 0] n0 by simp
  have up: "unat p = unat r * 4096" using r by (simp add: p)
  define fs where "fs = (\<lambda>i. r + word_of_nat i) ` set [0..<unat n]"
  have pages: "run_pages p n = addr_from_frame_index ` fs"
    by (simp add: run_pages_def fs_def image_image p addr_from_frame_index_def algebra_simps)
  have "free_at s (unat r + i)" if "i < unat n" for i using that win by (simp add: free_window_def)
  then have free: "fs \<subseteq> free_set s"
    using fr' by (auto simp: fs_def free_set_def free_at_def)
  show "page_aligned p" using r by (simp add: p)
  show "0x100000 \<le> p" using lo up by (simp add: word_le_nat_alt)
  show "unat p + unat n * 4096 \<le> unat b"
    using fit up by (auto simp: max_frame_below_def Let_def unat_div word_less_nat_alt split: if_splits)
  show "run_pages p n \<subseteq> free_pages s" using free by (auto simp: pages free_pages_def)
  have "free_set t = free_set s - fs" by (simp add: t fs_def)
  then show "free_pages t = free_pages s - run_pages p n"
    unfolding pages free_pages_def
    using free by (subst inj_on_image_set_diff [OF inj_on_addr_from_frame, symmetric])
      (auto dest: free_set_bound)
  show "p \<in> run_pages p n" using n0 by (auto simp: run_pages_def intro: image_eqI [of _ _ 0])
qed

lemma scan_run_nonzero:
  assumes "scan_run s n 256 (max_frame_below b) 0 0 = Some r" and "n \<noteq> 0"
  shows "addr_from_frame_index r \<noteq> 0"
proof -
  have n: "0 < unat n" using assms(2) by (simp add: unat_gt_0)
  then have "run_state s n 256 0 0" by (simp only: run_state_0)
  from scan_run_Some [OF assms(1) this] n have "256 \<le> unat r" "unat r < 1048576"
    using max_frame_below_le [of b] by (simp_all add: word_le_nat_alt)
  then have "unat (addr_from_frame_index r) \<noteq> 0"
    by (subst frame_of_addr_of_frame) (simp_all add: word_less_nat_alt)
  then show ?thesis by auto
qed

lemma pmm_alloc_run_fail:
  assumes "pmm_alloc_contiguous_pages_below n b s = (0, t)"
  shows "t = s" and "n \<noteq> 0 \<Longrightarrow> 256 \<le> w \<Longrightarrow> w + unat n \<le> unat (max_frame_below b)
    \<Longrightarrow> \<not> free_window s (unat n) w"
proof -
  have None: "scan_run s n 256 (max_frame_below b) 0 0 = None" if "n \<noteq> 0"
    using assms that scan_run_nonzero [OF _ that]
    by (auto simp: pmm_alloc_contiguous_pages_below_def split: option.splits)
  then show "t = s"
    using assms by (cases "n = 0") (simp_all add: pmm_alloc_contiguous_pages_below_def)
  show "n \<noteq> 0 \<Longrightarrow> 256 \<le> w \<Longrightarrow> w + unat n \<le> unat (max_frame_below b)
    \<Longrightarrow> \<not> free_window s (unat n) w"
    using scan_run_None [OF None, of w] by (simp add: unat_gt_0)
qed

lemma pmm_alloc_run_inv:
  "pmm_inv s \<Longrightarrow> pmm_alloc_contiguous_pages_below n b s = (p, t) \<Longrightarrow> pmm_inv t"
  by (auto simp: pmm_alloc_contiguous_pages_below_def split: if_splits option.splits)

lemma pmm_free_page_result:
  assumes "pmm_free_page p s = Inr t"
  shows "page_aligned p" and "0x100000 \<le> p" and "free_pages t = insert p (free_pages s)"
    and "pmm_inv s \<Longrightarrow> pmm_inv t"
proof -
  from assms have *: "page_aligned p" "0x100000 \<le> p" "t = mark_frame_free (frame_index_from_addr p) s"
    by (auto simp: pmm_free_page_def page_aligned_def not_less split: if_splits)
  then show "page_aligned p" "0x100000 \<le> p" by simp_all
  show "pmm_inv s \<Longrightarrow> pmm_inv t" using * by simp
  show "free_pages t = insert p (free_pages s)"
    using * by (simp add: free_pages_def addr_of_frame_of_addr)
qed

lemma pmm_free_page_defined:
  "page_aligned p \<Longrightarrow> 0x100000 \<le> p \<Longrightarrow> \<exists>t. pmm_free_page p s = Inr t"
  by (simp add: pmm_free_page_def page_aligned_def not_less)

text \<open>
  The life of the manager as a step relation: any sequence of allocations and of releases of
  pages that are held. The second component is the set of pages handed out and not returned.
\<close>

inductive pmm_run :: "pmm \<Rightarrow> u32 set \<Rightarrow> pmm \<Rightarrow> bool" for s0 where
  start: "pmm_run s0 {} s0"
| alloc: "pmm_run s0 held s \<Longrightarrow> pmm_alloc_page s = (p, t) \<Longrightarrow> p \<noteq> 0 \<Longrightarrow>
    pmm_run s0 (insert p held) t"
| alloc_below: "pmm_run s0 held s \<Longrightarrow> pmm_alloc_page_below b s = (p, t) \<Longrightarrow> p \<noteq> 0 \<Longrightarrow>
    pmm_run s0 (insert p held) t"
| alloc_run: "pmm_run s0 held s \<Longrightarrow> pmm_alloc_contiguous_pages_below n b s = (p, t) \<Longrightarrow> p \<noteq> 0 \<Longrightarrow>
    pmm_run s0 (held \<union> run_pages p n) t"
| release: "pmm_run s0 held s \<Longrightarrow> p \<in> held \<Longrightarrow> pmm_free_page p s = Inr t \<Longrightarrow>
    pmm_run s0 (held - {p}) t"

lemma hand_out:
  assumes "held \<inter> F = {} \<and> held \<union> F = A" and "P \<subseteq> F" and "G = F - P"
  shows "(held \<union> P) \<inter> G = {} \<and> (held \<union> P) \<union> G = A"
  using assms by auto

lemma take_back:
  assumes "held \<inter> F = {} \<and> held \<union> F = A" and "p \<in> held" and "G = insert p F"
  shows "(held - {p}) \<inter> G = {} \<and> (held - {p}) \<union> G = A"
  using assms by auto

lemma pmm_run_inv:
  assumes "pmm_run s0 held s" and "pmm_inv s0"
  shows "pmm_inv s"
  using assms(1)
  by induction (auto intro: assms(2) any_page.alloc_inv page_below.alloc_inv pmm_alloc_run_inv
      dest: pmm_free_page_result(4))

lemma pmm_run_held:
  assumes "pmm_run s0 held s"
  shows "held \<inter> free_pages s = {} \<and> held \<union> free_pages s = free_pages s0"
  using assms
proof induction
  case start
  then show ?case by simp
next
  case (alloc held s p t)
  then show ?case
    using hand_out [OF alloc.IH, of "{p}"] any_page.alloc_page [OF alloc(2,3)] by simp
next
  case (alloc_below held s b p t)
  then show ?case
    using hand_out [OF alloc_below.IH, of "{p}"] page_below.alloc_page [OF alloc_below(2,3)] by simp
next
  case (alloc_run held s n b p t)
  show ?case
    by (rule hand_out [OF alloc_run.IH pmm_alloc_run(4,5) [OF alloc_run(2,3)]])
next
  case (release held s p t)
  show ?case by (rule take_back [OF release.IH release(2) pmm_free_page_result(3) [OF release(3)]])
qed

section \<open>Properties\<close>

lemma pmm_init_total:
  assumes "mbi \<noteq> 0" and "mbi_flags m mbi AND MULTIBOOT_INFO_MEM_MAP \<noteq> 0"
    and "map_bounded m (mbi_mmap_addr m mbi + mbi_mmap_length m mbi) (mbi_mmap_addr m mbi)"
  shows "\<exists>t. pmm_init m mbi ks ke s = Some (Inr t)"
  using discover_loop_terminates [OF assms(3)] assms(1,2)
  by (auto simp: pmm_init_def Let_def discover_from_mmap_def)

lemma pmm_init_panics:
  "pmm_init m mbi ks ke s = Some (Inl e) \<Longrightarrow>
     mbi = 0 \<or> mbi_flags m mbi AND MULTIBOOT_INFO_MEM_MAP = 0"
  by (auto simp: pmm_init_def Let_def split: if_splits)

text \<open>A memory with a Multiboot structure at 64 KiB and a map of one available region,
  1 MiB to 4 MiB, and a manager with a single free frame.\<close>

definition sample_boot :: memory where
  "sample_boot = (\<lambda>a. if a = 0x10000 then 64 else if a = 0x1002C then 24
     else if a = 0x10031 then 1 else if a = 0x10032 then 1 else if a = 0x10100 then 20
     else if a = 0x10106 then 0x10 else if a = 0x1010E then 0x30 else if a = 0x10114 then 1 else 0)"

definition sample_pmm :: pmm where
  "sample_pmm = mark_frame_free 256 (mark_all_frames_used \<lparr>frame_bitmap = (\<lambda>_. 0),
     total_frames = 0, usable_frames = 0, reserved_frames = 0, free_frames = 0,
     highest_physical_addr = 0\<rparr>)"

lemma sample_pmm [simp]:
  "pmm_inv sample_pmm" "free_set sample_pmm = {256}" "free_pages sample_pmm = {0x100000}"
  by (simp_all add: sample_pmm_def free_pages_def addr_from_frame_index_def)

lemma sample_boot_reads:
  "mbi_flags sample_boot 0x10000 = 64" "mbi_mmap_length sample_boot 0x10000 = 24"
  "mbi_mmap_addr sample_boot 0x10000 = 0x10100"
  "e_size (mmap_entry_at sample_boot 0x10100) = 20"
  by (simp_all add: mbi_flags_def mbi_mmap_length_def mbi_mmap_addr_def mmap_entry_at_def
      load32_def sample_boot_def)

lemma sample_boot_bounded: "map_bounded sample_boot 0x10118 0x10100"
  unfolding map_bounded_def
  by (subst visits_iff, subst visits_iff) (simp add: sample_boot_reads)

lemma sample_boot_init: "\<exists>t. pmm_init sample_boot 0x10000 0x100000 0x180000 sample_pmm = Some (Inr t)"
  by (rule pmm_init_total) (simp_all add: sample_boot_reads sample_boot_bounded)

text \<open>
  Two corners of the map walk. A region that ends exactly at 4 GiB is cast to the end address 0
  and contributes nothing; a region that starts in the last page is rounded up to 0, and then all
  the frames below its end become free.
\<close>

lemma region_ending_at_4gib_ignored:
  assumes "entry_base e + entry_length e = 0x100000000"
  shows "free_set (discover_entry e s) = free_set s"
proof -
  have "frames_in a 0 = {}" for a by (auto simp: frames_in_def)
  moreover have z: "(0x100000000 :: u32) = 0" by (simp add: word_unat_eq_iff)
  ultimately show ?thesis using assms by (simp add: entry_frames_def align_down_page_def z)
qed

lemma region_in_last_page_frees_all:
  "f < 0xFFFFF \<Longrightarrow> f \<in> free_set (free_range 0xFFFFF800 0xFFFFFFFF s)"
proof -
  assume f: "f < 0xFFFFF"
  then have "f < PMM_MAX_FRAMES" by (simp add: word_less_nat_alt)
  moreover from this f have "addr_from_frame_index f < 0xFFFFF000"
    by (simp add: word_less_nat_alt)
  moreover have "align_up_page 0xFFFFF800 = 0" "align_down_page 0xFFFFFFFF = 0xFFFFF000"
    by (simp_all add: align_up_page_def align_down_page_def)
  ultimately show ?thesis by (simp add: frames_in_def)
qed

text \<open>
  C1. After a successful initialisation a frame is free exactly when it is below the last page of the
  address space, an available region of the memory map contains all of it, and it shares no byte with
  the boot data: the first MiB, the kernel image, the Multiboot structure and the memory map itself.
  Regions and ranges are compared in exact arithmetic, for boot data below the last page and for
  maps none of whose available regions starts in the last page below 4 GiB or ends exactly at 4 GiB,
  where the code goes wrong. The counters agree with the bitmap.
\<close>

theorem pmm_init_free_frames:
  assumes "pmm_init m mbi kernel_start kernel_end s = Some (Inr t)"
    and "\<And>c. visits m (mbi_mmap_addr m mbi + mbi_mmap_length m mbi) (mbi_mmap_addr m mbi) c \<Longrightarrow> regular_region (mmap_entry_at m c)"
    and "unat kernel_end \<le> 0xFFFFF000" and "unat mbi + 52 \<le> 0xFFFFF000"
    and "unat (mbi_mmap_addr m mbi) + unat (mbi_mmap_length m mbi) \<le> 0xFFFFF000"
  shows "(\<forall>f. f \<in> free_set t \<longleftrightarrow> f < 0xFFFFF
       \<and> (\<exists>c. visits m (mbi_mmap_addr m mbi + mbi_mmap_length m mbi) (mbi_mmap_addr m mbi) c \<and> region_contains (mmap_entry_at m c) f)
       \<and> \<not> frame_meets f 0 0x100000 \<and> \<not> frame_meets f (unat kernel_start) (unat kernel_end)
       \<and> \<not> frame_meets f (unat mbi) (unat mbi + 52)
       \<and> \<not> frame_meets f (unat (mbi_mmap_addr m mbi)) (unat (mbi_mmap_addr m mbi) + unat (mbi_mmap_length m mbi)))
     \<and> unat (free_frames t) = card (free_set t) \<and> reserved_frames t = total_frames t - free_frames t"
proof -
  note r = pmm_init_result [OF assms(1)]
  let ?last = "mbi_mmap_addr m mbi + mbi_mmap_length m mbi"
  have "f \<in> map_frames m ?last (mbi_mmap_addr m mbi)
      \<longleftrightarrow> f < 0xFFFFF \<and> (\<exists>c. visits m ?last (mbi_mmap_addr m mbi) c \<and> region_contains (mmap_entry_at m c) f)" for f
    using entry_frames_exact [OF assms(2)] by (auto simp: map_frames_def)
  moreover have "f < PMM_MAX_FRAMES" if "f < 0xFFFFF" for f :: u32 using that by (simp add: word_less_nat_alt)
  ultimately show ?thesis
    using r boot_frames_exact [OF assms(3-5)] by (auto simp: pmm_inv_def)
qed

lemma sample_region:
  "region_start (mmap_entry_at sample_boot 0x10100) = 0x100000" "region_end (mmap_entry_at sample_boot 0x10100) = 0x400000"
  "e_type (mmap_entry_at sample_boot 0x10100) = MULTIBOOT_MEMORY_AVAILABLE"
  by (simp_all add: region_start_def region_end_def mmap_entry_at_def load32_def sample_boot_def)

lemma sample_visits: "visits sample_boot 0x10118 0x10100 c \<longleftrightarrow> c = 0x10100"
  by (subst visits_iff, subst visits_iff) (simp add: sample_boot_reads)

theorem pmm_init_free_frames_witness:
  "\<exists>t. pmm_init sample_boot 0x10000 0x100000 0x180000 sample_pmm = Some (Inr t)
     \<and> 0x17F \<notin> free_set t \<and> 0x180 \<in> free_set t \<and> 0x3FF \<in> free_set t \<and> 0x400 \<notin> free_set t
     \<and> unat (free_frames t) = card (free_set t)"
proof -
  obtain t where t: "pmm_init sample_boot 0x10000 0x100000 0x180000 sample_pmm = Some (Inr t)"
    using sample_boot_init by blast
  have "regular_region (mmap_entry_at sample_boot c)" if "visits sample_boot 0x10118 0x10100 c" for c
    using that by (simp add: sample_visits regular_region_def sample_region)
  with pmm_init_free_frames [OF t] have "(f \<in> free_set t \<longleftrightarrow> f < 0xFFFFF \<and> region_contains (mmap_entry_at sample_boot 0x10100) f
      \<and> \<not> frame_meets f 0 0x100000 \<and> \<not> frame_meets f 0x100000 0x180000 \<and> \<not> frame_meets f 0x10000 0x10034
      \<and> \<not> frame_meets f 0x10100 0x10118) \<and> unat (free_frames t) = card (free_set t)" for f
    by (simp add: sample_boot_reads sample_visits)
  with t show ?thesis by (simp add: region_contains_def sample_region frame_meets_def)
qed

text \<open>
  C2. Initialisation returns, without a panic, whenever the Multiboot structure is present, has a
  memory map, and no entry met by the walk carries the cursor past the end of the address space.
\<close>

theorem pmm_init_returns:
  assumes "mbi \<noteq> 0" and "mbi_flags m mbi AND MULTIBOOT_INFO_MEM_MAP \<noteq> 0"
    and "map_bounded m (mbi_mmap_addr m mbi + mbi_mmap_length m mbi) (mbi_mmap_addr m mbi)"
  shows "\<exists>t. pmm_init m mbi kernel_start kernel_end s = Some (Inr t)"
  by (rule pmm_init_total [OF assms])

theorem pmm_init_returns_witness:
  "\<exists>t. pmm_init sample_boot 0x10000 0x100000 0x180000 sample_pmm = Some (Inr t)"
  by (rule pmm_init_returns) (simp_all add: sample_boot_reads sample_boot_bounded)

text \<open>
  C3. \<open>pmm_alloc_page\<close> returns the lowest free page at or above 1 MiB and takes exactly that
  page out of the free set; it returns 0, changing nothing, exactly when there is none.
\<close>

theorem pmm_alloc_page_lowest:
  assumes "pmm_alloc_page s = (p, t)"
  shows "if p = 0 then t = s \<and> (\<forall>q\<in>free_pages s. q < 0x100000)
     else p \<in> free_pages s \<and> page_aligned p \<and> 0x100000 \<le> p
       \<and> free_pages t = free_pages s - {p} \<and> (\<forall>q\<in>free_pages s. 0x100000 \<le> q \<longrightarrow> p \<le> q)"
proof (cases "scan_free s 256 PMM_MAX_FRAMES")
  case None
  have "q < 0x100000" if "q \<in> free_pages s" for q
  proof -
    from that obtain f where f: "f < PMM_MAX_FRAMES" "\<not> bitmap_test s f" "q = addr_from_frame_index f"
      by (auto simp: free_pages_def free_set_def)
    with scan_free_None [OF None, of f] have "f < 256" by fastforce
    with f show ?thesis by (simp add: word_less_nat_alt)
  qed
  with None assms show ?thesis by (simp add: alloc_take_frame)
next
  case (Some f)
  note tf = take_frame_Some [OF order_refl Some]
  from tf(1) assms have "p = addr_from_frame_index f" "t = mark_frame_used f s"
    by (simp_all add: alloc_take_frame)
  with tf show ?thesis by (auto intro: free_pages_aligned)
qed

theorem pmm_alloc_page_lowest_witness:
  "pmm_alloc_page sample_pmm = (0x100000, snd (pmm_alloc_page sample_pmm))
   \<and> free_pages (snd (pmm_alloc_page sample_pmm)) = {}"
  using pmm_alloc_page_lowest [of sample_pmm "fst (pmm_alloc_page sample_pmm)"
      "snd (pmm_alloc_page sample_pmm)"]
  by (auto simp: prod_eq_iff split: if_splits)

text \<open>
  C4. The contiguous allocator is sound and complete: a non-zero result is a page-aligned run of
  the requested number of free pages below the limit, and exactly these become used; it returns 0,
  changing nothing, only if no run of that length is free between 1 MiB and the limit.
\<close>

theorem pmm_alloc_contiguous_sound_complete:
  assumes "pmm_alloc_contiguous_pages_below n b s = (p, t)" and "n \<noteq> 0"
  shows "if p = 0 then t = s \<and> \<not> (\<exists>w. 256 \<le> w \<and> w + unat n \<le> unat (max_frame_below b) \<and> free_window s (unat n) w)
     else page_aligned p \<and> 0x100000 \<le> p \<and> unat p + unat n * 4096 \<le> unat b
       \<and> run_pages p n \<subseteq> free_pages s \<and> free_pages t = free_pages s - run_pages p n"
  using assms pmm_alloc_run [of n b s p t] pmm_alloc_run_fail [of n b s t] by auto

theorem pmm_alloc_contiguous_sound_complete_witness:
  "let r = pmm_alloc_contiguous_pages_below 1 0x400000 sample_pmm in
   fst r = 0x100000 \<and> free_pages (snd r) = {}"
proof -
  let ?r = "pmm_alloc_contiguous_pages_below 1 0x400000 sample_pmm"
  have "256 \<in> free_set sample_pmm" by simp
  then have w: "free_window sample_pmm (unat (1 :: u32)) 256"
    by (auto simp: free_window_def free_at_def free_set_def less_Suc_eq dest!: le_antisym)
  have M: "unat (max_frame_below 0x400000) = 1024" by (simp add: max_frame_below_def)
  have "fst ?r \<noteq> 0"
    using pmm_alloc_contiguous_sound_complete [of 1 "0x400000" sample_pmm "fst ?r" "snd ?r"] w M
    by (auto split: if_splits dest!: spec [of _ 256])
  with pmm_alloc_contiguous_sound_complete [of 1 "0x400000" sample_pmm "fst ?r" "snd ?r"]
  show ?thesis by (auto simp: run_pages_def Let_def split: if_splits)
qed

text \<open>
  C5. Over any sequence of allocations and releases of held pages, no page is ever handed out
  twice: what is held and what is free partition the pages that were free at the start, so every
  later result is a page that is not held, and the free counter stays exact.
\<close>

theorem pmm_no_page_handed_out_twice:
  assumes "pmm_run s0 held s" and "pmm_inv s0"
  shows "held \<inter> free_pages s = {} \<and> held \<union> free_pages s = free_pages s0 \<and> pmm_inv s
    \<and> (let p = fst (pmm_alloc_page s) in p = 0 \<or> p \<notin> held)"
proof -
  have "p = 0 \<or> p \<notin> held" if "pmm_alloc_page s = (p, t)" for p t
    using any_page.alloc_fresh(1) [OF _ that] pmm_run_held [OF assms(1)] by blast
  then show ?thesis
    using pmm_run_held [OF assms(1)] pmm_run_inv [OF assms] by (cases "pmm_alloc_page s") auto
qed

theorem pmm_no_page_handed_out_twice_witness:
  "\<exists>s. pmm_run sample_pmm {0x100000} s \<and> free_pages s = {}"
proof -
  let ?r = "pmm_alloc_page sample_pmm"
  have "fst ?r = 0x100000"
    by (simp add: pmm_alloc_page_def scan_free.simps addr_from_frame_index_def
        sample_pmm_def mark_frame_free_def mark_all_frames_used_def fold_bitmap_fill)
  then have "pmm_run sample_pmm (insert 0x100000 {}) (snd ?r)"
    by (intro pmm_run.alloc [OF pmm_run.start]) (simp_all add: prod_eq_iff)
  with pmm_no_page_handed_out_twice [OF this] show ?thesis by (auto intro!: exI [of _ "snd ?r"])
qed

end
