(* ===== verification/Page_Tables.thy ===== *)
theory Page_Tables
  imports Byte_Memory
begin

text \<open>
  Two-level x86 page tables in memory, as \<open>arch/x86/vmm.c\<close> and \<open>kernel/address_space.c\<close>
  read and write them, and the two tables \<open>arch/x86/paging.c\<close> builds at boot.
  \<open>translate\<close> is the walk a lookup makes: the page-table entry of a virtual address, if its
  directory entry and itself are present. The lemmas say what writing one entry, clearing a page
  and installing a new table do to \<open>translate\<close>, for any set of directory slots whose tables
  are distinct from each other and from the directory.
\<close>

section \<open>Entries and indices\<close>

abbreviation (input) X86_PAGE_SIZE :: u32 where "X86_PAGE_SIZE \<equiv> 4096"
abbreviation (input) X86_PAGE_PRESENT :: u32 where "X86_PAGE_PRESENT \<equiv> 1"
abbreviation (input) X86_PAGE_WRITABLE :: u32 where "X86_PAGE_WRITABLE \<equiv> 2"
abbreviation (input) X86_PAGE_USER :: u32 where "X86_PAGE_USER \<equiv> 4"
abbreviation (input) X86_PAGE_FRAME_MASK :: u32 where "X86_PAGE_FRAME_MASK \<equiv> 0xFFFFF000"
abbreviation (input) X86_PAGE_FLAGS_MASK :: u32 where "X86_PAGE_FLAGS_MASK \<equiv> 0xFFF"
abbreviation (input) PAGE_DIRECTORY_ENTRIES :: u32 where "PAGE_DIRECTORY_ENTRIES \<equiv> 1024"
abbreviation (input) PAGE_TABLE_ENTRIES :: u32 where "PAGE_TABLE_ENTRIES \<equiv> 1024"

definition is_page_aligned :: "u32 \<Rightarrow> bool" where
  "is_page_aligned value \<longleftrightarrow> value AND (X86_PAGE_SIZE - 1) = 0"

definition directory_index :: "u32 \<Rightarrow> u32" where
  "directory_index virtual_addr = drop_bit 22 virtual_addr"

definition table_index :: "u32 \<Rightarrow> u32" where
  "table_index virtual_addr = drop_bit 12 virtual_addr AND 0x3FF"

definition table_from_pde :: "u32 \<Rightarrow> u32" where
  "table_from_pde pde = pde AND X86_PAGE_FRAME_MASK"

section \<open>The boot tables of arch/x86/paging.c\<close>

abbreviation (input) IDENTITY_TABLE_COUNT :: u32 where "IDENTITY_TABLE_COUNT \<equiv> 4"

definition zero_page_directory :: "u32 \<Rightarrow> memory \<Rightarrow> memory" where
  "zero_page_directory page_directory m =
     fold (\<lambda>i m. set_table_entry m page_directory (word_of_nat i) 0)
       [0..<unat PAGE_DIRECTORY_ENTRIES] m"

definition build_identity_table :: "u32 \<Rightarrow> u32 \<Rightarrow> memory \<Rightarrow> memory" where
  "build_identity_table identity_tables table m =
     fold (\<lambda>entry m.
         let physical_addr = (table * PAGE_TABLE_ENTRIES + word_of_nat entry) * X86_PAGE_SIZE in
         set_table_entry m (identity_tables + table * 4096) (word_of_nat entry)
           ((physical_addr AND X86_PAGE_FRAME_MASK) OR X86_PAGE_PRESENT OR X86_PAGE_WRITABLE))
       [0..<unat PAGE_TABLE_ENTRIES] m"

definition build_identity_tables :: "u32 \<Rightarrow> u32 \<Rightarrow> memory \<Rightarrow> memory" where
  "build_identity_tables page_directory identity_tables m =
     fold (\<lambda>table m.
         let m1 = build_identity_table identity_tables (word_of_nat table) m in
         set_table_entry m1 page_directory (word_of_nat table)
           (((identity_tables + word_of_nat table * 4096) AND X86_PAGE_FRAME_MASK)
             OR X86_PAGE_PRESENT OR X86_PAGE_WRITABLE))
       [0..<unat IDENTITY_TABLE_COUNT] m"

text \<open>The table-building part of \<open>paging_init\<close>; loading CR3 and CR0 is not modelled.\<close>

definition paging_init :: "u32 \<Rightarrow> u32 \<Rightarrow> memory \<Rightarrow> memory" where
  "paging_init page_directory identity_tables m =
     build_identity_tables page_directory identity_tables (zero_page_directory page_directory m)"

section \<open>The walk\<close>

definition pde_table :: "memory \<Rightarrow> u32 \<Rightarrow> u32 \<Rightarrow> u32 option" where
  "pde_table m dir i =
     (let pde = table_entry m dir i in
      if pde AND X86_PAGE_PRESENT \<noteq> 0 then Some (table_from_pde pde) else None)"

definition translate :: "memory \<Rightarrow> u32 \<Rightarrow> u32 \<Rightarrow> u32 option" where
  "translate m dir virtual_addr =
     (case pde_table m dir (directory_index virtual_addr) of
        None \<Rightarrow> None
      | Some table \<Rightarrow>
          (let pte = table_entry m table (table_index virtual_addr) in
           if pte AND X86_PAGE_PRESENT \<noteq> 0 then Some pte else None))"

lemma is_page_aligned_iff: "is_page_aligned v \<longleftrightarrow> page_aligned v"
  by (simp add: is_page_aligned_def page_aligned_def)

lemma unat_directory_index: "unat (directory_index v) = unat v div 2 ^ 22"
  by (simp add: directory_index_def drop_bit_eq_div unat_div)

lemma unat_table_index: "unat (table_index v) = unat v div 4096 mod 1024"
proof -
  have "table_index v = take_bit 10 (drop_bit 12 v)"
    by (simp add: table_index_def take_bit_eq_mask mask_eq_exp_minus_1)
  then show ?thesis
    by (simp only: unsigned_take_bit_eq unsigned_drop_bit_eq) (simp add: take_bit_eq_mod drop_bit_eq_div)
qed

lemma directory_index_less [simp]: "directory_index v < 1024"
  by (simp add: word_less_nat_alt unat_directory_index less_mult_imp_div_less)

lemma table_index_less [simp]: "table_index v < 1024"
  by (simp add: word_less_nat_alt unat_table_index)

lemma aligned_table_from_pde [simp]: "page_aligned (table_from_pde pde)"
proof -
  have "(0xFFFFF000 :: u32) AND 4095 = 0" by simp
  then show ?thesis by (simp add: page_aligned_def table_from_pde_def and.assoc)
qed

lemma frame_mask_aligned:
  assumes "page_aligned p" shows "p AND 0xFFFFF000 = p"
proof -
  have "(0xFFFFF000 :: u32) = NOT 4095" by simp
  moreover have "p = (p AND NOT 4095) OR (p AND 4095)"
    by (simp add: bit_eq_iff bit_simps) blast
  ultimately show ?thesis using assms by (metis page_aligned_def or.right_neutral)
qed

lemma indices_determine_page:
  "directory_index v = directory_index w \<and> table_index v = table_index w
     \<longleftrightarrow> unat v div 4096 = unat w div 4096"
proof -
  have "unat (directory_index x) = unat x div 4096 div 1024" for x
    by (simp add: unat_directory_index div_mult2_eq [symmetric])
  then show ?thesis
    by (auto simp: word_unat_eq_iff unat_table_index) (metis div_mod_decomp)
qed

lemma indices_determine_aligned:
  assumes "page_aligned v" "page_aligned w"
  shows "directory_index v = directory_index w \<and> table_index v = table_index w \<longleftrightarrow> v = w"
  unfolding indices_determine_page
  using assms by (auto elim!: page_alignedE simp: word_unat_eq_iff)

section \<open>Well-formed directories\<close>

definition dir_wf :: "memory \<Rightarrow> u32 \<Rightarrow> u32 set \<Rightarrow> bool" where
  "dir_wf m dir I \<longleftrightarrow> page_aligned dir \<and> (\<forall>i\<in>I. i < 1024 \<and> pde_table m dir i \<noteq> Some dir) \<and>
     (\<forall>i\<in>I. \<forall>j\<in>I. \<forall>t. pde_table m dir i = Some t \<and> pde_table m dir j = Some t \<longrightarrow> i = j)"

definition tables_of :: "memory \<Rightarrow> u32 \<Rightarrow> u32 set \<Rightarrow> u32 set" where
  "tables_of m dir I = {t. \<exists>i\<in>I. pde_table m dir i = Some t}"

lemma tables_of_aligned: "t \<in> tables_of m dir I \<Longrightarrow> page_aligned t"
  by (auto simp: tables_of_def pde_table_def Let_def split: if_splits)

lemma pde_table_aligned: "pde_table m dir i = Some t \<Longrightarrow> page_aligned t"
  by (auto simp: pde_table_def Let_def split: if_splits)

text \<open>A write outside the directory and its tables changes nothing.\<close>

lemma pde_table_set_other:
  "page_aligned dir \<Longrightarrow> page_aligned p \<Longrightarrow> p \<noteq> dir \<Longrightarrow> i < 1024 \<Longrightarrow> j < 1024 \<Longrightarrow>
   pde_table (set_table_entry m p j v) dir i = pde_table m dir i"
  by (simp add: pde_table_def table_entry_set)

lemma pde_table_memset_other:
  "page_aligned dir \<Longrightarrow> page_aligned p \<Longrightarrow> p \<noteq> dir \<Longrightarrow> i < 1024 \<Longrightarrow>
   pde_table (memset m p 0 4096) dir i = pde_table m dir i"
  by (simp add: pde_table_def table_entry_memset_page)

lemma translate_set_outside:
  assumes "dir_wf m dir I" and "directory_index va \<in> I" and "page_aligned p" and "j < 1024"
    and "p \<noteq> dir" and "p \<notin> tables_of m dir I"
  shows "translate (set_table_entry m p j v) dir va = translate m dir va"
  using assms by (auto simp: translate_def dir_wf_def pde_table_set_other tables_of_def
      table_entry_set pde_table_aligned split: option.splits)

lemma translate_memset_outside:
  assumes "dir_wf m dir I" and "directory_index va \<in> I" and "page_aligned p"
    and "p \<noteq> dir" and "p \<notin> tables_of m dir I"
  shows "translate (memset m p 0 4096) dir va = translate m dir va"
  using assms by (auto simp: translate_def dir_wf_def pde_table_memset_other tables_of_def
      table_entry_memset_page pde_table_aligned split: option.splits)

text \<open>Writing a page-table entry changes the translation of that page and keeps the directory.\<close>

lemma translate_set_pte:
  assumes wf: "dir_wf m dir I" and i: "directory_index va \<in> I"
    and t: "pde_table m dir (directory_index va) = Some t" and i': "directory_index va' \<in> I"
  shows "translate (set_table_entry m t (table_index va) v) dir va' =
    (if unat va' div 4096 = unat va div 4096
     then (if v AND X86_PAGE_PRESENT \<noteq> 0 then Some v else None)
     else translate m dir va')"
proof -
  have t': "page_aligned t" "t \<noteq> dir" using t wf i pde_table_aligned [OF t] by (auto simp: dir_wf_def)
  have dir: "page_aligned dir" using wf by (simp add: dir_wf_def)
  have pde: "pde_table (set_table_entry m t (table_index va) v) dir (directory_index va')
      = pde_table m dir (directory_index va')"
    using t' dir by (intro pde_table_set_other) auto
  show ?thesis
  proof (cases "pde_table m dir (directory_index va')")
    case None
    then show ?thesis using t indices_determine_page [of va' va] by (auto simp: translate_def pde)
  next
    case (Some u)
    then have u: "page_aligned u" by (rule pde_table_aligned)
    have "t = u \<longleftrightarrow> directory_index va = directory_index va'"
      using Some t wf i i' by (auto simp: dir_wf_def)
    then have "t = u \<and> table_index va = table_index va' \<longleftrightarrow> unat va' div 4096 = unat va div 4096"
      using indices_determine_page [of va va'] by auto
    then show ?thesis
      using Some u t' by (auto simp: translate_def pde table_entry_set)
  qed
qed

lemma set_pte_dir:
  assumes wf: "dir_wf m dir I" and i: "i \<in> I" and t: "pde_table m dir i = Some t" and j: "j < 1024"
  shows "dir_wf (set_table_entry m t j v) dir I"
    and "tables_of (set_table_entry m t j v) dir I = tables_of m dir I"
proof -
  have "page_aligned t" "t \<noteq> dir" using t wf i pde_table_aligned [OF t] by (auto simp: dir_wf_def)
  then have "pde_table (set_table_entry m t j v) dir k = pde_table m dir k" if "k \<in> I" for k
    using that wf j by (intro pde_table_set_other) (auto simp: dir_wf_def)
  then show "dir_wf (set_table_entry m t j v) dir I"
    "tables_of (set_table_entry m t j v) dir I = tables_of m dir I"
    using wf by (auto simp: dir_wf_def tables_of_def)
qed

text \<open>
  Installing a fresh, cleared table in an empty slot maps nothing: every translation stays.
\<close>

definition install_table :: "memory \<Rightarrow> u32 \<Rightarrow> u32 \<Rightarrow> u32 \<Rightarrow> u32 \<Rightarrow> memory" where
  "install_table m dir i t flags =
     set_table_entry (memset m t 0 X86_PAGE_SIZE) dir i ((t AND X86_PAGE_FRAME_MASK) OR flags)"

lemma pde_with_flags:
  assumes "page_aligned t" and "flags AND X86_PAGE_FRAME_MASK = 0" and "flags AND X86_PAGE_PRESENT \<noteq> 0"
  shows "table_from_pde ((t AND X86_PAGE_FRAME_MASK) OR flags) = t"
    and "((t AND X86_PAGE_FRAME_MASK) OR flags) AND X86_PAGE_PRESENT \<noteq> 0"
proof -
  show "table_from_pde ((t AND X86_PAGE_FRAME_MASK) OR flags) = t"
    unfolding frame_mask_aligned [OF assms(1)] table_from_pde_def bit.conj_disj_distrib2 assms(2)
    by (simp add: frame_mask_aligned [OF assms(1)])
  show "((t AND X86_PAGE_FRAME_MASK) OR flags) AND X86_PAGE_PRESENT \<noteq> 0"
    using assms(3) by (simp add: bit.conj_disj_distrib2 or_eq_0_iff)
qed

lemma pde_table_install:
  assumes "page_aligned dir" and "page_aligned t" and "t \<noteq> dir" and "i < 1024" and "j < 1024"
    and "flags AND X86_PAGE_FRAME_MASK = 0" and "flags AND X86_PAGE_PRESENT \<noteq> 0"
  shows "pde_table (install_table m dir i t flags) dir j = (if j = i then Some t else pde_table m dir j)"
  unfolding pde_table_def install_table_def table_entry_set [OF assms(1,1,4,5)] Let_def
  using assms pde_with_flags [OF assms(2,6,7)] by (auto simp: table_entry_memset_page)

lemma install_table_wf:
  assumes wf: "dir_wf m dir I" and t: "page_aligned t" "t \<noteq> dir" "t \<notin> tables_of m dir I"
    and i: "i \<in> I" and fl: "flags AND X86_PAGE_FRAME_MASK = 0" "flags AND X86_PAGE_PRESENT \<noteq> 0"
  shows "dir_wf (install_table m dir i t flags) dir I"
    and "tables_of (install_table m dir i t flags) dir I \<subseteq> insert t (tables_of m dir I)"
proof -
  have pde: "pde_table (install_table m dir i t flags) dir j = (if j = i then Some t else pde_table m dir j)"
    if "j \<in> I" for j
    using that wf i t fl by (intro pde_table_install) (auto simp: dir_wf_def)
  show "dir_wf (install_table m dir i t flags) dir I"
    using wf t(2,3) unfolding dir_wf_def tables_of_def by (auto simp: pde)
  show "tables_of (install_table m dir i t flags) dir I \<subseteq> insert t (tables_of m dir I)"
    by (auto simp: tables_of_def pde split: if_splits)
qed

lemma translate_install:
  assumes wf: "dir_wf m dir I" and t: "page_aligned t" "t \<noteq> dir" "t \<notin> tables_of m dir I"
    and i: "i \<in> I" "pde_table m dir i = None"
    and fl: "flags AND X86_PAGE_FRAME_MASK = 0" "flags AND X86_PAGE_PRESENT \<noteq> 0"
    and va: "directory_index va \<in> I"
  shows "translate (install_table m dir i t flags) dir va = translate m dir va"
proof -
  have dir: "page_aligned dir" and i': "i < 1024" using wf i by (auto simp: dir_wf_def)
  have entry: "table_entry (install_table m dir i t flags) q k = (if q = t then 0 else table_entry m q k)"
    if "page_aligned q" "q \<noteq> dir" "k < 1024" for q k
    using that dir i' t by (auto simp: install_table_def table_entry_set table_entry_memset_page)
  have pde: "pde_table (install_table m dir i t flags) dir (directory_index va) =
      (if directory_index va = i then Some t else pde_table m dir (directory_index va))"
    using dir t i' fl by (intro pde_table_install) auto
  show ?thesis
  proof (cases "directory_index va = i")
    case True
    with pde i(2) t show ?thesis by (simp add: translate_def entry)
  next
    case False
    have "u \<noteq> dir \<and> u \<noteq> t \<and> page_aligned u" if "pde_table m dir (directory_index va) = Some u" for u
      using that wf t(3) va by (auto simp: dir_wf_def tables_of_def dest: pde_table_aligned)
    with False show ?thesis by (auto simp: translate_def pde entry split: option.splits)
  qed
qed

section \<open>What the boot tables translate\<close>

lemma table_entry_fold:
  assumes "page_aligned p" and "page_aligned q" and "j < 1024" and "n \<le> 1024"
  shows "table_entry (fold (\<lambda>i m. set_table_entry m p (word_of_nat i) (f i)) [0..<n] m) q j =
    (if q = p \<and> unat j < n then f (unat j) else table_entry m q j)"
  using assms(4)
proof (induction n)
  case 0
  then show ?case by simp
next
  case (Suc n)
  have n: "unat (word_of_nat n :: u32) = n" using Suc.prems by (simp add: unat_of_nat)
  then have lt: "(word_of_nat n :: u32) < 1024" using Suc.prems by (simp add: word_less_nat_alt)
  have "word_of_nat n = j \<longleftrightarrow> n = unat j" using n by (auto simp: word_unat_eq_iff)
  then show ?case
    using Suc by (auto simp: table_entry_set [OF assms(1,2) lt assms(3)] less_Suc_eq)
qed

definition identity_pte :: "u32 \<Rightarrow> u32 \<Rightarrow> u32" where
  "identity_pte table entry =
     (((table * PAGE_TABLE_ENTRIES + entry) * X86_PAGE_SIZE) AND X86_PAGE_FRAME_MASK)
       OR X86_PAGE_PRESENT OR X86_PAGE_WRITABLE"

lemma table_entry_identity_table:
  assumes "page_aligned (it + t * 4096)" and "page_aligned q" and "j < 1024"
  shows "table_entry (build_identity_table it t m) q j =
    (if q = it + t * 4096 then identity_pte t j else table_entry m q j)"
proof -
  have "unat j < 1024" using assms(3) by (simp add: word_less_nat_alt)
  then show ?thesis
    unfolding build_identity_table_def Let_def
    using table_entry_fold [OF assms, of 1024 "\<lambda>i. identity_pte t (word_of_nat i)" m]
    by (simp add: identity_pte_def)
qed

text \<open>Where the linker may put the directory and the four tables.\<close>

definition boot_layout :: "u32 \<Rightarrow> u32 \<Rightarrow> bool" where
  "boot_layout page_directory identity_tables \<longleftrightarrow>
     page_aligned page_directory \<and> page_aligned identity_tables
     \<and> unat identity_tables + 16384 \<le> 2 ^ 32
     \<and> (unat page_directory < unat identity_tables \<or> unat identity_tables + 16384 \<le> unat page_directory)"

definition identity_table :: "u32 \<Rightarrow> nat \<Rightarrow> u32" where
  "identity_table it t = it + word_of_nat t * 4096"

lemma identity_table_addr:
  assumes "boot_layout pd it" and "t < 4"
  shows "unat (identity_table it t) = unat it + t * 4096"
    and "page_aligned (identity_table it t)" and "identity_table it t \<noteq> pd"
proof -
  have t: "unat (word_of_nat t :: u32) = t" using assms(2) by (simp add: unat_of_nat)
  show *: "unat (identity_table it t) = unat it + t * 4096"
    using assms t by (simp add: unat_word_ariths boot_layout_def identity_table_def)
  then show "page_aligned (identity_table it t)" using assms(1)
    by (simp add: page_aligned_iff boot_layout_def)
  show "identity_table it t \<noteq> pd"
    using * assms by (auto simp: boot_layout_def word_unat_eq_iff)
qed

lemma identity_table_inj:
  assumes "boot_layout pd it" and "t < 4" and "u < 4"
  shows "identity_table it t = identity_table it u \<longleftrightarrow> t = u"
  using identity_table_addr(1) [OF assms(1,2)] identity_table_addr(1) [OF assms(1,3)]
  by (auto simp: word_unat_eq_iff)

definition identity_pde :: "u32 \<Rightarrow> nat \<Rightarrow> u32" where
  "identity_pde it t = (identity_table it t AND X86_PAGE_FRAME_MASK) OR X86_PAGE_PRESENT OR X86_PAGE_WRITABLE"

definition build_tables_upto :: "nat \<Rightarrow> u32 \<Rightarrow> u32 \<Rightarrow> memory \<Rightarrow> memory" where
  "build_tables_upto n pd it m = fold (\<lambda>t m.
     set_table_entry (build_identity_table it (word_of_nat t) m) pd (word_of_nat t) (identity_pde it t))
     [0..<n] m"

lemma build_identity_tables_upto:
  "build_identity_tables pd it m = build_tables_upto 4 pd it m"
  by (simp add: build_identity_tables_def build_tables_upto_def identity_pde_def identity_table_def Let_def)

lemma build_tables_entries:
  assumes bl: "boot_layout pd it" and n: "n \<le> 4" and j: "j < 1024"
  shows "table_entry (build_tables_upto n pd it m) pd j =
      (if unat j < n then identity_pde it (unat j) else table_entry m pd j)"
    and "t < n \<Longrightarrow> table_entry (build_tables_upto n pd it m) (identity_table it t) j
      = identity_pte (word_of_nat t) j"
  using n
proof (induction n)
  case 0
  { case 1 then show ?case by (simp add: build_tables_upto_def) }
  { case 2 then show ?case by simp }
next
  case (Suc n)
  have pd: "page_aligned pd" using bl by (simp add: boot_layout_def)
  have n: "unat (word_of_nat n :: u32) = n" if "n \<le> 3" using that by (simp add: unat_of_nat)
  have step: "table_entry (build_tables_upto (Suc n) pd it m) q j =
      (if pd = q \<and> word_of_nat n = j then identity_pde it n
       else if q = identity_table it n then identity_pte (word_of_nat n) j
       else table_entry (build_tables_upto n pd it m) q j)"
    if q: "page_aligned q" and n3: "n \<le> 3" for q
  proof -
    have lt: "(word_of_nat n :: u32) < 1024" using n [OF n3] n3 by (simp add: word_less_nat_alt)
    have al: "page_aligned (it + word_of_nat n * 4096)"
      using identity_table_addr(2) [OF bl, of n] n3 by (simp add: identity_table_def)
    show ?thesis
      unfolding build_tables_upto_def identity_table_def
      by (auto simp: table_entry_set [OF pd _ lt j] table_entry_identity_table [OF al _ j] q al)
  qed
  { case 1
    then have n3: "n \<le> 3" by simp
    have "word_of_nat n = j \<longleftrightarrow> n = unat j" using n [OF n3] by (auto simp: word_unat_eq_iff)
    moreover have "pd \<noteq> identity_table it n" using identity_table_addr(3) [OF bl, of n] n3 by auto
    ultimately show ?case using step [OF pd n3] Suc.IH(1) n3 by auto }
  { case 2
    then have n3: "n \<le> 3" "t < 4" by simp_all
    note ta = identity_table_addr [OF bl n3(2)]
    have "identity_table it t = identity_table it n \<longleftrightarrow> t = n"
      by (rule identity_table_inj [OF bl]) (use n3 in simp_all)
    then show ?case using step [OF ta(2) n3(1)] ta(3) Suc.IH(2) 2 by auto }
qed

lemma zero_page_directory_entry:
  assumes "page_aligned pd" and "j < 1024"
  shows "table_entry (zero_page_directory pd m) pd j = 0"
proof -
  have "unat j < 1024" using assms(2) by (simp add: word_less_nat_alt)
  then show ?thesis
    unfolding zero_page_directory_def
    using table_entry_fold [OF assms(1,1,2), of 1024 "\<lambda>_. 0" m] by simp
qed

lemma paging_init_pde:
  assumes bl: "boot_layout pd it" and i: "i < 1024"
  shows "pde_table (paging_init pd it m) pd i =
    (if unat i < 4 then Some (identity_table it (unat i)) else None)"
proof -
  have "identity_pde it t AND 1 \<noteq> 0 \<and> table_from_pde (identity_pde it t) = identity_table it t"
    if "t < 4" for t
    using pde_with_flags [OF identity_table_addr(2) [OF bl that], of 3]
    by (simp add: identity_pde_def or.assoc)
  moreover have "page_aligned pd" using bl by (simp add: boot_layout_def)
  ultimately show ?thesis
    by (simp add: pde_table_def paging_init_def build_identity_tables_upto Let_def
        build_tables_entries(1) [OF bl order_refl i] zero_page_directory_entry i)
qed

lemma page_of_indices: "(directory_index va * 1024 + table_index va) * 4096 = va AND NOT 4095"
proof -
  have d: "unat (directory_index va) = unat va div 4096 div 1024"
    by (simp add: unat_directory_index div_mult2_eq [symmetric])
  have b: "unat (directory_index va) < 1024" using directory_index_less [of va] by (simp add: word_less_nat_alt del: directory_index_less)
  have t: "unat (table_index va) < 1024" using table_index_less [of va] by (simp add: word_less_nat_alt del: table_index_less)
  have "unat (directory_index va * 1024 + table_index va) = unat va div 4096"
    using b t by (simp add: unat_word_ariths) (simp add: d unat_table_index)
  then have "unat ((directory_index va * 1024 + table_index va) * 4096) = unat va div 4096 * 4096"
    unfolding unat_word_ariths(2) [of _ 4096]
    using le_less_trans [OF div_times_less_eq_dividend unat_u32_less, of va 4096]
    by (simp only:) simp
  also have "\<dots> = unat (va AND NOT 4095)" using unat_and_not_mask [of va 12] by (simp add: u32_4095)
  finally show ?thesis by (simp only: word_unat_eq_iff)
qed

text \<open>
  C6. The tables built at boot map the first 16 MiB of virtual memory onto themselves, present,
  writable and supervisor-only, and map nothing else.
\<close>

theorem paging_init_identity:
  assumes "boot_layout page_directory identity_tables"
  shows "translate (paging_init page_directory identity_tables m) page_directory va =
    (if va < 0x1000000
     then Some ((va AND X86_PAGE_FRAME_MASK) OR X86_PAGE_PRESENT OR X86_PAGE_WRITABLE) else None)"
proof -
  have dir: "unat (directory_index va) < 4 \<longleftrightarrow> va < 0x1000000"
    by (auto simp: unat_directory_index word_less_nat_alt)
  show ?thesis
  proof (cases "va < 0x1000000")
    case True
    have e: "table_entry (paging_init page_directory identity_tables m)
        (identity_table identity_tables (unat (directory_index va))) (table_index va)
      = identity_pte (directory_index va) (table_index va)"
      using build_tables_entries(2) [OF assms order_refl table_index_less, of "unat (directory_index va)"]
        True dir by (simp add: paging_init_def build_identity_tables_upto)
    have m: "NOT (4095 :: u32) = 0xFFFFF000" by simp
    have p: "identity_pte (directory_index va) (table_index va)
      = (va AND X86_PAGE_FRAME_MASK) OR X86_PAGE_PRESENT OR X86_PAGE_WRITABLE"
      unfolding identity_pte_def page_of_indices m by (simp only: and.assoc and.idem)
    have "((va AND X86_PAGE_FRAME_MASK) OR X86_PAGE_PRESENT OR X86_PAGE_WRITABLE) AND X86_PAGE_PRESENT \<noteq> 0"
      by (simp add: bit.conj_disj_distrib2 or_eq_0_iff)
    then show ?thesis
      using True dir by (simp add: translate_def paging_init_pde [OF assms] e p)
  next
    case False
    then show ?thesis using dir by (simp add: translate_def paging_init_pde [OF assms])
  qed
qed

theorem paging_init_identity_witness:
  "boot_layout 0x110000 0x112000
   \<and> translate (paging_init 0x110000 0x112000 (\<lambda>_. 0)) 0x110000 0xB8123 = Some 0xB8003
   \<and> translate (paging_init 0x110000 0x112000 (\<lambda>_. 0)) 0x110000 0xC0000000 = None"
proof -
  have bl: "boot_layout 0x110000 0x112000" by (simp add: boot_layout_def page_aligned_def)
  then show ?thesis by (simp add: paging_init_identity [OF bl])
qed

end
