(* ===== verification/Vmm.thy ===== *)
theory Vmm
  imports Pmm Page_Tables
begin

text \<open>
  The kernel address-space mapper \<open>arch/x86/vmm.c\<close> and its portable front end
  \<open>kernel/vmem.c\<close>. The state holds the physical memory manager, the physical memory (read and
  written through the identity map), the address of the kernel page directory and the counter of
  mapped pages. TLB maintenance (\<open>paging_invalidate_page\<close>, \<open>paging_reload_cr3\<close>) has no
  effect on this state. The lemmas show that the mapper implements a finite map from pages to
  entries: \<open>vmm_map_page\<close> is the update of one page, \<open>vmm_unmap_page\<close> its removal, and the
  lookups read it back.
\<close>

section \<open>arch/x86/vmm.c\<close>

abbreviation (input) VMM_OK :: int where "VMM_OK \<equiv> 0"
abbreviation (input) VMM_ERR_INVALID :: int where "VMM_ERR_INVALID \<equiv> -1"
abbreviation (input) VMM_ERR_NO_MEMORY :: int where "VMM_ERR_NO_MEMORY \<equiv> -2"
abbreviation (input) VMM_ERR_ALREADY_MAPPED :: int where "VMM_ERR_ALREADY_MAPPED \<equiv> -3"
abbreviation (input) VMM_ERR_NOT_MAPPED :: int where "VMM_ERR_NOT_MAPPED \<equiv> -4"
abbreviation (input) VMM_BOOTSTRAP_TABLE_LIMIT :: u32 where "VMM_BOOTSTRAP_TABLE_LIMIT \<equiv> 0x1000000"

record vmm =
  vpmm :: pmm
  pmem :: memory
  kernel_directory :: u32
  mapped_page_count :: u32

definition get_or_create_page_table :: "u32 \<Rightarrow> u32 \<Rightarrow> vmm \<Rightarrow> u32 \<times> vmm" where
  "get_or_create_page_table dir_index flags s =
     (let pde = table_entry (pmem s) (kernel_directory s) dir_index in
      if pde AND X86_PAGE_PRESENT \<noteq> 0 then (table_from_pde pde, s)
      else
        (let (table_phys, p) = pmm_alloc_page_below VMM_BOOTSTRAP_TABLE_LIMIT (vpmm s) in
         if table_phys = PMM_INVALID_PAGE then (0, s\<lparr>vpmm := p\<rparr>)
         else
           (let m = memset (pmem s) table_phys 0 X86_PAGE_SIZE;
                table_flags = X86_PAGE_PRESENT OR X86_PAGE_WRITABLE;
                table_flags = (if flags AND X86_PAGE_USER \<noteq> 0 then table_flags OR X86_PAGE_USER
                               else table_flags);
                m = set_table_entry m (kernel_directory s) dir_index
                      ((table_phys AND X86_PAGE_FRAME_MASK) OR table_flags)
            in (table_phys, s\<lparr>vpmm := p, pmem := m\<rparr>))))"

definition vmm_init :: "u32 \<Rightarrow> vmm \<Rightarrow> vmm res" where
  "vmm_init page_directory s =
     (let s = s\<lparr>kernel_directory := page_directory, mapped_page_count := 0\<rparr> in
      if kernel_directory s = 0
      then Inl (Panic ''vmm_init could not get kernel page directory'') else Inr s)"

definition vmm_map_page :: "u32 \<Rightarrow> u32 \<Rightarrow> u32 \<Rightarrow> vmm \<Rightarrow> int \<times> vmm" where
  "vmm_map_page virtual_addr physical_addr flags s =
     (if \<not> is_page_aligned virtual_addr \<or> \<not> is_page_aligned physical_addr
      then (VMM_ERR_INVALID, s)
      else
        (let dir = directory_index virtual_addr; tab = table_index virtual_addr;
             (table, s) = get_or_create_page_table dir flags s
         in if table_entry (pmem s) table tab AND X86_PAGE_PRESENT \<noteq> 0
            then (VMM_ERR_ALREADY_MAPPED, s)
            else (VMM_OK,
              s\<lparr>pmem := set_table_entry (pmem s) table tab
                   ((physical_addr AND X86_PAGE_FRAME_MASK) OR (flags AND X86_PAGE_FLAGS_MASK)
                     OR X86_PAGE_PRESENT),
                mapped_page_count := mapped_page_count s + 1\<rparr>)))"

definition vmm_unmap_page :: "u32 \<Rightarrow> vmm \<Rightarrow> int \<times> vmm" where
  "vmm_unmap_page virtual_addr s =
     (if \<not> is_page_aligned virtual_addr then (VMM_ERR_INVALID, s)
      else
        (let dir = directory_index virtual_addr; tab = table_index virtual_addr;
             pde = table_entry (pmem s) (kernel_directory s) dir
         in if pde AND X86_PAGE_PRESENT = 0 then (VMM_ERR_NOT_MAPPED, s)
            else
              (let table = table_from_pde pde in
               if table_entry (pmem s) table tab AND X86_PAGE_PRESENT = 0
               then (VMM_ERR_NOT_MAPPED, s)
               else
                 (let s1 = s\<lparr>pmem := set_table_entry (pmem s) table tab 0\<rparr>
                  in (VMM_OK,
                      if mapped_page_count s1 > 0
                      then s1\<lparr>mapped_page_count := mapped_page_count s1 - 1\<rparr> else s1)))))"

definition vmm_get_physical :: "u32 \<Rightarrow> vmm \<Rightarrow> u32" where
  "vmm_get_physical virtual_addr s =
     (let dir = directory_index virtual_addr; tab = table_index virtual_addr;
          offset = virtual_addr AND (X86_PAGE_SIZE - 1);
          pde = table_entry (pmem s) (kernel_directory s) dir
      in if pde AND X86_PAGE_PRESENT = 0 then 0
         else
           (let pte = table_entry (pmem s) (table_from_pde pde) tab in
            if pte AND X86_PAGE_PRESENT = 0 then 0
            else (pte AND X86_PAGE_FRAME_MASK) + offset))"

definition vmm_get_flags :: "u32 \<Rightarrow> vmm \<Rightarrow> u32" where
  "vmm_get_flags virtual_addr s =
     (let dir = directory_index virtual_addr; tab = table_index virtual_addr;
          pde = table_entry (pmem s) (kernel_directory s) dir
      in if pde AND X86_PAGE_PRESENT = 0 then 0
         else
           (let pte = table_entry (pmem s) (table_from_pde pde) tab in
            if pte AND X86_PAGE_PRESENT = 0 then 0 else pte AND X86_PAGE_FLAGS_MASK))"

section \<open>kernel/vmem.c\<close>

abbreviation (input) VMEM_OK :: int where "VMEM_OK \<equiv> 0"
abbreviation (input) VMEM_ERR_INVALID :: int where "VMEM_ERR_INVALID \<equiv> -1"
abbreviation (input) VMEM_ERR_NO_MEMORY :: int where "VMEM_ERR_NO_MEMORY \<equiv> -2"
abbreviation (input) VMEM_ERR_ALREADY_MAPPED :: int where "VMEM_ERR_ALREADY_MAPPED \<equiv> -3"
abbreviation (input) VMEM_ERR_NOT_MAPPED :: int where "VMEM_ERR_NOT_MAPPED \<equiv> -4"
abbreviation (input) VMEM_FLAG_WRITABLE :: u32 where "VMEM_FLAG_WRITABLE \<equiv> 1"
abbreviation (input) VMEM_FLAG_USER :: u32 where "VMEM_FLAG_USER \<equiv> 2"

definition vmem_to_arch_flags :: "u32 \<Rightarrow> u32" where
  "vmem_to_arch_flags flags =
     (let arch_flags = 0;
          arch_flags = (if flags AND VMEM_FLAG_WRITABLE \<noteq> 0 then arch_flags OR X86_PAGE_WRITABLE else arch_flags);
          arch_flags = (if flags AND VMEM_FLAG_USER \<noteq> 0 then arch_flags OR X86_PAGE_USER else arch_flags)
      in arch_flags)"

definition vmem_from_arch_flags :: "u32 \<Rightarrow> u32" where
  "vmem_from_arch_flags arch_flags =
     (let flags = 0;
          flags = (if arch_flags AND X86_PAGE_WRITABLE \<noteq> 0 then flags OR VMEM_FLAG_WRITABLE else flags);
          flags = (if arch_flags AND X86_PAGE_USER \<noteq> 0 then flags OR VMEM_FLAG_USER else flags)
      in flags)"

definition vmem_from_arch_result :: "int \<Rightarrow> int" where
  "vmem_from_arch_result result =
     (if result = VMM_OK then VMEM_OK
      else if result = VMM_ERR_INVALID then VMEM_ERR_INVALID
      else if result = VMM_ERR_NO_MEMORY then VMEM_ERR_NO_MEMORY
      else if result = VMM_ERR_ALREADY_MAPPED then VMEM_ERR_ALREADY_MAPPED
      else if result = VMM_ERR_NOT_MAPPED then VMEM_ERR_NOT_MAPPED
      else VMEM_ERR_INVALID)"

definition vmem_init :: "u32 \<Rightarrow> vmm \<Rightarrow> vmm res" where
  "vmem_init = vmm_init"

definition vmem_map_page :: "u32 \<Rightarrow> u32 \<Rightarrow> u32 \<Rightarrow> vmm \<Rightarrow> int \<times> vmm" where
  "vmem_map_page virtual_addr physical_addr flags s =
     apfst vmem_from_arch_result
       (vmm_map_page virtual_addr physical_addr (vmem_to_arch_flags flags) s)"

definition vmem_unmap_page :: "u32 \<Rightarrow> vmm \<Rightarrow> int \<times> vmm" where
  "vmem_unmap_page virtual_addr s = apfst vmem_from_arch_result (vmm_unmap_page virtual_addr s)"

definition vmem_get_physical :: "u32 \<Rightarrow> vmm \<Rightarrow> u32" where
  "vmem_get_physical = vmm_get_physical"

definition vmem_get_flags :: "u32 \<Rightarrow> vmm \<Rightarrow> u32" where
  "vmem_get_flags virtual_addr s = vmem_from_arch_flags (vmm_get_flags virtual_addr s)"

definition vmem_is_user_accessible :: "u32 \<Rightarrow> vmm \<Rightarrow> bool" where
  "vmem_is_user_accessible virtual_addr s \<longleftrightarrow> vmem_get_flags virtual_addr s AND VMEM_FLAG_USER \<noteq> 0"

section \<open>The mapper as a map from pages to entries\<close>

abbreviation all_slots :: "u32 set" where "all_slots \<equiv> {i. i < 1024}"

definition vmm_lookup :: "vmm \<Rightarrow> u32 \<Rightarrow> u32 option" where
  "vmm_lookup s = translate (pmem s) (kernel_directory s)"

definition vmm_tables :: "vmm \<Rightarrow> u32 set" where
  "vmm_tables s = insert (kernel_directory s) (tables_of (pmem s) (kernel_directory s) all_slots)"

definition vmm_inv :: "vmm \<Rightarrow> bool" where
  "vmm_inv s \<longleftrightarrow> dir_wf (pmem s) (kernel_directory s) all_slots \<and> pmm_inv (vpmm s)
     \<and> vmm_tables s \<inter> free_pages (vpmm s) = {}"

definition table_available :: "vmm \<Rightarrow> u32 \<Rightarrow> bool" where
  "table_available s va \<longleftrightarrow> pde_table (pmem s) (kernel_directory s) (directory_index va) \<noteq> None
     \<or> fst (pmm_alloc_page_below VMM_BOOTSTRAP_TABLE_LIMIT (vpmm s)) \<noteq> 0"

lemma table_flags_ok:
  "(if c then (X86_PAGE_PRESENT OR X86_PAGE_WRITABLE) OR X86_PAGE_USER
    else X86_PAGE_PRESENT OR X86_PAGE_WRITABLE) AND X86_PAGE_FRAME_MASK = 0"
  "(if c then (X86_PAGE_PRESENT OR X86_PAGE_WRITABLE) OR X86_PAGE_USER
    else X86_PAGE_PRESENT OR X86_PAGE_WRITABLE) AND X86_PAGE_PRESENT \<noteq> 0"
  by simp_all

lemma get_or_create_present:
  assumes "pde_table (pmem s) (kernel_directory s) i = Some t"
  shows "get_or_create_page_table i flags s = (t, s)"
  using assms by (auto simp: get_or_create_page_table_def pde_table_def Let_def split: if_splits)

lemma get_or_create_absent:
  assumes "pde_table (pmem s) (kernel_directory s) i = None"
    and "pmm_alloc_page_below VMM_BOOTSTRAP_TABLE_LIMIT (vpmm s) = (t, p)" and "t \<noteq> 0"
  obtains fl where "fl AND X86_PAGE_FRAME_MASK = 0" and "fl AND X86_PAGE_PRESENT \<noteq> 0"
    and "get_or_create_page_table i flags s =
      (t, s\<lparr>vpmm := p, pmem := install_table (pmem s) (kernel_directory s) i t fl\<rparr>)"
  using assms table_flags_ok [of "flags AND X86_PAGE_USER \<noteq> 0"]
  by (auto simp: get_or_create_page_table_def pde_table_def install_table_def Let_def split: if_splits)

lemma get_or_create_page_table_ok:
  assumes inv: "vmm_inv s" and av: "table_available s va"
    and g: "get_or_create_page_table (directory_index va) flags s = (t, s')"
  shows "vmm_inv s'" and "pde_table (pmem s') (kernel_directory s') (directory_index va) = Some t"
    and "vmm_lookup s' = vmm_lookup s" and "mapped_page_count s' = mapped_page_count s"
    and "kernel_directory s' = kernel_directory s"
proof -
  let ?i = "directory_index va" and ?d = "kernel_directory s"
  have "vmm_inv s' \<and> pde_table (pmem s') (kernel_directory s') ?i = Some t \<and>
    vmm_lookup s' = vmm_lookup s \<and> mapped_page_count s' = mapped_page_count s \<and>
    kernel_directory s' = ?d"
  proof (cases "pde_table (pmem s) ?d ?i")
    case (Some u)
    with g inv show ?thesis by (simp add: get_or_create_present [OF Some])
  next
    case None
    obtain t' p where al: "pmm_alloc_page_below VMM_BOOTSTRAP_TABLE_LIMIT (vpmm s) = (t', p)"
      by fastforce
    with av None have nz: "t' \<noteq> 0" by (simp add: table_available_def)
    obtain fl where fl: "fl AND X86_PAGE_FRAME_MASK = 0" "fl AND X86_PAGE_PRESENT \<noteq> 0"
      and r: "get_or_create_page_table ?i flags s =
        (t', s\<lparr>vpmm := p, pmem := install_table (pmem s) ?d ?i t' fl\<rparr>)"
      using get_or_create_absent [OF None al nz] by blast
    from g r have t: "t = t'" and s': "s' = s\<lparr>vpmm := p, pmem := install_table (pmem s) ?d ?i t fl\<rparr>"
      by auto
    note pg = page_below.alloc_page [OF al nz]
    have wf: "dir_wf (pmem s) ?d all_slots" and fresh: "page_aligned t" "t \<noteq> ?d"
      "t \<notin> tables_of (pmem s) ?d all_slots"
      using inv pg by (auto simp: vmm_inv_def vmm_tables_def t)
    note ins = install_table_wf [OF wf fresh _ fl, of ?i]
    have "vmm_inv s'"
      using inv pg ins page_below.alloc_inv [OF _ al]
      by (auto simp: vmm_inv_def vmm_tables_def s' t)
    moreover have "pde_table (pmem s') ?d ?i = Some t"
      using wf fresh fl by (simp add: s' pde_table_install dir_wf_def)
    moreover have "vmm_lookup s' = vmm_lookup s"
      by (rule ext) (simp add: vmm_lookup_def s' translate_install [OF wf fresh _ None fl])
    ultimately show ?thesis by (simp add: s')
  qed
  then show "vmm_inv s'" "pde_table (pmem s') (kernel_directory s') ?i = Some t"
    "vmm_lookup s' = vmm_lookup s" "mapped_page_count s' = mapped_page_count s"
    "kernel_directory s' = ?d" by blast+
qed

lemma set_pte_vmm:
  fixes v c :: u32
  assumes inv: "vmm_inv s" and t: "pde_table (pmem s) (kernel_directory s) (directory_index va) = Some t"
  defines "s' \<equiv> s\<lparr>pmem := set_table_entry (pmem s) t (table_index va) v, mapped_page_count := c\<rparr>"
  shows "vmm_inv s'"
    and "vmm_lookup s' = (\<lambda>va'. if unat va' div 4096 = unat va div 4096
           then (if v AND X86_PAGE_PRESENT \<noteq> 0 then Some v else None) else vmm_lookup s va')"
proof -
  have wf: "dir_wf (pmem s) (kernel_directory s) all_slots" using inv by (simp add: vmm_inv_def)
  note d = set_pte_dir [OF wf _ t table_index_less]
  show "vmm_inv s'" using inv d by (simp add: vmm_inv_def vmm_tables_def s'_def)
  show "vmm_lookup s' = (\<lambda>va'. if unat va' div 4096 = unat va div 4096
      then (if v AND X86_PAGE_PRESENT \<noteq> 0 then Some v else None) else vmm_lookup s va')"
    by (rule ext) (simp add: vmm_lookup_def s'_def translate_set_pte [OF wf _ t])
qed

lemma entry_of_lookup:
  assumes "pde_table (pmem s) (kernel_directory s) (directory_index va) = Some t"
  shows "vmm_lookup s va = (let e = table_entry (pmem s) t (table_index va) in
    if e AND X86_PAGE_PRESENT \<noteq> 0 then Some e else None)"
  using assms by (simp add: vmm_lookup_def translate_def)

definition page_update :: "u32 \<Rightarrow> u32 option \<Rightarrow> (u32 \<Rightarrow> u32 option) \<Rightarrow> u32 \<Rightarrow> u32 option" where
  "page_update va e f = (\<lambda>va'. if unat va' div 4096 = unat va div 4096 then e else f va')"

definition new_pte :: "u32 \<Rightarrow> u32 \<Rightarrow> u32" where
  "new_pte pa flags = (pa AND X86_PAGE_FRAME_MASK) OR (flags AND X86_PAGE_FLAGS_MASK) OR X86_PAGE_PRESENT"

lemma new_pte_present: "new_pte pa flags AND X86_PAGE_PRESENT \<noteq> 0"
  by (simp add: new_pte_def bit.conj_disj_distrib2 or_eq_0_iff)

lemma vmm_map_page_result:
  assumes inv: "vmm_inv s" and al: "page_aligned va" "page_aligned pa" and av: "table_available s va"
    and r: "vmm_map_page va pa flags s = (r, t)"
  shows "vmm_inv t \<and>
    (if vmm_lookup s va \<noteq> None
     then r = VMM_ERR_ALREADY_MAPPED \<and> vmm_lookup t = vmm_lookup s
       \<and> mapped_page_count t = mapped_page_count s
     else r = VMM_OK \<and> vmm_lookup t = page_update va (Some (new_pte pa flags)) (vmm_lookup s)
       \<and> mapped_page_count t = mapped_page_count s + 1)"
proof -
  obtain tb s1 where g: "get_or_create_page_table (directory_index va) flags s = (tb, s1)" by fastforce
  note ok = get_or_create_page_table_ok [OF inv av g]
  note e = entry_of_lookup [OF ok(2)]
  show ?thesis
  proof (cases "table_entry (pmem s1) tb (table_index va) AND X86_PAGE_PRESENT \<noteq> 0")
    case True
    then show ?thesis using r g ok e al by (auto simp: vmm_map_page_def is_page_aligned_iff Let_def)
  next
    case False
    have "vmm_lookup s va = None" using e False ok(3) by simp
    moreover have "r = VMM_OK" and t: "t = s1\<lparr>pmem := set_table_entry (pmem s1) tb (table_index va) (new_pte pa flags),
        mapped_page_count := mapped_page_count s1 + 1\<rparr>"
      using r g al False by (simp_all add: vmm_map_page_def is_page_aligned_iff Let_def new_pte_def)
    moreover note set_pte_vmm [OF ok(1,2), where v = "new_pte pa flags" and c = "mapped_page_count s1 + 1"]
    ultimately show ?thesis using new_pte_present [of pa flags] by (simp add: page_update_def ok(3,4) fun_eq_iff)
  qed
qed

lemma vmm_unmap_page_result:
  assumes inv: "vmm_inv s" and al: "page_aligned va" and r: "vmm_unmap_page va s = (r, t)"
  shows "vmm_inv t \<and>
    (if vmm_lookup s va = None then r = VMM_ERR_NOT_MAPPED \<and> t = s
     else r = VMM_OK \<and> vmm_lookup t = page_update va None (vmm_lookup s)
       \<and> mapped_page_count t = (if mapped_page_count s = 0 then 0 else mapped_page_count s - 1))"
proof (cases "pde_table (pmem s) (kernel_directory s) (directory_index va)")
  case None
  then show ?thesis using r al inv
    by (auto simp: vmm_unmap_page_def is_page_aligned_iff pde_table_def vmm_lookup_def translate_def
        Let_def split: if_splits)
next
  case (Some tb)
  note e = entry_of_lookup [OF Some]
  have pde: "table_entry (pmem s) (kernel_directory s) (directory_index va) AND X86_PAGE_PRESENT \<noteq> 0"
    and tb: "table_from_pde (table_entry (pmem s) (kernel_directory s) (directory_index va)) = tb"
    using Some by (auto simp: pde_table_def Let_def split: if_splits)
  define c where "c = (if mapped_page_count s = 0 then 0 else mapped_page_count s - 1)"
  note u = set_pte_vmm [OF inv Some, where v = 0 and c = c]
  show ?thesis
  proof (cases "table_entry (pmem s) tb (table_index va) AND X86_PAGE_PRESENT = 0")
    case True
    then show ?thesis using r al inv e pde tb
      by (simp add: vmm_unmap_page_def is_page_aligned_iff Let_def)
  next
    case False
    then have "r = VMM_OK" and "t = s\<lparr>pmem := set_table_entry (pmem s) tb (table_index va) 0, mapped_page_count := c\<rparr>"
      using r al pde tb by (auto simp: vmm_unmap_page_def is_page_aligned_iff Let_def c_def word_gt_0)
    with False u e show ?thesis by (simp add: page_update_def c_def)
  qed
qed

section \<open>Lookups\<close>

lemma vmm_get_physical_lookup:
  "vmm_get_physical va s = (case vmm_lookup s va of None \<Rightarrow> 0
     | Some e \<Rightarrow> (e AND X86_PAGE_FRAME_MASK) + (va AND 4095))"
  by (simp add: vmm_get_physical_def vmm_lookup_def translate_def pde_table_def Let_def)

lemma vmm_get_flags_lookup:
  "vmm_get_flags va s = (case vmm_lookup s va of None \<Rightarrow> 0 | Some e \<Rightarrow> e AND X86_PAGE_FLAGS_MASK)"
  by (simp add: vmm_get_flags_def vmm_lookup_def translate_def pde_table_def Let_def)

lemma new_pte_fields:
  assumes "page_aligned pa"
  shows "new_pte pa flags AND X86_PAGE_FRAME_MASK = pa"
    and "new_pte pa flags AND X86_PAGE_FLAGS_MASK = (flags AND X86_PAGE_FLAGS_MASK) OR X86_PAGE_PRESENT"
proof -
  have "pa AND 0xFFF = 0" using assms by (simp add: page_aligned_def)
  moreover have "(flags AND 0xFFF) AND (0xFFFFF000 :: u32) = 0" by (simp add: and.assoc)
  moreover have "(flags AND 0xFFF) AND (0xFFF :: u32) = flags AND 0xFFF" by (simp add: and.assoc)
  ultimately show "new_pte pa flags AND X86_PAGE_FRAME_MASK = pa"
    "new_pte pa flags AND X86_PAGE_FLAGS_MASK = (flags AND X86_PAGE_FLAGS_MASK) OR X86_PAGE_PRESENT"
    by (simp_all add: new_pte_def frame_mask_aligned [OF assms] bit.conj_disj_distrib2)
qed

lemma vmem_from_arch_result_id:
  "r \<in> {VMM_OK, VMM_ERR_INVALID, VMM_ERR_NO_MEMORY, VMM_ERR_ALREADY_MAPPED, VMM_ERR_NOT_MAPPED} \<Longrightarrow>
   vmem_from_arch_result r = r"
  by (auto simp: vmem_from_arch_result_def)

lemma vmm_map_page_codes:
  "fst (vmm_map_page va pa flags s) \<in> {VMM_OK, VMM_ERR_INVALID, VMM_ERR_ALREADY_MAPPED}"
  by (auto simp: vmm_map_page_def Let_def split: prod.splits)

lemma vmm_unmap_page_codes:
  "fst (vmm_unmap_page va s) \<in> {VMM_OK, VMM_ERR_INVALID, VMM_ERR_NOT_MAPPED}"
  by (auto simp: vmm_unmap_page_def Let_def)

lemma vmem_page_ops:
  "vmem_map_page va pa flags s = vmm_map_page va pa (vmem_to_arch_flags flags) s"
  "vmem_unmap_page va s = vmm_unmap_page va s"
  using vmm_map_page_codes [of va pa "vmem_to_arch_flags flags" s] vmm_unmap_page_codes [of va s]
  by (auto simp: vmem_map_page_def vmem_unmap_page_def prod_eq_iff vmem_from_arch_result_id
      simp del: vmem_from_arch_result_def)

lemma vmem_flags_roundtrip:
  "vmem_from_arch_flags (vmem_to_arch_flags flags OR X86_PAGE_PRESENT) = flags AND 3"
proof -
  have "flags AND 3 = (flags AND 1) OR (flags AND 2)"
    by (simp add: bit.conj_disj_distrib [symmetric])
  moreover have "flags AND 1 = (if bit flags 0 then 1 else 0)" "flags AND 2 = (if bit flags 1 then 2 else 0)"
    using and_single_bit [of flags 0] and_single_bit [of flags 1] by simp_all
  ultimately show ?thesis
    by (auto simp: vmem_from_arch_flags_def vmem_to_arch_flags_def Let_def bit.conj_disj_distrib2)
qed

section \<open>Properties\<close>

lemma same_page_offset:
  assumes "page_aligned va" and "off < 4096"
  shows "unat (va + off) div 4096 = unat va div 4096" and "(va + off) AND 4095 = off"
proof -
  obtain k where k: "unat va = 4096 * k" "k < 1048576" using assms(1) by (rule page_alignedE)
  have o: "unat off < 4096" using assms(2) by (simp add: word_less_nat_alt)
  then have u: "unat (va + off) = 4096 * k + unat off" using k by (simp add: unat_word_ariths)
  then show "unat (va + off) div 4096 = unat va div 4096" using k o by simp
  have "unat ((va + off) AND 4095) = unat off"
    unfolding u32_4095 take_bit_eq_mask [symmetric] unsigned_take_bit_eq u
    using o by (simp add: take_bit_eq_mod)
  then show "(va + off) AND 4095 = off" by (simp only: word_unat_eq_iff)
qed

lemma translate_same_page:
  "unat va' div 4096 = unat va div 4096 \<Longrightarrow> translate m d va' = translate m d va"
  unfolding indices_determine_page [symmetric] by (simp add: translate_def split: option.splits)

lemma vmem_arch_flags_small: "vmem_to_arch_flags flags AND 0xFFF = vmem_to_arch_flags flags"
  by (simp add: vmem_to_arch_flags_def Let_def)

text \<open>The boot state: the tables of \<^const>\<open>paging_init\<close> and one free frame.\<close>

definition sample_vmm :: vmm where
  "sample_vmm = \<lparr>vpmm = sample_pmm, pmem = paging_init 0x110000 0x112000 (\<lambda>_. 0),
     kernel_directory = 0x110000, mapped_page_count = 0\<rparr>"

lemma sample_boot_layout: "boot_layout 0x110000 0x112000"
  by (simp add: boot_layout_def page_aligned_def)

lemma sample_vmm_pde:
  "i < 1024 \<Longrightarrow> pde_table (pmem sample_vmm) 0x110000 i =
    (if unat i < 4 then Some (identity_table 0x112000 (unat i)) else None)"
  using paging_init_pde [OF sample_boot_layout] by (simp add: sample_vmm_def)

lemma sample_vmm_inv: "vmm_inv sample_vmm"
proof -
  note b = identity_table_addr [OF sample_boot_layout] identity_table_inj [OF sample_boot_layout]
  have "identity_table 0x112000 t \<noteq> 0x100000" if "t < 4" for t
    using b(1) [OF that] by (auto simp: word_unat_eq_iff)
  then show ?thesis
    by (auto simp: vmm_inv_def dir_wf_def vmm_tables_def tables_of_def sample_vmm_pde b
        sample_vmm_def [THEN arg_cong, of vpmm] sample_vmm_def [THEN arg_cong, of kernel_directory]
        page_aligned_def word_unat_eq_iff split: if_splits)
qed

lemma sample_alloc_below: "fst (pmm_alloc_page_below 0x1000000 sample_pmm) = 0x100000"
proof -
  have "256 \<in> free_set sample_pmm" by simp
  then show ?thesis
    by (simp add: pmm_alloc_page_below_def scan_free.simps max_frame_below_def free_set_def
        addr_from_frame_index_def)
qed

lemma sample_vmm_table: "table_available sample_vmm va"
  using sample_alloc_below by (simp add: table_available_def sample_vmm_def)

lemma sample_vmm_lookup: "vmm_lookup sample_vmm 0xC0000000 = None"
proof -
  have "directory_index 0xC0000000 = 768" by (simp add: directory_index_def)
  then show ?thesis using sample_vmm_pde [of 768]
    by (simp add: vmm_lookup_def translate_def sample_vmm_def)
qed

text \<open>
  C7. Mapping is the update of one page of the translation: on an unmapped page the call succeeds,
  the page gets the given frame and flags, every other page keeps its translation and the counter
  grows by one; a mapped page is refused and nothing is translated differently. Page tables stay
  distinct and are never among the free pages.
\<close>

theorem vmm_map_page_updates_one_page:
  assumes "vmm_inv s" and "page_aligned va" and "page_aligned pa" and "table_available s va"
    and "vmm_map_page va pa flags s = (r, t)"
  shows "vmm_inv t \<and>
    (if vmm_lookup s va \<noteq> None
     then r = VMM_ERR_ALREADY_MAPPED \<and> vmm_lookup t = vmm_lookup s
       \<and> mapped_page_count t = mapped_page_count s
     else r = VMM_OK \<and> vmm_lookup t = page_update va (Some (new_pte pa flags)) (vmm_lookup s)
       \<and> mapped_page_count t = mapped_page_count s + 1)"
  by (rule vmm_map_page_result [OF assms])

theorem vmm_map_page_updates_one_page_witness:
  "fst (vmm_map_page 0xC0000000 0x200000 2 sample_vmm) = VMM_OK
   \<and> vmm_lookup (snd (vmm_map_page 0xC0000000 0x200000 2 sample_vmm)) 0xC0000000 = Some 0x200003"
  using vmm_map_page_updates_one_page [OF sample_vmm_inv, of "0xC0000000" "0x200000" 2
      "fst (vmm_map_page 0xC0000000 0x200000 2 sample_vmm)"
      "snd (vmm_map_page 0xC0000000 0x200000 2 sample_vmm)"]
  by (simp add: sample_vmm_lookup sample_vmm_table page_aligned_def page_update_def new_pte_def)

text \<open>
  C8. A page mapped through the portable layer reads back: every address of the page translates to
  the same offset of the frame, with the flags it was given, and unmapping it restores the
  translation there was before.
\<close>

theorem vmem_map_get_unmap:
  assumes "vmm_inv s" and "page_aligned va" and "page_aligned pa" and "table_available s va"
    and "vmm_lookup s va = None" and "off < 4096" and "vmem_map_page va pa flags s = (r, t)"
  shows "r = VMEM_OK \<and> vmem_get_physical (va + off) t = pa + off
    \<and> vmem_get_flags (va + off) t = flags AND 3
    \<and> fst (vmem_unmap_page va t) = VMEM_OK \<and> vmm_lookup (snd (vmem_unmap_page va t)) = vmm_lookup s"
proof -
  note m = vmm_map_page_result [OF assms(1-4) assms(7) [unfolded vmem_page_ops]]
  with assms(5) have r: "r = VMM_OK" and inv: "vmm_inv t"
    and look: "vmm_lookup t = page_update va (Some (new_pte pa (vmem_to_arch_flags flags))) (vmm_lookup s)"
    by simp_all
  have at: "vmm_lookup t (va + off) = Some (new_pte pa (vmem_to_arch_flags flags))"
    using same_page_offset(1) [OF assms(2,6)] by (simp add: look page_update_def)
  obtain r' u where u: "vmm_unmap_page va t = (r', u)" by fastforce
  have "vmm_lookup s va' = None" if "unat va' div 4096 = unat va div 4096" for va'
    using assms(5) translate_same_page [OF that, of "pmem s" "kernel_directory s"]
    by (simp add: vmm_lookup_def)
  then have "page_update va None (vmm_lookup t) = vmm_lookup s"
    unfolding look by (simp add: page_update_def fun_eq_iff)
  moreover have "vmm_lookup t va \<noteq> None" by (simp add: look page_update_def)
  ultimately have un: "fst (vmem_unmap_page va t) = VMEM_OK" "vmm_lookup (snd (vmem_unmap_page va t)) = vmm_lookup s"
    using vmm_unmap_page_result [OF inv assms(2) u] by (simp_all add: vmem_page_ops u)
  have "vmem_get_physical (va + off) t = pa + off"
    by (simp add: vmem_get_physical_def vmm_get_physical_lookup at new_pte_fields [OF assms(3)]
        same_page_offset(2) [OF assms(2,6)])
  moreover have "vmem_get_flags (va + off) t = flags AND 3"
    unfolding vmem_get_flags_def vmm_get_flags_lookup at option.case
      new_pte_fields [OF assms(3)] vmem_arch_flags_small by (rule vmem_flags_roundtrip)
  ultimately show ?thesis using r un by simp
qed

theorem vmem_map_get_unmap_witness:
  "vmem_get_physical 0xC0000123 (snd (vmem_map_page 0xC0000000 0x200000 1 sample_vmm)) = 0x200123"
  using vmem_map_get_unmap [OF sample_vmm_inv, of "0xC0000000" "0x200000" "0x123" 1
      "fst (vmem_map_page 0xC0000000 0x200000 1 sample_vmm)"
      "snd (vmem_map_page 0xC0000000 0x200000 1 sample_vmm)"]
  by (simp add: sample_vmm_lookup sample_vmm_table page_aligned_def)

text \<open>
  C9. \<open>vmm_map_page\<close> does not test the result of \<open>get_or_create_page_table\<close>. When no page
  is left for the table, it writes the entry at physical address \<open>4 * table_index\<close>, counts the
  page as mapped and returns success, while the address stays unmapped.
\<close>

theorem vmm_map_page_without_table_memory:
  assumes "vmm_inv s" and "kernel_directory s \<noteq> 0" and "page_aligned va" and "page_aligned pa"
    and "\<not> table_available s va" and "load32 (pmem s) (4 * table_index va) AND X86_PAGE_PRESENT = 0"
    and "vmm_map_page va pa flags s = (r, t)"
  shows "r = VMM_OK \<and> vmm_lookup t va = None
    \<and> load32 (pmem t) (4 * table_index va) = new_pte pa flags
    \<and> mapped_page_count t = mapped_page_count s + 1"
proof -
  let ?d = "kernel_directory s"
  have none: "pde_table (pmem s) ?d (directory_index va) = None"
    and al: "pmm_alloc_page_below VMM_BOOTSTRAP_TABLE_LIMIT (vpmm s) = (0, vpmm s)"
    using assms(5) by (simp_all add: table_available_def page_below.alloc_zero)
  then have g: "get_or_create_page_table (directory_index va) flags s = (0, s)"
    by (auto simp: get_or_create_page_table_def pde_table_def Let_def split: if_splits)
  have r: "r = VMM_OK" and t: "t = s\<lparr>pmem := set_table_entry (pmem s) 0 (table_index va) (new_pte pa flags),
      mapped_page_count := mapped_page_count s + 1\<rparr>"
    using assms(3,4,6,7) g
    by (auto simp: vmm_map_page_def is_page_aligned_iff Let_def table_entry_def new_pte_def)
  have "page_aligned ?d" using assms(1) by (simp add: vmm_inv_def dir_wf_def)
  then have "pde_table (pmem t) ?d (directory_index va) = None"
    using none assms(2) by (simp add: t pde_table_set_other)
  then show ?thesis by (simp add: r t vmm_lookup_def translate_def set_table_entry_def)
qed

definition full_vmm :: vmm where
  "full_vmm = \<lparr>vpmm = mark_all_frames_used sample_pmm, pmem = (\<lambda>_. 0),
     kernel_directory = 0x110000, mapped_page_count = 0\<rparr>"

lemma full_vmm_state:
  "vmm_inv full_vmm" "\<not> table_available full_vmm va" "load32 (pmem full_vmm) a = 0"
  "kernel_directory full_vmm = 0x110000"
proof -
  have pde: "pde_table (\<lambda>_. 0) d i = None" for d i
    by (simp add: pde_table_def table_entry_def load32_def)
  have free: "free_pages (mark_all_frames_used sample_pmm) = {}" by (simp add: free_pages_def)
  have "fst (pmm_alloc_page_below 0x1000000 (mark_all_frames_used sample_pmm)) = 0"
    using page_below.alloc_page [of "0x1000000" "mark_all_frames_used sample_pmm"] free
    by (metis empty_iff prod.collapse)
  then show "\<not> table_available full_vmm va" by (simp add: table_available_def full_vmm_def pde)
  show "vmm_inv full_vmm"
    by (simp add: vmm_inv_def full_vmm_def dir_wf_def pde page_aligned_def free)
  show "load32 (pmem full_vmm) a = 0" "kernel_directory full_vmm = 0x110000"
    by (simp_all add: full_vmm_def load32_def)
qed

theorem vmm_map_page_without_table_memory_witness:
  "fst (vmm_map_page 0xC0000000 0x200000 2 full_vmm) = VMM_OK
   \<and> vmm_lookup (snd (vmm_map_page 0xC0000000 0x200000 2 full_vmm)) 0xC0000000 = None"
  using vmm_map_page_without_table_memory [OF full_vmm_state(1), of "0xC0000000" "0x200000" 2
      "fst (vmm_map_page 0xC0000000 0x200000 2 full_vmm)"
      "snd (vmm_map_page 0xC0000000 0x200000 2 full_vmm)"]
  by (simp add: full_vmm_state page_aligned_def)

end
