(* ===== verification/Heap.thy ===== *)
theory Heap
  imports Vmm
begin

text \<open>
  The kernel heap, \<open>kernel/heap.c\<close>: a doubly linked list of blocks, first fit, splitting on
  allocation and coalescing on release, growing by mapped pages. Block headers live in a typed
  store from addresses to header records (the header words as the allocator last wrote them);
  following a pointer to no header is a fault. Payload bytes are those of the physical memory
  behind the mapping, written by \<open>vmem_memset\<close>. The store of headers is apart from the payload bytes, so a
  client that writes beyond its block is outside of the model. Kernel addresses are translated by the
  kernel's page directory; that a process directory shares its entries is the business of
  \<open>sync_kernel_mappings\<close>.

  The lemmas show that the list always tiles the heap region exactly, that no two neighbours are
  free, and that the pointer operations implement first-fit allocation and release on the list of
  block sizes, and that the blocks a client holds stay apart over any run of operations.
\<close>

section \<open>State\<close>

abbreviation (input) HEAP_MAGIC :: u32 where "HEAP_MAGIC \<equiv> 0x48454150"
abbreviation (input) HEAP_ALIGNMENT :: u32 where "HEAP_ALIGNMENT \<equiv> 8"
abbreviation (input) HEAP_MIN_SPLIT_PAYLOAD :: u32 where "HEAP_MIN_SPLIT_PAYLOAD \<equiv> 16"
abbreviation (input) HEAP_VIRTUAL_BASE :: u32 where "HEAP_VIRTUAL_BASE \<equiv> 0xD1000000"
abbreviation (input) HEAP_VIRTUAL_LIMIT :: u32 where "HEAP_VIRTUAL_LIMIT \<equiv> 0xD2000000"
abbreviation (input) SIZEOF_HEAP_BLOCK :: u32 where "SIZEOF_HEAP_BLOCK \<equiv> 24"

record heap_block =
  hb_magic :: u32
  hb_size :: u32
  hb_is_free :: u32
  hb_reserved :: u32
  hb_next :: u32
  hb_prev :: u32

record heap =
  hvm :: vmm
  blocks :: "u32 \<rightharpoonup> heap_block"
  heap_head :: u32
  heap_initialized :: bool
  heap_virtual_base :: u32
  heap_virtual_next :: u32
  heap_virtual_limit :: u32
  heap_region_bytes :: u32
  heap_mapped_pages :: u32
  heap_active_allocations :: u32
  heap_total_allocations :: u32

record heap_stats =
  region_bytes :: u32
  mapped_pages :: u32
  virtual_base :: u32
  virtual_next :: u32
  virtual_limit :: u32
  free_payload_bytes :: u32
  used_payload_bytes :: u32
  block_count :: u32
  active_allocations :: u32
  total_allocations :: u32

definition get_block :: "u32 \<Rightarrow> heap \<Rightarrow> heap_block res" where
  "get_block a s = (case blocks s a of None \<Rightarrow> Inl (Fault ''heap block'') | Some b \<Rightarrow> Inr b)"

definition upd_block :: "u32 \<Rightarrow> (heap_block \<Rightarrow> heap_block) \<Rightarrow> heap \<Rightarrow> heap res" where
  "upd_block a f s = (case blocks s a of None \<Rightarrow> Inl (Fault ''heap block'')
     | Some b \<Rightarrow> Inr (s\<lparr>blocks := (blocks s)(a \<mapsto> f b)\<rparr>))"

section \<open>Helpers\<close>

definition align_up_size :: "u32 \<Rightarrow> u32 \<Rightarrow> u32" where
  "align_up_size value alignment = (value + alignment - 1) AND NOT (alignment - 1)"

definition heap_header_size :: u32 where
  "heap_header_size = align_up_size SIZEOF_HEAP_BLOCK HEAP_ALIGNMENT"

definition block_end_addr :: "u32 \<Rightarrow> heap_block \<Rightarrow> u32" where
  "block_end_addr block b = block + heap_header_size + hb_size b"

definition blocks_are_adjacent :: "u32 \<Rightarrow> heap_block \<Rightarrow> u32 \<Rightarrow> bool" where
  "blocks_are_adjacent left l right \<longleftrightarrow> block_end_addr left l = right"

definition ptr_is_inside_heap_region :: "u32 \<Rightarrow> heap \<Rightarrow> bool" where
  "ptr_is_inside_heap_region addr s \<longleftrightarrow> addr \<ge> heap_virtual_base s \<and> addr < heap_virtual_next s"

definition validate_block :: "u32 \<Rightarrow> heap \<Rightarrow> heap_block res" where
  "validate_block block s =
     (if block = 0 then Inl (Panic ''heap encountered null block'')
      else if \<not> ptr_is_inside_heap_region block s
      then Inl (Panic ''heap block outside heap virtual region'')
      else bindE (get_block block s) (\<lambda>b.
        if hb_magic b \<noteq> HEAP_MAGIC then Inl (Panic ''heap block magic mismatch'') else Inr b))"

partial_function (option) compute_stats_loop :: "u32 \<Rightarrow> heap \<Rightarrow> heap_stats \<Rightarrow> heap_stats res option" where
  "compute_stats_loop block s stats =
     (if block = 0 then Some (Inr stats)
      else case validate_block block s of
        Inl e \<Rightarrow> Some (Inl e)
      | Inr b \<Rightarrow> compute_stats_loop (hb_next b) s
          (let stats = stats\<lparr>block_count := block_count stats + 1\<rparr> in
           if hb_is_free b \<noteq> 0
           then stats\<lparr>free_payload_bytes := free_payload_bytes stats + hb_size b\<rparr>
           else stats\<lparr>used_payload_bytes := used_payload_bytes stats + hb_size b\<rparr>))"

definition heap_compute_stats :: "heap \<Rightarrow> heap_stats res option" where
  "heap_compute_stats s = compute_stats_loop (heap_head s) s
     \<lparr>region_bytes = heap_region_bytes s, mapped_pages = heap_mapped_pages s,
      virtual_base = heap_virtual_base s, virtual_next = heap_virtual_next s,
      virtual_limit = heap_virtual_limit s, free_payload_bytes = 0, used_payload_bytes = 0,
      block_count = 0, active_allocations = heap_active_allocations s,
      total_allocations = heap_total_allocations s\<rparr>"

definition heap_get_stats :: "heap \<Rightarrow> heap_stats res option" where
  "heap_get_stats = heap_compute_stats"

section \<open>The block list\<close>

text \<open>The two scans of \<open>insert_block_sorted\<close>: to the first block not below the new one, and to
  the tail.\<close>

partial_function (option) seek_position :: "u32 \<Rightarrow> u32 \<Rightarrow> heap \<Rightarrow> u32 res option" where
  "seek_position current new_block s =
     (if current \<noteq> 0 \<and> current < new_block
      then case get_block current s of
        Inl e \<Rightarrow> Some (Inl e)
      | Inr b \<Rightarrow> seek_position (hb_next b) new_block s
      else Some (Inr current))"

partial_function (option) seek_tail :: "u32 \<Rightarrow> heap \<Rightarrow> u32 res option" where
  "seek_tail tail s =
     (case get_block tail s of
        Inl e \<Rightarrow> Some (Inl e)
      | Inr b \<Rightarrow> if hb_next b \<noteq> 0 then seek_tail (hb_next b) s else Some (Inr tail))"

definition insert_block_sorted :: "u32 \<Rightarrow> heap \<Rightarrow> heap res option" where
  "insert_block_sorted new_block s =
     bindO (Some (validate_block new_block s)) (\<lambda>_.
     if heap_head s = 0
     then Some (upd_block new_block (\<lambda>b. b\<lparr>hb_prev := 0, hb_next := 0\<rparr>) (s\<lparr>heap_head := new_block\<rparr>))
     else bindO (seek_position (heap_head s) new_block s) (\<lambda>current.
       if current = heap_head s
       then Some (bindE (upd_block new_block (\<lambda>b. b\<lparr>hb_prev := 0, hb_next := heap_head s\<rparr>) s) (\<lambda>s1.
              bindE (upd_block (heap_head s1) (\<lambda>b. b\<lparr>hb_prev := new_block\<rparr>) s1) (\<lambda>s2.
              Inr (s2\<lparr>heap_head := new_block\<rparr>))))
       else if current = 0
       then bindO (seek_tail (heap_head s) s) (\<lambda>tail.
              Some (bindE (upd_block tail (\<lambda>b. b\<lparr>hb_next := new_block\<rparr>) s) (\<lambda>s1.
              upd_block new_block (\<lambda>b. b\<lparr>hb_prev := tail, hb_next := 0\<rparr>) s1)))
       else Some (bindE (get_block current s) (\<lambda>c.
              let previous = hb_prev c in
              bindE (upd_block previous (\<lambda>b. b\<lparr>hb_next := new_block\<rparr>) s) (\<lambda>s1.
              bindE (upd_block new_block (\<lambda>b. b\<lparr>hb_prev := previous, hb_next := current\<rparr>) s1) (\<lambda>s2.
              upd_block current (\<lambda>b. b\<lparr>hb_prev := new_block\<rparr>) s2))))))"

definition coalesce_with_next :: "u32 \<Rightarrow> heap \<Rightarrow> (u32 \<times> heap) res" where
  "coalesce_with_next block s =
     bindE (validate_block block s) (\<lambda>b.
     let nxt = hb_next b in
     if nxt = 0 then Inr (block, s)
     else bindE (validate_block nxt s) (\<lambda>n.
       if hb_is_free b = 0 \<or> hb_is_free n = 0 then Inr (block, s)
       else if \<not> blocks_are_adjacent block b nxt then Inr (block, s)
       else bindE (upd_block block (\<lambda>b. b\<lparr>hb_size := hb_size b + (heap_header_size + hb_size n),
                                         hb_next := hb_next n\<rparr>) s) (\<lambda>s1.
            if hb_next n \<noteq> 0
            then bindE (upd_block (hb_next n) (\<lambda>b. b\<lparr>hb_prev := block\<rparr>) s1) (\<lambda>s2. Inr (block, s2))
            else Inr (block, s1))))"

definition coalesce_around :: "u32 \<Rightarrow> heap \<Rightarrow> (u32 \<times> heap) res" where
  "coalesce_around block s =
     bindE (validate_block block s) (\<lambda>_.
     bindE (coalesce_with_next block s) (\<lambda>(block, s).
     bindE (get_block block s) (\<lambda>b.
     if hb_prev b \<noteq> 0
     then bindE (validate_block (hb_prev b) s) (\<lambda>p.
       if hb_is_free p \<noteq> 0 \<and> blocks_are_adjacent (hb_prev b) p block
       then coalesce_with_next (hb_prev b) s else Inr (block, s))
     else Inr (block, s))))"

definition split_block_if_large_enough :: "u32 \<Rightarrow> u32 \<Rightarrow> heap \<Rightarrow> heap res" where
  "split_block_if_large_enough block wanted s =
     bindE (validate_block block s) (\<lambda>b.
     if hb_size b < wanted
     then Inl (Panic ''heap split requested block smaller than allocation'')
     else
       (let header = heap_header_size; leftover = hb_size b - wanted in
        if leftover < header + HEAP_MIN_SPLIT_PAYLOAD then Inr s
        else
          (let split = block + header + wanted;
               s1 = s\<lparr>blocks := (blocks s)(split \<mapsto> \<lparr>hb_magic = HEAP_MAGIC,
                       hb_size = leftover - header, hb_is_free = 1, hb_reserved = 0,
                       hb_next = hb_next b, hb_prev = block\<rparr>)\<rparr>
           in bindE (if hb_next b \<noteq> 0 then upd_block (hb_next b) (\<lambda>n. n\<lparr>hb_prev := split\<rparr>) s1
                     else Inr s1) (\<lambda>s2.
              upd_block block (\<lambda>b. b\<lparr>hb_next := split, hb_size := wanted\<rparr>) s2))))"

partial_function (option) find_loop :: "u32 \<Rightarrow> u32 \<Rightarrow> heap \<Rightarrow> u32 res option" where
  "find_loop block wanted s =
     (if block = 0 then Some (Inr 0)
      else case validate_block block s of
        Inl e \<Rightarrow> Some (Inl e)
      | Inr b \<Rightarrow> if hb_is_free b \<noteq> 0 \<and> hb_size b \<ge> wanted then Some (Inr block)
                 else find_loop (hb_next b) wanted s)"

definition find_free_block :: "u32 \<Rightarrow> heap \<Rightarrow> u32 res option" where
  "find_free_block wanted s = find_loop (heap_head s) wanted s"

section \<open>Growing\<close>

text \<open>A byte-wise \<open>memset\<close> through the mapping; an unmapped address is a page fault.\<close>

definition vmem_memset :: "u32 \<Rightarrow> u8 \<Rightarrow> u32 \<Rightarrow> vmm \<Rightarrow> vmm res" where
  "vmem_memset dest value count =
     foldE (\<lambda>i v. let va = dest + word_of_nat i in
              case translate (pmem v) (kernel_directory v) va of
                None \<Rightarrow> Inl (Fault ''page fault'')
              | Some pte \<Rightarrow> Inr (v\<lparr>pmem := (pmem v)((pte AND X86_PAGE_FRAME_MASK) + (va AND 4095) := value)\<rparr>))
       [0..<unat count]"

definition heap_free_page :: "u32 \<Rightarrow> vmm \<Rightarrow> vmm res" where
  "heap_free_page phys v = bindE (pmm_free_page phys (vpmm v)) (\<lambda>p. Inr (v\<lparr>vpmm := p\<rparr>))"

definition heap_unmap_virtual_region :: "u32 \<Rightarrow> nat \<Rightarrow> vmm \<Rightarrow> vmm res" where
  "heap_unmap_virtual_region start page_count =
     foldE (\<lambda>i v.
         let vaddr = start + word_of_nat i * PMM_PAGE_SIZE; phys = vmem_get_physical vaddr v in
         if phys \<noteq> 0
         then (let page_phys = align_down_page phys in
               heap_free_page page_phys (snd (vmem_unmap_page vaddr v)))
         else Inr v)
       [0..<page_count]"

primrec map_region_loop :: "u32 \<Rightarrow> nat list \<Rightarrow> vmm \<Rightarrow> (int \<times> vmm) res" where
  "map_region_loop start [] v = Inr (0, v)"
| "map_region_loop start (i # is) v =
     (let vaddr = start + word_of_nat i * PMM_PAGE_SIZE;
          (phys, p) = pmm_alloc_page (vpmm v); v1 = v\<lparr>vpmm := p\<rparr>
      in if phys = PMM_INVALID_PAGE
         then bindE (heap_unmap_virtual_region start i v1) (\<lambda>v2. Inr (-1, v2))
         else
           (let (result, v2) = vmem_map_page vaddr phys VMEM_FLAG_WRITABLE v1 in
            if result \<noteq> VMEM_OK
            then bindE (heap_free_page phys v2) (\<lambda>v3.
                 bindE (heap_unmap_virtual_region start i v3) (\<lambda>v4. Inr (-1, v4)))
            else bindE (vmem_memset vaddr 0 PMM_PAGE_SIZE v2) (map_region_loop start is)))"

definition heap_map_virtual_region :: "u32 \<Rightarrow> u32 \<Rightarrow> vmm \<Rightarrow> (int \<times> vmm) res" where
  "heap_map_virtual_region start page_count = map_region_loop start [0..<unat page_count]"

definition heap_add_region :: "u32 \<Rightarrow> heap \<Rightarrow> (u32 \<times> heap) res option" where
  "heap_add_region page_count s =
     (let page_count = (if page_count = 0 then 1 else page_count);
          region_bytes = page_count * PMM_PAGE_SIZE
      in if heap_virtual_next s > heap_virtual_limit s
            \<or> region_bytes > heap_virtual_limit s - heap_virtual_next s
         then Some (Inr (0, s))
         else
           (let region_start = heap_virtual_next s in
            bindO (Some (heap_map_virtual_region region_start page_count (hvm s))) (\<lambda>(r, v).
            if r \<noteq> 0 then Some (Inr (0, s\<lparr>hvm := v\<rparr>))
            else
              (let s1 = s\<lparr>hvm := v, heap_virtual_next := heap_virtual_next s + region_bytes,
                         heap_region_bytes := heap_region_bytes s + region_bytes,
                         heap_mapped_pages := heap_mapped_pages s + page_count,
                         blocks := (blocks s)(region_start \<mapsto> \<lparr>hb_magic = HEAP_MAGIC,
                           hb_size = region_bytes - heap_header_size, hb_is_free = 1,
                           hb_reserved = 0, hb_next = 0, hb_prev = 0\<rparr>)\<rparr>
               in bindO (insert_block_sorted region_start s1) (\<lambda>s2.
                  Some (coalesce_around region_start s2))))))"

definition heap_grow :: "u32 \<Rightarrow> heap \<Rightarrow> (u32 \<times> heap) res option" where
  "heap_grow minimum_payload_bytes s =
     (let header = heap_header_size in
      if minimum_payload_bytes > 0xFFFFFFFF - header then Some (Inr (0, s))
      else
        (let needed_bytes = minimum_payload_bytes + header;
             pages = (needed_bytes + PMM_PAGE_SIZE - 1) div PMM_PAGE_SIZE;
             pages = (if pages = 0 then 1 else pages)
         in heap_add_region pages s))"

definition heap_init :: "u32 \<Rightarrow> heap \<Rightarrow> heap res option" where
  "heap_init initial_pages s =
     (if heap_initialized s then Some (Inl (Panic ''heap_init called twice''))
      else
        (let initial_pages = (if initial_pages = 0 then 1 else initial_pages);
             s1 = s\<lparr>heap_head := 0, heap_virtual_base := HEAP_VIRTUAL_BASE,
                    heap_virtual_next := HEAP_VIRTUAL_BASE, heap_virtual_limit := HEAP_VIRTUAL_LIMIT,
                    heap_region_bytes := 0, heap_mapped_pages := 0, heap_active_allocations := 0,
                    heap_total_allocations := 0, heap_initialized := True\<rparr>
         in bindO (heap_add_region initial_pages s1) (\<lambda>(r, s2).
            if r = 0 then Some (Inl (Panic ''heap_init could not map initial heap region''))
            else Some (Inr s2))))"

section \<open>Allocation and release\<close>

text \<open>The part of \<open>kmalloc\<close> after a block has been found.\<close>

definition take_block :: "u32 \<Rightarrow> u32 \<Rightarrow> heap \<Rightarrow> (u32 \<times> heap) res" where
  "take_block block wanted s =
     bindE (split_block_if_large_enough block wanted s) (\<lambda>s1.
     bindE (upd_block block (\<lambda>b. b\<lparr>hb_is_free := 0\<rparr>) s1) (\<lambda>s2.
     Inr (block + heap_header_size,
          s2\<lparr>heap_active_allocations := heap_active_allocations s2 + 1,
             heap_total_allocations := heap_total_allocations s2 + 1\<rparr>)))"

definition kmalloc :: "u32 \<Rightarrow> heap \<Rightarrow> (u32 \<times> heap) res option" where
  "kmalloc bytes s =
     (if \<not> heap_initialized s then Some (Inl (Panic ''kmalloc called before heap_init''))
      else if bytes = 0 then Some (Inr (0, s))
      else if bytes > 0xFFFFFFFF - (HEAP_ALIGNMENT - 1)
      then Some (Inl (Panic ''kmalloc request too large''))
      else
        (let wanted = align_up_size bytes HEAP_ALIGNMENT in
         bindO (find_free_block wanted s) (\<lambda>block.
         if block \<noteq> 0 then Some (take_block block wanted s)
         else bindO (heap_grow wanted s) (\<lambda>(r, s1).
           if r = 0 then Some (Inl (Panic ''kmalloc could not grow heap''))
           else bindO (find_free_block wanted s1) (\<lambda>block.
             if block = 0 then Some (Inl (Panic ''kmalloc failed after heap growth''))
             else Some (take_block block wanted s1))))))"

definition kcalloc :: "u32 \<Rightarrow> u32 \<Rightarrow> heap \<Rightarrow> (u32 \<times> heap) res option" where
  "kcalloc count bytes s =
     (if count \<noteq> 0 \<and> bytes > 0xFFFFFFFF div count
      then Some (Inl (Panic ''kcalloc size overflow''))
      else
        (let total = count * bytes in
         bindO (kmalloc total s) (\<lambda>(ptr, s1).
         if ptr \<noteq> 0
         then Some (bindE (vmem_memset ptr 0 total (hvm s1)) (\<lambda>v. Inr (ptr, s1\<lparr>hvm := v\<rparr>)))
         else Some (Inr (ptr, s1)))))"

definition kfree :: "u32 \<Rightarrow> heap \<Rightarrow> heap res" where
  "kfree ptr s =
     (if ptr = 0 then Inr s
      else if \<not> ptr_is_inside_heap_region ptr s
      then Inl (Panic ''kfree pointer outside heap virtual region'')
      else
        (let block = ptr - heap_header_size in
         bindE (validate_block block s) (\<lambda>b.
         if hb_is_free b \<noteq> 0 then Inl (Panic ''double free detected'')
         else bindE (upd_block block (\<lambda>b. b\<lparr>hb_is_free := 1\<rparr>) s) (\<lambda>s1.
           let s2 = (if heap_active_allocations s1 > 0
                     then s1\<lparr>heap_active_allocations := heap_active_allocations s1 - 1\<rparr> else s1)
           in bindE (coalesce_around block s2) (\<lambda>(_, s3). Inr s3)))))"

section \<open>The list as a sequence of sizes\<close>

text \<open>
  A heap is abstracted to the sequence of its blocks, each a payload size and whether it is free.
  The blocks lie one behind the other, so the sequence and the base determine every address.
\<close>

type_synonym hblk = "u32 \<times> bool"

primrec bpos :: "nat \<Rightarrow> hblk list \<Rightarrow> nat" where
  "bpos c [] = c"
| "bpos c (x # xs) = bpos (c + 24 + unat (fst x)) xs"

primrec blast :: "u32 \<Rightarrow> nat \<Rightarrow> hblk list \<Rightarrow> u32" where
  "blast p c [] = p"
| "blast p c (x # xs) = blast (word_of_nat c) (c + 24 + unat (fst x)) xs"

text \<open>\<open>chain st p c bs q\<close>: the headers of \<open>bs\<close> are in the store from address \<open>c\<close> on, correctly
  linked, with \<open>p\<close> before the first and \<open>q\<close> behind the last block.\<close>

primrec chain :: "(u32 \<rightharpoonup> heap_block) \<Rightarrow> u32 \<Rightarrow> nat \<Rightarrow> hblk list \<Rightarrow> u32 \<Rightarrow> bool" where
  "chain st p c [] q \<longleftrightarrow> True"
| "chain st p c (x # xs) q \<longleftrightarrow>
     (\<exists>b. st (word_of_nat c) = Some b \<and> hb_magic b = HEAP_MAGIC \<and> hb_size b = fst x
        \<and> (hb_is_free b \<noteq> 0) = snd x \<and> hb_prev b = p
        \<and> hb_next b = (if xs = [] then q else word_of_nat (c + 24 + unat (fst x))))
     \<and> 8 dvd unat (fst x) \<and> chain st (word_of_nat c) (c + 24 + unat (fst x)) xs q"

lemma heap_header_size [simp]: "heap_header_size = 24"
  by (simp add: heap_header_size_def align_up_size_def)

lemma bpos_append [simp]: "bpos c (xs @ ys) = bpos (bpos c xs) ys"
  by (induction xs arbitrary: c) auto

lemma blast_append [simp]: "blast p c (xs @ ys) = blast (blast p c xs) (bpos c xs) ys"
  by (induction xs arbitrary: p c) auto

lemma bpos_ge: "c \<le> bpos c xs"
proof (induction xs arbitrary: c)
  case (Cons x xs)
  from Cons [of "c + 24 + unat (fst x)"] show ?case by simp
qed simp

lemma bpos_shift: "bpos c xs = c + bpos 0 xs"
proof (induction xs arbitrary: c)
  case (Cons x xs)
  from Cons [of "c + 24 + unat (fst x)"] Cons [of "24 + unat (fst x)"] show ?case by simp
qed simp

lemma bpos_mono: "c \<le> d \<Longrightarrow> bpos c xs \<le> bpos d xs"
  by (induction xs arbitrary: c d) auto

lemma bpos_dvd: "chain st p c bs q \<Longrightarrow> 8 dvd c \<Longrightarrow> 8 dvd bpos c bs"
proof (induction bs arbitrary: p c)
  case (Cons x xs)
  have "8 dvd c + 24 + unat (fst x)"
    using Cons.prems by (intro dvd_add) auto
  with Cons show ?case by auto
qed simp

lemma chain_append:
  "chain st p c (xs @ ys) q \<longleftrightarrow>
     chain st p c xs (if ys = [] then q else word_of_nat (bpos c xs))
     \<and> chain st (blast p c xs) (bpos c xs) ys q"
  by (induction xs arbitrary: p c) auto

text \<open>A store update at an address of no block of the sequence keeps its chain.\<close>

lemma chain_cong:
  assumes "chain st p c bs q"
    and "\<And>a. c \<le> a \<Longrightarrow> a < bpos c bs \<Longrightarrow> st' (word_of_nat a) = st (word_of_nat a)"
  shows "chain st' p c bs q"
  using assms
proof (induction bs arbitrary: p c)
  case (Cons y ys)
  have "c < bpos c (y # ys)" using bpos_ge [of "c + 24 + unat (fst y)" ys] by simp
  then have "st' (word_of_nat c) = st (word_of_nat c)" by (intro Cons.prems(2)) auto
  moreover have "chain st' (word_of_nat c) (c + 24 + unat (fst y)) ys q"
    by (rule Cons.IH) (use Cons.prems in auto)
  ultimately show ?case using Cons.prems(1) by simp
qed simp

lemma chain_upd_outside:
  assumes "chain st p c bs q" and "bpos c bs \<le> 2 ^ 32" and "unat x < c \<or> bpos c bs \<le> unat x"
  shows "chain (st(x := v)) p c bs q"
proof (rule chain_cong [OF assms(1)])
  fix a assume a: "c \<le> a" "a < bpos c bs"
  then have "unat (word_of_nat a :: u32) = a" using assms(2) by (simp add: unat_of_nat)
  with a assms(3) have "(word_of_nat a :: u32) \<noteq> x" by auto
  then show "(st(x := v)) (word_of_nat a) = st (word_of_nat a)" by simp
qed

lemma chain_set_first_prev:
  assumes "chain st p c (x # xs) q" and "bpos c (x # xs) \<le> 2 ^ 32"
    and "st (word_of_nat c) = Some b"
  shows "chain (st(word_of_nat c \<mapsto> b\<lparr>hb_prev := p'\<rparr>)) p' c (x # xs) q"
proof -
  have "c + 24 + unat (fst x) \<le> bpos c (x # xs)" using bpos_ge by simp
  with assms(2) have "unat (word_of_nat c :: u32) = c" by (simp add: unat_of_nat)
  moreover have "chain (st(word_of_nat c \<mapsto> b\<lparr>hb_prev := p'\<rparr>)) (word_of_nat c) (c + 24 + unat (fst x)) xs q"
    by (rule chain_upd_outside) (use assms calculation in auto)
  ultimately show ?thesis using assms by auto
qed

lemma chain_set_last_next:
  assumes "chain st p c xs q" and "xs \<noteq> []" and "bpos c xs \<le> 2 ^ 32"
    and "st (blast p c xs) = Some b"
  shows "chain (st(blast p c xs \<mapsto> b\<lparr>hb_next := q'\<rparr>)) p c xs q'"
proof -
  obtain ys y where xs: "xs = ys @ [y]" using assms(2) by (metis rev_exhaust)
  have le: "bpos c ys + 24 + unat (fst y) \<le> 2 ^ 32" using assms(3) xs by simp
  then have u: "unat (word_of_nat (bpos c ys) :: u32) = bpos c ys" by (simp add: unat_of_nat)
  have "chain st p c ys (word_of_nat (bpos c ys))" using assms(1) xs by (simp add: chain_append)
  then have "chain (st(word_of_nat (bpos c ys) \<mapsto> b\<lparr>hb_next := q'\<rparr>)) p c ys (word_of_nat (bpos c ys))"
    by (rule chain_upd_outside) (use le u in simp_all)
  then show ?thesis using assms(1,4) xs by (auto simp: chain_append)
qed

text \<open>The block in the middle of a chain, and the pointers around it.\<close>

lemma chain_middle:
  "chain st p c (xs @ x # ys) q \<longleftrightarrow>
     chain st p c xs (word_of_nat (bpos c xs)) \<and>
     (\<exists>b. st (word_of_nat (bpos c xs)) = Some b \<and> hb_magic b = HEAP_MAGIC \<and> hb_size b = fst x
        \<and> (hb_is_free b \<noteq> 0) = snd x \<and> hb_prev b = blast p c xs
        \<and> hb_next b = (if ys = [] then q else word_of_nat (bpos c (xs @ [x]))))
     \<and> 8 dvd unat (fst x) \<and> chain st (word_of_nat (bpos c xs)) (bpos c (xs @ [x])) ys q"
  by (simp add: chain_append)

section \<open>The representation relation\<close>

abbreviation (input) BASE :: nat where "BASE \<equiv> 0xD1000000"
abbreviation (input) LIMIT :: nat where "LIMIT \<equiv> 0xD2000000"

definition baddr :: "hblk list \<Rightarrow> u32" where
  "baddr xs = word_of_nat (bpos BASE xs)"

definition heap_list :: "heap \<Rightarrow> hblk list \<Rightarrow> bool" where
  "heap_list s bs \<longleftrightarrow> chain (blocks s) 0 BASE bs 0
     \<and> heap_head s = (if bs = [] then 0 else HEAP_VIRTUAL_BASE)
     \<and> heap_virtual_base s = HEAP_VIRTUAL_BASE \<and> heap_virtual_limit s = HEAP_VIRTUAL_LIMIT
     \<and> unat (heap_virtual_next s) = bpos BASE bs \<and> bpos BASE bs \<le> LIMIT"

lemma unat_baddr: "bpos BASE xs \<le> LIMIT \<Longrightarrow> unat (baddr xs) = bpos BASE xs"
  by (simp add: baddr_def unat_of_nat)

lemma bpos_prefix: "bpos BASE (xs @ ys) \<le> LIMIT \<Longrightarrow> bpos BASE xs \<le> LIMIT"
  using bpos_ge [of "bpos BASE xs" ys] by simp

lemma baddr_nonzero: "bpos BASE xs \<le> LIMIT \<Longrightarrow> baddr xs \<noteq> 0"
  using unat_baddr [of xs] bpos_ge [of BASE xs] by auto

lemma blast_baddr: "blast 0 BASE xs = (if xs = [] then 0 else baddr (butlast xs))"
  by (cases xs rule: rev_cases) (simp_all add: baddr_def)

lemma heap_list_block:
  assumes "heap_list s (xs @ x # ys)"
  obtains b where "blocks s (baddr xs) = Some b" and "hb_magic b = HEAP_MAGIC"
    and "hb_size b = fst x" and "(hb_is_free b \<noteq> 0) = snd x"
    and "hb_prev b = (if xs = [] then 0 else baddr (butlast xs))"
    and "hb_next b = (if ys = [] then 0 else baddr (xs @ [x]))"
    and "validate_block (baddr xs) s = Inr b"
proof -
  have "chain (blocks s) 0 BASE (xs @ x # ys) 0" and lim: "bpos BASE (xs @ x # ys) \<le> LIMIT"
    using assms by (auto simp: heap_list_def)
  then obtain b where b: "blocks s (baddr xs) = Some b" "hb_magic b = HEAP_MAGIC"
    "hb_size b = fst x" "(hb_is_free b \<noteq> 0) = snd x"
    "hb_prev b = blast 0 BASE xs" "hb_next b = (if ys = [] then 0 else baddr (xs @ [x]))"
    unfolding chain_middle baddr_def by blast
  have le: "bpos BASE xs \<le> LIMIT" using bpos_prefix [OF lim] .
  have "unat (heap_virtual_base s) = BASE" and "bpos BASE xs + 24 \<le> unat (heap_virtual_next s)"
    using assms bpos_ge [of "bpos BASE xs + 24 + unat (fst x)" ys] by (auto simp: heap_list_def)
  then have "ptr_is_inside_heap_region (baddr xs) s"
    using unat_baddr [OF le] bpos_ge [of BASE xs]
    by (simp add: ptr_is_inside_heap_region_def word_le_nat_alt word_less_nat_alt)
  then have "validate_block (baddr xs) s = Inr b"
    using b baddr_nonzero [OF le] by (simp add: validate_block_def get_block_def)
  with b blast_baddr that show thesis by auto
qed

lemma heap_list_sizes:
  assumes "heap_list s (xs @ x # ys)"
  shows "8 dvd unat (fst x)" and "bpos BASE xs + 24 + unat (fst x) \<le> LIMIT"
  using assms bpos_ge [of "bpos BASE xs + 24 + unat (fst x)" ys]
  by (auto simp: heap_list_def chain_append)

section \<open>Search\<close>

abbreviation fits :: "u32 \<Rightarrow> hblk \<Rightarrow> bool" where
  "fits wanted x \<equiv> snd x \<and> wanted \<le> fst x"

definition first_fit :: "u32 \<Rightarrow> hblk list \<Rightarrow> hblk list option" where
  "first_fit wanted bs = map_option fst (List.extract (fits wanted) bs)"

lemma find_loop_list:
  assumes "heap_list s (xs @ ys)"
  shows "find_loop (if ys = [] then 0 else baddr xs) wanted s =
    Some (Inr (case first_fit wanted ys of None \<Rightarrow> 0 | Some us \<Rightarrow> baddr (xs @ us)))"
  using assms
proof (induction ys arbitrary: xs)
  case Nil
  then show ?case by (subst find_loop.simps) (simp add: first_fit_def extract_Nil_code)
next
  case (Cons y ys)
  obtain b where b: "validate_block (baddr xs) s = Inr b" "hb_size b = fst y"
    "(hb_is_free b \<noteq> 0) = snd y" "hb_next b = (if ys = [] then 0 else baddr (xs @ [y]))"
    using heap_list_block [OF Cons.prems] by metis
  have nz: "baddr xs \<noteq> 0"
    using Cons.prems bpos_prefix [of xs "y # ys"] by (intro baddr_nonzero) (auto simp: heap_list_def)
  have IH: "find_loop (if ys = [] then 0 else baddr (xs @ [y])) wanted s =
    Some (Inr (case first_fit wanted ys of None \<Rightarrow> 0 | Some us \<Rightarrow> baddr ((xs @ [y]) @ us)))"
    using Cons.IH [of "xs @ [y]"] Cons.prems by simp
  show ?case
  proof (cases "fits wanted y")
    case True
    then show ?thesis using b nz by (subst find_loop.simps) (simp add: first_fit_def extract_Cons_code)
  next
    case False
    then have "find_loop (baddr xs) wanted s = find_loop (hb_next b) wanted s"
      using b nz by (subst find_loop.simps) auto
    moreover have "first_fit wanted (y # ys) = map_option ((#) y) (first_fit wanted ys)"
      using False by (auto simp: first_fit_def extract_Cons_code split: option.splits)
    ultimately show ?thesis using IH by (simp add: b(4) split: option.splits)
  qed
qed

lemma find_free_block_list:
  "heap_list s bs \<Longrightarrow> find_free_block wanted s =
    Some (Inr (case first_fit wanted bs of None \<Rightarrow> 0 | Some us \<Rightarrow> baddr us))"
  using find_loop_list [of s "[]" bs wanted]
  by (auto simp: find_free_block_def heap_list_def baddr_def split: if_splits option.splits)

lemma first_fit_Some:
  assumes "first_fit wanted bs = Some xs"
  obtains sz ys where "bs = xs @ (sz, True) # ys" and "wanted \<le> sz"
    and "\<not> (\<exists>x\<in>set xs. fits wanted x)"
  using assms by (auto simp: first_fit_def dest!: extract_SomeE)

lemma first_fit_None: "first_fit wanted bs = None \<longleftrightarrow> \<not> (\<exists>x\<in>set bs. fits wanted x)"
  by (simp add: first_fit_def extract_None_iff)

section \<open>Updating the sequence\<close>

lemma heap_list_update:
  assumes "heap_list s bs" and "chain st 0 BASE bs' 0" and "bpos BASE bs' = bpos BASE bs"
    and "(bs' = []) = (bs = [])"
  shows "heap_list (s\<lparr>blocks := st\<rparr>) bs'"
  using assms by (simp add: heap_list_def)

lemma heap_list_frame [simp]:
  "heap_list (s\<lparr>heap_active_allocations := a\<rparr>) bs = heap_list s bs"
  "heap_list (s\<lparr>heap_total_allocations := a\<rparr>) bs = heap_list s bs"
  "heap_list (s\<lparr>hvm := v\<rparr>) bs = heap_list s bs"
  by (simp_all add: heap_list_def)

lemma heap_list_chain:
  assumes "heap_list s (xs @ x # ys)"
  shows "chain (blocks s) 0 BASE xs (baddr xs)"
    and "chain (blocks s) (baddr xs) (bpos BASE (xs @ [x])) ys 0"
    and "bpos BASE (xs @ x # ys) \<le> LIMIT" and "bpos BASE xs < bpos BASE (xs @ [x])"
    and "bpos BASE (xs @ [x]) \<le> bpos BASE (xs @ x # ys)"
  using assms bpos_ge [of "bpos BASE (xs @ [x])" ys]
  by (auto simp: heap_list_def chain_middle baddr_def)

text \<open>Changing one header, keeping its links.\<close>

lemma heap_list_set_block:
  assumes hl: "heap_list s (xs @ (sz, f) # ys)" and b: "blocks s (baddr xs) = Some b"
    and b': "hb_magic b' = HEAP_MAGIC" "hb_size b' = sz" "(hb_is_free b' \<noteq> 0) = f'"
      "hb_prev b' = hb_prev b" "hb_next b' = hb_next b"
  shows "heap_list (s\<lparr>blocks := (blocks s)(baddr xs \<mapsto> b')\<rparr>) (xs @ (sz, f') # ys)"
proof (rule heap_list_update [OF hl])
  note c = heap_list_chain [OF hl]
  have u: "unat (baddr xs) = bpos BASE xs" using c by (intro unat_baddr) simp
  have "chain ((blocks s)(baddr xs \<mapsto> b')) 0 BASE xs (baddr xs)"
    by (rule chain_upd_outside [OF c(1)]) (use c(3-5) u in auto)
  moreover have "chain ((blocks s)(baddr xs \<mapsto> b')) (baddr xs) (bpos BASE (xs @ [(sz, f)])) ys 0"
    by (rule chain_upd_outside [OF c(2)]) (use c(3-5) u in auto)
  moreover obtain b0 where "blocks s (baddr xs) = Some b0" "hb_prev b0 = blast 0 BASE xs"
    "hb_next b0 = (if ys = [] then 0 else baddr (xs @ [(sz, f)]))"
    using heap_list_block [OF hl] blast_baddr by metis
  ultimately show "chain ((blocks s)(baddr xs \<mapsto> b')) 0 BASE (xs @ (sz, f') # ys) 0"
    unfolding chain_middle using b b' heap_list_sizes(1) [OF hl] by (simp add: baddr_def)
qed simp_all

text \<open>Pointing the first block of the rest back to a new predecessor.\<close>

definition relink :: "(u32 \<rightharpoonup> heap_block) \<Rightarrow> hblk list \<Rightarrow> u32 \<Rightarrow> u32 \<Rightarrow> (u32 \<rightharpoonup> heap_block)" where
  "relink st ys n p = (if ys = [] then st else st(n \<mapsto> (the (st n))\<lparr>hb_prev := p\<rparr>))"

lemma chain_relink:
  assumes "chain st p c ys q" and "bpos c ys \<le> 2 ^ 32" and "n = word_of_nat c"
  shows "chain (relink st ys n p') p' c ys q"
proof (cases ys)
  case (Cons y zs)
  with assms obtain b where b: "st (word_of_nat c) = Some b" by auto
  show ?thesis
    using chain_set_first_prev [of st p c y zs q b p'] b assms Cons by (simp add: relink_def)
qed (simp add: relink_def)

lemma relink_outside: "x \<noteq> n \<Longrightarrow> relink st ys n p x = st x"
  by (simp add: relink_def)

section \<open>Splitting\<close>

definition split_pair :: "u32 \<Rightarrow> u32 \<Rightarrow> bool \<Rightarrow> hblk list" where
  "split_pair wanted sz f =
     (if sz - wanted < 40 then [(sz, f)] else [(wanted, f), (sz - wanted - 24, True)])"

lemma split_pair_bpos:
  assumes "wanted \<le> sz" shows "bpos c (split_pair wanted sz f) = c + 24 + unat sz"
proof (cases "sz - wanted < 40")
  case False
  have "unat (sz - wanted) = unat sz - unat wanted" using assms by (simp add: unat_sub word_le_nat_alt)
  moreover from False have "40 \<le> unat (sz - wanted)" by (simp add: word_less_nat_alt)
  moreover from this have "unat (sz - wanted - 24) = unat (sz - wanted) - 24"
    by (simp add: unat_sub word_le_nat_alt)
  ultimately show ?thesis using False by (simp add: split_pair_def)
qed (simp add: split_pair_def)

text \<open>
  Replacing a group of neighbouring blocks by another group that covers the same addresses: it is
  enough to link the new headers among themselves and to point the block behind them back.
\<close>

lemma replace_blocks:
  assumes hl: "heap_list s (xs @ zs @ ys)" and ne: "zs \<noteq> []" "zs' \<noteq> []"
  defines "P \<equiv> bpos BASE xs" and "E \<equiv> bpos (bpos BASE xs) zs"
  assumes span: "bpos P zs' = E"
    and mid: "chain st (blast 0 BASE xs) P zs' (if ys = [] then 0 else word_of_nat E)"
    and out: "\<And>a. unat a < P \<or> E \<le> unat a \<Longrightarrow>
      st a = relink (blocks s) ys (word_of_nat E) (blast (blast 0 BASE xs) P zs') a"
  shows "heap_list (s\<lparr>blocks := st\<rparr>) (xs @ zs' @ ys)"
proof (rule heap_list_update [OF hl])
  have ch: "chain (blocks s) 0 BASE xs (word_of_nat P)"
    "chain (blocks s) (blast (blast 0 BASE xs) P zs) E ys 0"
    and lim: "bpos E ys \<le> LIMIT" and le: "P \<le> E" "E \<le> bpos E ys"
    using hl ne bpos_ge [of P zs] bpos_ge [of E ys]
    by (auto simp: heap_list_def chain_append P_def E_def)
  have nat: "unat (word_of_nat a :: u32) = a" if "a \<le> bpos E ys" for a
    using that lim by (simp add: unat_of_nat)
  have "chain st 0 BASE xs (word_of_nat P)"
  proof (rule chain_cong [OF ch(1)])
    fix a assume "BASE \<le> a" "a < bpos BASE xs"
    then have "unat (word_of_nat a :: u32) < P" using nat [of a] le by (simp add: P_def)
    moreover from this le nat [of E] have "(word_of_nat a :: u32) \<noteq> word_of_nat E" by auto
    ultimately show "st (word_of_nat a) = blocks s (word_of_nat a)"
      by (simp add: out relink_outside)
  qed
  moreover have "chain (relink (blocks s) ys (word_of_nat E) (blast (blast 0 BASE xs) P zs'))
      (blast (blast 0 BASE xs) P zs') E ys 0"
    by (rule chain_relink [OF ch(2)]) (use lim in simp_all)
  then have "chain st (blast (blast 0 BASE xs) P zs') E ys 0"
    by (rule chain_cong) (use nat in \<open>simp add: out\<close>)
  ultimately show "chain st 0 BASE (xs @ zs' @ ys) 0"
    using mid ne span by (auto simp: chain_append P_def E_def split: if_splits)
  show "bpos BASE (xs @ zs' @ ys) = bpos BASE (xs @ zs @ ys)"
    using span by (simp add: P_def E_def)
qed (simp add: ne)

lemma baddr_snoc: "baddr (xs @ [x]) = baddr xs + 24 + fst x"
  by (simp add: baddr_def)

lemma split_block_list:
  assumes hl: "heap_list s (xs @ (sz, f) # ys)" and w: "wanted \<le> sz" "8 dvd unat wanted"
  obtains st where "split_block_if_large_enough (baddr xs) wanted s = Inr (s\<lparr>blocks := st\<rparr>)"
    and "heap_list (s\<lparr>blocks := st\<rparr>) (xs @ split_pair wanted sz f @ ys)"
proof (cases "sz - wanted < 40")
  case True
  obtain b where "validate_block (baddr xs) s = Inr b" "hb_size b = sz"
    using heap_list_block [OF hl] by (metis fst_conv)
  with True w hl that [of "blocks s"] show thesis
    by (simp add: split_block_if_large_enough_def split_pair_def Let_def)
next
  case False
  obtain b where b: "validate_block (baddr xs) s = Inr b" "blocks s (baddr xs) = Some b"
    "hb_magic b = HEAP_MAGIC" "hb_size b = sz" "(hb_is_free b \<noteq> 0) = f" "hb_prev b = blast 0 BASE xs"
    "hb_next b = (if ys = [] then 0 else baddr (xs @ [(sz, f)]))"
    using heap_list_block [OF hl] blast_baddr by (metis fst_conv snd_conv)
  define P where "P = bpos BASE xs"
  define sp where "sp = baddr xs + 24 + wanted"
  define n where "n = baddr (xs @ [(sz, f)])"
  have pair: "P + 24 + unat wanted + 24 + unat (sz - wanted - 24) = P + 24 + unat sz"
    using split_pair_bpos [OF w(1), of P f] False by (simp add: split_pair_def)
  have lim: "P + 24 + unat sz \<le> LIMIT" using heap_list_sizes(2) [OF hl] by (simp add: P_def)
  have words: "word_of_nat P = baddr xs" "word_of_nat (P + 24 + unat wanted) = sp"
    "word_of_nat (P + 24 + unat sz) = n" by (simp_all add: baddr_def sp_def n_def P_def)
  have u: "unat (baddr xs) = P" "unat sp = P + 24 + unat wanted" "unat n = P + 24 + unat sz"
    using lim pair by (simp_all add: words [symmetric] unat_of_nat del: of_nat_add)
  have ne: "baddr xs \<noteq> sp" "baddr xs \<noteq> n" "sp \<noteq> n" using u pair by (auto simp: word_unat_eq_iff)
  define nb where "nb = \<lparr>hb_magic = HEAP_MAGIC, hb_size = sz - wanted - 24, hb_is_free = 1,
      hb_reserved = 0, hb_next = hb_next b, hb_prev = baddr xs\<rparr>"
  define st where "st = (relink ((blocks s)(sp \<mapsto> nb)) ys n sp)(baddr xs \<mapsto> b\<lparr>hb_next := sp, hb_size := wanted\<rparr>)"
  have "8 dvd unat (sz - wanted - 24)"
    using pair w(2) heap_list_sizes(1) [OF hl] by (simp add: dvd_add_right_iff) presburger
  then have "chain st (blast 0 BASE xs) P [(wanted, f), (sz - wanted - 24, True)] (if ys = [] then 0 else n)"
    unfolding chain.simps fst_conv snd_conv words
    using ne b(3-7) w(2) by (simp add: st_def relink_outside nb_def n_def)
  then have "heap_list (s\<lparr>blocks := st\<rparr>) (xs @ [(wanted, f), (sz - wanted - 24, True)] @ ys)"
    using hl pair u ne words
    by (intro replace_blocks [where zs = "[(sz, f)]"])
       (auto simp: P_def [symmetric] st_def relink_def simp del: of_nat_add)
  moreover have "split_block_if_large_enough (baddr xs) wanted s = Inr (s\<lparr>blocks := st\<rparr>)"
  proof (cases ys)
    case Nil
    then show ?thesis
      using b False w(1) ne
      by (simp add: split_block_if_large_enough_def Let_def upd_block_def relink_def st_def nb_def sp_def not_less)
  next
    case (Cons y zs)
    then obtain c where "blocks s n = Some c"
      using heap_list_block [of s "xs @ [(sz, f)]" y zs] hl unfolding n_def by auto
    moreover have "n \<noteq> 0" using u lim by (auto simp: word_unat_eq_iff)
    ultimately show ?thesis
      using Cons b False w(1) ne
      by (simp add: split_block_if_large_enough_def Let_def upd_block_def relink_def st_def nb_def
          sp_def not_less n_def [symmetric])
  qed
  ultimately show thesis using that False by (simp add: split_pair_def)
qed

section \<open>Coalescing\<close>

fun merge_next :: "u32 \<Rightarrow> bool \<Rightarrow> hblk list \<Rightarrow> hblk list" where
  "merge_next sz True ((sz2, True) # ys) = (sz + 24 + sz2, True) # ys"
| "merge_next sz f ys = (sz, f) # ys"

definition merge_around :: "hblk list \<Rightarrow> u32 \<Rightarrow> hblk list \<Rightarrow> hblk list" where
  "merge_around xs sz ys =
     (if xs \<noteq> [] \<and> snd (last xs)
      then butlast xs @ merge_next (fst (last xs)) True (merge_next sz True ys)
      else xs @ merge_next sz True ys)"

lemma heap_list_at:
  assumes "heap_list s (xs @ (sz, f) # ys)"
  obtains b where "validate_block (baddr xs) s = Inr b" and "blocks s (baddr xs) = Some b"
    and "hb_magic b = HEAP_MAGIC" and "hb_size b = sz" and "(hb_is_free b \<noteq> 0) = f"
    and "hb_prev b = blast 0 BASE xs"
    and "hb_next b = (if ys = [] then 0 else baddr xs + 24 + sz)"
  using heap_list_block [OF assms] blast_baddr by (metis fst_conv snd_conv baddr_snoc)

lemma merge_two:
  assumes hl: "heap_list s (xs @ (sz, True) # (sz2, True) # ys)"
  shows "\<exists>st. coalesce_with_next (baddr xs) s = Inr (baddr xs, s\<lparr>blocks := st\<rparr>)
    \<and> heap_list (s\<lparr>blocks := st\<rparr>) (xs @ (sz + 24 + sz2, True) # ys)"
proof -
  define P where "P = bpos BASE xs"
  define a where "a = baddr xs"
  define n where "n = a + 24 + sz"
  define e where "e = n + 24 + sz2"
  have hl2: "heap_list s ((xs @ [(sz, True)]) @ (sz2, True) # ys)" using hl by simp
  obtain b where b: "validate_block a s = Inr b" "blocks s a = Some b"
    "hb_magic b = HEAP_MAGIC" "hb_size b = sz" "hb_is_free b \<noteq> 0" "hb_prev b = blast 0 BASE xs" "hb_next b = n"
    using heap_list_at [OF hl] unfolding a_def [symmetric] n_def by auto
  obtain c where c: "validate_block n s = Inr c" "hb_size c = sz2" "hb_is_free c \<noteq> 0"
    "hb_next c = (if ys = [] then 0 else e)"
    using heap_list_at [OF hl2] unfolding baddr_snoc fst_conv a_def [symmetric] n_def [symmetric] e_def
    by (metis (full_types))
  have lim: "P + 24 + unat sz + 24 + unat sz2 \<le> LIMIT"
    using heap_list_sizes(2) [OF hl2] by (simp add: P_def)
  have words: "word_of_nat P = a" "word_of_nat (P + 24 + unat sz) = n"
    "word_of_nat (P + 24 + unat sz + 24 + unat sz2) = e"
    by (simp_all add: a_def n_def e_def P_def baddr_def)
  have u: "unat a = P" "unat n = P + 24 + unat sz" "unat e = P + 24 + unat sz + 24 + unat sz2"
    using lim by (simp_all add: words [symmetric] unat_of_nat del: of_nat_add)
  have ne: "a \<noteq> n" "a \<noteq> e" "n \<noteq> 0" "e \<noteq> 0" using u by (auto simp: word_unat_eq_iff)
  have d: "\<exists>d. blocks s e = Some d" if "ys \<noteq> []"
  proof -
    from that obtain y zs where "ys = y # zs" by (cases ys) auto
    then have "heap_list s ((xs @ [(sz, True), (sz2, True)]) @ y # zs)" using hl by simp
    from heap_list_block [OF this] show ?thesis
      unfolding e_def n_def a_def by (metis append_Cons append_Nil append_assoc baddr_snoc fst_conv)
  qed
  have sz': "unat (sz + 24 + sz2) = unat sz + 24 + unat sz2"
    using lim by (simp add: P_def unat_word_ariths)
  have dv: "8 dvd unat (sz + 24 + sz2)"
    unfolding sz' using heap_list_sizes(1) [OF hl] heap_list_sizes(1) [OF hl2] by simp
  define st where "st = relink ((blocks s)(a \<mapsto> b\<lparr>hb_size := sz + (24 + sz2), hb_next := hb_next c\<rparr>)) ys e a"
  have "chain st (blast 0 BASE xs) P [(sz + 24 + sz2, True)] (if ys = [] then 0 else e)"
    unfolding chain.simps fst_conv snd_conv words using dv ne b c by (simp add: st_def relink_outside)
  then have "heap_list (s\<lparr>blocks := st\<rparr>) (xs @ [(sz + 24 + sz2, True)] @ ys)"
    using hl u ne sz' words
    by (intro replace_blocks [where zs = "[(sz, True), (sz2, True)]"])
       (auto simp: P_def [symmetric] st_def relink_def simp del: of_nat_add)
  moreover have "blocks_are_adjacent a b n" using b by (simp add: blocks_are_adjacent_def block_end_addr_def n_def)
  then have "coalesce_with_next a s = Inr (a, s\<lparr>blocks := st\<rparr>)"
    using b c ne d by (cases "ys = []") (auto simp: coalesce_with_next_def Let_def upd_block_def st_def relink_def)
  ultimately show ?thesis by (auto simp: a_def)
qed

lemma coalesce_with_next_list:
  assumes hl: "heap_list s (xs @ (sz, f) # ys)"
  shows "\<exists>st. coalesce_with_next (baddr xs) s = Inr (baddr xs, s\<lparr>blocks := st\<rparr>)
    \<and> heap_list (s\<lparr>blocks := st\<rparr>) (xs @ merge_next sz f ys)"
proof -
  obtain b where b: "validate_block (baddr xs) s = Inr b" "(hb_is_free b \<noteq> 0) = f"
    "hb_next b = (if ys = [] then 0 else baddr xs + 24 + sz)"
    using heap_list_at [OF hl] by metis
  consider (none) "ys = []" | (used) sz2 f2 zs where "ys = (sz2, f2) # zs" "\<not> (f \<and> f2)"
    | (both) sz2 zs where "ys = (sz2, True) # zs" "f" by (cases ys) auto
  then show ?thesis
  proof cases
    case none
    then show ?thesis using b hl by (auto simp: coalesce_with_next_def intro!: exI [of _ "blocks s"])
  next
    case used
    have hl2: "heap_list s ((xs @ [(sz, f)]) @ (sz2, f2) # zs)" using hl used by simp
    obtain c where "validate_block (baddr xs + 24 + sz) s = Inr c" "(hb_is_free c \<noteq> 0) = f2"
      using heap_list_at [OF hl2] unfolding baddr_snoc fst_conv by metis
    then have "coalesce_with_next (baddr xs) s = Inr (baddr xs, s)"
      using b used by (auto simp: coalesce_with_next_def Let_def)
    moreover have "merge_next sz f ys = (sz, f) # ys" using used by (cases f; cases f2) auto
    ultimately show ?thesis using hl by (auto intro!: exI [of _ "blocks s"])
  next
    case both
    then have hl': "heap_list s (xs @ (sz, True) # (sz2, True) # zs)" using hl by simp
    show ?thesis using merge_two [OF hl'] both by simp
  qed
qed

lemma merge_next_Cons: "\<exists>sz' ys'. merge_next sz True ys = (sz', True) # ys'"
  by (cases "(sz, True, ys)" rule: merge_next.cases) auto

lemma coalesce_around_list:
  assumes hl: "heap_list s (xs @ (sz, True) # ys)"
  shows "\<exists>r st. coalesce_around (baddr xs) s = Inr (r, s\<lparr>blocks := st\<rparr>) \<and> r \<noteq> 0
    \<and> heap_list (s\<lparr>blocks := st\<rparr>) (merge_around xs sz ys)"
proof -
  obtain b where b: "validate_block (baddr xs) s = Inr b" using heap_list_at [OF hl] by metis
  obtain st1 where c1: "coalesce_with_next (baddr xs) s = Inr (baddr xs, s\<lparr>blocks := st1\<rparr>)"
    and hl1: "heap_list (s\<lparr>blocks := st1\<rparr>) (xs @ merge_next sz True ys)"
    using coalesce_with_next_list [OF hl] by auto
  obtain sz' ys' where m: "merge_next sz True ys = (sz', True) # ys'" using merge_next_Cons by blast
  have hl1': "heap_list (s\<lparr>blocks := st1\<rparr>) (xs @ (sz', True) # ys')" using hl1 m by simp
  obtain b1 where b1: "st1 (baddr xs) = Some b1" "hb_prev b1 = blast 0 BASE xs"
    using heap_list_at [OF hl1', simplified] by blast
  have nz: "baddr zs \<noteq> 0" if "heap_list s (zs @ us)" for zs us s
    using that bpos_prefix [of zs us] by (intro baddr_nonzero) (auto simp: heap_list_def)
  show ?thesis
  proof (cases xs rule: rev_cases)
    case Nil
    then show ?thesis
      using b c1 b1 hl1 nz [OF hl1'] by (auto simp: coalesce_around_def get_block_def merge_around_def)
  next
    case (snoc us p)
    obtain psz pf where p: "p = (psz, pf)" by fastforce
    have hl2: "heap_list (s\<lparr>blocks := st1\<rparr>) (us @ (psz, pf) # (sz', True) # ys')" using hl1' snoc p by simp
    obtain c where c: "validate_block (baddr us) (s\<lparr>blocks := st1\<rparr>) = Inr c" "(hb_is_free c \<noteq> 0) = pf"
      "hb_size c = psz" using heap_list_at [OF hl2] by metis
    have prev: "hb_prev b1 = baddr us" using b1 snoc by (simp add: baddr_def)
    have adj: "blocks_are_adjacent (baddr us) c (baddr xs)"
      using c snoc p by (simp add: blocks_are_adjacent_def block_end_addr_def baddr_snoc)
    obtain st2 where c2: "coalesce_with_next (baddr us) (s\<lparr>blocks := st1\<rparr>) = Inr (baddr us, s\<lparr>blocks := st2\<rparr>)"
      and hl3: "heap_list (s\<lparr>blocks := st2\<rparr>) (us @ merge_next psz pf ((sz', True) # ys'))"
      using coalesce_with_next_list [OF hl2] by auto
    show ?thesis
    proof (cases pf)
      case True
      then show ?thesis
        using b c1 b1 prev c adj c2 hl3 nz [OF hl2] nz [OF hl2] snoc p m
        by (auto simp: coalesce_around_def get_block_def merge_around_def)
    next
      case False
      then show ?thesis
        using b c1 b1 prev c hl1 nz [OF hl1'] nz [OF hl2] snoc p
        by (auto simp: coalesce_around_def get_block_def merge_around_def)
    qed
  qed
qed

section \<open>Growth\<close>

lemma seek_position_end:
  assumes "chain (blocks s) p c ys 0" and "bpos c ys \<le> unat new" and "0 < c"
  shows "seek_position (if ys = [] then 0 else word_of_nat c) new s = Some (Inr 0)"
  using assms
proof (induction ys arbitrary: p c)
  case Nil
  then show ?case by (subst seek_position.simps) simp
next
  case (Cons y ys)
  have c: "c < unat new" using Cons.prems(2) bpos_ge [of "c + 24 + unat (fst y)" ys] by simp
  then have "c < 4294967296" using unat_u32_less [of new] by linarith
  then have u: "unat (word_of_nat c :: u32) = c" by (simp add: unat_of_nat)
  with c Cons.prems(3) have lt: "(word_of_nat c :: u32) < new" "(word_of_nat c :: u32) \<noteq> 0"
    by (auto simp: word_less_nat_alt word_unat_eq_iff)
  obtain b where b: "blocks s (word_of_nat c) = Some b"
    "hb_next b = (if ys = [] then 0 else word_of_nat (c + 24 + unat (fst y)))"
    using Cons.prems(1) by auto
  have "seek_position (word_of_nat c) new s = seek_position (hb_next b) new s"
    using lt b(1) by (subst seek_position.simps) (simp add: get_block_def)
  also have "\<dots> = Some (Inr 0)" unfolding b(2) by (rule Cons.IH) (use Cons.prems in auto)
  finally show ?case by simp
qed

lemma seek_tail_end:
  assumes "chain (blocks s) p c ys 0" and "ys \<noteq> []" and "bpos c ys < 2 ^ 32" and "0 < c"
  shows "seek_tail (word_of_nat c) s = Some (Inr (blast p c ys))"
  using assms
proof (induction ys arbitrary: p c)
  case (Cons y ys)
  obtain b where b: "blocks s (word_of_nat c) = Some b"
    "hb_next b = (if ys = [] then 0 else word_of_nat (c + 24 + unat (fst y)))"
    using Cons.prems(1) by auto
  show ?case
  proof (cases "ys = []")
    case True
    then show ?thesis using b by (subst seek_tail.simps) (simp add: get_block_def)
  next
    case False
    have "c + 24 + unat (fst y) < 2 ^ 32" using Cons.prems(3) bpos_ge [of "c + 24 + unat (fst y)" ys] by simp
    then have "unat (word_of_nat (c + 24 + unat (fst y)) :: u32) \<noteq> 0" by (simp add: unat_of_nat del: of_nat_add)
    then have "hb_next b \<noteq> 0" unfolding b(2) using False by (auto simp del: of_nat_add)
    then have "seek_tail (word_of_nat c) s = seek_tail (hb_next b) s"
      using b(1) by (subst seek_tail.simps) (simp add: get_block_def)
    also have "\<dots> = Some (Inr (blast (word_of_nat c) (c + 24 + unat (fst y)) ys))"
      using False Cons.prems unfolding b(2) by (simp add: Cons.IH del: of_nat_add)
    finally show ?thesis by simp
  qed
qed simp

text \<open>
  A new region at the end of the heap: \<open>insert_block_sorted\<close> puts its header behind the last block.
\<close>

lemma insert_at_end:
  assumes ch: "chain (blocks s) 0 BASE bs 0" and head: "heap_head s = (if bs = [] then 0 else HEAP_VIRTUAL_BASE)"
    and base: "heap_virtual_base s = HEAP_VIRTUAL_BASE" "heap_virtual_limit s = HEAP_VIRTUAL_LIMIT"
    and lim: "bpos BASE (bs @ [(sz, True)]) \<le> LIMIT"
    and nxt: "unat (heap_virtual_next s) = bpos BASE (bs @ [(sz, True)])" and dv: "8 dvd unat sz"
    and blk: "blocks s (baddr bs) = Some b" "hb_magic b = HEAP_MAGIC" "hb_size b = sz" "hb_is_free b \<noteq> 0"
  shows "\<exists>s'. insert_block_sorted (baddr bs) s = Some (Inr s') \<and> heap_list s' (bs @ [(sz, True)])
    \<and> s' = s\<lparr>blocks := blocks s', heap_head := HEAP_VIRTUAL_BASE\<rparr>"
proof -
  have u: "unat (baddr bs) = bpos BASE bs" using lim by (intro unat_baddr) simp
  have v: "validate_block (baddr bs) s = Inr b"
    using u lim nxt base blk bpos_ge [of BASE bs]
    by (auto simp: validate_block_def get_block_def ptr_is_inside_heap_region_def word_le_nat_alt word_less_nat_alt)
  show ?thesis
  proof (cases "bs = []")
    case True
    then show ?thesis
      using v head blk base nxt lim dv
      by (auto simp: insert_block_sorted_def upd_block_def heap_list_def baddr_def)
  next
    case False
    define tl where "tl = blast 0 BASE bs"
    obtain us x where us: "bs = us @ [x]" using False by (metis rev_exhaust)
    have tl: "tl = baddr us" using us by (simp add: tl_def baddr_def)
    obtain c where c: "blocks s tl = Some c" using ch us by (auto simp: chain_append tl_def)
    have ne: "tl \<noteq> baddr bs" using u us lim unat_baddr [of us] by (auto simp: tl word_unat_eq_iff)
    define st where "st = (blocks s)(tl \<mapsto> c\<lparr>hb_next := baddr bs\<rparr>, baddr bs \<mapsto> b\<lparr>hb_prev := tl, hb_next := 0\<rparr>)"
    have "seek_position HEAP_VIRTUAL_BASE (baddr bs) s = Some (Inr 0)"
      using seek_position_end [OF ch, of "baddr bs"] u False by simp
    moreover have "seek_tail HEAP_VIRTUAL_BASE s = Some (Inr tl)"
      using seek_tail_end [OF ch False] lim by (simp add: tl_def)
    ultimately have r: "insert_block_sorted (baddr bs) s = Some (Inr (s\<lparr>blocks := st\<rparr>))"
      using v head False c ne blk
      by (simp add: insert_block_sorted_def upd_block_def st_def)
    have "chain ((blocks s)(tl \<mapsto> c\<lparr>hb_next := baddr bs\<rparr>)) 0 BASE bs (baddr bs)"
      unfolding tl_def by (rule chain_set_last_next [OF ch False]) (use lim c tl_def in auto)
    then have "chain st 0 BASE bs (baddr bs)"
      unfolding st_def by (rule chain_upd_outside) (use lim u in auto)
    then have "chain st 0 BASE (bs @ [(sz, True)]) 0"
      using blk dv by (simp add: chain_append st_def tl_def baddr_def)
    then have "heap_list (s\<lparr>blocks := st\<rparr>) (bs @ [(sz, True)])"
      using head base lim nxt False by (simp add: heap_list_def)
    with r head False show ?thesis by simp
  qed
qed

lemma region_bytes_exact:
  assumes "pc < 0x100000" shows "unat (pc * 4096 :: u32) = unat pc * 4096"
proof -
  have "unat pc < 0x100000" using assms by (simp add: word_less_nat_alt)
  then show ?thesis by (simp add: unat_word_ariths)
qed

lemma append_region:
  fixes v :: vmm and n rb :: u32
  assumes hl: "heap_list s bs" and rb: "4096 dvd unat rb" "0 < unat rb" "unat rb + bpos BASE bs \<le> LIMIT"
  defines "s1 \<equiv> s\<lparr>hvm := v, heap_virtual_next := heap_virtual_next s + rb,
      heap_region_bytes := heap_region_bytes s + rb, heap_mapped_pages := heap_mapped_pages s + n,
      blocks := (blocks s)(baddr bs \<mapsto> \<lparr>hb_magic = HEAP_MAGIC, hb_size = rb - 24, hb_is_free = 1,
        hb_reserved = 0, hb_next = 0, hb_prev = 0\<rparr>)\<rparr>"
  obtains p s' where "bindO (insert_block_sorted (baddr bs) s1) (\<lambda>s2. Some (coalesce_around (baddr bs) s2))
      = Some (Inr (p, s'))" and "p \<noteq> 0" and "heap_list s' (merge_around bs (rb - 24) [])"
    and "heap_active_allocations s' = heap_active_allocations s" and "heap_initialized s' = heap_initialized s"
proof -
  have pos: "4096 \<le> unat rb" using rb(1,2) by (auto dest: dvd_imp_le)
  have rb24: "unat (rb - 24) = unat rb - 24" using pos by (simp add: unat_sub word_le_nat_alt)
  have dv: "8 dvd unat (rb - 24)"
    unfolding rb24 using rb(1) by (intro dvd_diff_nat) (auto intro: dvd_trans [of 8 4096])
  have end_pos: "bpos BASE (bs @ [(rb - 24, True)]) = unat rb + bpos BASE bs" using rb24 pos by simp
  have ch: "chain (blocks s1) 0 BASE bs 0"
    using hl rb by (auto simp: s1_def heap_list_def unat_baddr intro!: chain_upd_outside)
  have "unat (heap_virtual_next s1) = bpos BASE (bs @ [(rb - 24, True)])"
    using hl rb(3) end_pos by (simp add: s1_def unat_word_ariths heap_list_def)
  then obtain s2 where s2: "insert_block_sorted (baddr bs) s1 = Some (Inr s2)"
    "heap_list s2 (bs @ [(rb - 24, True)])" "s2 = s1\<lparr>blocks := blocks s2, heap_head := HEAP_VIRTUAL_BASE\<rparr>"
    using insert_at_end [OF ch, of "rb - 24"] hl rb(3) end_pos dv by (auto simp: s1_def heap_list_def)
  obtain p st where p: "coalesce_around (baddr bs) s2 = Inr (p, s2\<lparr>blocks := st\<rparr>)" "p \<noteq> 0"
    "heap_list (s2\<lparr>blocks := st\<rparr>) (merge_around bs (rb - 24) [])"
    using coalesce_around_list [OF s2(2)] by auto
  have "heap_active_allocations s2 = heap_active_allocations s" "heap_initialized s2 = heap_initialized s"
    by (subst s2(3), simp add: s1_def)+
  with s2(1) p that [of p "s2\<lparr>blocks := st\<rparr>"] show thesis by simp
qed

text \<open>
  What adding a region can do: fail while mapping, be refused with the heap unchanged, or append
  one free block of the new pages, merged with a free last block.
\<close>

lemma heap_add_region_list:
  assumes hl: "heap_list s bs" and pc: "pc < 0x100000"
  obtains (failed) e where "heap_add_region pc s = Some (Inl e)"
  | (refused) v where "heap_add_region pc s = Some (Inr (0, s\<lparr>hvm := v\<rparr>))"
  | (grown) p s' rb where "heap_add_region pc s = Some (Inr (p, s'))" and "p \<noteq> 0"
      and "heap_list s' (merge_around bs (rb - 24) [])" and "4096 dvd unat rb" and "0 < unat rb"
      and "unat rb + bpos BASE bs \<le> LIMIT"
      and "heap_active_allocations s' = heap_active_allocations s"
      and "heap_initialized s' = heap_initialized s"
proof -
  define n where "n = (if pc = 0 then 1 else pc)"
  define rb where "rb = n * 4096"
  have n: "n < 0x100000" "0 < unat n" using pc by (auto simp: n_def unat_gt_0)
  then have rb: "unat rb = unat n * 4096" by (simp add: rb_def region_bytes_exact)
  have next_le: "unat (heap_virtual_next s) \<le> LIMIT" and lim: "heap_virtual_limit s = HEAP_VIRTUAL_LIMIT"
    and nx: "unat (heap_virtual_next s) = bpos BASE bs"
    using hl by (simp_all add: heap_list_def)
  have nxt: "heap_virtual_next s = baddr bs"
    using nx next_le by (simp add: word_unat_eq_iff unat_baddr)
  show thesis
  proof (cases "rb > HEAP_VIRTUAL_LIMIT - heap_virtual_next s")
    case True
    then have "heap_add_region pc s = Some (Inr (0, s\<lparr>hvm := hvm s\<rparr>))"
      by (simp add: heap_add_region_def n_def [symmetric] rb_def [symmetric] Let_def lim)
    then show ?thesis by (rule refused)
  next
    case False
    then have fit: "\<not> (heap_virtual_next s > heap_virtual_limit s \<or> rb > heap_virtual_limit s - heap_virtual_next s)"
      using next_le lim by (simp add: word_less_nat_alt)
    have le: "unat rb + bpos BASE bs \<le> LIMIT"
      using False next_le nx by (simp add: word_less_nat_alt unat_sub word_le_nat_alt)
    show ?thesis
    proof (cases "heap_map_virtual_region (baddr bs) n (hvm s)")
      case (Inl e)
      then have "heap_add_region pc s = Some (Inl e)"
        using fit by (simp add: heap_add_region_def n_def [symmetric] rb_def [symmetric] Let_def nxt)
      then show ?thesis by (rule failed)
    next
      case (Inr rv)
      obtain r v where rv: "rv = (r, v)" by fastforce
      define s1 where "s1 = s\<lparr>hvm := v, heap_virtual_next := heap_virtual_next s + rb,
         heap_region_bytes := heap_region_bytes s + rb, heap_mapped_pages := heap_mapped_pages s + n,
         blocks := (blocks s)(baddr bs \<mapsto> \<lparr>hb_magic = HEAP_MAGIC, hb_size = rb - 24, hb_is_free = 1,
           hb_reserved = 0, hb_next = 0, hb_prev = 0\<rparr>)\<rparr>"
      have eq: "heap_add_region pc s = (if r \<noteq> 0 then Some (Inr (0, s\<lparr>hvm := v\<rparr>))
          else bindO (insert_block_sorted (baddr bs) s1) (\<lambda>s2. Some (coalesce_around (baddr bs) s2)))"
        using fit Inr by (simp add: heap_add_region_def n_def [symmetric] rb_def [symmetric] Let_def nxt rv s1_def)
      show ?thesis
      proof (cases "r = 0")
        case False
        then show ?thesis using refused [of v] eq by simp
      next
        case True
        obtain p s' where "bindO (insert_block_sorted (baddr bs) s1)
            (\<lambda>s2. Some (coalesce_around (baddr bs) s2)) = Some (Inr (p, s'))" "p \<noteq> 0"
          "heap_list s' (merge_around bs (rb - 24) [])"
          "heap_active_allocations s' = heap_active_allocations s" "heap_initialized s' = heap_initialized s"
          unfolding s1_def by (rule append_region [OF hl _ _ le, where v = v and n = n]) (use rb n in auto)
        with True eq rb n le show ?thesis by (intro grown [of p s' rb]) auto
      qed
    qed
  qed
qed

section \<open>Live allocations and the invariant\<close>

text \<open>The allocations a client holds: payload address and size of every used block.\<close>

primrec live :: "nat \<Rightarrow> hblk list \<Rightarrow> (nat \<times> nat) set" where
  "live c [] = {}"
| "live c (x # xs) = (if snd x then {} else {(c + 24, unat (fst x))}) \<union> live (c + 24 + unat (fst x)) xs"

abbreviation no_free_pair :: "hblk list \<Rightarrow> bool" where
  "no_free_pair \<equiv> successively (\<lambda>x y. \<not> (snd x \<and> snd y))"

definition heap_inv :: "heap \<Rightarrow> hblk list \<Rightarrow> bool" where
  "heap_inv s bs \<longleftrightarrow> heap_list s bs \<and> heap_initialized s \<and> no_free_pair bs
     \<and> (\<forall>x\<in>set bs. 8 \<le> unat (fst x))
     \<and> unat (heap_active_allocations s) = length (filter (\<lambda>x. \<not> snd x) bs)"

lemma live_append [simp]: "live c (xs @ ys) = live c xs \<union> live (bpos c xs) ys"
  by (induction xs arbitrary: c) auto

lemma live_bounds: "(q, l) \<in> live c bs \<Longrightarrow> c + 24 \<le> q \<and> q + l \<le> bpos c bs"
proof (induction bs arbitrary: c)
  case (Cons x xs)
  then show ?case
    using Cons.IH [of "c + 24 + unat (fst x)"] bpos_ge [of "c + 24 + unat (fst x)" xs]
    by (auto split: if_splits)
qed simp

lemma live_split:
  assumes "(q, l) \<in> live c bs"
  obtains xs sz ys where "bs = xs @ (sz, False) # ys" and "q = bpos c xs + 24" and "l = unat sz"
  using assms
proof (induction bs arbitrary: c thesis)
  case (Cons x xs)
  show ?case
  proof (cases "(q, l) \<in> live (c + 24 + unat (fst x)) xs")
    case True
    from Cons.IH [OF _ this] obtain us sz ys where
      "xs = us @ (sz, False) # ys" "q = bpos (c + 24 + unat (fst x)) us + 24" "l = unat sz" by blast
    then show ?thesis using Cons.prems(1) [of "x # us" sz ys] by simp
  next
    case False
    then show ?thesis using Cons.prems(1) [of "[]" "fst x" xs] Cons.prems(2)
      by (cases x) (auto split: if_splits)
  qed
qed simp

lemma merge_next_bpos:
  fixes sz sz2 :: u32
  assumes "c + 24 + unat sz + 24 + unat sz2 < 2 ^ 32"
  shows "unat (sz + 24 + sz2) = unat sz + 24 + unat sz2"
  using assms by (simp add: unat_word_ariths)

lemma live_merge_next:
  assumes "bpos c ((sz, True) # ys) \<le> LIMIT"
  shows "live c (merge_next sz True ys) = live (c + 24 + unat sz) ys"
    and "bpos c (merge_next sz True ys) = bpos c ((sz, True) # ys)"
proof -
  have "unat (sz + 24 + fst y) = unat sz + 24 + unat (fst y)" if "ys = y # zs" for y zs
    using assms that bpos_ge [of "c + 24 + unat sz + 24 + unat (fst y)" zs]
    by (intro merge_next_bpos [of c]) simp
  then show "live c (merge_next sz True ys) = live (c + 24 + unat sz) ys"
    "bpos c (merge_next sz True ys) = bpos c ((sz, True) # ys)"
    by (cases "(sz, True, ys)" rule: merge_next.cases; force simp: add.assoc)+
qed

lemma live_merge_around:
  assumes "bpos BASE (xs @ (sz, True) # ys) \<le> LIMIT"
  shows "live BASE (merge_around xs sz ys) = live BASE xs \<union> live (bpos BASE xs + 24 + unat sz) ys"
proof (cases "xs \<noteq> [] \<and> snd (last xs)")
  case True
  obtain us p where xs: "xs = us @ [p]" using True by (metis rev_exhaust)
  obtain psz where p: "p = (psz, True)" using True xs by (cases p) auto
  have 1: "live (bpos BASE xs) (merge_next sz True ys) = live (bpos BASE xs + 24 + unat sz) ys"
    "bpos (bpos BASE xs) (merge_next sz True ys) = bpos (bpos BASE xs) ((sz, True) # ys)"
    using live_merge_next [of "bpos BASE xs" sz ys] assms by simp_all
  have "bpos (bpos BASE us) ((psz, True) # merge_next sz True ys) \<le> LIMIT"
    using assms 1(2) xs p by simp
  from live_merge_next(1) [OF this] 1 show ?thesis using True xs p by (simp add: merge_around_def)
next
  case False
  then show ?thesis using live_merge_next(1) [of "bpos BASE xs" sz ys] assms by (auto simp: merge_around_def)
qed

lemma no_free_pair_merge_around:
  assumes "no_free_pair xs" and "no_free_pair ys"
  shows "no_free_pair (merge_around xs sz ys)"
proof -
  have m: "no_free_pair (merge_next sz' True ys)" for sz'
    using assms(2) by (cases "(sz', True, ys)" rule: merge_next.cases) (auto simp: successively_Cons split: list.splits)
  obtain sz' zs where z: "merge_next sz True ys = (sz', True) # zs" using merge_next_Cons by blast
  have tail: "zs = [] \<or> \<not> snd (hd zs)" "no_free_pair zs"
    using m [of sz] z by (auto simp: successively_Cons)
  show ?thesis
  proof (cases xs rule: rev_cases)
    case Nil
    then show ?thesis using m by (simp add: merge_around_def)
  next
    case (snoc us p)
    then show ?thesis
      using assms(1) tail z by (auto simp: merge_around_def successively_append_iff successively_Cons)
  qed
qed

lemma merge_next_sizes:
  assumes "bpos c ((sz, True) # ys) \<le> LIMIT" and "\<forall>x\<in>set ((sz, True) # ys). 8 \<le> unat (fst x)"
  shows "\<forall>x\<in>set (merge_next sz True ys). 8 \<le> unat (fst x)"
proof -
  have "unat (sz + 24 + fst y) = unat sz + 24 + unat (fst y)" if "ys = y # zs" for y zs
    using assms that bpos_ge [of "c + 24 + unat sz + 24 + unat (fst y)" zs]
    by (intro merge_next_bpos [of c]) simp
  with assms(2) show ?thesis by (cases "(sz, True, ys)" rule: merge_next.cases) auto
qed

lemma merge_around_sizes:
  assumes "bpos BASE (xs @ (sz, True) # ys) \<le> LIMIT" and "\<forall>x\<in>set (xs @ (sz, True) # ys). 8 \<le> unat (fst x)"
  shows "\<forall>x\<in>set (merge_around xs sz ys). 8 \<le> unat (fst x)"
proof (cases "xs \<noteq> [] \<and> snd (last xs)")
  case True
  obtain us p where xs: "xs = us @ [p]" using True by (metis rev_exhaust)
  obtain psz where p: "p = (psz, True)" using True xs by (cases p) auto
  have m: "\<forall>x\<in>set (merge_next sz True ys). 8 \<le> unat (fst x)"
    using merge_next_sizes [of "bpos BASE xs" sz ys] assms by simp
  moreover have "bpos (bpos BASE us) ((psz, True) # merge_next sz True ys) \<le> LIMIT"
    using assms live_merge_next(2) [of "bpos BASE xs" sz ys] xs p by simp
  ultimately show ?thesis
    using merge_next_sizes [of "bpos BASE us" psz "merge_next sz True ys"] assms(2) True xs p
    by (auto simp: merge_around_def)
next
  case False
  then show ?thesis
    using merge_next_sizes [of "bpos BASE xs" sz ys] assms by (auto simp: merge_around_def)
qed

lemma merge_around_used:
  "filter (\<lambda>x. \<not> snd x) (merge_around xs sz ys) = filter (\<lambda>x. \<not> snd x) (xs @ ys)"
proof -
  have m: "filter (\<lambda>x. \<not> snd x) (merge_next sz' True zs) = filter (\<lambda>x. \<not> snd x) zs" for sz' zs
    by (cases "(sz', True, zs)" rule: merge_next.cases) auto
  show ?thesis
    by (cases xs rule: rev_cases) (auto simp: merge_around_def m)
qed

section \<open>Allocation and release on the sequence\<close>

lemma align_up_8:
  assumes "n \<le> 0xFFFFFFF8"
  shows "unat (align_up_size n 8) = (unat n + 7) div 8 * 8"
proof -
  have "unat (n + 7) = unat n + 7" using assms by (simp add: word_le_nat_alt unat_word_ariths)
  then show ?thesis using unat_and_not_mask [of "n + 7" 3]
    by (simp add: align_up_size_def mask_eq_exp_minus_1 add.commute)
qed

lemma align_up_8_props:
  assumes "n \<noteq> 0" and "\<not> n > 0xFFFFFFFF - (HEAP_ALIGNMENT - 1)"
  shows "8 dvd unat (align_up_size n 8)" and "unat n \<le> unat (align_up_size n 8)"
    and "8 \<le> unat (align_up_size n 8)"
proof -
  have u: "unat (align_up_size n 8) = (unat n + 7) div 8 * 8" using assms(2) by (intro align_up_8) simp
  show "8 dvd unat (align_up_size n 8)" "unat n \<le> unat (align_up_size n 8)" by (simp_all add: u)
  have "0 < unat n" using assms(1) by (simp add: unat_gt_0)
  then show "8 \<le> unat (align_up_size n 8)" by (simp add: u)
qed

lemma take_block_list:
  assumes hl: "heap_list s (xs @ (sz, True) # ys)" and w: "wanted \<le> sz" "8 dvd unat wanted"
  shows "\<exists>t. take_block (baddr xs) wanted s = Inr (baddr xs + 24, t)
    \<and> heap_list t (xs @ split_pair wanted sz False @ ys)
    \<and> heap_active_allocations t = heap_active_allocations s + 1 \<and> heap_initialized t = heap_initialized s"
proof -
  obtain st where st: "split_block_if_large_enough (baddr xs) wanted s = Inr (s\<lparr>blocks := st\<rparr>)"
    and hl1: "heap_list (s\<lparr>blocks := st\<rparr>) (xs @ split_pair wanted sz True @ ys)"
    by (rule split_block_list [OF hl w])
  obtain sz' zs where sp: "split_pair wanted sz f = (sz', f) # zs" for f
    by (cases "sz - wanted < 40") (simp_all add: split_pair_def)
  have hl2: "heap_list (s\<lparr>blocks := st\<rparr>) (xs @ (sz', True) # zs @ ys)" using hl1 sp by simp
  obtain b where b: "st (baddr xs) = Some b" "hb_magic b = HEAP_MAGIC" "hb_size b = sz'"
    using heap_list_at [OF hl2, simplified] by blast
  have "heap_list (s\<lparr>blocks := st, blocks := st(baddr xs \<mapsto> b\<lparr>hb_is_free := 0\<rparr>)\<rparr>) (xs @ (sz', False) # zs @ ys)"
    using heap_list_set_block [OF hl2, of b "b\<lparr>hb_is_free := 0\<rparr>" False] b by simp
  then show ?thesis using st b sp [of False] by (simp add: take_block_def upd_block_def)
qed

lemma split_pair_live:
  assumes "wanted \<le> sz"
  shows "\<exists>sz'. live c (split_pair wanted sz False) = {(c + 24, sz')} \<and> unat wanted \<le> sz'"
  using assms by (auto simp: split_pair_def word_le_nat_alt)

lemma split_pair_inv:
  assumes "wanted \<le> sz" and "no_free_pair (xs @ (sz, True) # ys)"
    and "\<forall>x\<in>set (xs @ (sz, True) # ys). 8 \<le> unat (fst x)" and "8 \<le> unat wanted"
  shows "no_free_pair (xs @ split_pair wanted sz False @ ys)"
    and "\<forall>x\<in>set (xs @ split_pair wanted sz False @ ys). 8 \<le> unat (fst x)"
    and "length (filter (\<lambda>x. \<not> snd x) (xs @ split_pair wanted sz False @ ys)) =
      length (filter (\<lambda>x. \<not> snd x) (xs @ (sz, True) # ys)) + 1"
proof -
  show "no_free_pair (xs @ split_pair wanted sz False @ ys)"
    using assms(2) by (auto simp: split_pair_def successively_append_iff successively_Cons)
  have "40 \<le> unat (sz - wanted) \<Longrightarrow> unat (sz - wanted - 24) = unat (sz - wanted) - 24"
    by (simp add: unat_sub word_le_nat_alt)
  then show "\<forall>x\<in>set (xs @ split_pair wanted sz False @ ys). 8 \<le> unat (fst x)"
    using assms(3,4) by (auto simp: split_pair_def word_less_nat_alt not_less)
  show "length (filter (\<lambda>x. \<not> snd x) (xs @ split_pair wanted sz False @ ys)) =
      length (filter (\<lambda>x. \<not> snd x) (xs @ (sz, True) # ys)) + 1"
    by (simp add: split_pair_def)
qed

lemma block_count_bound: "chain st p c bs q \<Longrightarrow> c + 24 * length bs \<le> bpos c bs"
proof (induction bs arbitrary: p c)
  case (Cons x xs)
  then show ?case using Cons.IH [of "word_of_nat c" "c + 24 + unat (fst x)"] by simp
qed simp

lemma take_block_inv:
  assumes inv: "heap_inv s bs" and ff: "first_fit wanted bs = Some us" and w: "8 dvd unat wanted" "8 \<le> unat wanted"
  shows "\<exists>t bs' sz. take_block (baddr us) wanted s = Inr (baddr us + 24, t) \<and> heap_inv t bs'
    \<and> live BASE bs' = insert (unat (baddr us + 24), sz) (live BASE bs) \<and> unat wanted \<le> sz
    \<and> 8 dvd unat (baddr us + 24)
    \<and> (\<forall>(q, l)\<in>live BASE bs. q + l \<le> unat (baddr us + 24) \<or> unat (baddr us + 24) + sz \<le> q)"
proof -
  obtain sz ys where bs: "bs = us @ (sz, True) # ys" and le: "wanted \<le> sz"
    using first_fit_Some [OF ff] by metis
  have hl: "heap_list s (us @ (sz, True) # ys)" using inv bs by (simp add: heap_inv_def)
  obtain t where t: "take_block (baddr us) wanted s = Inr (baddr us + 24, t)"
    "heap_list t (us @ split_pair wanted sz False @ ys)"
    "heap_active_allocations t = heap_active_allocations s + 1" "heap_initialized t = heap_initialized s"
    using take_block_list [OF hl le w(1)] by auto
  have lim: "bpos BASE us + 24 + unat sz \<le> LIMIT" using heap_list_sizes(2) [OF hl] by simp
  have p: "unat (baddr us + 24) = bpos BASE us + 24"
    using lim unat_baddr [of us] by (simp add: unat_word_ariths)
  have "chain (blocks s) 0 BASE us (word_of_nat (bpos BASE us))"
    using hl by (simp add: heap_list_def chain_append)
  from bpos_dvd [OF this] have al: "8 dvd bpos BASE us" by simp
  have "24 * length bs \<le> LIMIT"
    using block_count_bound [of "blocks s" 0 BASE bs 0] hl bs by (simp add: heap_list_def)
  then have "length (filter (\<lambda>x. \<not> snd x) bs) < 4294967295"
    using length_filter_le [of "\<lambda>x. \<not> snd x" bs] by linarith
  then have "unat (heap_active_allocations s + 1) = unat (heap_active_allocations s) + 1"
    using inv by (simp add: heap_inv_def unat_word_ariths)
  moreover have "no_free_pair (us @ (sz, True) # ys)" "\<forall>x\<in>set (us @ (sz, True) # ys). 8 \<le> unat (fst x)"
    using inv unfolding heap_inv_def bs by blast+
  note split_pair_inv [OF le this w(2)]
  ultimately have inv': "heap_inv t (us @ split_pair wanted sz False @ ys)"
    using inv unfolding heap_inv_def t(3,4) bs by (metis t(2))
  obtain sz' where sz': "live (bpos BASE us) (split_pair wanted sz False) = {(bpos BASE us + 24, sz')}"
    "unat wanted \<le> sz'" using split_pair_live [OF le] by blast
  have le': "sz' \<le> unat sz"
    using live_bounds [of "bpos BASE us + 24" sz' "bpos BASE us" "split_pair wanted sz False"] sz'
      split_pair_bpos [OF le] by simp
  have disj: "q + l \<le> bpos BASE us + 24 \<or> bpos BASE us + 24 + sz' \<le> q" if "(q, l) \<in> live BASE bs" for q l
  proof -
    from that consider "(q, l) \<in> live BASE us" | "(q, l) \<in> live (bpos BASE us + 24 + unat sz) ys"
      by (auto simp: bs)
    then show ?thesis using le' by cases (auto dest!: live_bounds)
  qed
  have live': "live BASE (us @ split_pair wanted sz False @ ys) = insert (bpos BASE us + 24, sz') (live BASE bs)"
    using sz' split_pair_bpos [OF le] by (simp add: bs)
  show ?thesis
    by (rule exI [of _ t], rule exI [of _ "us @ split_pair wanted sz False @ ys"], rule exI [of _ sz'])
       (use t(1) inv' sz'(2) al disj live' in \<open>auto simp: p simp del: live_append\<close>)
qed

lemma heap_inv_frame [simp]: "heap_inv (s\<lparr>hvm := v\<rparr>) bs = heap_inv s bs"
  by (simp add: heap_inv_def)

lemma heap_grow_inv:
  assumes inv: "heap_inv s bs"
  obtains (failed) e where "heap_grow n s = Some (Inl e)"
  | (refused) t where "heap_grow n s = Some (Inr (0, t))"
  | (grown) p t bs' where "heap_grow n s = Some (Inr (p, t))" and "p \<noteq> 0" and "heap_inv t bs'"
      and "live BASE bs' = live BASE bs"
proof (cases "n > 0xFFFFFFFF - 24")
  case True
  then show ?thesis using refused by (simp add: heap_grow_def)
next
  case False
  define pages where "pages = (n + 24 + 4096 - 1) div 4096"
  define pc where "pc = (if pages = 0 then 1 else pages)"
  have "unat pages < 0x100000"
    by (simp add: pages_def unat_div less_mult_imp_div_less)
  then have pc: "pc < 0x100000" by (simp add: pc_def word_less_nat_alt)
  have eq: "heap_grow n s = heap_add_region pc s"
    using False by (simp add: heap_grow_def pc_def pages_def Let_def)
  have hl: "heap_list s bs" using inv by (simp add: heap_inv_def)
  show ?thesis
    using hl pc
  proof (cases rule: heap_add_region_list)
    case (failed e)
    then show ?thesis using eq that(1) by simp
  next
    case (refused v)
    then show ?thesis using eq that(2) by simp
  next
    case (grown p t rb)
    have rb: "unat (rb - 24) = unat rb - 24" "4096 \<le> unat rb"
      using grown(4,5) by (auto simp: unat_sub word_le_nat_alt dest: dvd_imp_le)
    have lim: "bpos BASE (bs @ [(rb - 24, True)]) \<le> LIMIT" using grown(6) rb by simp
    have "\<forall>x\<in>set (merge_around bs (rb - 24) []). 8 \<le> unat (fst x)"
      by (rule merge_around_sizes [OF lim]) (use inv rb in \<open>auto simp: heap_inv_def\<close>)
    moreover have "no_free_pair (merge_around bs (rb - 24) [])"
      by (rule no_free_pair_merge_around) (use inv in \<open>auto simp: heap_inv_def\<close>)
    ultimately have "heap_inv t (merge_around bs (rb - 24) [])"
      using inv grown(3,7,8) by (simp add: heap_inv_def merge_around_used)
    moreover have "live BASE (merge_around bs (rb - 24) []) = live BASE bs"
      using live_merge_around [OF lim] by simp
    ultimately show ?thesis using that(3) eq grown(1,2) by simp
  qed
qed

text \<open>
  What \<open>kmalloc\<close> promises: a block of at least the requested size, 8-aligned, that overlaps no
  live allocation, added to the live allocations.
\<close>

definition new_block :: "u32 \<Rightarrow> u32 \<Rightarrow> nat \<Rightarrow> hblk list \<Rightarrow> hblk list \<Rightarrow> bool" where
  "new_block n p sz bs bs' \<longleftrightarrow> live BASE bs' = insert (unat p, sz) (live BASE bs) \<and> unat n \<le> sz
     \<and> 8 dvd unat p \<and> (\<forall>(q, l)\<in>live BASE bs. q + l \<le> unat p \<or> unat p + sz \<le> q)"

lemma kmalloc_found:
  assumes inv: "heap_inv s bs" and n: "n \<noteq> 0" "\<not> n > 0xFFFFFFFF - (HEAP_ALIGNMENT - 1)"
    and ff: "first_fit (align_up_size n 8) bs = Some us"
  shows "\<exists>t bs' sz. take_block (baddr us) (align_up_size n 8) s = Inr (baddr us + 24, t)
    \<and> heap_inv t bs' \<and> new_block n (baddr us + 24) sz bs bs'"
proof -
  note w = align_up_8_props [OF n]
  obtain t bs' sz where "take_block (baddr us) (align_up_size n 8) s = Inr (baddr us + 24, t)"
    "heap_inv t bs'" "live BASE bs' = insert (unat (baddr us + 24), sz) (live BASE bs)"
    "unat (align_up_size n 8) \<le> sz" "8 dvd unat (baddr us + 24)"
    "\<forall>(q, l)\<in>live BASE bs. q + l \<le> unat (baddr us + 24) \<or> unat (baddr us + 24) + sz \<le> q"
    using take_block_inv [OF inv ff w(1,3)] by blast
  moreover from this(4) w(2) have "unat n \<le> sz" by linarith
  ultimately show ?thesis unfolding new_block_def by blast
qed

lemma find_free_block_inv:
  assumes "heap_inv s bs"
  shows "find_free_block w s = Some (Inr (case first_fit w bs of None \<Rightarrow> 0 | Some us \<Rightarrow> baddr us))"
    and "first_fit w bs = Some us \<Longrightarrow> baddr us \<noteq> 0"
proof -
  have hl: "heap_list s bs" using assms by (simp add: heap_inv_def)
  then show "find_free_block w s = Some (Inr (case first_fit w bs of None \<Rightarrow> 0 | Some us \<Rightarrow> baddr us))"
    by (rule find_free_block_list)
  show "baddr us \<noteq> 0" if ff: "first_fit w bs = Some us"
  proof -
    obtain sz ys where "bs = us @ (sz, True) # ys" using first_fit_Some [OF ff] by metis
    then show ?thesis
      using hl bpos_prefix [of us "(sz, True) # ys"] by (intro baddr_nonzero) (auto simp: heap_list_def)
  qed
qed

lemma kmalloc_result:
  assumes inv: "heap_inv s bs" and n: "n \<noteq> 0"
  obtains (error) e where "kmalloc n s = Some (Inl e)"
  | (block) p t bs' sz where "kmalloc n s = Some (Inr (p, t))" and "heap_inv t bs'" and "new_block n p sz bs bs'"
proof (cases "n > 0xFFFFFFFF - (HEAP_ALIGNMENT - 1)")
  case True
  then show ?thesis using error inv n by (simp add: kmalloc_def heap_inv_def)
next
  case False
  let ?w = "align_up_size n 8"
  have init: "heap_initialized s" using inv by (simp add: heap_inv_def)
  note find = find_free_block_inv
  show ?thesis
  proof (cases "first_fit ?w bs")
    case (Some us)
    with kmalloc_found [OF inv n False Some] find [OF inv, of ?w] show ?thesis
      using block init n False by (auto simp: kmalloc_def)
  next
    case None
    note k = kmalloc_def [of n s] find(1) [OF inv, of ?w] None
    show ?thesis
    proof (cases rule: heap_grow_inv [OF inv, of ?w, case_names failed refused grown])
      case (failed e)
      then show ?thesis using k init n False by (intro error [of e]) simp
    next
      case (refused t)
      then show ?thesis using k init n False by (intro error) simp
    next
      case (grown p t bs')
      show ?thesis
      proof (cases "first_fit ?w bs'")
        case None
        then show ?thesis using k init n False grown(1,2) find(1) [OF grown(3), of ?w] by (intro error) simp
      next
        case (Some us)
        with kmalloc_found [OF grown(3) n False Some] obtain t' bs'' sz where
          "take_block (baddr us) ?w t = Inr (baddr us + 24, t')" "heap_inv t' bs''"
          "new_block n (baddr us + 24) sz bs' bs''" by blast
        then show ?thesis
          using k init n False grown(1,2,4) find [OF grown(3), of ?w] Some
          by (intro block [of "baddr us + 24" t' bs'' sz]) (auto simp: new_block_def)
      qed
    qed
  qed
qed

lemma kfree_result:
  assumes inv: "heap_inv s bs" and lv: "(unat p, sz) \<in> live BASE bs"
  shows "\<exists>t bs'. kfree p s = Inr t \<and> heap_inv t bs' \<and> live BASE bs' = live BASE bs - {(unat p, sz)}"
proof -
  obtain xs w ys where bs: "bs = xs @ (w, False) # ys" and p: "unat p = bpos BASE xs + 24" and sz: "sz = unat w"
    by (rule live_split [OF lv])
  have hl: "heap_list s (xs @ (w, False) # ys)" and w8: "8 \<le> unat w" using inv bs by (auto simp: heap_inv_def)
  have lim: "bpos BASE xs + 24 + unat w \<le> LIMIT" using heap_list_sizes(2) [OF hl] by simp
  have pa: "p = baddr xs + 24" using p lim unat_baddr [of xs] by (simp add: word_unat_eq_iff unat_word_ariths)
  have inside: "p \<noteq> 0" "ptr_is_inside_heap_region p s"
    using p w8 hl bpos_ge [of BASE xs] bpos_ge [of "bpos BASE xs + 24 + unat w" ys]
    by (auto simp: ptr_is_inside_heap_region_def heap_list_def word_le_nat_alt word_less_nat_alt)
  obtain b where b: "validate_block (baddr xs) s = Inr b" "blocks s (baddr xs) = Some b"
    "hb_magic b = HEAP_MAGIC" "hb_size b = w" "hb_is_free b = 0"
    using heap_list_at [OF hl] by auto
  define c where "c = (if heap_active_allocations s > 0 then heap_active_allocations s - 1 else heap_active_allocations s)"
  define s2 where "s2 = s\<lparr>blocks := (blocks s)(baddr xs \<mapsto> b\<lparr>hb_is_free := 1\<rparr>), heap_active_allocations := c\<rparr>"
  have "heap_list s2 (xs @ (w, True) # ys)"
    using heap_list_set_block [OF hl b(2), of "b\<lparr>hb_is_free := 1\<rparr>" True] b by (simp add: s2_def)
  then obtain r st where r: "coalesce_around (baddr xs) s2 = Inr (r, s2\<lparr>blocks := st\<rparr>)"
    and hl3: "heap_list (s2\<lparr>blocks := st\<rparr>) (merge_around xs w ys)" using coalesce_around_list by blast
  have k: "kfree p s = Inr (s2\<lparr>blocks := st\<rparr>)"
    using inside b r by (auto simp: kfree_def pa Let_def upd_block_def s2_def c_def)
  have lim': "bpos BASE (xs @ (w, True) # ys) \<le> LIMIT" using hl by (simp add: heap_list_def)
  have nf: "no_free_pair xs" "no_free_pair ys"
    using inv bs by (auto simp: heap_inv_def successively_append_iff successively_Cons)
  have "unat (heap_active_allocations s) = length (filter (\<lambda>x. \<not> snd x) (xs @ ys)) + 1"
    using inv bs by (simp add: heap_inv_def)
  then have "unat c = length (filter (\<lambda>x. \<not> snd x) (xs @ ys))"
    by (auto simp: c_def word_less_nat_alt unat_sub word_le_nat_alt)
  moreover have "\<forall>x\<in>set (merge_around xs w ys). 8 \<le> unat (fst x)"
    by (rule merge_around_sizes [OF lim']) (use inv bs in \<open>auto simp: heap_inv_def\<close>)
  ultimately have inv': "heap_inv (s2\<lparr>blocks := st\<rparr>) (merge_around xs w ys)"
    using hl3 inv no_free_pair_merge_around [OF nf] merge_around_used [of xs w ys]
    by (simp add: heap_inv_def s2_def)
  have "(unat p, sz) \<notin> live BASE xs" "(unat p, sz) \<notin> live (bpos BASE xs + 24 + unat w) ys"
    using live_bounds [of "unat p" sz BASE xs] live_bounds [of "unat p" sz "bpos BASE xs + 24 + unat w" ys] p sz w8
    by auto
  then have "live BASE (merge_around xs w ys) = live BASE bs - {(unat p, sz)}"
    using live_merge_around [OF lim'] p sz by (auto simp: bs)
  with k inv' show ?thesis by blast
qed

text \<open>Coalescing leaves every header, also an absorbed one, with its magic and its free flag.\<close>

definition keeps_flags :: "heap \<Rightarrow> heap \<Rightarrow> bool" where
  "keeps_flags s t \<longleftrightarrow> heap_virtual_base t = heap_virtual_base s \<and> heap_virtual_next t = heap_virtual_next s
     \<and> (\<forall>a b. blocks s a = Some b \<longrightarrow>
          (\<exists>b'. blocks t a = Some b' \<and> hb_magic b' = hb_magic b \<and> hb_is_free b' = hb_is_free b))"

lemma keeps_flags_refl [simp]: "keeps_flags s s"
  by (simp add: keeps_flags_def)

lemma keeps_flags_trans: "keeps_flags s t \<Longrightarrow> keeps_flags t u \<Longrightarrow> keeps_flags s u"
  unfolding keeps_flags_def by (metis (no_types, lifting))

lemma upd_block_keeps_flags:
  assumes "upd_block a f s = Inr t" and "\<And>b. hb_magic (f b) = hb_magic b" and "\<And>b. hb_is_free (f b) = hb_is_free b"
  shows "keeps_flags s t"
  using assms by (auto simp: upd_block_def keeps_flags_def split: option.splits)

lemma coalesce_with_next_keeps_flags:
  assumes "coalesce_with_next a s = Inr (r, t)"
  shows "keeps_flags s t"
  using assms unfolding coalesce_with_next_def
  by (auto simp: bindE_eq_Inr_iff Let_def split: if_splits
      intro: upd_block_keeps_flags keeps_flags_trans [OF upd_block_keeps_flags upd_block_keeps_flags])

lemma coalesce_around_keeps_flags:
  assumes "coalesce_around a s = Inr (r, t)"
  shows "keeps_flags s t"
  using assms unfolding coalesce_around_def
  by (auto simp: bindE_eq_Inr_iff split: if_splits
      intro: coalesce_with_next_keeps_flags
        keeps_flags_trans [OF coalesce_with_next_keeps_flags coalesce_with_next_keeps_flags])

lemma kfree_twice:
  assumes "kfree p s = Inr t" and "p \<noteq> 0"
  shows "kfree p t = Inl (Panic ''double free detected'')"
proof -
  from assms obtain b s1 r s2 where in_s: "ptr_is_inside_heap_region p s"
    and v: "validate_block (p - 24) s = Inr b" and s1: "upd_block (p - 24) (\<lambda>b. b\<lparr>hb_is_free := 1\<rparr>) s = Inr s1"
    and c: "coalesce_around (p - 24) (if heap_active_allocations s1 > 0
        then s1\<lparr>heap_active_allocations := heap_active_allocations s1 - 1\<rparr> else s1) = Inr (r, t)"
    by (auto simp: kfree_def bindE_eq_Inr_iff Let_def if_Inl_eq_Inr simp del: if_split)
  have vb: "blocks s (p - 24) = Some b" "hb_magic b = HEAP_MAGIC" "p - 24 \<noteq> 0" "ptr_is_inside_heap_region (p - 24) s"
    using v by (auto simp: validate_block_def get_block_def bindE_eq_Inr_iff split: if_splits option.splits)
  with s1 have s1': "s1 = s\<lparr>blocks := (blocks s)(p - 24 \<mapsto> b\<lparr>hb_is_free := 1\<rparr>)\<rparr>"
    by (simp add: upd_block_def)
  obtain b' where "blocks t (p - 24) = Some b'" "hb_magic b' = HEAP_MAGIC" "hb_is_free b' = 1"
    and "heap_virtual_base t = heap_virtual_base s" "heap_virtual_next t = heap_virtual_next s"
    using coalesce_around_keeps_flags [OF c] vb by (auto simp: keeps_flags_def s1' split: if_splits)
  then show ?thesis
    using assms(2) in_s vb
    by (simp add: kfree_def validate_block_def get_block_def ptr_is_inside_heap_region_def Let_def)
qed

lemma heap_init_inv:
  assumes "heap_init pc s = Some (Inr t)" and "pc < 0x100000"
  shows "\<exists>bs. heap_inv t bs \<and> live BASE bs = {}"
proof -
  define s1 where "s1 = s\<lparr>heap_head := 0, heap_virtual_base := HEAP_VIRTUAL_BASE,
    heap_virtual_next := HEAP_VIRTUAL_BASE, heap_virtual_limit := HEAP_VIRTUAL_LIMIT,
    heap_region_bytes := 0, heap_mapped_pages := 0, heap_active_allocations := 0,
    heap_total_allocations := 0, heap_initialized := True\<rparr>"
  define n where "n = (if pc = 0 then 1 else pc)"
  have n: "n < 0x100000" using assms(2) by (simp add: n_def)
  obtain r where r: "heap_add_region n s1 = Some (Inr (r, t))" "r \<noteq> 0"
    using assms(1) by (auto simp: heap_init_def s1_def [symmetric] n_def [symmetric] Let_def
        bindO_eq_Inr_iff split: if_splits)
  have "heap_list s1 []" by (simp add: heap_list_def s1_def)
  then show ?thesis
    using n
  proof (cases rule: heap_add_region_list)
    case (failed e)
    with r show ?thesis by simp
  next
    case (refused v)
    with r show ?thesis by simp
  next
    case (grown p t' rb)
    have "unat (rb - 24) = unat rb - 24" "4096 \<le> unat rb"
      using grown(4,5) by (auto simp: unat_sub word_le_nat_alt dest: dvd_imp_le)
    moreover have t': "t' = t" using grown(1) r by simp
    ultimately have "heap_inv t [(rb - 24, True)]"
      using grown by (simp add: heap_inv_def merge_around_def s1_def)
    then show ?thesis by (intro exI [of _ "[(rb - 24, True)]"]) simp
  qed
qed

lemma live_disjoint:
  assumes "(q, l) \<in> live c bs" and "(q', l') \<in> live c bs" and "(q, l) \<noteq> (q', l')"
  shows "q + l \<le> q' \<or> q' + l' \<le> q"
  using assms
proof (induction bs arbitrary: c)
  case (Cons x xs)
  let ?c = "c + 24 + unat (fst x)"
  show ?case
  proof (cases "(q, l) \<in> live ?c xs \<and> (q', l') \<in> live ?c xs")
    case True
    then show ?thesis using Cons by blast
  next
    case False
    then show ?thesis
      using Cons.prems live_bounds [of q l ?c xs] live_bounds [of q' l' ?c xs] by (auto split: if_splits)
  qed
qed simp

section \<open>Statistics\<close>

definition stats_add :: "hblk \<Rightarrow> heap_stats \<Rightarrow> heap_stats" where
  "stats_add x stats =
     (let stats = stats\<lparr>block_count := block_count stats + 1\<rparr> in
      if snd x then stats\<lparr>free_payload_bytes := free_payload_bytes stats + fst x\<rparr>
      else stats\<lparr>used_payload_bytes := used_payload_bytes stats + fst x\<rparr>)"

lemma compute_stats_list:
  assumes "heap_list s (xs @ ys)"
  shows "compute_stats_loop (if ys = [] then 0 else baddr xs) s stats = Some (Inr (fold stats_add ys stats))"
  using assms
proof (induction ys arbitrary: xs stats)
  case Nil
  then show ?case by (subst compute_stats_loop.simps) simp
next
  case (Cons y ys)
  obtain b where b: "validate_block (baddr xs) s = Inr b" "hb_size b = fst y"
    "(hb_is_free b \<noteq> 0) = snd y" "hb_next b = (if ys = [] then 0 else baddr (xs @ [y]))"
    using heap_list_block [OF Cons.prems] by metis
  have nz: "baddr xs \<noteq> 0"
    using Cons.prems bpos_prefix [of xs "y # ys"] by (intro baddr_nonzero) (auto simp: heap_list_def)
  have "compute_stats_loop (baddr xs) s stats = compute_stats_loop (hb_next b) s (stats_add y stats)"
    using b nz by (subst compute_stats_loop.simps) (simp add: stats_add_def Let_def)
  then show ?case using Cons.IH [of "xs @ [y]" "stats_add y stats"] Cons.prems b(4) by simp
qed

abbreviation stats_total :: "heap_stats \<Rightarrow> nat" where
  "stats_total stats \<equiv> unat (free_payload_bytes stats) + unat (used_payload_bytes stats) + 24 * unat (block_count stats)"

lemma stats_add_total:
  assumes "stats_total stats + 24 + unat (fst x) < 2 ^ 32"
  shows "stats_total (stats_add x stats) = stats_total stats + 24 + unat (fst x)"
proof -
  have "unat (v + w) = unat v + unat w" if "unat v + unat w < 2 ^ 32" for v w :: u32
    using that by (simp add: unat_word_ariths)
  then show ?thesis using assms by (simp add: stats_add_def Let_def)
qed

lemma fold_stats_add_total:
  "stats_total stats + bpos 0 bs < 2 ^ 32 \<Longrightarrow> stats_total (fold stats_add bs stats) = stats_total stats + bpos 0 bs"
proof (induction bs arbitrary: stats)
  case (Cons x xs)
  have b: "bpos 0 (x # xs) = 24 + unat (fst x) + bpos 0 xs" using bpos_shift [of "24 + unat (fst x)" xs] by simp
  then have "stats_total (stats_add x stats) = stats_total stats + 24 + unat (fst x)"
    using Cons.prems by (intro stats_add_total) linarith
  with Cons.IH [of "stats_add x stats"] Cons.prems b show ?case by simp
qed simp

lemma heap_get_stats_total:
  assumes "heap_inv s bs"
  shows "\<exists>stats. heap_get_stats s = Some (Inr stats) \<and> BASE + stats_total stats = unat (heap_virtual_next s)
    \<and> active_allocations stats = heap_active_allocations s"
proof -
  have hl: "heap_list s bs" using assms by (simp add: heap_inv_def)
  let ?st = "\<lparr>region_bytes = heap_region_bytes s, mapped_pages = heap_mapped_pages s,
      virtual_base = heap_virtual_base s, virtual_next = heap_virtual_next s,
      virtual_limit = heap_virtual_limit s, free_payload_bytes = 0, used_payload_bytes = 0,
      block_count = 0, active_allocations = heap_active_allocations s,
      total_allocations = heap_total_allocations s\<rparr>"
  have "heap_get_stats s = Some (Inr (fold stats_add bs ?st))"
    using compute_stats_list [of s "[]" bs ?st] hl
    by (auto simp: heap_get_stats_def heap_compute_stats_def heap_list_def baddr_def split: if_splits)
  moreover have "bpos BASE bs = BASE + bpos 0 bs" using bpos_shift [of BASE bs] .
  then have "stats_total (fold stats_add bs ?st) = bpos 0 bs" "unat (heap_virtual_next s) = BASE + bpos 0 bs"
    using hl fold_stats_add_total [of ?st bs] by (auto simp: heap_list_def)
  moreover have "active_allocations (fold stats_add bs st) = active_allocations st" for st
    by (induction bs arbitrary: st) (simp_all add: stats_add_def Let_def)
  ultimately show ?thesis by simp
qed

section \<open>Clients of the heap\<close>

text \<open>
  A run of a client: from a heap just initialised, or any well-formed one without allocations, it
  allocates with \<open>kmalloc\<close> and \<open>kcalloc\<close> and releases what it holds. \<open>held\<close> gives the size it asked for
  at every pointer it holds.
\<close>

inductive heap_run :: "heap \<Rightarrow> (u32 \<rightharpoonup> u32) \<Rightarrow> bool" where
  init: "heap_init pages s0 = Some (Inr s) \<Longrightarrow> pages < 0x100000 \<Longrightarrow> heap_run s Map.empty"
| start: "heap_inv s bs \<Longrightarrow> live BASE bs = {} \<Longrightarrow> heap_run s Map.empty"
| alloc: "heap_run s held \<Longrightarrow> kmalloc n s = Some (Inr (p, t)) \<Longrightarrow> heap_run t (if p = 0 then held else held(p \<mapsto> n))"
| calloc: "heap_run s held \<Longrightarrow> kcalloc c n s = Some (Inr (p, t)) \<Longrightarrow> heap_run t (if p = 0 then held else held(p \<mapsto> c * n))"
| release: "heap_run s held \<Longrightarrow> p = 0 \<or> p \<in> dom held \<Longrightarrow> kfree p s = Inr t \<Longrightarrow> heap_run t (held(p := None))"

definition holds :: "hblk list \<Rightarrow> (u32 \<Rightarrow> nat) \<Rightarrow> (u32 \<rightharpoonup> u32) \<Rightarrow> bool" where
  "holds bs sz held \<longleftrightarrow> live BASE bs = (\<lambda>p. (unat p, sz p)) ` dom held
     \<and> (\<forall>p n. held p = Some n \<longrightarrow> n \<noteq> 0 \<and> unat n \<le> sz p \<and> 8 dvd unat p)"

lemma holds_live: "holds bs sz held \<Longrightarrow> held p = Some n \<Longrightarrow> (unat p, sz p) \<in> live BASE bs"
  by (auto simp: holds_def)

lemma holds_not_0: "holds bs sz held \<Longrightarrow> held 0 = None"
proof (rule ccontr)
  assume "holds bs sz held" "held 0 \<noteq> None"
  then have "(0, sz 0) \<in> live BASE bs" using holds_live [of bs sz held 0] by auto
  then show False using live_bounds by fastforce
qed

lemma holds_alloc:
  assumes h: "holds bs sz held" and b: "new_block n p l bs bs'" and n: "n \<noteq> 0"
  shows "p \<noteq> 0" and "holds bs' (sz(p := l)) (held(p \<mapsto> n))"
proof -
  have lv: "(unat p, l) \<in> live BASE bs'" using b by (simp add: new_block_def)
  show "p \<noteq> 0" using live_bounds [OF lv] by auto
  have "unat n \<noteq> 0" using n by (simp add: word_unat_eq_iff)
  then have l: "0 < l" using b by (simp add: new_block_def)
  have "p \<notin> dom held"
  proof
    assume "p \<in> dom held"
    then obtain m where m: "held p = Some m" by auto
    have "m \<noteq> 0" "unat m \<le> sz p" using h m by (simp_all add: holds_def)
    then have "0 < sz p" by (simp add: word_unat_eq_iff)
    moreover have "unat p + sz p \<le> unat p \<or> unat p + l \<le> unat p" using b holds_live [OF h m] by (auto simp: new_block_def)
    ultimately show False using l by simp
  qed
  then have "(\<lambda>q. (unat q, (sz(p := l)) q)) ` dom held = (\<lambda>q. (unat q, sz q)) ` dom held"
    by (intro image_cong) auto
  then have "(\<lambda>q. (unat q, (sz(p := l)) q)) ` dom (held(p \<mapsto> n)) = insert (unat p, l) ((\<lambda>q. (unat q, sz q)) ` dom held)"
    by (simp only: dom_fun_upd option.distinct if_False image_insert fun_upd_same)
  with h b n show "holds bs' (sz(p := l)) (held(p \<mapsto> n))"
    using \<open>p \<notin> dom held\<close> by (auto simp: holds_def new_block_def)
qed

lemma kmalloc_holds:
  assumes inv: "heap_inv s bs" and h: "holds bs sz held" and k: "kmalloc n s = Some (Inr (p, t))"
  shows "\<exists>bs' sz'. heap_inv t bs' \<and> holds bs' sz' (if p = 0 then held else held(p \<mapsto> n))"
proof (cases "n = 0")
  case True
  then have "p = 0" "t = s" using k inv by (auto simp: kmalloc_def heap_inv_def)
  with inv h show ?thesis by auto
next
  case False
  show ?thesis
  proof (cases rule: kmalloc_result [OF inv False, case_names error block])
    case (error e)
    with k show ?thesis by simp
  next
    case (block p' t' bs' l)
    with k have "heap_inv t bs'" "new_block n p l bs bs'" by simp_all
    then have "heap_inv t bs' \<and> holds bs' (sz(p := l)) (if p = 0 then held else held(p \<mapsto> n))"
      using holds_alloc [OF h _ False] by simp
    then show ?thesis by blast
  qed
qed

lemma heap_run_holds:
  assumes "heap_run s held"
  shows "\<exists>bs sz. heap_inv s bs \<and> holds bs sz held"
  using assms
proof induction
  case (init pages s0 s)
  then show ?case using heap_init_inv [of pages s0 s] by (auto simp: holds_def)
next
  case (start s bs)
  then show ?case by (auto simp: holds_def)
next
  case (alloc s held n p t)
  then show ?case using kmalloc_holds by blast
next
  case (calloc s held c n p t)
  then obtain t1 v where "kmalloc (c * n) s = Some (Inr (p, t1))" "t = t1 \<or> t = t1\<lparr>hvm := v\<rparr>"
    by (auto simp: kcalloc_def bindO_eq_Inr_iff bindE_eq_Inr_iff Let_def split: if_splits)
  with calloc.IH kmalloc_holds show ?case by (metis heap_inv_frame)
next
  case (release s held p t)
  then obtain bs sz where i: "heap_inv s bs" "holds bs sz held" by blast
  show ?case
  proof (cases "p = 0")
    case True
    then show ?thesis using release(3) i holds_not_0 [OF i(2)] by (auto simp: kfree_def fun_upd_idem)
  next
    case False
    with release(2) obtain n where "held p = Some n" by auto
    from kfree_result [OF i(1) holds_live [OF i(2) this]] release(3) obtain bs' where
      "heap_inv t bs'" "live BASE bs' = live BASE bs - {(unat p, sz p)}" by auto
    moreover have "(\<lambda>q. (unat q, sz q)) ` dom (held(p := None)) = (\<lambda>q. (unat q, sz q)) ` dom held - {(unat p, sz p)}" by (auto simp: word_unat_eq_iff)
    ultimately have "heap_inv t bs' \<and> holds bs' sz (held(p := None))" using i(2) by (simp add: holds_def)
    then show ?thesis by blast
  qed
qed

lemma card_live: "finite (live c bs) \<and> card (live c bs) = length (filter (\<lambda>x. \<not> snd x) bs)"
proof (induction bs arbitrary: c)
  case (Cons x xs)
  have "(c + 24, unat (fst x)) \<notin> live (c + 24 + unat (fst x)) xs" using live_bounds by fastforce
  with Cons [of "c + 24 + unat (fst x)"] show ?case by simp
qed simp

lemma holds_card:
  assumes "heap_inv s bs" and "holds bs sz held"
  shows "unat (heap_active_allocations s) = card (dom held)"
proof -
  have "inj_on (\<lambda>p. (unat p, sz p)) (dom held)" by (auto simp: inj_on_def word_unat_eq_iff)
  then have "card (live BASE bs) = card (dom held)" using assms(2) by (simp add: holds_def card_image)
  with assms(1) card_live [of BASE bs] show ?thesis by (simp add: heap_inv_def)
qed

text \<open>A heap of one page, all free.\<close>

definition sample_heap :: heap where
  "sample_heap = \<lparr>hvm = sample_vmm, blocks = [0xD1000000 \<mapsto> \<lparr>hb_magic = HEAP_MAGIC, hb_size = 4072,
       hb_is_free = 1, hb_reserved = 0, hb_next = 0, hb_prev = 0\<rparr>],
     heap_head = 0xD1000000, heap_initialized = True, heap_virtual_base = HEAP_VIRTUAL_BASE,
     heap_virtual_next = 0xD1001000, heap_virtual_limit = HEAP_VIRTUAL_LIMIT,
     heap_region_bytes = 4096, heap_mapped_pages = 1, heap_active_allocations = 0,
     heap_total_allocations = 0\<rparr>"

lemma sample_heap_inv: "heap_inv sample_heap [(4072, True)]"
  by (simp add: heap_inv_def heap_list_def sample_heap_def)

lemma sample_heap_alloc:
  "\<exists>p t bs sz. kmalloc 100 sample_heap = Some (Inr (p, t)) \<and> heap_inv t bs \<and> (unat p, sz) \<in> live BASE bs"
proof -
  have "fits (align_up_size 100 8) (4072, True)" by (simp add: align_up_size_def)
  then have "first_fit (align_up_size 100 8) [(4072, True)] \<noteq> None" by (simp add: first_fit_None)
  then obtain us where us: "first_fit (align_up_size 100 8) [(4072, True)] = Some us" by auto
  from kmalloc_found [OF sample_heap_inv _ _ us] obtain t bs' sz where
    t: "take_block (baddr us) (align_up_size 100 8) sample_heap = Inr (baddr us + 24, t)" "heap_inv t bs'"
    "new_block 100 (baddr us + 24) sz [(4072, True)] bs'" by auto
  moreover have "kmalloc 100 sample_heap = Some (Inr (baddr us + 24, t))"
    using t(1) find_free_block_inv [OF sample_heap_inv, of "align_up_size 100 8"] us
    by (auto simp: kmalloc_def sample_heap_def)
  ultimately show ?thesis by (auto simp: new_block_def)
qed

section \<open>Properties\<close>

text \<open>
  C10. \<open>kmalloc\<close> always returns, and when it returns a block, the block is 8-aligned, holds at
  least the requested bytes, overlaps no live allocation and becomes the only new live one; the
  heap invariant is kept. It cannot fail while a free block is large enough.
\<close>

theorem kmalloc_fresh_block:
  assumes "heap_inv s bs" and "n \<noteq> 0"
  shows "kmalloc n s \<noteq> None
    \<and> (\<forall>p t. kmalloc n s = Some (Inr (p, t)) \<longrightarrow> (\<exists>bs' sz. heap_inv t bs' \<and> new_block n p sz bs bs'))
    \<and> (n \<le> 0xFFFFFFF8 \<and> (\<exists>x\<in>set bs. fits (align_up_size n 8) x) \<longrightarrow> (\<exists>p t. kmalloc n s = Some (Inr (p, t))))"
proof -
  have "\<exists>p t. kmalloc n s = Some (Inr (p, t))"
    if n8: "n \<le> 0xFFFFFFF8" and fit: "\<exists>x\<in>set bs. fits (align_up_size n 8) x"
  proof -
    obtain us where us: "first_fit (align_up_size n 8) bs = Some us" using fit first_fit_None by fastforce
    have big: "\<not> n > 0xFFFFFFFF - (HEAP_ALIGNMENT - 1)" using n8 by simp
    have "heap_initialized s" using assms(1) by (simp add: heap_inv_def)
    with kmalloc_found [OF assms big us] find_free_block_inv [OF assms(1), of "align_up_size n 8"] us big assms(2)
    show ?thesis by (auto simp: kmalloc_def)
  qed
  then show ?thesis by (cases rule: kmalloc_result [OF assms]) auto
qed

theorem kmalloc_fresh_block_witness:
  "\<exists>p t. kmalloc 100 sample_heap = Some (Inr (p, t)) \<and> 8 dvd unat p"
proof -
  have "fits (align_up_size 100 8) (4072, True)" by (simp add: align_up_size_def)
  with kmalloc_fresh_block [OF sample_heap_inv, of 100] show ?thesis by (auto simp: new_block_def)
qed

text \<open>
  C11. Releasing a live allocation succeeds, removes exactly it from the live allocations, and keeps
  the invariant: neighbouring free blocks are merged, so no two neighbours are free afterwards.
\<close>

theorem kfree_releases:
  assumes "heap_inv s bs" and "(unat p, sz) \<in> live BASE bs"
  shows "\<exists>t bs'. kfree p s = Inr t \<and> heap_inv t bs' \<and> no_free_pair bs'
    \<and> live BASE bs' = live BASE bs - {(unat p, sz)}"
  using kfree_result [OF assms] unfolding heap_inv_def by blast

theorem kfree_releases_witness:
  "\<exists>p t u. kmalloc 100 sample_heap = Some (Inr (p, t)) \<and> kfree p t = Inr u"
proof -
  obtain p t bs sz where "kmalloc 100 sample_heap = Some (Inr (p, t))" "heap_inv t bs" "(unat p, sz) \<in> live BASE bs"
    using sample_heap_alloc by blast
  with kfree_releases [of t bs p sz] show ?thesis by blast
qed

text \<open>
  C12. A double free is always detected: after \<open>kfree\<close> of a pointer has succeeded, the same call
  panics, also when the block has been merged into its neighbour.
\<close>

theorem kfree_detects_double_free:
  assumes "kfree p s = Inr t" and "p \<noteq> 0"
  shows "kfree p t = Inl (Panic ''double free detected'')"
  by (rule kfree_twice [OF assms])

theorem kfree_detects_double_free_witness:
  "\<exists>p t u. kmalloc 100 sample_heap = Some (Inr (p, t)) \<and> kfree p t = Inr u
     \<and> kfree p u = Inl (Panic ''double free detected'')"
proof -
  obtain p t bs sz where k: "kmalloc 100 sample_heap = Some (Inr (p, t))" "heap_inv t bs" "(unat p, sz) \<in> live BASE bs"
    using sample_heap_alloc by blast
  from kfree_result [OF k(2,3)] obtain u where u: "kfree p t = Inr u" by blast
  have "p \<noteq> 0" using live_bounds [OF k(3)] by auto
  from kfree_detects_double_free [OF u this] k(1) u show ?thesis by blast
qed

text \<open>
  C13. Over any run of a client that allocates with \<open>kmalloc\<close> and \<open>kcalloc\<close> and releases what it holds,
  starting from \<open>heap_init\<close> or any well-formed heap without allocations, every held pointer is
  8-aligned and its bytes lie in the heap region, the bytes of different pointers are disjoint, every
  held pointer can be released without a panic, the counter of active allocations is the number of
  held pointers, and \<open>heap_get_stats\<close> returns with headers, free and used payload adding up to exactly
  the region: no byte of the heap is lost.
\<close>

theorem heap_clients_kept_apart:
  assumes "heap_run s held"
  shows "(\<forall>p n. held p = Some n \<longrightarrow> 8 dvd unat p \<and> BASE + 24 \<le> unat p \<and> unat p + unat n \<le> unat (heap_virtual_next s))
    \<and> (\<forall>p n q m. held p = Some n \<and> held q = Some m \<and> p \<noteq> q \<longrightarrow> unat p + unat n \<le> unat q \<or> unat q + unat m \<le> unat p)
    \<and> (\<forall>p\<in>dom held. \<exists>t. kfree p s = Inr t)
    \<and> unat (heap_active_allocations s) = card (dom held)
    \<and> (\<exists>stats. heap_get_stats s = Some (Inr stats) \<and> active_allocations stats = heap_active_allocations s
         \<and> BASE + unat (free_payload_bytes stats) + unat (used_payload_bytes stats) + 24 * unat (block_count stats)
           = unat (heap_virtual_next s))"
proof -
  obtain bs sz where inv: "heap_inv s bs" and h: "holds bs sz held" using heap_run_holds [OF assms] by blast
  have next_eq: "unat (heap_virtual_next s) = bpos BASE bs" using inv by (simp add: heap_inv_def heap_list_def)
  have sz: "unat n \<le> sz p" "8 dvd unat p" if "held p = Some n" for p n using h that by (auto simp: holds_def)
  have "BASE + 24 \<le> unat p \<and> unat p + unat n \<le> unat (heap_virtual_next s)" if "held p = Some n" for p n
    using live_bounds [OF holds_live [OF h that]] sz(1) [OF that] by (simp add: next_eq)
  moreover have "unat p + unat n \<le> unat q \<or> unat q + unat m \<le> unat p"
    if "held p = Some n" "held q = Some m" "p \<noteq> q" for p n q m
    using live_disjoint [OF holds_live [OF h that(1)] holds_live [OF h that(2)]] sz(1) [OF that(1)] sz(1) [OF that(2)] that(3)
    by (auto simp: word_unat_eq_iff)
  moreover have "\<exists>t. kfree p s = Inr t" if "p \<in> dom held" for p
    using kfree_result [OF inv] holds_live [OF h] that by blast
  moreover obtain stats where "heap_get_stats s = Some (Inr stats)" "BASE + stats_total stats = unat (heap_virtual_next s)"
    "active_allocations stats = heap_active_allocations s" using heap_get_stats_total [OF inv] by blast
  ultimately show ?thesis using sz(2) holds_card [OF inv h] by (simp add: add.assoc)
qed

theorem heap_clients_kept_apart_witness:
  "\<exists>p t. kmalloc 100 sample_heap = Some (Inr (p, t)) \<and> heap_active_allocations t = 1 \<and> unat p + 100 \<le> unat (heap_virtual_next t)"
proof -
  obtain p t bs sz where k: "kmalloc 100 sample_heap = Some (Inr (p, t))" "heap_inv t bs" "(unat p, sz) \<in> live BASE bs"
    using sample_heap_alloc by blast
  have "p \<noteq> 0" using live_bounds [OF k(3)] by auto
  with heap_run.alloc [OF heap_run.start [OF sample_heap_inv] k(1)] have r: "heap_run t [p \<mapsto> 100]" by simp
  note c = heap_clients_kept_apart [OF r]
  from c [THEN conjunct1, rule_format, of p 100] have "unat p + 100 \<le> unat (heap_virtual_next t)" by simp
  moreover from c have "unat (heap_active_allocations t) = 1" by simp
  then have "heap_active_allocations t = 1" by (simp add: word_unat_eq_iff)
  ultimately show ?thesis using k(1) by blast
qed

end
