(* ===== verification/Address_Space.thy ===== *)
theory Address_Space
  imports Heap
begin

text \<open>
  Process address spaces, \<open>kernel/address_space.c\<close>: page directories that share the kernel's
  mappings below 16 MiB and from 3 GiB up and hold a process's own pages in between, with a
  linked list of the user mappings of each space. The state holds the kernel heap (and through it
  the mapper and the physical memory), the stores of \<open>address_space_t\<close> and
  \<open>address_mapping_t\<close> objects, the address of the kernel's own space and the current space.
  \<open>paging_get_kernel_directory\<close> is the directory address held by the mapper; loading a directory
  and invalidating a page have no effect on this state.
\<close>

section \<open>State\<close>

abbreviation (input) ADDRESS_SPACE_MAGIC :: u32 where "ADDRESS_SPACE_MAGIC \<equiv> 0x41535043"
abbreviation (input) PAGE_TABLE_BOOTSTRAP_LIMIT :: u32 where "PAGE_TABLE_BOOTSTRAP_LIMIT \<equiv> 0x01000000"
abbreviation (input) KERNEL_HIGH_BASE :: u32 where "KERNEL_HIGH_BASE \<equiv> 0xC0000000"
abbreviation (input) LOW_IDENTITY_SHARED_BYTES :: u32 where "LOW_IDENTITY_SHARED_BYTES \<equiv> 0x01000000"
abbreviation (input) ADDRESS_SPACE_FLAG_WRITABLE :: u32 where "ADDRESS_SPACE_FLAG_WRITABLE \<equiv> 1"
abbreviation (input) ADDRESS_SPACE_FLAG_USER :: u32 where "ADDRESS_SPACE_FLAG_USER \<equiv> 2"
abbreviation (input) ADDRESS_SPACE_USER_BASE :: u32 where "ADDRESS_SPACE_USER_BASE \<equiv> 0x01000000"
abbreviation (input) ADDRESS_SPACE_USER_TOP :: u32 where "ADDRESS_SPACE_USER_TOP \<equiv> 0xC0000000"
abbreviation (input) SIZEOF_ADDRESS_SPACE :: u32 where "SIZEOF_ADDRESS_SPACE \<equiv> 20"
abbreviation (input) SIZEOF_ADDRESS_MAPPING :: u32 where "SIZEOF_ADDRESS_MAPPING \<equiv> 12"

record address_mapping =
  am_virtual :: u32
  am_physical :: u32
  am_next :: u32

record address_space =
  as_magic :: u32
  page_directory :: u32
  page_directory_physical :: u32
  user_mappings :: u32
  user_page_count :: u32

record aspace =
  aheap :: heap
  spaces :: "u32 \<rightharpoonup> address_space"
  mappings :: "u32 \<rightharpoonup> address_mapping"
  kernel_space :: u32
  current_space :: u32

abbreviation phys :: "aspace \<Rightarrow> memory" where "phys s \<equiv> pmem (hvm (aheap s))"
abbreviation frames :: "aspace \<Rightarrow> pmm" where "frames s \<equiv> vpmm (hvm (aheap s))"
abbreviation kernel_dir :: "aspace \<Rightarrow> u32" where "kernel_dir s \<equiv> kernel_directory (hvm (aheap s))"

definition set_phys :: "memory \<Rightarrow> aspace \<Rightarrow> aspace" where
  "set_phys m s = s\<lparr>aheap := (aheap s)\<lparr>hvm := (hvm (aheap s))\<lparr>pmem := m\<rparr>\<rparr>\<rparr>"

definition set_frames :: "pmm \<Rightarrow> aspace \<Rightarrow> aspace" where
  "set_frames p s = s\<lparr>aheap := (aheap s)\<lparr>hvm := (hvm (aheap s))\<lparr>vpmm := p\<rparr>\<rparr>\<rparr>"

definition get_space :: "u32 \<Rightarrow> aspace \<Rightarrow> address_space res" where
  "get_space a s = (case spaces s a of None \<Rightarrow> Inl (Fault ''address space'') | Some x \<Rightarrow> Inr x)"

definition upd_space :: "u32 \<Rightarrow> (address_space \<Rightarrow> address_space) \<Rightarrow> aspace \<Rightarrow> aspace res" where
  "upd_space a f s = (case spaces s a of None \<Rightarrow> Inl (Fault ''address space'')
     | Some x \<Rightarrow> Inr (s\<lparr>spaces := (spaces s)(a \<mapsto> f x)\<rparr>))"

definition get_mapping :: "u32 \<Rightarrow> aspace \<Rightarrow> address_mapping res" where
  "get_mapping a s = (case mappings s a of None \<Rightarrow> Inl (Fault ''address mapping'') | Some x \<Rightarrow> Inr x)"

section \<open>Helpers\<close>

definition aspace_directory_index :: "u32 \<Rightarrow> u32" where
  "aspace_directory_index virtual_addr = drop_bit 22 virtual_addr AND 0x3FF"

definition to_arch_flags :: "u32 \<Rightarrow> u32" where
  "to_arch_flags flags =
     (let arch_flags = 0;
          arch_flags = (if flags AND ADDRESS_SPACE_FLAG_WRITABLE \<noteq> 0 then arch_flags OR X86_PAGE_WRITABLE else arch_flags);
          arch_flags = (if flags AND ADDRESS_SPACE_FLAG_USER \<noteq> 0 then arch_flags OR X86_PAGE_USER else arch_flags)
      in arch_flags)"

definition from_arch_flags :: "u32 \<Rightarrow> u32" where
  "from_arch_flags arch_flags =
     (let flags = 0;
          flags = (if arch_flags AND X86_PAGE_WRITABLE \<noteq> 0 then flags OR ADDRESS_SPACE_FLAG_WRITABLE else flags);
          flags = (if arch_flags AND X86_PAGE_USER \<noteq> 0 then flags OR ADDRESS_SPACE_FLAG_USER else flags)
      in flags)"

definition validate_space :: "u32 \<Rightarrow> aspace \<Rightarrow> address_space res" where
  "validate_space space s =
     (if space = 0 then Inl (Panic ''address_space: null address space'')
      else bindE (get_space space s) (\<lambda>x.
        if as_magic x \<noteq> ADDRESS_SPACE_MAGIC then Inl (Panic ''address_space: magic mismatch'')
        else if page_directory x = 0 \<or> page_directory_physical x = 0
        then Inl (Panic ''address_space: missing page directory'')
        else Inr x))"

definition user_virtual_allowed :: "u32 \<Rightarrow> bool" where
  "user_virtual_allowed virtual_addr \<longleftrightarrow>
     virtual_addr \<ge> ADDRESS_SPACE_USER_BASE \<and> virtual_addr < ADDRESS_SPACE_USER_TOP"

definition copy_entries :: "u32 \<Rightarrow> u32 \<Rightarrow> nat list \<Rightarrow> memory \<Rightarrow> memory" where
  "copy_entries dir kdir is m =
     fold (\<lambda>i m. set_table_entry m dir (word_of_nat i) (table_entry m kdir (word_of_nat i))) is m"

definition sync_kernel_mappings :: "address_space \<Rightarrow> aspace \<Rightarrow> aspace" where
  "sync_kernel_mappings space s =
     (let kernel_dir = kernel_dir s;
          dir = page_directory space;
          low_shared_entries = LOW_IDENTITY_SHARED_BYTES div (4 * 1024 * 1024);
          m1 = copy_entries dir kernel_dir [0..<unat low_shared_entries] (phys s);
          high_start = aspace_directory_index KERNEL_HIGH_BASE;
          m2 = copy_entries dir kernel_dir [unat high_start..<unat PAGE_DIRECTORY_ENTRIES] m1
      in set_phys m2 s)"

definition mapping_add :: "u32 \<Rightarrow> u32 \<Rightarrow> u32 \<Rightarrow> aspace \<Rightarrow> aspace res option" where
  "mapping_add space virtual_addr physical_addr s =
     bindO (kmalloc SIZEOF_ADDRESS_MAPPING (aheap s)) (\<lambda>(mapping, h).
     if mapping = 0 then Some (Inl (Panic ''address_space: could not allocate mapping node''))
     else Some (bindE (get_space space s) (\<lambda>x.
       upd_space space (\<lambda>x. x\<lparr>user_mappings := mapping\<rparr>)
         (s\<lparr>aheap := h, mappings := (mappings s)(mapping \<mapsto>
              \<lparr>am_virtual = virtual_addr, am_physical = physical_addr, am_next = user_mappings x\<rparr>)\<rparr>))))"

definition mapping_free :: "u32 \<Rightarrow> aspace \<Rightarrow> aspace res" where
  "mapping_free cur s = bindE (kfree cur (aheap s)) (\<lambda>h. Inr (s\<lparr>aheap := h, mappings := (mappings s)(cur := None)\<rparr>))"

definition mapping_unlink :: "u32 \<Rightarrow> u32 \<Rightarrow> u32 \<Rightarrow> aspace \<Rightarrow> aspace res" where
  "mapping_unlink space prev nxt s =
     (if prev \<noteq> 0
      then bindE (get_mapping prev s) (\<lambda>p. Inr (s\<lparr>mappings := (mappings s)(prev \<mapsto> p\<lparr>am_next := nxt\<rparr>)\<rparr>))
      else upd_space space (\<lambda>x. x\<lparr>user_mappings := nxt\<rparr>) s)"

partial_function (option) mapping_remove_loop :: "u32 \<Rightarrow> u32 \<Rightarrow> u32 \<Rightarrow> u32 \<Rightarrow> aspace \<Rightarrow> (bool \<times> aspace) res option" where
  "mapping_remove_loop space virtual_addr prev cur s =
     (if cur = 0 then Some (Inr (False, s))
      else case get_mapping cur s of
        Inl e \<Rightarrow> Some (Inl e)
      | Inr c \<Rightarrow>
          if am_virtual c = virtual_addr
          then Some (bindE (mapping_unlink space prev (am_next c) s) (\<lambda>s1.
                     bindE (mapping_free cur s1) (\<lambda>s2. Inr (True, s2))))
          else mapping_remove_loop space virtual_addr cur (am_next c) s)"

definition mapping_remove :: "u32 \<Rightarrow> u32 \<Rightarrow> aspace \<Rightarrow> (bool \<times> aspace) res option" where
  "mapping_remove space virtual_addr s =
     bindO (Some (get_space space s)) (\<lambda>x. mapping_remove_loop space virtual_addr 0 (user_mappings x) s)"

section \<open>Operations\<close>

definition address_space_init :: "aspace \<Rightarrow> aspace" where
  "address_space_init s =
     s\<lparr>spaces := (spaces s)(kernel_space s \<mapsto> \<lparr>as_magic = ADDRESS_SPACE_MAGIC, page_directory = kernel_dir s,
          page_directory_physical = kernel_dir s, user_mappings = 0, user_page_count = 0\<rparr>),
       current_space := kernel_space s\<rparr>"

definition address_space_kernel :: "aspace \<Rightarrow> u32" where
  "address_space_kernel s = kernel_space s"

definition address_space_current :: "aspace \<Rightarrow> u32" where
  "address_space_current s = current_space s"

definition address_space_create :: "aspace \<Rightarrow> (u32 \<times> aspace) res option" where
  "address_space_create s =
     (let (directory_phys, p) = pmm_alloc_page_below PAGE_TABLE_BOOTSTRAP_LIMIT (frames s);
          s1 = set_frames p s
      in if directory_phys = PMM_INVALID_PAGE
         then Some (Inl (Panic ''address_space_create could not allocate page directory''))
         else
           (let s2 = set_phys (memset (phys s1) directory_phys 0 X86_PAGE_SIZE) s1 in
            bindO (kmalloc SIZEOF_ADDRESS_SPACE (aheap s2)) (\<lambda>(space, h).
            if space = 0 then Some (Inl (Panic ''address_space_create could not allocate object''))
            else
              (let x = \<lparr>as_magic = ADDRESS_SPACE_MAGIC, page_directory = directory_phys,
                        page_directory_physical = directory_phys, user_mappings = 0, user_page_count = 0\<rparr>;
                   s3 = s2\<lparr>aheap := h, spaces := (spaces s2)(space \<mapsto> x)\<rparr>
               in Some (Inr (space, sync_kernel_mappings x s3))))))"

definition address_space_switch :: "u32 \<Rightarrow> aspace \<Rightarrow> aspace res" where
  "address_space_switch space s =
     bindE (validate_space space s) (\<lambda>x.
     let s1 = (if space \<noteq> kernel_space s then sync_kernel_mappings x s else s)
     in if current_space s1 = space then Inr s1 else Inr (s1\<lparr>current_space := space\<rparr>))"

definition get_or_create_table :: "address_space \<Rightarrow> u32 \<Rightarrow> u32 \<Rightarrow> aspace \<Rightarrow> u32 \<times> aspace" where
  "get_or_create_table space dir_index flags s =
     (let directory = page_directory space;
          pde = table_entry (phys s) directory dir_index
      in if pde AND X86_PAGE_PRESENT \<noteq> 0 then (table_from_pde pde, s)
         else
           (let (table_phys, p) = pmm_alloc_page_below PAGE_TABLE_BOOTSTRAP_LIMIT (frames s);
                s1 = set_frames p s
            in if table_phys = PMM_INVALID_PAGE then (0, s1)
               else
                 (let m = memset (phys s1) table_phys 0 X86_PAGE_SIZE;
                      pde_flags = X86_PAGE_PRESENT OR X86_PAGE_WRITABLE OR to_arch_flags flags;
                      m = set_table_entry m directory dir_index ((table_phys AND X86_PAGE_FRAME_MASK) OR pde_flags)
                  in (table_phys, set_phys m s1))))"

definition address_space_map_page :: "u32 \<Rightarrow> u32 \<Rightarrow> u32 \<Rightarrow> u32 \<Rightarrow> aspace \<Rightarrow> (int \<times> aspace) res option" where
  "address_space_map_page space virtual_addr physical_addr flags s =
     bindO (Some (validate_space space s)) (\<lambda>x.
     if \<not> is_page_aligned virtual_addr \<or> \<not> is_page_aligned physical_addr then Some (Inr (-1, s))
     else if \<not> user_virtual_allowed virtual_addr then Some (Inr (-1, s))
     else
       (let dir = aspace_directory_index virtual_addr; tab = table_index virtual_addr;
            (table, s1) = get_or_create_table x dir flags s
        in if table = 0 then Some (Inr (-1, s1))
           else if table_entry (phys s1) table tab AND X86_PAGE_PRESENT \<noteq> 0 then Some (Inr (-1, s1))
           else
             (let pte_flags = X86_PAGE_PRESENT OR to_arch_flags flags;
                  s2 = set_phys (set_table_entry (phys s1) table tab
                         ((physical_addr AND X86_PAGE_FRAME_MASK) OR pte_flags)) s1
              in bindO (mapping_add space virtual_addr physical_addr s2) (\<lambda>s3.
                 bindO (Some (upd_space space (\<lambda>x. x\<lparr>user_page_count := user_page_count x + 1\<rparr>) s3)) (\<lambda>s4.
                 Some (Inr (0, s4)))))))"

definition address_space_unmap_page :: "u32 \<Rightarrow> u32 \<Rightarrow> aspace \<Rightarrow> (int \<times> aspace) res option" where
  "address_space_unmap_page space virtual_addr s =
     bindO (Some (validate_space space s)) (\<lambda>x.
     if \<not> is_page_aligned virtual_addr then Some (Inr (-1, s))
     else if \<not> user_virtual_allowed virtual_addr then Some (Inr (-1, s))
     else
       (let dir = aspace_directory_index virtual_addr; tab = table_index virtual_addr;
            pde = table_entry (phys s) (page_directory x) dir
        in if pde AND X86_PAGE_PRESENT = 0 then Some (Inr (-1, s))
           else
             (let table = table_from_pde pde; pte = table_entry (phys s) table tab in
              if pte AND X86_PAGE_PRESENT = 0 then Some (Inr (-1, s))
              else
                (let physical = pte AND X86_PAGE_FRAME_MASK;
                     s1 = set_phys (set_table_entry (phys s) table tab 0) s
                 in bindO (mapping_remove space virtual_addr s1) (\<lambda>(_, s2).
                    bindO (Some (upd_space space (\<lambda>x. if user_page_count x > 0
                       then x\<lparr>user_page_count := user_page_count x - 1\<rparr> else x) s2)) (\<lambda>s3.
                    bindO (Some (pmm_free_page physical (frames s3))) (\<lambda>p.
                    Some (Inr (0, set_frames p s3)))))))))"

definition table_empty :: "memory \<Rightarrow> u32 \<Rightarrow> bool" where
  "table_empty m table \<longleftrightarrow>
     (\<forall>i\<in>set [0..<unat PAGE_TABLE_ENTRIES]. table_entry m table (word_of_nat i) AND X86_PAGE_PRESENT = 0)"

definition free_table_step :: "u32 \<Rightarrow> nat \<Rightarrow> aspace \<times> u32 \<Rightarrow> (aspace \<times> u32) res" where
  "free_table_step directory dir = (\<lambda>(s, freed_tables).
     let pde = table_entry (phys s) directory (word_of_nat dir) in
     if pde AND X86_PAGE_PRESENT = 0 then Inr (s, freed_tables)
     else if \<not> table_empty (phys s) (table_from_pde pde)
     then Inl (Panic ''address_space_destroy found non-empty user table'')
     else
       (let table_phys = pde AND X86_PAGE_FRAME_MASK;
            s1 = set_phys (set_table_entry (phys s) directory (word_of_nat dir) 0) s
        in bindE (pmm_free_page table_phys (frames s1)) (\<lambda>p. Inr (set_frames p s1, freed_tables + 1))))"

definition free_user_page_tables :: "address_space \<Rightarrow> aspace \<Rightarrow> (aspace \<times> u32) res" where
  "free_user_page_tables space s =
     (let start_dir = aspace_directory_index ADDRESS_SPACE_USER_BASE;
          end_dir = aspace_directory_index (ADDRESS_SPACE_USER_TOP - 1)
      in foldE (free_table_step (page_directory space)) [unat start_dir..<Suc (unat end_dir)] (s, 0))"

partial_function (option) unmap_all :: "u32 \<Rightarrow> u32 \<Rightarrow> aspace \<Rightarrow> (u32 \<times> aspace) res option" where
  "unmap_all space freed_pages s =
     (case get_space space s of
        Inl e \<Rightarrow> Some (Inl e)
      | Inr x \<Rightarrow>
          if user_mappings x = 0 then Some (Inr (freed_pages, s))
          else case get_mapping (user_mappings x) s of
            Inl e \<Rightarrow> Some (Inl e)
          | Inr m \<Rightarrow>
              (case address_space_unmap_page space (am_virtual m) s of
                 None \<Rightarrow> None
               | Some (Inl e) \<Rightarrow> Some (Inl e)
               | Some (Inr (r, s1)) \<Rightarrow>
                   if r \<noteq> 0 then Some (Inl (Panic ''address_space_destroy failed to unmap user page''))
                   else unmap_all space (freed_pages + 1) s1))"

definition space_free :: "u32 \<Rightarrow> aspace \<Rightarrow> aspace res" where
  "space_free space s = bindE (kfree space (aheap s)) (\<lambda>h. Inr (s\<lparr>aheap := h, spaces := (spaces s)(space := None)\<rparr>))"

definition address_space_destroy :: "u32 \<Rightarrow> aspace \<Rightarrow> aspace res option" where
  "address_space_destroy space s =
     bindO (Some (validate_space space s)) (\<lambda>_.
     if space = kernel_space s then Some (Inl (Panic ''attempted to destroy kernel address space''))
     else bindO (Some (if current_space s = space then address_space_switch (kernel_space s) s else Inr s)) (\<lambda>s1.
     bindO (unmap_all space 0 s1) (\<lambda>(freed_pages, s2).
     bindO (Some (get_space space s2)) (\<lambda>x.
     bindO (Some (free_user_page_tables x s2)) (\<lambda>(s3, freed_tables).
     bindO (Some (get_space space s3)) (\<lambda>x.
     let directory_phys = page_directory_physical x in
     bindO (Some (upd_space space (\<lambda>x. x\<lparr>as_magic := 0, page_directory := 0, page_directory_physical := 0,
                    user_mappings := 0, user_page_count := 0\<rparr>) s3)) (\<lambda>s4.
     bindO (Some (pmm_free_page directory_phys (frames s4))) (\<lambda>p.
     Some (space_free space (set_frames p s4))))))))))"

definition address_space_get_physical :: "u32 \<Rightarrow> u32 \<Rightarrow> aspace \<Rightarrow> u32 res" where
  "address_space_get_physical space virtual_addr s =
     bindE (validate_space space s) (\<lambda>x.
     let dir = aspace_directory_index virtual_addr; tab = table_index virtual_addr;
         pde = table_entry (phys s) (page_directory x) dir
     in if pde AND X86_PAGE_PRESENT = 0 then Inr 0
        else
          (let table = table_from_pde pde; pte = table_entry (phys s) table tab in
           if pte AND X86_PAGE_PRESENT = 0 then Inr 0
           else Inr ((pte AND X86_PAGE_FRAME_MASK) OR (virtual_addr AND (X86_PAGE_SIZE - 1)))))"

definition address_space_get_flags :: "u32 \<Rightarrow> u32 \<Rightarrow> aspace \<Rightarrow> u32 res" where
  "address_space_get_flags space virtual_addr s =
     bindE (validate_space space s) (\<lambda>x.
     let dir = aspace_directory_index virtual_addr; tab = table_index virtual_addr;
         pde = table_entry (phys s) (page_directory x) dir
     in if pde AND X86_PAGE_PRESENT = 0 then Inr 0
        else
          (let table = table_from_pde pde; pte = table_entry (phys s) table tab in
           if pte AND X86_PAGE_PRESENT = 0 then Inr 0
           else Inr (from_arch_flags (pte AND X86_PAGE_FLAGS_MASK))))"

section \<open>Frame lemmas\<close>

lemma aspace_directory_index_eq [simp]: "aspace_directory_index v = directory_index v"
proof -
  have "unat (directory_index v) mod 1024 = unat (directory_index v)"
    using directory_index_less [of v] by (simp add: word_less_nat_alt)
  then have "take_bit 10 (directory_index v) = directory_index v"
    by (simp add: word_unat_eq_iff take_bit_eq_mod unat_mod)
  then show ?thesis by (simp add: aspace_directory_index_def directory_index_def take_bit_eq_mask mask_eq_exp_minus_1)
qed

lemma set_phys_sel [simp]:
  "phys (set_phys m s) = m" "frames (set_phys m s) = frames s" "kernel_dir (set_phys m s) = kernel_dir s"
  "spaces (set_phys m s) = spaces s" "mappings (set_phys m s) = mappings s" "kernel_space (set_phys m s) = kernel_space s"
  "current_space (set_phys m s) = current_space s" "blocks (aheap (set_phys m s)) = blocks (aheap s)"
  "heap_inv (aheap (set_phys m s)) bs = heap_inv (aheap s) bs"
  by (simp_all add: set_phys_def)

lemma set_frames_sel [simp]:
  "phys (set_frames p s) = phys s" "frames (set_frames p s) = p" "kernel_dir (set_frames p s) = kernel_dir s"
  "spaces (set_frames p s) = spaces s" "mappings (set_frames p s) = mappings s" "kernel_space (set_frames p s) = kernel_space s"
  "current_space (set_frames p s) = current_space s" "blocks (aheap (set_frames p s)) = blocks (aheap s)"
  "heap_inv (aheap (set_frames p s)) bs = heap_inv (aheap s) bs"
  by (simp_all add: set_frames_def)

lemma upd_block_hvm: "upd_block a f h = Inr h' \<Longrightarrow> hvm h' = hvm h"
  by (auto simp: upd_block_def split: option.splits)

lemma coalesce_with_next_hvm: "coalesce_with_next b h = Inr (r, h') \<Longrightarrow> hvm h' = hvm h"
  by (auto simp: coalesce_with_next_def bindE_eq_Inr_iff Let_def dest!: upd_block_hvm split: if_splits)

lemma coalesce_around_hvm: "coalesce_around b h = Inr (r, h') \<Longrightarrow> hvm h' = hvm h"
  by (auto simp: coalesce_around_def bindE_eq_Inr_iff Let_def dest!: upd_block_hvm coalesce_with_next_hvm split: if_splits)

lemma kfree_hvm: "kfree a h = Inr h' \<Longrightarrow> hvm h' = hvm h"
  by (auto simp: kfree_def bindE_eq_Inr_iff Let_def if_Inl_eq_Inr dest!: upd_block_hvm coalesce_around_hvm split: if_splits)

lemma split_hvm: "split_block_if_large_enough b w h = Inr h' \<Longrightarrow> hvm h' = hvm h"
  by (auto simp: split_block_if_large_enough_def bindE_eq_Inr_iff Let_def dest!: upd_block_hvm split: if_splits)

lemma take_block_hvm: "take_block b w h = Inr (r, h') \<Longrightarrow> hvm h' = hvm h"
  by (auto simp: take_block_def bindE_eq_Inr_iff dest!: upd_block_hvm split_hvm)

text \<open>With a fitting free block \<open>kmalloc\<close> succeeds without growing the heap.\<close>

lemma kmalloc_room:
  assumes inv: "heap_inv h bs" and n: "n \<noteq> 0" "\<not> n > 0xFFFFFFFF - 7" and room: "first_fit (align_up_size n 8) bs \<noteq> None"
  shows "\<exists>p h' bs' sz. kmalloc n h = Some (Inr (p, h')) \<and> heap_inv h' bs' \<and> new_block n p sz bs bs' \<and> hvm h' = hvm h"
proof -
  obtain us where us: "first_fit (align_up_size n 8) bs = Some us" using room by auto
  have n': "\<not> n > 0xFFFFFFFF - (8 - 1)" using n(2) by simp
  obtain t bs' sz where t: "take_block (baddr us) (align_up_size n 8) h = Inr (baddr us + 24, t)" "heap_inv t bs'"
    "new_block n (baddr us + 24) sz bs bs'" using kmalloc_found [OF inv n(1) n' us] by blast
  have "kmalloc n h = Some (Inr (baddr us + 24, t))"
    using find_free_block_inv [OF inv] us t(1) inv n by (simp add: kmalloc_def heap_inv_def)
  with t take_block_hvm [OF t(1)] show ?thesis by blast
qed

lemma live_pointer_nonzero: "(unat p, sz) \<in> live BASE bs \<Longrightarrow> p \<noteq> 0"
  by (erule live_split) auto

section \<open>The user half of a directory\<close>

definition user_slots :: "u32 set" where "user_slots = {i. 4 \<le> i \<and> i < 768}"

lemma user_virtual_allowed_iff: "user_virtual_allowed v \<longleftrightarrow> directory_index v \<in> user_slots"
proof -
  have "4 \<le> directory_index v \<longleftrightarrow> 0x01000000 \<le> v"
    by (auto simp: word_le_nat_alt unat_directory_index)
  moreover have "directory_index v < 768 \<longleftrightarrow> v < 0xC0000000"
    by (auto simp: word_less_nat_alt unat_directory_index)
  ultimately show ?thesis by (simp add: user_virtual_allowed_def user_slots_def)
qed

lemma user_slots_less: "i \<in> user_slots \<Longrightarrow> i < 1024"
  by (auto simp: user_slots_def word_less_nat_alt)

definition user_page :: "u32 \<Rightarrow> bool" where
  "user_page v \<longleftrightarrow> page_aligned v \<and> directory_index v \<in> user_slots"

section \<open>The list of user mappings\<close>

type_synonym node = "u32 \<times> u32 \<times> u32"

abbreviation node_addr :: "node \<Rightarrow> u32" where "node_addr n \<equiv> fst n"
abbreviation node_page :: "node \<Rightarrow> u32" where "node_page n \<equiv> fst (snd n)"
abbreviation node_frame :: "node \<Rightarrow> u32" where "node_frame n \<equiv> snd (snd n)"

primrec mchain :: "(u32 \<rightharpoonup> address_mapping) \<Rightarrow> u32 \<Rightarrow> node list \<Rightarrow> u32 \<Rightarrow> bool" where
  "mchain st h [] q \<longleftrightarrow> h = q"
| "mchain st h (n # ns) q \<longleftrightarrow> h = node_addr n \<and> h \<noteq> 0 \<and> (\<exists>c. st h = Some c \<and> am_virtual c = node_page n
     \<and> am_physical c = node_frame n \<and> mchain st (am_next c) ns q)"

lemma mchain_append: "mchain st h (xs @ ys) q \<longleftrightarrow> (\<exists>m. mchain st h xs m \<and> mchain st m ys q)"
  by (induction xs arbitrary: h) auto

lemma mchain_cong: "mchain st h ns q \<Longrightarrow> (\<And>n. n \<in> set ns \<Longrightarrow> st' (node_addr n) = st (node_addr n)) \<Longrightarrow> mchain st' h ns q"
  by (induction ns arbitrary: h) auto

lemma mchain_set_last:
  assumes "mchain st h (xs @ [n]) q" and "distinct (map node_addr (xs @ [n]))" and "st (node_addr n) = Some c"
  shows "mchain (st(node_addr n \<mapsto> c\<lparr>am_next := q'\<rparr>)) h (xs @ [n]) q'"
proof -
  from assms(1) have xs: "mchain st h xs (node_addr n)" "node_addr n \<noteq> 0" "am_virtual c = node_page n" "am_physical c = node_frame n"
    using assms(3) by (auto simp: mchain_append)
  have "node_addr m \<noteq> node_addr n" if "m \<in> set xs" for m using imageI [OF that, of fst] assms(2) by (metis distinct_append map_append not_distinct_conv_prefix set_map list.set_intros(1) list.simps(9) disjoint_iff)
  then have "mchain (st(node_addr n \<mapsto> c\<lparr>am_next := q'\<rparr>)) h xs (node_addr n)"
    by (intro mchain_cong [OF xs(1)]) simp
  with xs show ?thesis by (simp add: mchain_append)
qed

definition last_node :: "u32 \<Rightarrow> node list \<Rightarrow> u32" where
  "last_node p xs = (if xs = [] then p else node_addr (last xs))"

lemma mapping_remove_loop_list:
  assumes "mchain (mappings s) cur (xs @ (a, v, f) # ys) 0" and "v \<notin> node_page ` set xs"
  shows "\<exists>c. mappings s a = Some c \<and> mchain (mappings s) (am_next c) ys 0 \<and>
    mapping_remove_loop sp v prev cur s = Some (bindE (mapping_unlink sp (last_node prev xs) (am_next c) s) (\<lambda>s1.
       bindE (mapping_free a s1) (\<lambda>s2. Inr (True, s2))))"
  using assms
proof (induction xs arbitrary: cur prev)
  case Nil
  then obtain c where "cur = a" "a \<noteq> 0" "mappings s a = Some c" "am_virtual c = v" "mchain (mappings s) (am_next c) ys 0" by auto
  then show ?case by (subst mapping_remove_loop.simps) (simp add: get_mapping_def last_node_def)
next
  case (Cons n xs)
  then obtain c where c: "cur = node_addr n" "cur \<noteq> 0" "mappings s cur = Some c" "am_virtual c \<noteq> v"
    "mchain (mappings s) (am_next c) (xs @ (a, v, f) # ys) 0" by auto
  have "last_node prev (n # xs) = last_node cur xs" using c(1) by (simp add: last_node_def)
  with c Cons.IH [OF c(5), of cur] Cons.prems(2) show ?case
    by (subst mapping_remove_loop.simps) (simp add: get_mapping_def)
qed

section \<open>The invariant of a space\<close>

text \<open>
  A space with its list of mappings: the nodes are live heap blocks, the pages are distinct user
  pages, and the page tables translate exactly the listed pages, each to its frame.
\<close>

definition space_ok :: "aspace \<Rightarrow> hblk list \<Rightarrow> u32 \<Rightarrow> address_space \<Rightarrow> node list \<Rightarrow> bool" where
  "space_ok s bs sp x ns \<longleftrightarrow> spaces s sp = Some x \<and> sp \<noteq> 0 \<and> as_magic x = ADDRESS_SPACE_MAGIC
   \<and> page_directory x \<noteq> 0 \<and> page_directory_physical x = page_directory x
   \<and> heap_inv (aheap s) bs \<and> dir_wf (phys s) (page_directory x) user_slots
   \<and> mchain (mappings s) (user_mappings x) ns 0 \<and> distinct (map node_addr ns) \<and> distinct (map node_page ns)
   \<and> (\<forall>n\<in>set ns. user_page (node_page n) \<and> (\<exists>sz. (unat (node_addr n), sz) \<in> live BASE bs))
   \<and> (\<forall>v. user_page v \<longrightarrow> map_option (\<lambda>pte. pte AND X86_PAGE_FRAME_MASK) (translate (phys s) (page_directory x) v)
        = map_of (map snd ns) v)
   \<and> (\<exists>sz. (unat sp, sz) \<in> live BASE bs) \<and> sp \<notin> node_addr ` set ns
   \<and> unat (user_page_count x) = length ns"

lemma validate_space_ok: "space_ok s bs sp x ns \<Longrightarrow> validate_space sp s = Inr x"
  by (simp add: space_ok_def validate_space_def get_space_def)

lemma translate_eq_Some:
  "translate m dir v = Some pte \<longleftrightarrow> (\<exists>t. pde_table m dir (directory_index v) = Some t
     \<and> table_entry m t (table_index v) = pte \<and> pte AND X86_PAGE_PRESENT \<noteq> 0)"
  by (auto simp: translate_def Let_def split: option.splits if_splits)

lemma user_page_translate:
  assumes "user_page v" and "user_page w"
  shows "unat v div 4096 = unat w div 4096 \<longleftrightarrow> v = w"
  using assms indices_determine_page [of v w] indices_determine_aligned [of v w] by (auto simp: user_page_def)

text \<open>Removing a node and the page's entry keeps the invariant.\<close>

lemma map_of_snd_remove:
  assumes "distinct (map node_page (xs @ n # ys))"
  shows "map_of (map snd (xs @ ys)) = (map_of (map snd (xs @ n # ys)))(node_page n := None)"
proof -
  have "map_of (map snd zs) (node_page n) = None" if "node_page n \<notin> node_page ` set zs" for zs :: "node list"
    using that by (auto simp: map_of_eq_None_iff image_image)
  then show ?thesis using assms by (auto simp: fun_eq_iff map_add_def split: option.splits)
qed

lemma mchain_upd_outside: "mchain st h ns q \<Longrightarrow> a \<notin> node_addr ` set ns \<Longrightarrow> mchain (st(a := c)) h ns q"
  by (induction ns arbitrary: h) auto

lemma mapping_unlink_ok:
  assumes ch: "mchain (mappings s) (user_mappings x) (xs @ (a, v, f) # ys) 0" and d: "distinct (map node_addr (xs @ (a, v, f) # ys))"
    and sp: "spaces s sp = Some x" and c: "mappings s a = Some c" "mchain (mappings s) (am_next c) ys 0"
  shows "\<exists>st x'. mapping_unlink sp (last_node 0 xs) (am_next c) s = Inr (s\<lparr>mappings := st, spaces := (spaces s)(sp \<mapsto> x')\<rparr>)
    \<and> mchain (st(a := None)) (user_mappings x') (xs @ ys) 0
    \<and> (\<forall>b. b \<notin> node_addr ` set xs \<longrightarrow> st b = mappings s b) \<and> dom st = dom (mappings s)
    \<and> x' = x\<lparr>user_mappings := user_mappings x'\<rparr>"
proof (cases xs rule: rev_cases)
  case Nil
  have "mchain ((mappings s)(a := None)) (am_next c) ys 0"
    using d by (intro mchain_upd_outside [OF c(2)]) auto
  then show ?thesis using Nil sp
    by (intro exI [of _ "mappings s"] exI [of _ "x\<lparr>user_mappings := am_next c\<rparr>"]) (simp add: mapping_unlink_def last_node_def upd_space_def)
next
  case (snoc us n)
  from ch snoc obtain p where p: "mappings s (node_addr n) = Some p" "node_addr n \<noteq> 0" "mchain (mappings s) (user_mappings x) (us @ [n]) a"
    by (auto simp: mchain_append)
  let ?st = "(mappings s)(node_addr n \<mapsto> p\<lparr>am_next := am_next c\<rparr>)"
  have "mchain ?st (user_mappings x) (us @ [n]) (am_next c)"
    using p d snoc by (intro mchain_set_last) auto
  moreover have "mchain ?st (am_next c) ys 0"
    using d snoc by (intro mchain_upd_outside [OF c(2)]) auto
  ultimately have "mchain ?st (user_mappings x) (xs @ ys) 0" using snoc by (auto simp: mchain_append)
  then have "mchain (?st(a := None)) (user_mappings x) (xs @ ys) 0"
    by (rule mchain_upd_outside) (use d in auto)
  then show ?thesis using p sp snoc
    by (intro exI [of _ ?st] exI [of _ x]) (auto simp: mapping_unlink_def last_node_def get_mapping_def fun_upd_idem)
qed

lemma distinct_map_other: "distinct (map g (xs @ n # ys)) \<Longrightarrow> m \<in> set (xs @ ys) \<Longrightarrow> g m \<noteq> g n"
proof -
  assume "distinct (map g (xs @ n # ys))" and "m \<in> set (xs @ ys)"
  then have "g n \<notin> g ` set (xs @ ys)" and "g m \<in> g ` set (xs @ ys)" by auto
  then show ?thesis by metis
qed

lemma map_of_snd_at:
  "distinct (map node_page (xs @ n # ys)) \<Longrightarrow> map_of (map snd (xs @ n # ys)) (node_page n) = Some (node_frame n)"
  by (rule map_of_is_SomeI) (auto simp: comp_def)

lemma mapping_remove_ok:
  assumes ch: "mchain (mappings s) (user_mappings x) (xs @ (a, v, f) # ys) 0" and d: "distinct (map node_addr (xs @ (a, v, f) # ys))"
      "distinct (map node_page (xs @ (a, v, f) # ys))"
    and sp: "spaces s sp = Some x" and inv: "heap_inv (aheap s) bs" and lv: "(unat a, sz) \<in> live BASE bs"
  shows "\<exists>st x' h bs'. mapping_remove sp v s = Some (Inr (True, s\<lparr>mappings := st, spaces := (spaces s)(sp \<mapsto> x'), aheap := h\<rparr>))
    \<and> mchain st (user_mappings x') (xs @ ys) 0 \<and> dom st = dom (mappings s) - {a}
    \<and> (\<forall>b. b \<notin> node_addr ` set (xs @ [(a, v, f)]) \<longrightarrow> st b = mappings s b)
    \<and> x' = x\<lparr>user_mappings := user_mappings x'\<rparr>
    \<and> heap_inv h bs' \<and> live BASE bs' = live BASE bs - {(unat a, sz)} \<and> hvm h = hvm (aheap s)"
proof -
  have "v \<notin> node_page ` set xs" using d(2) by auto
  from mapping_remove_loop_list [OF ch this, of sp 0] obtain c where c: "mappings s a = Some c" "mchain (mappings s) (am_next c) ys 0"
    and loop: "mapping_remove_loop sp v 0 (user_mappings x) s = Some (bindE (mapping_unlink sp (last_node 0 xs) (am_next c) s) (\<lambda>s1.
       bindE (mapping_free a s1) (\<lambda>s2. Inr (True, s2))))" by blast
  obtain st x' where u: "mapping_unlink sp (last_node 0 xs) (am_next c) s = Inr (s\<lparr>mappings := st, spaces := (spaces s)(sp \<mapsto> x')\<rparr>)"
    "mchain (st(a := None)) (user_mappings x') (xs @ ys) 0" "\<forall>b. b \<notin> node_addr ` set xs \<longrightarrow> st b = mappings s b"
    "dom st = dom (mappings s)" "x' = x\<lparr>user_mappings := user_mappings x'\<rparr>"
    using mapping_unlink_ok [OF ch d(1) sp c] by blast
  obtain h bs' where h: "kfree a (aheap s) = Inr h" "heap_inv h bs'" "live BASE bs' = live BASE bs - {(unat a, sz)}"
    using kfree_result [OF inv lv] by blast
  have "mapping_remove sp v s = Some (Inr (True, s\<lparr>mappings := st(a := None), spaces := (spaces s)(sp \<mapsto> x'), aheap := h\<rparr>))"
    using loop u(1) h(1) sp by (simp add: mapping_remove_def get_space_def mapping_free_def)
  moreover have "dom (st(a := None)) = dom (mappings s) - {a}" using u(4) by auto
  ultimately show ?thesis using u h kfree_hvm [OF h(1)]
    by (intro exI [of _ "st(a := None)"] exI [of _ x'] exI [of _ h] exI [of _ bs']) auto
qed

text \<open>What unmapping the page of a node does.\<close>

lemma space_unmap_step:
  assumes ok: "space_ok s bs sp x (xs @ (a, v, f) # ys)" and f: "0x100000 \<le> f"
  shows "\<exists>s' bs' x'. address_space_unmap_page sp v s = Some (Inr (0, s')) \<and> space_ok s' bs' sp x' (xs @ ys)
    \<and> page_directory x' = page_directory x \<and> (\<exists>sz. (unat a, sz) \<in> live BASE bs \<and> live BASE bs' = live BASE bs - {(unat a, sz)})
    \<and> free_pages (frames s') = insert f (free_pages (frames s))
    \<and> (\<exists>t\<in>tables_of (phys s) (page_directory x) user_slots. phys s' = set_table_entry (phys s) t (table_index v) 0)
    \<and> kernel_space s' = kernel_space s \<and> current_space s' = current_space s \<and> spaces s' = (spaces s)(sp \<mapsto> x')
    \<and> dom (mappings s') = dom (mappings s) - {a}"
proof -
  let ?D = "page_directory x" and ?m = "phys s"
  from ok have sp: "spaces s sp = Some x" "sp \<noteq> 0" and wf: "dir_wf ?m ?D user_slots" and inv: "heap_inv (aheap s) bs"
    and ch: "mchain (mappings s) (user_mappings x) (xs @ (a, v, f) # ys) 0" and d: "distinct (map node_addr (xs @ (a, v, f) # ys))"
      "distinct (map node_page (xs @ (a, v, f) # ys))"
    and nodes: "\<And>n. n \<in> set (xs @ (a, v, f) # ys) \<Longrightarrow> user_page (node_page n) \<and> (\<exists>sz. (unat (node_addr n), sz) \<in> live BASE bs)"
    and tr: "\<And>w. user_page w \<Longrightarrow> map_option (\<lambda>pte. pte AND 0xFFFFF000) (translate ?m ?D w) = map_of (map snd (xs @ (a, v, f) # ys)) w"
    unfolding space_ok_def by blast+
  have v: "user_page v" using nodes [of "(a, v, f)"] by simp
  then have al: "page_aligned v" "directory_index v \<in> user_slots" by (simp_all add: user_page_def)
  have "map_of (map snd (xs @ (a, v, f) # ys)) v = Some f" using map_of_snd_at [OF d(2)] by simp
  with tr [OF v] obtain pte where pte: "translate ?m ?D v = Some pte" "pte AND 0xFFFFF000 = f" by auto
  then obtain t where t: "pde_table ?m ?D (directory_index v) = Some t" "table_entry ?m t (table_index v) = pte" "pte AND 1 \<noteq> 0"
    by (auto simp: translate_eq_Some)
  define s1 where "s1 = set_phys (set_table_entry ?m t (table_index v) 0) s"
  obtain sz where lv: "(unat a, sz) \<in> live BASE bs" using nodes [of "(a, v, f)"] by auto
  have "\<exists>st x' h bs'. mapping_remove sp v s1 = Some (Inr (True, s1\<lparr>mappings := st, spaces := (spaces s1)(sp \<mapsto> x'), aheap := h\<rparr>))
    \<and> mchain st (user_mappings x') (xs @ ys) 0 \<and> dom st = dom (mappings s1) - {a}
    \<and> (\<forall>b. b \<notin> node_addr ` set (xs @ [(a, v, f)]) \<longrightarrow> st b = mappings s1 b)
    \<and> x' = x\<lparr>user_mappings := user_mappings x'\<rparr>
    \<and> heap_inv h bs' \<and> live BASE bs' = live BASE bs - {(unat a, sz)} \<and> hvm h = hvm (aheap s1)"
    by (rule mapping_remove_ok [OF _ d _ _ lv]) (use ch sp inv in \<open>simp_all add: s1_def\<close>)
  then obtain st x' h bs' where r: "mapping_remove sp v s1 = Some (Inr (True, s1\<lparr>mappings := st, spaces := (spaces s)(sp \<mapsto> x'), aheap := h\<rparr>))"
    "mchain st (user_mappings x') (xs @ ys) 0" "dom st = dom (mappings s) - {a}" "x' = x\<lparr>user_mappings := user_mappings x'\<rparr>"
    "heap_inv h bs'" "live BASE bs' = live BASE bs - {(unat a, sz)}" "hvm h = hvm (aheap s1)"
    by (auto simp: s1_def)
  have f_al: "page_aligned f" using aligned_table_from_pde [of pte] pte(2) by (simp add: table_from_pde_def)
  obtain p where p: "pmm_free_page f (frames s) = Inr p" using pmm_free_page_defined [OF f_al f] by blast
  have cnt: "unat (user_page_count x) = Suc (length (xs @ ys))" using ok by (simp add: space_ok_def)
  then have pos: "user_page_count x' > 0" by (subst r(4)) (simp add: word_greater_zero_iff, metis unat_0 nat.distinct(1))
  define x2 where "x2 = x'\<lparr>user_page_count := user_page_count x' - 1\<rparr>"
  define s' where "s' = set_frames p (s1\<lparr>mappings := st, spaces := (spaces s)(sp \<mapsto> x2), aheap := h\<rparr>)"
  have hv: "phys s' = set_table_entry ?m t (table_index v) 0" "frames s' = p" "heap_inv (aheap s') bs'"
    "spaces s' = (spaces s)(sp \<mapsto> x2)" "mappings s' = st" "kernel_space s' = kernel_space s" "current_space s' = current_space s"
    using r(5,7) by (simp_all add: s'_def s1_def set_frames_def set_phys_def)
  have pde: "table_entry ?m ?D (directory_index v) AND 1 \<noteq> 0" "table_from_pde (table_entry ?m ?D (directory_index v)) = t"
    using t(1) by (auto simp: pde_table_def Let_def split: if_splits)
  have frames: "frames (s1\<lparr>mappings := st, spaces := (spaces s)(sp \<mapsto> x2), aheap := h\<rparr>) = frames s"
    using r(7) by (simp add: s1_def)
  have "upd_space sp (\<lambda>x. if user_page_count x > 0 then x\<lparr>user_page_count := user_page_count x - 1\<rparr> else x)
      (s1\<lparr>mappings := st, spaces := (spaces s)(sp \<mapsto> x'), aheap := h\<rparr>)
    = Inr (s1\<lparr>mappings := st, spaces := (spaces s)(sp \<mapsto> x2), aheap := h\<rparr>)"
    using pos by (simp add: upd_space_def x2_def)
  then have run: "address_space_unmap_page sp v s = Some (Inr (0, s'))"
    using validate_space_ok [OF ok] al user_virtual_allowed_iff [of v] t(2,3) pte(2) pde r(1) p frames
    by (simp add: address_space_unmap_page_def is_page_aligned_iff flip: s1_def s'_def)
  have wf': "dir_wf (phys s') ?D user_slots" "tables_of (phys s') ?D user_slots = tables_of ?m ?D user_slots"
    unfolding hv using set_pte_dir [OF wf al(2) t(1)] by simp_all
  have tr': "map_option (\<lambda>pte. pte AND 0xFFFFF000) (translate (phys s') ?D w) = map_of (map snd (xs @ ys)) w" if w: "user_page w" for w
    unfolding hv map_of_snd_remove [OF d(2)]
    using translate_set_pte [OF wf al(2) t(1), of w 0] w tr [OF w] user_page_translate [OF w v] by (auto simp: user_page_def)
  have x2: "page_directory x2 = ?D" "as_magic x2 = as_magic x" "page_directory_physical x2 = page_directory_physical x"
    "user_mappings x2 = user_mappings x'" "user_page_count x2 = user_page_count x - 1"
    unfolding x2_def by (subst r(4), simp)+
  have "unat (user_page_count x2) = length (xs @ ys)"
    using cnt unat_sub [of 1 "user_page_count x"] by (simp add: x2 word_le_nat_alt)
  moreover have "\<exists>sz. (unat (node_addr n), sz) \<in> live BASE bs'" if "n \<in> set (xs @ ys)" for n
  proof -
    have "node_addr n \<noteq> a" using distinct_map_other [OF d(1) that] by simp
    then show ?thesis using nodes [of n] that unfolding r(6) by (auto simp: word_unat_eq_iff)
  qed
  moreover have "\<exists>sz. (unat sp, sz) \<in> live BASE bs'" "sp \<notin> node_addr ` set (xs @ ys)"
    using ok unfolding r(6) space_ok_def by (auto simp: word_unat_eq_iff)
  ultimately have "space_ok s' bs' sp x2 (xs @ ys)"
    using ok hv(3) wf'(1) tr' r(2) d nodes sp unfolding space_ok_def hv(4,5) x2 by (intro conjI allI ballI impI) (simp_all, blast?)
  moreover have "free_pages (frames s') = insert f (free_pages (frames s))" unfolding hv using pmm_free_page_result(3) [OF p] .
  moreover have "t \<in> tables_of ?m ?D user_slots" using t(1) al(2) by (auto simp: tables_of_def)
  ultimately show ?thesis using run x2(1) r(3,6) hv lv by (intro exI [of _ s'] exI [of _ bs'] exI [of _ x2]) auto
qed

section \<open>Destroying a space\<close>

definition blocks_at :: "u32 set \<Rightarrow> (nat \<times> nat) set \<Rightarrow> (nat \<times> nat) set" where
  "blocks_at A L = {b \<in> L. fst b \<in> unat ` A}"

lemma blocks_at_insert:
  assumes "(unat a, sz) \<in> L" and "\<And>l. (unat a, l) \<in> L \<Longrightarrow> l = sz"
  shows "L - {(unat a, sz)} - blocks_at A (L - {(unat a, sz)}) = L - blocks_at (insert a A) L"
proof -
  have "b \<in> L - {(unat a, sz)} - blocks_at A (L - {(unat a, sz)}) \<longleftrightarrow> b \<in> L - blocks_at (insert a A) L" for b
  proof (cases "fst b = unat a")
    case True
    then have "b \<in> L \<Longrightarrow> b = (unat a, sz)" using assms(2) by (cases b) simp
    with True show ?thesis by (auto simp: blocks_at_def)
  next
    case False
    then have "b \<noteq> (unat a, sz)" by auto
    with False show ?thesis by (simp add: blocks_at_def)
  qed
  then show ?thesis by blast
qed

lemma pde_table_keep:
  assumes "dir_wf m D I" and "t \<in> tables_of m D I" and "j < 1024" and "i \<in> I"
  shows "pde_table (set_table_entry m t j v) D i = pde_table m D i"
  using assms by (intro pde_table_set_other) (auto simp: dir_wf_def tables_of_def intro: pde_table_aligned)

lemma live_address_unique: "(q, l) \<in> live BASE bs \<Longrightarrow> (q, l') \<in> live BASE bs \<Longrightarrow> heap_inv h bs \<Longrightarrow> l = l'"
proof (rule ccontr)
  assume h: "(q, l) \<in> live BASE bs" "(q, l') \<in> live BASE bs" "heap_inv h bs" and "l \<noteq> l'"
  then have "l = 0 \<or> l' = 0" using live_disjoint [OF h(1,2)] by auto
  moreover have "8 \<le> k" if "(q, k) \<in> live BASE bs" for k
    using that h(3) by (auto simp: heap_inv_def elim!: live_split)
  ultimately show False using h(1,2) by force
qed

lemma unmap_all_ok:
  assumes "space_ok s bs sp x ns" and "\<forall>n\<in>set ns. 0x100000 \<le> node_frame n"
  shows "\<exists>s' bs' x'. unmap_all sp c s = Some (Inr (c + word_of_nat (length ns), s')) \<and> space_ok s' bs' sp x' []
    \<and> page_directory x' = page_directory x \<and> live BASE bs' = live BASE bs - blocks_at (node_addr ` set ns) (live BASE bs)
    \<and> free_pages (frames s') = free_pages (frames s) \<union> node_frame ` set ns
    \<and> (\<forall>i\<in>user_slots. pde_table (phys s') (page_directory x) i = pde_table (phys s) (page_directory x) i)
    \<and> kernel_space s' = kernel_space s \<and> current_space s' = current_space s \<and> spaces s' = (spaces s)(sp \<mapsto> x')
    \<and> dom (mappings s') = dom (mappings s) - node_addr ` set ns"
  using assms
proof (induction ns arbitrary: s bs x c)
  case Nil
  have "spaces s sp = Some x" "user_mappings x = 0" using Nil.prems(1) by (simp_all add: space_ok_def)
  then have "unmap_all sp c s = Some (Inr (c, s))" by (subst unmap_all.simps) (simp add: get_space_def)
  with Nil.prems \<open>spaces s sp = Some x\<close> show ?case by (intro exI [of _ s] exI [of _ bs] exI [of _ x]) (auto simp: blocks_at_def)
next
  case (Cons n ns)
  obtain a v f where n: "n = (a, v, f)" by (cases n)
  have ok: "space_ok s bs sp x ([] @ (a, v, f) # ns)" and f: "0x100000 \<le> f" using Cons.prems n by auto
  obtain s1 bs1 x1 sz t where 1: "address_space_unmap_page sp v s = Some (Inr (0, s1))" "space_ok s1 bs1 sp x1 ns"
    "page_directory x1 = page_directory x" "(unat a, sz) \<in> live BASE bs" "live BASE bs1 = live BASE bs - {(unat a, sz)}"
    "free_pages (frames s1) = insert f (free_pages (frames s))"
    "t \<in> tables_of (phys s) (page_directory x) user_slots" "phys s1 = set_table_entry (phys s) t (table_index v) 0"
    "kernel_space s1 = kernel_space s" "current_space s1 = current_space s" "spaces s1 = (spaces s)(sp \<mapsto> x1)"
    "dom (mappings s1) = dom (mappings s) - {a}"
    using space_unmap_step [OF ok f] by auto
  have c: "\<exists>c. mappings s a = Some c \<and> am_virtual c = v" "spaces s sp = Some x" "user_mappings x = a" "a \<noteq> 0"
    using ok by (auto simp: space_ok_def)
  have step: "unmap_all sp c s = unmap_all sp (c + 1) s1"
    using c 1(1) by (subst unmap_all.simps) (auto simp: get_space_def get_mapping_def)
  have rest: "\<forall>n\<in>set ns. 0x100000 \<le> node_frame n" using Cons.prems(2) by simp
  obtain s2 bs2 x2 where 2: "unmap_all sp (c + 1) s1 = Some (Inr (c + 1 + word_of_nat (length ns), s2))" "space_ok s2 bs2 sp x2 []"
    "page_directory x2 = page_directory x1" "live BASE bs2 = live BASE bs1 - blocks_at (node_addr ` set ns) (live BASE bs1)"
    "free_pages (frames s2) = free_pages (frames s1) \<union> node_frame ` set ns"
    "\<forall>i\<in>user_slots. pde_table (phys s2) (page_directory x1) i = pde_table (phys s1) (page_directory x1) i"
    "kernel_space s2 = kernel_space s1" "current_space s2 = current_space s1" "spaces s2 = (spaces s1)(sp \<mapsto> x2)"
    "dom (mappings s2) = dom (mappings s1) - node_addr ` set ns"
    using Cons.IH [OF 1(2) rest, of "c + 1"] by (elim exE conjE) (rule that)
  have "heap_inv (aheap s) bs" using ok by (simp add: space_ok_def)
  then have uniq: "l = sz" if "(unat a, l) \<in> live BASE bs" for l using live_address_unique [OF that 1(4)] by blast
  show ?case
  proof (intro exI conjI)
    show "unmap_all sp c s = Some (Inr (c + word_of_nat (length (n # ns)), s2))" using step 2(1) by (simp add: algebra_simps)
    show "space_ok s2 bs2 sp x2 []" by (rule 2(2))
    show "live BASE bs2 = live BASE bs - blocks_at (node_addr ` set (n # ns)) (live BASE bs)"
      unfolding 2(4) 1(5) n using blocks_at_insert [OF 1(4) uniq] by simp
    show "\<forall>i\<in>user_slots. pde_table (phys s2) (page_directory x) i = pde_table (phys s) (page_directory x) i"
      using 2(6) pde_table_keep [of "phys s" "page_directory x" user_slots t] ok 1(7) unfolding 1(3,8) by (simp add: space_ok_def)
    show "free_pages (frames s2) = free_pages (frames s) \<union> node_frame ` set (n # ns)" unfolding 2(5) 1(6) n by auto
    show "dom (mappings s2) = dom (mappings s) - node_addr ` set (n # ns)" unfolding 2(10) 1(12) n by auto
    show "page_directory x2 = page_directory x" using 1(3) 2(3) by simp
    show "kernel_space s2 = kernel_space s" using 1(9) 2(7) by simp
    show "current_space s2 = current_space s" using 1(10) 2(8) by simp
    show "spaces s2 = (spaces s)(sp \<mapsto> x2)" using 1(11) 2(9) by simp
  qed
qed

text \<open>A table whose slot translates nothing is empty.\<close>

lemma page_with_indices:
  assumes "i < 1024" and "j < 1024"
  shows "\<exists>v. page_aligned v \<and> directory_index v = i \<and> table_index v = j"
proof -
  have i: "unat i < 1024" and j: "unat j < 1024" using assms by (simp_all add: word_less_nat_alt)
  define v :: u32 where "v = word_of_nat (unat i * 2 ^ 22 + unat j * 4096)"
  have lt: "unat i * 2 ^ 22 + unat j * 4096 < 2 ^ 32"
  proof -
    have "unat i * 2 ^ 22 \<le> 1023 * 2 ^ 22" "unat j * 4096 \<le> 1023 * 4096" using i j by auto
    then show ?thesis by simp
  qed
  then have v: "unat v = unat i * 2 ^ 22 + unat j * 4096" unfolding v_def by (subst unat_of_nat) simp
  have "unat j * 4096 < 2 ^ 22" using j by simp
  then have "unat v div 2 ^ 22 = unat i" unfolding v by simp
  moreover have "unat v div 4096 mod 1024 = unat j"
  proof -
    have "unat v = (unat i * 1024 + unat j) * 4096" unfolding v by simp
    then show ?thesis using j by simp
  qed
  moreover have "4096 dvd unat v" unfolding v by simp
  ultimately show ?thesis
    by (intro exI [of _ v]) (simp add: word_unat_eq_iff unat_directory_index unat_table_index page_aligned_iff)
qed

lemma table_empty_if_untranslated:
  assumes t: "pde_table m D i = Some t" and i: "i \<in> user_slots"
    and none: "\<And>v. user_page v \<Longrightarrow> translate m D v = None"
  shows "table_empty m t"
  unfolding table_empty_def
proof
  fix k assume "k \<in> set [0..<unat (1024 :: u32)]"
  then have k: "(word_of_nat k :: u32) < 1024" by (simp add: word_less_nat_alt unat_of_nat)
  obtain v where v: "page_aligned v" "directory_index v = i" "table_index v = word_of_nat k"
    using page_with_indices [OF user_slots_less [OF i] k] by blast
  then have "translate m D v = None" using none [of v] i by (simp add: user_page_def)
  with t v show "table_entry m t (word_of_nat k) AND 1 = 0"
    by (auto simp: translate_def Let_def split: if_splits)
qed

definition tables_freed :: "u32 \<Rightarrow> nat list \<Rightarrow> aspace \<Rightarrow> aspace \<Rightarrow> bool" where
  "tables_freed D is s s' \<longleftrightarrow>
     free_pages (frames s') = free_pages (frames s) \<union> {t. \<exists>i\<in>set is. pde_table (phys s) D (word_of_nat i) = Some t}
   \<and> spaces s' = spaces s \<and> mappings s' = mappings s \<and> kernel_space s' = kernel_space s \<and> current_space s' = current_space s
   \<and> (\<forall>bs. heap_inv (aheap s') bs = heap_inv (aheap s) bs)"

lemma free_tables_fold:
  assumes "page_aligned D" and "distinct is" and "\<And>i. i \<in> set is \<Longrightarrow> i < 1024"
    and "\<And>i t. i \<in> set is \<Longrightarrow> pde_table (phys s) D (word_of_nat i) = Some t \<Longrightarrow> t \<noteq> D \<and> table_empty (phys s) t \<and> 0x100000 \<le> t"
  shows "\<exists>s' c'. foldE (free_table_step D) is (s, c) = Inr (s', c') \<and> tables_freed D is s s'"
  using assms
proof (induction "is" arbitrary: s c)
  case (Cons i "is")
  let ?pde = "table_entry (phys s) D (word_of_nat i)"
  show ?case
  proof (cases "pde_table (phys s) D (word_of_nat i)")
    case None
    then have "free_table_step D i (s, c) = Inr (s, c)"
      by (auto simp: free_table_step_def pde_table_def Let_def split: if_splits)
    moreover have "{t. \<exists>j\<in>set (i # is). pde_table (phys s) D (word_of_nat j) = Some t}
      = {t. \<exists>j\<in>set is. pde_table (phys s) D (word_of_nat j) = Some t}" using None by auto
    moreover have "\<exists>s' c'. foldE (free_table_step D) is (s, c) = Inr (s', c') \<and> tables_freed D is s s'"
      by (rule Cons.IH) (use Cons.prems in auto)
    ultimately show ?thesis by (simp add: tables_freed_def)
  next
    case (Some t)
    then have pde: "?pde AND 1 \<noteq> 0" "?pde AND 0xFFFFF000 = t" "table_from_pde ?pde = t"
      by (auto simp: pde_table_def table_from_pde_def Let_def split: if_splits)
    have t: "t \<noteq> D" "table_empty (phys s) t" "0x100000 \<le> t" using Cons.prems(4) [OF _ Some] by simp_all
    obtain p where p: "pmm_free_page t (frames s) = Inr p" using pmm_free_page_defined [OF pde_table_aligned [OF Some] t(3)] by blast
    define s1 where "s1 = set_frames p (set_phys (set_table_entry (phys s) D (word_of_nat i) 0) s)"
    have step: "free_table_step D i (s, c) = Inr (s1, c + 1)"
      using pde t p by (simp add: free_table_step_def Let_def s1_def)
    have wi: "(word_of_nat j :: u32) < 1024" if "j \<in> set (i # is)" for j
      using Cons.prems(3) [OF that] by (simp add: word_less_nat_alt unat_of_nat)
    have ne: "(word_of_nat j :: u32) \<noteq> word_of_nat i" if "j \<in> set is" for j
    proof
      assume "(word_of_nat j :: u32) = word_of_nat i"
      then have "unat (word_of_nat j :: u32) = unat (word_of_nat i :: u32)" by simp
      then have "j = i" using Cons.prems(3) [of i] Cons.prems(3) [of j] that by (simp add: unat_of_nat)
      with that Cons.prems(2) show False by simp
    qed
    have pde1: "pde_table (phys s1) D (word_of_nat j) = pde_table (phys s) D (word_of_nat j)" if "j \<in> set is" for j
      using Cons.prems(1) wi that ne [OF that] by (simp add: s1_def pde_table_def table_entry_set)
    have "table_empty (phys s1) u" if "table_empty (phys s) u" "u \<noteq> D" "page_aligned u" for u
      using that Cons.prems(1) wi [of i] by (simp add: table_empty_def s1_def table_entry_set word_less_nat_alt unat_of_nat)
    then have "\<exists>s' c'. foldE (free_table_step D) is (s1, c + 1) = Inr (s', c') \<and> tables_freed D is s1 s'"
      using Cons.prems pde1 by (intro Cons.IH) (auto intro: pde_table_aligned)
    moreover have "free_pages (frames s1) = insert t (free_pages (frames s))" using pmm_free_page_result(3) [OF p] by (simp add: s1_def)
    moreover have "{u. \<exists>j\<in>set (i # is). pde_table (phys s) D (word_of_nat j) = Some u}
      = insert t {u. \<exists>j\<in>set is. pde_table (phys s1) D (word_of_nat j) = Some u}" using Some pde1 by auto
    ultimately show ?thesis using step by (auto simp: tables_freed_def s1_def)
  qed
qed (auto simp: tables_freed_def)

lemma user_slot_list:
  "[unat (directory_index ADDRESS_SPACE_USER_BASE)..<Suc (unat (directory_index (ADDRESS_SPACE_USER_TOP - 1)))] = [4..<768]"
  by (simp add: unat_directory_index)

lemma user_slots_image: "user_slots = word_of_nat ` {4..<768}"
proof (rule set_eqI, rule iffI)
  fix i assume "i \<in> user_slots"
  then have "unat i \<in> {4..<768}" by (auto simp: user_slots_def word_le_nat_alt word_less_nat_alt)
  moreover have "i = word_of_nat (unat i)" by simp
  ultimately show "i \<in> word_of_nat ` {4..<768}" by blast
next
  fix i :: u32 assume "i \<in> word_of_nat ` {4..<768}"
  then obtain k where k: "4 \<le> k" "k < 768" "i = word_of_nat k" by auto
  then have "unat i = k" by (simp add: unat_of_nat)
  with k show "i \<in> user_slots" by (simp add: user_slots_def word_le_nat_alt word_less_nat_alt)
qed

lemma free_user_page_tables_ok:
  assumes ok: "space_ok s bs sp x []" and low: "\<forall>t\<in>tables_of (phys s) (page_directory x) user_slots. 0x100000 \<le> t"
  shows "\<exists>s' c. free_user_page_tables x s = Inr (s', c)
    \<and> free_pages (frames s') = free_pages (frames s) \<union> tables_of (phys s) (page_directory x) user_slots
    \<and> spaces s' = spaces s \<and> mappings s' = mappings s \<and> kernel_space s' = kernel_space s \<and> current_space s' = current_space s
    \<and> heap_inv (aheap s') bs"
proof -
  let ?D = "page_directory x"
  have wf: "dir_wf (phys s) ?D user_slots" and inv: "heap_inv (aheap s) bs" using ok by (simp_all add: space_ok_def)
  have none: "translate (phys s) ?D v = None" if "user_page v" for v using ok that by (auto simp: space_ok_def)
  have tabs: "tables_of (phys s) ?D user_slots = {t. \<exists>i\<in>set [4..<768]. pde_table (phys s) ?D (word_of_nat i) = Some t}"
    unfolding tables_of_def user_slots_image set_upt by blast
  have "\<exists>s' c. foldE (free_table_step ?D) [4..<768] (s, 0) = Inr (s', c) \<and> tables_freed ?D [4..<768] s s'"
  proof (rule free_tables_fold)
    show "page_aligned ?D" using wf by (simp add: dir_wf_def)
    fix i t assume i: "i \<in> set [4..<768]" and t: "pde_table (phys s) ?D (word_of_nat i) = Some t"
    then have slot: "(word_of_nat i :: u32) \<in> user_slots" unfolding user_slots_image set_upt by blast
    then show "t \<noteq> ?D \<and> table_empty (phys s) t \<and> 0x100000 \<le> t"
      using t wf low table_empty_if_untranslated [OF t slot none] by (auto simp: dir_wf_def tables_of_def)
  qed (simp_all only: set_upt atLeastLessThan_iff distinct_upt, linarith?)
  then show ?thesis using inv unfolding free_user_page_tables_def tabs aspace_directory_index_eq Let_def user_slot_list tables_freed_def
    by blast
qed

definition releasable :: "aspace \<Rightarrow> address_space \<Rightarrow> node list \<Rightarrow> bool" where
  "releasable s x ns \<longleftrightarrow> (\<forall>n\<in>set ns. 0x100000 \<le> node_frame n)
     \<and> (\<forall>t\<in>tables_of (phys s) (page_directory x) user_slots. 0x100000 \<le> t) \<and> 0x100000 \<le> page_directory x"

lemma blocks_at_insert_last:
  assumes "(unat a, sz) \<in> L" and "\<And>l. (unat a, l) \<in> L \<Longrightarrow> l = sz"
  shows "L - blocks_at A L - {(unat a, sz)} = L - blocks_at (insert a A) L"
proof -
  have only: "b = (unat a, sz)" if "b \<in> L" "fst b = unat a" for b using assms(2) that by (cases b) simp
  have "blocks_at {a} L = {b \<in> L. fst b = unat a}" by (simp add: blocks_at_def)
  also have "\<dots> = {(unat a, sz)}"
  proof (rule equalityI)
    show "{b \<in> L. fst b = unat a} \<subseteq> {(unat a, sz)}" using only by blast
    show "{(unat a, sz)} \<subseteq> {b \<in> L. fst b = unat a}" using assms(1) by simp
  qed
  finally have "blocks_at {a} L = {(unat a, sz)}" .
  moreover have "blocks_at (insert a A) L = blocks_at {a} L \<union> blocks_at A L" by (auto simp: blocks_at_def)
  ultimately show ?thesis by blast
qed

lemma leave_space_ok:
  assumes ok: "space_ok s bs sp x ns" and k: "sp \<noteq> kernel_space s" "validate_space (kernel_space s) s = Inr kx"
  shows "\<exists>cur. (if current_space s = sp then address_space_switch (kernel_space s) s else Inr s) = Inr (s\<lparr>current_space := cur\<rparr>) \<and> cur \<noteq> sp"
  using k by (cases "current_space s = sp") (auto simp: address_space_switch_def Let_def intro: exI [of _ "current_space s"])

lemma space_ok_current [simp]: "space_ok (s\<lparr>current_space := cur\<rparr>) bs sp x ns = space_ok s bs sp x ns"
  by (simp add: space_ok_def)

lemma address_space_destroy_ok:
  assumes ok: "space_ok s bs sp x ns" and rel: "releasable s x ns"
    and k: "sp \<noteq> kernel_space s" "validate_space (kernel_space s) s = Inr kx"
  shows "\<exists>s' bs'. address_space_destroy sp s = Some (Inr s') \<and> heap_inv (aheap s') bs'
    \<and> free_pages (frames s') = free_pages (frames s) \<union> node_frame ` set ns
         \<union> tables_of (phys s) (page_directory x) user_slots \<union> {page_directory x}
    \<and> live BASE bs' = live BASE bs - blocks_at (insert sp (node_addr ` set ns)) (live BASE bs)
    \<and> spaces s' = (spaces s)(sp := None) \<and> dom (mappings s') = dom (mappings s) - node_addr ` set ns
    \<and> current_space s' \<noteq> sp"
proof -
  obtain cur where c: "(if current_space s = sp then address_space_switch (kernel_space s) s else Inr s) = Inr (s\<lparr>current_space := cur\<rparr>)"
    "cur \<noteq> sp" using leave_space_ok [OF ok k] by blast
  let ?s1 = "s\<lparr>current_space := cur\<rparr>" and ?D = "page_directory x"
  have frames_low: "\<forall>n\<in>set ns. 0x100000 \<le> node_frame n" using rel by (simp add: releasable_def)
  have ok1: "space_ok ?s1 bs sp x ns" using ok by simp
  obtain s2 bs2 x2 where 2: "unmap_all sp 0 ?s1 = Some (Inr (0 + word_of_nat (length ns), s2))" "space_ok s2 bs2 sp x2 []"
    "page_directory x2 = ?D" "live BASE bs2 = live BASE bs - blocks_at (node_addr ` set ns) (live BASE bs)"
    "free_pages (frames s2) = free_pages (frames ?s1) \<union> node_frame ` set ns"
    "\<forall>i\<in>user_slots. pde_table (phys s2) ?D i = pde_table (phys ?s1) ?D i"
    "kernel_space s2 = kernel_space ?s1" "current_space s2 = current_space ?s1" "spaces s2 = (spaces ?s1)(sp \<mapsto> x2)"
    "dom (mappings s2) = dom (mappings ?s1) - node_addr ` set ns"
    using unmap_all_ok [OF ok1 frames_low, of 0] by (elim exE conjE) (rule that)
  have tabs: "tables_of (phys s2) ?D user_slots = tables_of (phys s) ?D user_slots" using 2(6) by (simp add: tables_of_def)
  obtain s3 n3 where 3: "free_user_page_tables x2 s2 = Inr (s3, n3)"
    "free_pages (frames s3) = free_pages (frames s2) \<union> tables_of (phys s2) ?D user_slots"
    "spaces s3 = spaces s2" "mappings s3 = mappings s2" "current_space s3 = current_space s2" "heap_inv (aheap s3) bs2"
    using free_user_page_tables_ok [OF 2(2)] rel tabs unfolding 2(3) releasable_def by auto
  have sp3: "spaces s3 sp = Some x2" "page_directory_physical x2 = ?D" and lv: "\<exists>sz. (unat sp, sz) \<in> live BASE bs2" and D: "page_aligned ?D"
    using 2(2,3) 3(3) by (auto simp: space_ok_def dir_wf_def)
  obtain p where p: "pmm_free_page ?D (frames s3) = Inr p" using pmm_free_page_defined [OF D] rel unfolding releasable_def by blast
  define x4 where "x4 = x2\<lparr>as_magic := 0, page_directory := 0, page_directory_physical := 0, user_mappings := 0, user_page_count := 0\<rparr>"
  define s4 where "s4 = set_frames p (s3\<lparr>spaces := (spaces s3)(sp \<mapsto> x4)\<rparr>)"
  have inv4: "heap_inv (aheap s4) bs2" using 3(6) by (simp add: s4_def)
  obtain sz where sz: "(unat sp, sz) \<in> live BASE bs2" using lv by blast
  obtain h bs' where h: "kfree sp (aheap s4) = Inr h" "heap_inv h bs'" "live BASE bs' = live BASE bs2 - {(unat sp, sz)}"
    using kfree_result [OF inv4 sz] by blast
  let ?s' = "s4\<lparr>aheap := h, spaces := (spaces s4)(sp := None)\<rparr>"
  let ?clear = "\<lambda>x. x\<lparr>as_magic := 0, page_directory := 0, page_directory_physical := 0, user_mappings := 0, user_page_count := 0\<rparr>"
  have fin: "get_space sp s2 = Inr x2" "get_space sp s3 = Inr x2" "space_free sp s4 = Inr ?s'"
    "upd_space sp ?clear s3 = Inr (s3\<lparr>spaces := (spaces s3)(sp \<mapsto> x4)\<rparr>)"
    "pmm_free_page (page_directory_physical x2) (frames (s3\<lparr>spaces := (spaces s3)(sp \<mapsto> x4)\<rparr>)) = Inr p"
    using sp3 h(1) 2(2) p by (simp_all add: get_space_def upd_space_def space_free_def x4_def space_ok_def)
  have "address_space_destroy sp s = Some (Inr ?s')"
    unfolding address_space_destroy_def validate_space_ok [OF ok] c(1) bindO_simps if_not_P [OF k(1)] 2(1) 3(1) fin prod.case Let_def
    by (simp add: fin flip: s4_def)
  moreover have "free_pages (frames ?s') = free_pages (frames s) \<union> node_frame ` set ns
         \<union> tables_of (phys s) ?D user_slots \<union> {?D}"
    using pmm_free_page_result(3) [OF p] kfree_hvm [OF h(1)] 2(5) 3(2) tabs by (simp add: s4_def)
  moreover have "live BASE bs' = live BASE bs - blocks_at (insert sp (node_addr ` set ns)) (live BASE bs)"
  proof -
    have "heap_inv (aheap s) bs" and "(unat sp, sz) \<in> live BASE bs" using ok sz 2(4) by (auto simp: space_ok_def)
    then show ?thesis unfolding h(3) 2(4) using live_address_unique by (intro blocks_at_insert_last) blast+
  qed
  moreover have "spaces ?s' = (spaces s)(sp := None)" "dom (mappings ?s') = dom (mappings s) - node_addr ` set ns" "current_space ?s' \<noteq> sp"
    using 2 3 c(2) by (simp_all add: s4_def)
  ultimately show ?thesis using h(2) by (intro exI [of _ ?s'] exI [of _ bs']) simp
qed

text \<open>
  C20. Destroying a process's address space ends, leaves it if it is the current one, and gives back
  everything it held: the frames of its user pages, its page tables and its directory become free
  and no other frame changes; its mapping nodes and the space object are removed from the heap,
  whose invariant holds. The mapping list is followed through the page tables, so no table is found
  non-empty and no unmapping fails.
\<close>

theorem address_space_destroy_returns_everything:
  assumes ok: "space_ok s bs sp x ns" and rel: "releasable s x ns"
    and k: "sp \<noteq> kernel_space s" "validate_space (kernel_space s) s = Inr kx"
  shows "\<exists>s' bs'. address_space_destroy sp s = Some (Inr s') \<and> heap_inv (aheap s') bs'
    \<and> free_pages (frames s') = free_pages (frames s) \<union> node_frame ` set ns
         \<union> tables_of (phys s) (page_directory x) user_slots \<union> {page_directory x}
    \<and> live BASE bs' = live BASE bs - blocks_at (insert sp (node_addr ` set ns)) (live BASE bs)
    \<and> spaces s' = (spaces s)(sp := None) \<and> dom (mappings s') = dom (mappings s) - node_addr ` set ns
    \<and> current_space s' \<noteq> sp"
  by (rule address_space_destroy_ok [OF assms])

section \<open>Mapping a page\<close>

lemma to_arch_flags_cases: "to_arch_flags flags \<in> {0, 2, 4, 6}"
  by (simp add: to_arch_flags_def)

lemma arch_flags_ok:
  "(X86_PAGE_PRESENT OR X86_PAGE_WRITABLE OR to_arch_flags flags) AND X86_PAGE_FRAME_MASK = 0"
  "(X86_PAGE_PRESENT OR X86_PAGE_WRITABLE OR to_arch_flags flags) AND X86_PAGE_PRESENT \<noteq> 0"
  "(X86_PAGE_PRESENT OR to_arch_flags flags) AND X86_PAGE_FRAME_MASK = 0"
  "(X86_PAGE_PRESENT OR to_arch_flags flags) AND X86_PAGE_PRESENT \<noteq> 0"
  using to_arch_flags_cases [of flags] by auto

lemma arch_flags_roundtrip:
  "from_arch_flags ((X86_PAGE_PRESENT OR to_arch_flags flags) AND X86_PAGE_FLAGS_MASK) = flags AND 3"
proof -
  have "(3 :: u32) = 1 OR 2" by simp
  then have "flags AND 3 = (flags AND 1) OR (flags AND 2)" by (simp only: bit.conj_disj_distrib)
  moreover have "flags AND 1 = 0 \<or> flags AND 1 = 1" "flags AND 2 = 0 \<or> flags AND 2 = 2"
    using and_single_bit [of flags 0] and_single_bit [of flags 1] by (simp_all split: if_splits)
  ultimately show ?thesis by (auto simp: from_arch_flags_def to_arch_flags_def)
qed

text \<open>The pages a space holds for its directory and tables are in use and above 1 MiB.\<close>

definition held :: "aspace \<Rightarrow> address_space \<Rightarrow> u32 set" where
  "held s x = insert (page_directory x) (tables_of (phys s) (page_directory x) user_slots)"

definition held_ok :: "aspace \<Rightarrow> address_space \<Rightarrow> bool" where
  "held_ok s x \<longleftrightarrow> pmm_inv (frames s) \<and> held s x \<inter> free_pages (frames s) = {} \<and> (\<forall>p\<in>held s x. 0x100000 \<le> p)"

definition table_ready :: "aspace \<Rightarrow> address_space \<Rightarrow> u32 \<Rightarrow> bool" where
  "table_ready s x v \<longleftrightarrow> pde_table (phys s) (page_directory x) (directory_index v) \<noteq> None
     \<or> fst (pmm_alloc_page_below PAGE_TABLE_BOOTSTRAP_LIMIT (frames s)) \<noteq> 0"

text \<open>Another directory whose pages are apart from this space's and from the free pages.\<close>

definition apart_from :: "aspace \<Rightarrow> address_space \<Rightarrow> u32 \<Rightarrow> u32 set \<Rightarrow> bool" where
  "apart_from s x D I \<longleftrightarrow> dir_wf (phys s) D I
     \<and> insert D (tables_of (phys s) D I) \<inter> (held s x \<union> free_pages (frames s)) = {}"

definition same_view :: "memory \<Rightarrow> memory \<Rightarrow> u32 \<Rightarrow> u32 set \<Rightarrow> bool" where
  "same_view m m' D I \<longleftrightarrow> dir_wf m' D I \<and> tables_of m' D I = tables_of m D I
     \<and> (\<forall>va. directory_index va \<in> I \<longrightarrow> translate m' D va = translate m D va)"

lemma same_view_pde:
  assumes "dir_wf m D I" and "\<And>i. i \<in> I \<Longrightarrow> pde_table m' D i = pde_table m D i"
    and "\<And>va. directory_index va \<in> I \<Longrightarrow> translate m' D va = translate m D va"
  shows "same_view m m' D I"
  using assms by (simp add: same_view_def dir_wf_def tables_of_def)

lemma same_view_set:
  assumes wf: "dir_wf m D I" and p: "page_aligned p" "p \<noteq> D" "p \<notin> tables_of m D I" and j: "j < 1024"
  shows "same_view m (set_table_entry m p j v) D I"
  by (rule same_view_pde [OF wf]) (use assms in \<open>auto simp: dir_wf_def intro!: pde_table_set_other translate_set_outside [OF wf]\<close>)

lemma same_view_memset:
  assumes wf: "dir_wf m D I" and p: "page_aligned p" "p \<noteq> D" "p \<notin> tables_of m D I"
  shows "same_view m (memset m p 0 4096) D I"
  by (rule same_view_pde [OF wf]) (use assms in \<open>auto simp: dir_wf_def intro!: pde_table_memset_other translate_memset_outside [OF wf]\<close>)

lemma same_view_trans: "same_view m m' D I \<Longrightarrow> same_view m' m'' D I \<Longrightarrow> same_view m m'' D I"
  by (simp add: same_view_def)

lemma get_or_create_table_ok:
  assumes ok: "space_ok s bs sp x ns" and h: "held_ok s x" and v: "directory_index v \<in> user_slots" and av: "table_ready s x v"
  shows "\<exists>t m p. get_or_create_table x (directory_index v) flags s = (t, set_frames p (set_phys m s)) \<and> t \<noteq> 0
    \<and> pde_table m (page_directory x) (directory_index v) = Some t \<and> dir_wf m (page_directory x) user_slots
    \<and> (\<forall>va. directory_index va \<in> user_slots \<longrightarrow> translate m (page_directory x) va = translate (phys s) (page_directory x) va)
    \<and> tables_of m (page_directory x) user_slots = insert t (tables_of (phys s) (page_directory x) user_slots)
    \<and> free_pages p = free_pages (frames s) - {t} \<and> pmm_inv p \<and> 0x100000 \<le> t
    \<and> (\<forall>D I. apart_from s x D I \<longrightarrow> t \<notin> insert D (tables_of (phys s) D I) \<and> same_view (phys s) m D I)"
proof (cases "pde_table (phys s) (page_directory x) (directory_index v)")
  case (Some t)
  have "get_or_create_table x (directory_index v) flags s = (t, set_frames (frames s) (set_phys (phys s) s))"
    using Some by (auto simp: get_or_create_table_def pde_table_def Let_def set_frames_def set_phys_def split: if_splits)
  moreover have t: "t \<in> tables_of (phys s) (page_directory x) user_slots" using Some v by (auto simp: tables_of_def)
  moreover have "0x100000 \<le> t" "t \<notin> free_pages (frames s)" "pmm_inv (frames s)" using h t by (auto simp: held_ok_def held_def)
  moreover from this(1) have "t \<noteq> 0" by auto
  ultimately show ?thesis using Some ok
    by (intro exI [of _ t] exI [of _ "phys s"] exI [of _ "frames s"]) (auto simp: space_ok_def apart_from_def held_def same_view_def)
next
  case None
  let ?D = "page_directory x" and ?i = "directory_index v"
  obtain t p where al: "pmm_alloc_page_below PAGE_TABLE_BOOTSTRAP_LIMIT (frames s) = (t, p)" by fastforce
  with av None have nz: "t \<noteq> 0" by (simp add: table_ready_def)
  note pg = page_below.alloc_page [OF al nz]
  define m where "m = install_table (phys s) ?D ?i t (X86_PAGE_PRESENT OR X86_PAGE_WRITABLE OR to_arch_flags flags)"
  have run: "get_or_create_table x ?i flags s = (t, set_frames p (set_phys m s))"
    using None al nz by (auto simp: get_or_create_table_def pde_table_def Let_def m_def install_table_def
        set_frames_def set_phys_def split: if_splits)
  have wf: "dir_wf (phys s) ?D user_slots" using ok by (simp add: space_ok_def)
  have fresh: "page_aligned t" "t \<noteq> ?D" "t \<notin> tables_of (phys s) ?D user_slots" using pg h by (auto simp: held_ok_def held_def)
  note ins = install_table_wf [OF wf fresh v arch_flags_ok(1,2) [of flags], folded m_def]
  have pde: "pde_table m ?D j = (if j = ?i then Some t else pde_table (phys s) ?D j)" if "j \<in> user_slots" for j
    unfolding m_def using wf fresh arch_flags_ok(1,2) [of flags] user_slots_less [OF that] user_slots_less [OF v]
    by (intro pde_table_install) (auto simp: dir_wf_def)
  have tabs: "tables_of m ?D user_slots = insert t (tables_of (phys s) ?D user_slots)"
  proof (rule equalityI)
    show "tables_of m ?D user_slots \<subseteq> insert t (tables_of (phys s) ?D user_slots)" using ins(2) .
    have "u \<in> tables_of m ?D user_slots" if u: "u \<in> tables_of (phys s) ?D user_slots" for u
    proof -
      obtain j where "j \<in> user_slots" "pde_table (phys s) ?D j = Some u" using u by (auto simp: tables_of_def)
      moreover from this None have "j \<noteq> ?i" by auto
      ultimately show ?thesis using pde [of j] by (auto simp: tables_of_def)
    qed
    moreover have "t \<in> tables_of m ?D user_slots" using pde [OF v] v by (auto simp: tables_of_def)
    ultimately show "insert t (tables_of (phys s) ?D user_slots) \<subseteq> tables_of m ?D user_slots" by blast
  qed
  have other: "t \<notin> insert D (tables_of (phys s) D I) \<and> same_view (phys s) m D I" if D: "apart_from s x D I" for D I
  proof -
    have D': "dir_wf (phys s) D I" "t \<noteq> D" "t \<notin> tables_of (phys s) D I" "?D \<noteq> D" "?D \<notin> tables_of (phys s) D I"
      using D pg by (auto simp: apart_from_def held_def)
    have 1: "same_view (phys s) (memset (phys s) t 0 4096) D I" using same_view_memset [OF D'(1) fresh(1) D'(2,3)] .
    have "same_view (memset (phys s) t 0 4096) m D I"
      unfolding m_def install_table_def
      by (rule same_view_set) (use 1 D' wf user_slots_less [OF v] in \<open>auto simp: same_view_def dir_wf_def\<close>)
    with 1 D' show ?thesis by (auto intro: same_view_trans)
  qed
  show ?thesis using run nz pde [OF v] ins(1) tabs pg page_below.alloc_inv [OF _ al] h
      translate_install [OF wf fresh v None arch_flags_ok(1,2) [of flags], folded m_def] other
    by (intro exI [of _ t] exI [of _ m] exI [of _ p]) (simp add: held_ok_def)
qed

lemma new_block_fresh:
  assumes nb: "new_block n p sz bs bs'" and inv: "heap_inv h bs" and n: "n \<noteq> 0"
  shows "(unat p, l) \<notin> live BASE bs" and "(unat p, sz) \<in> live BASE bs'" and "p \<noteq> 0"
proof -
  have "0 < unat n" using n by (simp add: unat_gt_0)
  moreover have "8 \<le> l" if "(unat p, l) \<in> live BASE bs" using that inv by (auto simp: heap_inv_def elim!: live_split)
  ultimately show "(unat p, l) \<notin> live BASE bs" using nb by (fastforce simp: new_block_def)
  show lv: "(unat p, sz) \<in> live BASE bs'" using nb by (simp add: new_block_def)
  show "p \<noteq> 0" by (rule live_pointer_nonzero [OF lv])
qed

lemma user_page_bound:
  assumes "distinct ws" and "\<forall>w\<in>set ws. user_page w"
  shows "length ws < 2 ^ 32"
proof -
  have "\<not> user_page 0" by (simp add: user_page_def user_slots_def directory_index_def)
  then have "set ws \<subseteq> UNIV - {0 :: u32}" using assms(2) by auto
  then have "card (set ws) \<le> card (UNIV - {0 :: u32})" by (intro card_mono) auto
  also have "\<dots> < 2 ^ 32" by (simp add: card_Diff_singleton card_word)
  finally show ?thesis using distinct_card [OF assms(1)] by simp
qed

lemma mapping_add_ok:
  assumes sp: "spaces s sp = Some x" and inv: "heap_inv (aheap s) bs" and room: "first_fit (align_up_size 12 8) bs \<noteq> None"
  shows "\<exists>a h bs' sz. mapping_add sp v f s = Some (Inr (s\<lparr>aheap := h,
       mappings := (mappings s)(a \<mapsto> \<lparr>am_virtual = v, am_physical = f, am_next = user_mappings x\<rparr>),
       spaces := (spaces s)(sp \<mapsto> x\<lparr>user_mappings := a\<rparr>)\<rparr>))
    \<and> heap_inv h bs' \<and> new_block 12 a sz bs bs' \<and> hvm h = hvm (aheap s)"
proof -
  obtain a h bs' sz where k: "kmalloc 12 (aheap s) = Some (Inr (a, h))" "heap_inv h bs'" "new_block 12 a sz bs bs'" "hvm h = hvm (aheap s)"
    using kmalloc_room [OF inv _ _ room] by auto
  moreover have "a \<noteq> 0" using new_block_fresh(3) [OF k(3) inv] by simp
  ultimately show ?thesis using sp by (auto simp: mapping_add_def get_space_def upd_space_def)
qed

lemma space_map_step:
  assumes ok: "space_ok s bs sp x ns" and h: "held_ok s x" and v: "user_page v" "v \<notin> node_page ` set ns" and f: "page_aligned f"
    and av: "table_ready s x v" and room: "first_fit (align_up_size 12 8) bs \<noteq> None"
  shows "\<exists>s' bs' x' a. address_space_map_page sp v f flags s = Some (Inr (0, s')) \<and> space_ok s' bs' sp x' ((a, v, f) # ns)
    \<and> held_ok s' x' \<and> translate (phys s') (page_directory x') v = Some (f OR X86_PAGE_PRESENT OR to_arch_flags flags)
    \<and> (\<forall>D I. apart_from s x D I \<longrightarrow> same_view (phys s) (phys s') D I)
    \<and> spaces s' = (spaces s)(sp \<mapsto> x') \<and> page_directory x' = page_directory x"
proof -
  let ?D = "page_directory x" and ?fl = "X86_PAGE_PRESENT OR to_arch_flags flags"
  from v(1) have al: "page_aligned v" "directory_index v \<in> user_slots" by (simp_all add: user_page_def)
  obtain t m p where g: "get_or_create_table x (directory_index v) flags s = (t, set_frames p (set_phys m s))" "t \<noteq> 0"
    "pde_table m ?D (directory_index v) = Some t" "dir_wf m ?D user_slots"
    "\<forall>va. directory_index va \<in> user_slots \<longrightarrow> translate m ?D va = translate (phys s) ?D va"
    "tables_of m ?D user_slots = insert t (tables_of (phys s) ?D user_slots)" "free_pages p = free_pages (frames s) - {t}"
    "pmm_inv p" "0x100000 \<le> t"
    "\<forall>D I. apart_from s x D I \<longrightarrow> t \<notin> insert D (tables_of (phys s) D I) \<and> same_view (phys s) m D I"
    using get_or_create_table_ok [OF ok h al(2) av, of flags] by blast
  have tr: "map_option (\<lambda>pte. pte AND 0xFFFFF000) (translate (phys s) ?D w) = map_of (map snd ns) w" if "user_page w" for w
    using ok that by (simp add: space_ok_def)
  have "map_of (map snd ns) v = None" using v(2) by (simp add: map_of_eq_None_iff image_image)
  then have none: "translate m ?D v = None" using tr [OF v(1)] g(5) al(2) by simp
  then have absent: "table_entry m t (table_index v) AND 1 = 0" using g(3) by (auto simp: translate_def Let_def split: if_splits)
  define m2 where "m2 = set_table_entry m t (table_index v) ((f AND 0xFFFFF000) OR ?fl)"
  define s2 where "s2 = set_phys m2 (set_frames p (set_phys m s))"
  have s2: "phys s2 = m2" "frames s2 = p" "spaces s2 = spaces s" "mappings s2 = mappings s" "heap_inv (aheap s2) bs"
    using ok by (simp_all add: s2_def space_ok_def)
  have sp: "spaces s2 sp = Some x" using ok by (simp add: s2 space_ok_def)
  obtain a hh bs' sz where k: "mapping_add sp v f s2 = Some (Inr (s2\<lparr>aheap := hh,
       mappings := (mappings s2)(a \<mapsto> \<lparr>am_virtual = v, am_physical = f, am_next = user_mappings x\<rparr>),
       spaces := (spaces s2)(sp \<mapsto> x\<lparr>user_mappings := a\<rparr>)\<rparr>))" "heap_inv hh bs'" "new_block 12 a sz bs bs'" "hvm hh = hvm (aheap s2)"
    using mapping_add_ok [OF sp s2(5) room] by blast
  define x' where "x' = x\<lparr>user_mappings := a, user_page_count := user_page_count x + 1\<rparr>"
  define s' where "s' = s2\<lparr>aheap := hh, mappings := (mappings s)(a \<mapsto> \<lparr>am_virtual = v, am_physical = f, am_next = user_mappings x\<rparr>),
       spaces := (spaces s)(sp \<mapsto> x')\<rparr>"
  have run: "address_space_map_page sp v f flags s = Some (Inr (0, s'))"
    using validate_space_ok [OF ok] al f g(1,2) absent k(1) user_virtual_allowed_iff [of v]
    by (simp add: address_space_map_page_def is_page_aligned_iff upd_space_def x'_def s'_def s2(3,4) flip: m2_def s2_def)
  have s': "phys s' = m2" "frames s' = p" "heap_inv (aheap s') bs'" "spaces s' = (spaces s)(sp \<mapsto> x')"
    "mappings s' = (mappings s)(a \<mapsto> \<lparr>am_virtual = v, am_physical = f, am_next = user_mappings x\<rparr>)"
    using k(2,4) s2 by (simp_all add: s'_def)
  note pte = pde_with_flags [OF f arch_flags_ok(3,4) [of flags]]
  have wf2: "dir_wf m2 ?D user_slots" "tables_of m2 ?D user_slots = insert t (tables_of (phys s) ?D user_slots)"
    using set_pte_dir [OF g(4) al(2) g(3)] g(6) by (simp_all add: m2_def)
  have tr2: "translate m2 ?D w = (if w = v then Some ((f AND 0xFFFFF000) OR ?fl) else translate (phys s) ?D w)" if "user_page w" for w
    using translate_set_pte [OF g(4) al(2) g(3), of w] that g(5) user_page_translate [OF that v(1)] pte(2)
    by (simp add: m2_def user_page_def)
  have pages: "distinct (map node_page ((a, v, f) # ns))" "\<forall>w\<in>set (map node_page ((a, v, f) # ns)). user_page w"
    using ok v by (auto simp: space_ok_def)
  have cnt: "unat (user_page_count x + 1) = length ((a, v, f) # ns)"
    using user_page_bound [OF pages] ok by (simp add: space_ok_def unat_word_ariths)
  note fresh = new_block_fresh [OF k(3) s2(5)]
  have a: "a \<noteq> sp" "a \<notin> node_addr ` set ns" "a \<noteq> 0"
    using fresh(1,3) ok by (auto simp: space_ok_def)
  have lv: "live BASE bs' = insert (unat a, sz) (live BASE bs)" using k(3) by (simp add: new_block_def)
  have tr3: "map_option (\<lambda>pte. pte AND 0xFFFFF000) (translate m2 ?D w) = map_of (map snd ((a, v, f) # ns)) w" if "user_page w" for w
    using tr2 [OF that] tr [OF that] pte(1) by (simp add: table_from_pde_def)
  have chain: "mchain (mappings s') (user_mappings x') ((a, v, f) # ns) 0"
    using ok a by (simp add: s' x'_def space_ok_def mchain_upd_outside)
  have live: "\<exists>sz. (unat (node_addr n), sz) \<in> live BASE bs'" if "n \<in> set ((a, v, f) # ns)" for n
    using that ok lv by (auto simp: space_ok_def)
  have "space_ok s' bs' sp x' ((a, v, f) # ns)"
    unfolding space_ok_def
  proof (intro conjI ballI allI impI)
    fix w assume "user_page w"
    then show "map_option (\<lambda>pte. pte AND 0xFFFFF000) (translate (phys s') (page_directory x') w) = map_of (map snd ((a, v, f) # ns)) w"
      using tr3 by (simp add: s' x'_def)
  next
    fix n assume n: "n \<in> set ((a, v, f) # ns)"
    then show "user_page (node_page n)" using pages(2) by auto
    show "\<exists>sz. (unat (node_addr n), sz) \<in> live BASE bs'" using live [OF n] .
  next
    show "dir_wf (phys s') (page_directory x') user_slots" "unat (user_page_count x') = length ((a, v, f) # ns)"
      using wf2(1) cnt by (simp_all add: s' x'_def)
    show "\<exists>sz. (unat sp, sz) \<in> live BASE bs'" "sp \<notin> node_addr ` set ((a, v, f) # ns)" "distinct (map node_addr ((a, v, f) # ns))"
      using ok lv a by (auto simp: space_ok_def)
  qed (use ok s' pages(1) chain in \<open>simp_all add: x'_def space_ok_def\<close>)
  moreover have "held_ok s' x'" using h g wf2 by (auto simp: held_ok_def held_def s' x'_def)
  moreover have "translate (phys s') ?D v = Some (f OR ?fl)" using tr2 [OF v(1)] frame_mask_aligned [OF f] by (simp add: s')
  moreover have "same_view (phys s) (phys s') D I" if D: "apart_from s x D I" for D I
  proof -
    have "t \<noteq> D" "t \<notin> tables_of m D I" "same_view (phys s) m D I" using g(10) D by (auto simp: same_view_def)
    moreover from this have "same_view m m2 D I"
      unfolding m2_def by (intro same_view_set pde_table_aligned [OF g(3)]) (auto simp: same_view_def)
    ultimately show ?thesis unfolding s' by (blast intro: same_view_trans)
  qed
  ultimately show ?thesis using run s'(4) by (intro exI [of _ s'] exI [of _ bs'] exI [of _ x'] exI [of _ a]) (auto simp: x'_def)
qed

section \<open>Lookups and refusals\<close>

lemma address_space_get_physical_translate:
  assumes "validate_space sp s = Inr x"
  shows "address_space_get_physical sp v s = Inr (case translate (phys s) (page_directory x) v of None \<Rightarrow> 0
    | Some pte \<Rightarrow> (pte AND X86_PAGE_FRAME_MASK) OR (v AND 0xFFF))"
  using assms by (auto simp: address_space_get_physical_def translate_def pde_table_def Let_def)

lemma address_space_get_flags_translate:
  assumes "validate_space sp s = Inr x"
  shows "address_space_get_flags sp v s = Inr (case translate (phys s) (page_directory x) v of None \<Rightarrow> 0
    | Some pte \<Rightarrow> from_arch_flags (pte AND X86_PAGE_FLAGS_MASK))"
  using assms by (auto simp: address_space_get_flags_def translate_def pde_table_def Let_def)

lemma aligned_flags: "page_aligned f \<Longrightarrow> (f OR fl) AND X86_PAGE_FLAGS_MASK = fl AND X86_PAGE_FLAGS_MASK"
  by (simp add: page_aligned_def bit.conj_disj_distrib2)

section \<open>A space with no pages\<close>

definition sample_aspace :: aspace where
  "sample_aspace = \<lparr>aheap = sample_heap\<lparr>hvm := sample_vmm\<lparr>pmem := \<lambda>_. 0\<rparr>,
       blocks := [0xD1000000 \<mapsto> \<lparr>hb_magic = HEAP_MAGIC, hb_size = 24, hb_is_free = 0, hb_reserved = 0, hb_next = 0xD1000030, hb_prev = 0\<rparr>,
         0xD1000030 \<mapsto> \<lparr>hb_magic = HEAP_MAGIC, hb_size = 4024, hb_is_free = 1, hb_reserved = 0, hb_next = 0, hb_prev = 0xD1000000\<rparr>],
       heap_active_allocations := 1\<rparr>,
     spaces = [8 \<mapsto> \<lparr>as_magic = ADDRESS_SPACE_MAGIC, page_directory = 0x110000, page_directory_physical = 0x110000,
         user_mappings = 0, user_page_count = 0\<rparr>,
       0xD1000018 \<mapsto> \<lparr>as_magic = ADDRESS_SPACE_MAGIC, page_directory = 0x200000, page_directory_physical = 0x200000,
         user_mappings = 0, user_page_count = 0\<rparr>],
     mappings = Map.empty, kernel_space = 8, current_space = 0xD1000018\<rparr>"

abbreviation sample_space :: address_space where
  "sample_space \<equiv> \<lparr>as_magic = ADDRESS_SPACE_MAGIC, page_directory = 0x200000, page_directory_physical = 0x200000,
     user_mappings = 0, user_page_count = 0\<rparr>"

lemma zero_memory [simp]: "table_entry (\<lambda>_. 0) t i = 0" "pde_table (\<lambda>_. 0) D i = None" "translate (\<lambda>_. 0) D v = None"
  by (simp_all add: table_entry_def load32_def pde_table_def translate_def)

lemma sample_aspace_ok: "space_ok sample_aspace [(24, False), (4024, True)] 0xD1000018 sample_space []"
  by (simp add: space_ok_def sample_aspace_def heap_inv_def heap_list_def sample_heap_def dir_wf_def page_aligned_def user_slots_less)

lemma sample_aspace_held: "held_ok sample_aspace sample_space"
  by (simp add: held_ok_def held_def sample_aspace_def sample_vmm_def tables_of_def)

lemma sample_aspace_ready: "table_ready sample_aspace sample_space v"
  using sample_alloc_below by (simp add: table_ready_def sample_aspace_def sample_vmm_def)

lemma sample_aspace_room: "first_fit (align_up_size 12 8) [(24, False), (4024, True)] \<noteq> None"
  by (simp add: first_fit_None align_up_size_def)

lemma sample_user_page: "user_page 0x1000000"
  by (simp add: user_page_def page_aligned_def user_slots_def directory_index_def)

section \<open>Properties\<close>

text \<open>
  C18. Mapping a fresh user page succeeds when a page table can be had and the heap has a block for the
  mapping node: the page reads back its frame at every offset and its flags, every other user page
  of the space keeps its translation, the list of mappings gains exactly this page, and every other
  directory apart from this space's pages (any other process, or the kernel's) translates exactly
  as before. Unmapping the page restores the space's translation and frees the frame.
\<close>

theorem address_space_map_page_isolated:
  assumes ok: "space_ok s bs sp x ns" and h: "held_ok s x" and v: "user_page v" "v \<notin> node_page ` set ns"
    and f: "page_aligned f" "0x100000 \<le> f"
    and av: "table_ready s x v" and room: "first_fit (align_up_size 12 8) bs \<noteq> None"
  shows "\<exists>s' bs' x' a s'' bs'' x''. address_space_map_page sp v f flags s = Some (Inr (0, s'))
    \<and> space_ok s' bs' sp x' ((a, v, f) # ns) \<and> held_ok s' x'
    \<and> (\<forall>off < 0x1000. address_space_get_physical sp (v + off) s' = Inr (f OR off)
         \<and> address_space_get_flags sp (v + off) s' = Inr (flags AND 3))
    \<and> (\<forall>D I. apart_from s x D I \<longrightarrow> same_view (phys s) (phys s') D I)
    \<and> address_space_unmap_page sp v s' = Some (Inr (0, s'')) \<and> space_ok s'' bs'' sp x'' ns
    \<and> f \<in> free_pages (frames s'')"
proof -
  obtain s' bs' x' a where m: "address_space_map_page sp v f flags s = Some (Inr (0, s'))" "space_ok s' bs' sp x' ((a, v, f) # ns)"
    "held_ok s' x'" "translate (phys s') (page_directory x') v = Some (f OR X86_PAGE_PRESENT OR to_arch_flags flags)"
    "\<forall>D I. apart_from s x D I \<longrightarrow> same_view (phys s) (phys s') D I"
    using space_map_step [OF ok h v f(1) av room, of flags] by blast
  have al: "page_aligned v" using v(1) by (simp add: user_page_def)
  have "address_space_get_physical sp (v + off) s' = Inr (f OR off) \<and> address_space_get_flags sp (v + off) s' = Inr (flags AND 3)"
    if off: "off < 0x1000" for off
  proof -
    let ?fl = "X86_PAGE_PRESENT OR to_arch_flags flags"
    have "translate (phys s') (page_directory x') (v + off) = Some (f OR ?fl)"
      using translate_same_page [OF same_page_offset(1) [OF al off]] m(4) by simp
    moreover have "(f OR ?fl) AND X86_PAGE_FRAME_MASK = f"
      using pde_with_flags(1) [OF f(1) arch_flags_ok(3,4) [of flags]] frame_mask_aligned [OF f(1)] by (simp add: table_from_pde_def)
    moreover have "from_arch_flags ((f OR ?fl) AND X86_PAGE_FLAGS_MASK) = flags AND 3"
      using aligned_flags [OF f(1), of ?fl] arch_flags_roundtrip [of flags] by simp
    ultimately show ?thesis
      unfolding address_space_get_physical_translate [OF validate_space_ok [OF m(2)]]
        address_space_get_flags_translate [OF validate_space_ok [OF m(2)]]
      by (simp add: same_page_offset(2) [OF al off])
  qed
  moreover have ok': "space_ok s' bs' sp x' ([] @ (a, v, f) # ns)" using m(2) by simp
  obtain s'' bs'' x'' where "address_space_unmap_page sp v s' = Some (Inr (0, s''))" "space_ok s'' bs'' sp x'' ns"
    "free_pages (frames s'') = insert f (free_pages (frames s'))"
    using space_unmap_step [OF ok' f(2), unfolded append_Nil] by (elim exE conjE) (rule that)
  moreover from this(3) have "f \<in> free_pages (frames s'')" by simp
  ultimately show ?thesis using m by blast
qed

theorem address_space_map_page_isolated_witness:
  "\<exists>s'. address_space_map_page 0xD1000018 0x1000000 0x300000 3 sample_aspace = Some (Inr (0, s'))
    \<and> address_space_get_physical 0xD1000018 0x1000123 s' = Inr 0x300123 \<and> address_space_get_flags 0xD1000018 0x1000123 s' = Inr 3"
proof -
  from address_space_map_page_isolated [OF sample_aspace_ok sample_aspace_held sample_user_page _ _ _ sample_aspace_ready sample_aspace_room,
      of "0x300000" 3]
  obtain s' where s': "address_space_map_page 0xD1000018 0x1000000 0x300000 3 sample_aspace = Some (Inr (0, s'))"
    "\<forall>off < 0x1000. address_space_get_physical 0xD1000018 (0x1000000 + off) s' = Inr (0x300000 OR off)
       \<and> address_space_get_flags 0xD1000018 (0x1000000 + off) s' = Inr (3 AND 3)"
    by (auto simp: page_aligned_def)
  from s'(2) [rule_format, of "0x123"] s'(1) show ?thesis by auto
qed

text \<open>
  C19. A process page is never mapped over the kernel: an address below 16 MiB or at or above 3 GiB,
  or an unaligned page or frame, is refused without any change, and so is an address that is mapped
  already, which keeps its translation.
\<close>

theorem address_space_map_page_refuses:
  assumes "space_ok s bs sp x ns" and "\<not> user_page v \<or> \<not> page_aligned f \<or> v \<in> node_page ` set ns"
  shows "address_space_map_page sp v f flags s = Some (Inr (-1, s))"
proof (cases "user_page v \<and> page_aligned f")
  case False
  then show ?thesis using validate_space_ok [OF assms(1)]
    by (auto simp: address_space_map_page_def is_page_aligned_iff user_virtual_allowed_iff user_page_def)
next
  case True
  then have "map_of (map snd ns) v \<noteq> None" using assms(2) by (simp add: map_of_eq_None_iff image_image)
  moreover have "map_option (\<lambda>pte. pte AND 0xFFFFF000) (translate (phys s) (page_directory x) v) = map_of (map snd ns) v"
    using assms(1) True by (simp add: space_ok_def)
  ultimately obtain pte where "translate (phys s) (page_directory x) v = Some pte" by (metis not_None_eq option.map_disc_iff)
  then obtain t where t: "pde_table (phys s) (page_directory x) (directory_index v) = Some t" "table_entry (phys s) t (table_index v) AND 1 \<noteq> 0"
    by (auto simp: translate_eq_Some)
  then have "get_or_create_table x (directory_index v) flags s = (t, s)"
    by (auto simp: get_or_create_table_def pde_table_def Let_def split: if_splits)
  then show ?thesis using validate_space_ok [OF assms(1)] True t(2)
    by (simp add: Let_def address_space_map_page_def is_page_aligned_iff user_virtual_allowed_iff user_page_def)
qed

theorem address_space_map_page_refuses_witness:
  "address_space_map_page 0xD1000018 0xC0000000 0x300000 3 sample_aspace = Some (Inr (-1, sample_aspace))"
  by (rule address_space_map_page_refuses [OF sample_aspace_ok])
     (simp add: user_page_def user_slots_def directory_index_def)

theorem address_space_destroy_returns_everything_witness:
  "\<exists>s'. address_space_destroy 0xD1000018 sample_aspace = Some (Inr s') \<and> 0x200000 \<in> free_pages (frames s')"
proof -
  have "releasable sample_aspace sample_space []" by (simp add: releasable_def tables_of_def sample_aspace_def)
  moreover have "validate_space (kernel_space sample_aspace) sample_aspace = Inr (the (spaces sample_aspace 8))"
    by (simp add: validate_space_def get_space_def sample_aspace_def)
  moreover have "0xD1000018 \<noteq> kernel_space sample_aspace" by (simp add: sample_aspace_def)
  ultimately show ?thesis using address_space_destroy_returns_everything [OF sample_aspace_ok] by fastforce
qed

end
