(* ===== verification/Kstring.thy ===== *)
theory Kstring
  imports Byte_Memory "HOL-Library.Sublist"
begin

text \<open>
  The string routines of \<open>kernel/lib/mem.c\<close> over byte-addressed memory. A C string is a run of
  bytes up to the first zero; a loop that looks for that zero returns \<^const>\<open>None\<close> if there is
  none. The lemmas relate each routine to a function on the list of bytes of its arguments.
\<close>

section \<open>The routines\<close>

partial_function (option) kstrlen_loop :: "memory \<Rightarrow> u32 \<Rightarrow> u32 \<Rightarrow> u32 option" where
  "kstrlen_loop m text len = (if m (text + len) \<noteq> 0 then kstrlen_loop m text (len + 1) else Some len)"

definition kstrlen :: "memory \<Rightarrow> u32 \<Rightarrow> u32 option" where
  "kstrlen m text = (if text = 0 then Some 0 else kstrlen_loop m text 0)"

partial_function (option) kstrcmp_loop :: "memory \<Rightarrow> u32 \<Rightarrow> u32 \<Rightarrow> int option" where
  "kstrcmp_loop m left right =
     (if m left \<noteq> 0 \<and> m right \<noteq> 0
      then if m left \<noteq> m right then Some (uint (m left) - uint (m right))
           else kstrcmp_loop m (left + 1) (right + 1)
      else Some (uint (m left) - uint (m right)))"

definition kstrcmp :: "memory \<Rightarrow> u32 \<Rightarrow> u32 \<Rightarrow> int option" where
  "kstrcmp m left right =
     (if left = 0 \<and> right = 0 then Some 0
      else if left = 0 then Some (- 1)
      else if right = 0 then Some 1
      else kstrcmp_loop m left right)"

fun kstrncmp_loop :: "memory \<Rightarrow> u32 \<Rightarrow> u32 \<Rightarrow> nat list \<Rightarrow> int" where
  "kstrncmp_loop m left right [] = 0"
| "kstrncmp_loop m left right (i # is) =
     (let a = m (left + word_of_nat i); b = m (right + word_of_nat i) in
      if a \<noteq> b then uint a - uint b
      else if a = 0 then 0
      else kstrncmp_loop m left right is)"

definition kstrncmp :: "memory \<Rightarrow> u32 \<Rightarrow> u32 \<Rightarrow> u32 \<Rightarrow> int" where
  "kstrncmp m left right count =
     (if count = 0 then 0
      else if left = 0 \<and> right = 0 then 0
      else if left = 0 then - 1
      else if right = 0 then 1
      else kstrncmp_loop m left right [0..<unat count])"

partial_function (option) kstrcpy_loop :: "memory \<Rightarrow> u32 \<Rightarrow> u32 \<Rightarrow> memory option" where
  "kstrcpy_loop m dest src =
     (if m src \<noteq> 0 then kstrcpy_loop (m(dest := m src)) (dest + 1) (src + 1) else Some (m(dest := 0)))"

definition kstrcpy :: "memory \<Rightarrow> u32 \<Rightarrow> u32 \<Rightarrow> (u32 \<times> memory) option" where
  "kstrcpy m dest src =
     (if dest = 0 then Some (0, m)
      else if src = 0 then Some (dest, m(dest := 0))
      else map_option (\<lambda>m'. (dest, m')) (kstrcpy_loop m dest src))"

partial_function (option) kstrlcpy_loop :: "memory \<Rightarrow> u32 \<Rightarrow> u32 \<Rightarrow> u32 \<Rightarrow> u32 \<Rightarrow> (u32 \<times> memory) option" where
  "kstrlcpy_loop m dest src dest_size copy_len =
     (if copy_len + 1 < dest_size \<and> m (src + copy_len) \<noteq> 0
      then kstrlcpy_loop (m(dest + copy_len := m (src + copy_len))) dest src dest_size (copy_len + 1)
      else Some (copy_len, m))"

definition kstrlcpy :: "memory \<Rightarrow> u32 \<Rightarrow> u32 \<Rightarrow> u32 \<Rightarrow> (u32 \<times> memory) option" where
  "kstrlcpy m dest src dest_size =
     Option.bind (if src \<noteq> 0 then kstrlen_loop m src 0 else Some 0) (\<lambda>src_len.
     if dest_size = 0 \<or> dest = 0 then Some (src_len, m)
     else if src = 0 then Some (0, m(dest := 0))
     else Option.bind (kstrlcpy_loop m dest src dest_size 0) (\<lambda>(copy_len, m1).
       Some (src_len, m1(dest + copy_len := 0))))"

definition kchar_is_space :: "u8 \<Rightarrow> bool" where
  "kchar_is_space ch \<longleftrightarrow> ch = 0x20 \<or> ch = 0x09 \<or> ch = 0x0A \<or> ch = 0x0D \<or> ch = 0x0B \<or> ch = 0x0C"

definition kchar_is_digit :: "u8 \<Rightarrow> bool" where
  "kchar_is_digit ch \<longleftrightarrow> sint ch \<ge> 0x30 \<and> sint ch \<le> 0x39"

definition kchar_is_alpha :: "u8 \<Rightarrow> bool" where
  "kchar_is_alpha ch \<longleftrightarrow> (sint ch \<ge> 0x61 \<and> sint ch \<le> 0x7A) \<or> (sint ch \<ge> 0x41 \<and> sint ch \<le> 0x5A)"

section \<open>Strings as lists of bytes\<close>

text \<open>\<open>cstr m a s\<close>: the zero-terminated string at \<open>a\<close> has the bytes \<open>s\<close>.\<close>

primrec cstr :: "memory \<Rightarrow> u32 \<Rightarrow> u8 list \<Rightarrow> bool" where
  "cstr m a [] \<longleftrightarrow> m a = 0"
| "cstr m a (c # cs) \<longleftrightarrow> m a = c \<and> c \<noteq> 0 \<and> cstr m (a + 1) cs"

fun strcmp :: "u8 list \<Rightarrow> u8 list \<Rightarrow> int" where
  "strcmp [] [] = 0"
| "strcmp [] (b # bs) = - uint b"
| "strcmp (a # as) [] = uint a"
| "strcmp (a # as) (b # bs) = (if a = b then strcmp as bs else uint a - uint b)"

lemma cstr_nonzero: "cstr m a s \<Longrightarrow> 0 \<notin> set s"
  by (induction s arbitrary: a) auto

lemma cstr_cong: "cstr m a s \<Longrightarrow> (\<And>i. i \<le> length s \<Longrightarrow> m' (a + word_of_nat i) = m (a + word_of_nat i)) \<Longrightarrow> cstr m' a s"
proof (induction s arbitrary: a)
  case Nil
  from Nil(2) [of 0] Nil(1) show ?case by simp
next
  case (Cons c s)
  have "m' (a + 1 + word_of_nat i) = m (a + 1 + word_of_nat i)" if "i \<le> length s" for i
    using Cons.prems(2) [of "Suc i"] that by (simp add: add.assoc)
  with Cons.prems(2) [of 0] Cons.prems(1) Cons.IH [of "a + 1"] show ?case by simp
qed

lemma cstr_nth: "cstr m a s \<Longrightarrow> i < length s \<Longrightarrow> m (a + word_of_nat i) = s ! i"
proof (induction s arbitrary: a i)
  case (Cons c s)
  then show ?case using Cons.IH [of "a + 1" "i - 1"] by (cases i) (auto simp: add.assoc)
qed simp

lemma cstr_end: "cstr m a s \<Longrightarrow> m (a + word_of_nat (length s)) = 0"
proof (induction s arbitrary: a)
  case (Cons c s)
  then show ?case using Cons.IH [of "a + 1"] by (simp add: add.assoc)
qed simp

lemma strcmp_eq_0: "0 \<notin> set s \<Longrightarrow> 0 \<notin> set t \<Longrightarrow> strcmp s t = 0 \<longleftrightarrow> s = t"
proof (induction s t rule: strcmp.induct)
  case (4 a as b bs)
  have "uint a - uint b \<noteq> 0" if "a \<noteq> b" using that by (simp add: word_uint_eq_iff)
  with 4 show ?case by auto
qed (auto simp: uint_0_iff)

lemma strcmp_less: "0 \<notin> set s \<Longrightarrow> 0 \<notin> set t \<Longrightarrow> strcmp s t < 0 \<longleftrightarrow> (s, t) \<in> lexord {(x, y). x < y}"
proof (induction s t rule: strcmp.induct)
  case (2 b bs)
  then have "0 < uint b" by (simp add: word_neq_0_conv word_less_def)
  then show ?case by simp
next
  case (4 a as b bs)
  then show ?case by (auto simp: word_less_def)
qed simp_all

lemma kstrlen_loop_cstr:
  assumes "cstr m (a + k) s"
  shows "kstrlen_loop m a k = Some (k + word_of_nat (length s))"
  using assms
proof (induction s arbitrary: k)
  case Nil
  then show ?case by (subst kstrlen_loop.simps) simp
next
  case (Cons c s)
  then have "kstrlen_loop m a k = kstrlen_loop m a (k + 1)" by (subst kstrlen_loop.simps) simp
  with Cons.IH [of "k + 1"] Cons.prems show ?case by (simp add: add.assoc)
qed

lemma kstrcmp_loop_cstr:
  assumes "cstr m a s" and "cstr m b t"
  shows "kstrcmp_loop m a b = Some (strcmp s t)"
  using assms
  by (induction s t arbitrary: a b rule: strcmp.induct) (subst kstrcmp_loop.simps, simp)+

lemma kstrncmp_loop_cstr:
  assumes "cstr m (a + word_of_nat k) s" and "cstr m (b + word_of_nat k) t"
  shows "kstrncmp_loop m a b [k..<k + n] = strcmp (take n s) (take n t)"
  using assms
proof (induction n arbitrary: k s t)
  case (Suc n)
  have "[k..<k + Suc n] = k # [Suc k..<Suc k + n]" by (simp add: upt_conv_Cons del: upt_Suc)
  then show ?case using Suc.IH [of "Suc k" "tl s" "tl t"] Suc.prems
    by (cases s; cases t) (auto simp: Let_def ac_simps simp del: upt_Suc)
qed simp


section \<open>Copying\<close>

text \<open>Memory with the bytes \<open>bs\<close> written from \<open>d\<close> on.\<close>

definition overlay :: "memory \<Rightarrow> u32 \<Rightarrow> u8 list \<Rightarrow> memory" where
  "overlay m d bs x = (if unat (x - d) < length bs then bs ! unat (x - d) else m x)"

lemma overlay_Nil [simp]: "overlay m d [] = m"
  by (simp add: overlay_def fun_eq_iff)

lemma overlay_snoc: "length bs < 2 ^ 32 \<Longrightarrow> (overlay m d bs)(d + word_of_nat (length bs) := b) = overlay m d (bs @ [b])"
  by (rule ext) (auto simp: overlay_def word_of_nat_eq_diff_iff nth_append)

lemma overlay_outside: "(\<And>i. i < length bs \<Longrightarrow> x \<noteq> d + word_of_nat i) \<Longrightarrow> overlay m d bs x = m x"
proof -
  assume "\<And>i. i < length bs \<Longrightarrow> x \<noteq> d + word_of_nat i"
  from this [of "unat (x - d)"] show ?thesis by (auto simp: overlay_def)
qed

lemma cstr_overlay:
  assumes "0 \<notin> set s" and "length s < 2 ^ 32"
  shows "cstr (overlay m d (s @ [0])) d s"
proof -
  have "cstr m' (d + word_of_nat (length s - length t)) t"
    if "\<And>i. i \<le> length s \<Longrightarrow> m' (d + word_of_nat i) = (s @ [0]) ! i" "suffix t s" for t m'
    using that(2)
  proof (induction t)
    case Nil
    with that(1) [of "length s"] show ?case by simp
  next
    case (Cons c t)
    then obtain u where s: "s = u @ c # t" by (auto simp: suffix_def)
    then have "suffix t s" by (auto simp: suffix_def)
    moreover have "m' (d + word_of_nat (length u)) = c" using that(1) [of "length u"] s by (simp add: nth_append)
    ultimately show ?case using Cons.IH s assms(1) by (simp add: ac_simps)
  qed
  moreover have "overlay m d (s @ [0]) (d + word_of_nat i) = (s @ [0]) ! i" if "i \<le> length s" for i
    using that assms(2) by (simp add: overlay_def unat_of_nat take_bit_eq_mod)
  ultimately show ?thesis by fastforce
qed

lemma take_Suc_snoc: "k < length s \<Longrightarrow> take (Suc k) s = take k s @ [s ! k]"
  by (rule take_Suc_conv_app_nth)

lemma overlay_take_step:
  assumes s: "cstr m src s" and k: "k < length s" "length s < 2 ^ 32"
    and apart: "\<And>i j. i < n \<Longrightarrow> j \<le> length s \<Longrightarrow> d + word_of_nat i \<noteq> src + word_of_nat j" and n: "k \<le> n"
  shows "(overlay m d (take k s))(d + word_of_nat k := overlay m d (take k s) (src + word_of_nat k)) = overlay m d (take (Suc k) s)"
    and "overlay m d (take k s) (src + word_of_nat k) = s ! k"
proof -
  show c: "overlay m d (take k s) (src + word_of_nat k) = s ! k"
    by (subst overlay_outside) (use apart k n cstr_nth [OF s k(1)] in \<open>auto dest: sym\<close>)
  show "(overlay m d (take k s))(d + word_of_nat k := overlay m d (take k s) (src + word_of_nat k)) = overlay m d (take (Suc k) s)"
    unfolding c take_Suc_snoc [OF k(1)] using overlay_snoc [of "take k s" m d "s ! k"] k by simp
qed

lemma kstrcpy_loop_cstr:
  assumes s: "cstr m src s" and len: "length s < 2 ^ 32"
    and apart: "\<And>i j. i \<le> length s \<Longrightarrow> j \<le> length s \<Longrightarrow> d + word_of_nat i \<noteq> src + word_of_nat j" and k: "k \<le> length s"
  shows "kstrcpy_loop (overlay m d (take k s)) (d + word_of_nat k) (src + word_of_nat k) = Some (overlay m d (s @ [0]))"
  using k
proof (induction "length s - k" arbitrary: k)
  case 0
  then have "k = length s" by simp
  moreover have "overlay m d s (src + word_of_nat (length s)) = 0"
    by (subst overlay_outside) (use apart cstr_end [OF s] in \<open>auto dest: sym\<close>)
  ultimately show ?case by (subst kstrcpy_loop.simps) (simp add: overlay_snoc [OF len])
next
  case (Suc x)
  then have k: "k < length s" by simp
  have "d + word_of_nat i \<noteq> src + word_of_nat j" if "i < Suc (length s)" "j \<le> length s" for i j using apart that by simp
  note step = overlay_take_step [OF s k len this less_imp_le [OF less_SucI [OF k]]]
  have "overlay m d (take k s) (src + word_of_nat k) \<noteq> 0"
    using step(2) cstr_nonzero [OF s] nth_mem [OF k] by metis
  then have "kstrcpy_loop (overlay m d (take k s)) (d + word_of_nat k) (src + word_of_nat k)
    = kstrcpy_loop (overlay m d (take (Suc k) s)) (d + word_of_nat (Suc k)) (src + word_of_nat (Suc k))"
    using step(1) by (subst kstrcpy_loop.simps) (simp add: add.assoc add.commute [of 1])
  also have "\<dots> = Some (overlay m d (s @ [0]))" by (rule Suc.hyps(1)) (use Suc.hyps(2) k in auto)
  finally show ?case .
qed

lemma kstrlcpy_loop_cstr:
  assumes s: "cstr m src s" and len: "length s < 2 ^ 32" and n: "n \<noteq> 0"
    and apart: "\<And>i j. i < unat n \<Longrightarrow> j \<le> length s \<Longrightarrow> d + word_of_nat i \<noteq> src + word_of_nat j"
  defines "c \<equiv> min (length s) (unat n - 1)"
  assumes k: "k \<le> c"
  shows "kstrlcpy_loop (overlay m d (take k s)) d src n (word_of_nat k) = Some (word_of_nat c, overlay m d (take c s))"
  using k
proof (induction "c - k" arbitrary: k)
  case 0
  then have "k = c" by simp
  have "\<not> (word_of_nat c + 1 < n \<and> overlay m d (take c s) (src + word_of_nat c) \<noteq> 0)"
  proof (cases "c = length s")
    case True
    have "overlay m d (take c s) (src + word_of_nat c) = 0"
      by (subst overlay_outside) (use apart cstr_end [OF s] True c_def n in \<open>auto dest: sym\<close>)
    then show ?thesis by simp
  next
    case False
    then have "c = unat n - 1" by (simp add: c_def)
    then have "c = unat (n - 1)" using unat_minus_one [OF n] by simp
    then have "word_of_nat c + 1 = n" by simp
    then show ?thesis by simp
  qed
  with \<open>k = c\<close> show ?case by (subst kstrlcpy_loop.simps) (simp only: if_False)
next
  case (Suc x)
  then have k: "k < length s" "k + 1 < unat n" by (auto simp: c_def)
  then have lt: "(word_of_nat k :: u32) + 1 < n" by (simp add: word_less_nat_alt unat_word_ariths unat_of_nat take_bit_eq_mod)
  note step = overlay_take_step [OF s k(1) len apart less_imp_le [OF Suc_lessD [OF k(2) [unfolded Suc_eq_plus1 [symmetric]]]]]
  have "overlay m d (take k s) (src + word_of_nat k) \<noteq> 0"
    using step(2) cstr_nonzero [OF s] nth_mem [OF k(1)] by metis
  with lt have "kstrlcpy_loop (overlay m d (take k s)) d src n (word_of_nat k) = kstrlcpy_loop (overlay m d (take (Suc k) s)) d src n (word_of_nat (Suc k))"
    using step(1) by (subst kstrlcpy_loop.simps) (simp add: add.commute)
  also have "\<dots> = Some (word_of_nat c, overlay m d (take c s))"
    by (rule Suc.hyps(1)) (use Suc.hyps(2) in auto)
  finally show ?case .
qed


text \<open>
  C24. Comparing strings is the comparison of their bytes up to the first difference: \<open>kstrcmp\<close> returns
  for two strings what the reference function on byte lists returns, which is 0 exactly for equal
  strings and negative exactly when the first is lexicographically smaller.
\<close>

theorem kstrcmp_is_lexicographic:
  assumes "cstr m left s" and "cstr m right t" and "left \<noteq> 0" and "right \<noteq> 0"
  shows "kstrcmp m left right = Some (strcmp s t) \<and> (strcmp s t = 0 \<longleftrightarrow> s = t)
    \<and> (strcmp s t < 0 \<longleftrightarrow> (s, t) \<in> lexord {(x, y). x < y})
    \<and> kstrncmp m left right n = strcmp (take (unat n) s) (take (unat n) t)"
proof -
  note nz = cstr_nonzero [OF assms(1)] cstr_nonzero [OF assms(2)]
  have "kstrncmp m left right n = strcmp (take (unat n) s) (take (unat n) t)"
    using kstrncmp_loop_cstr [of m left 0 s right t "unat n"] assms by (simp add: kstrncmp_def)
  then show ?thesis
    using kstrcmp_loop_cstr [OF assms(1,2)] strcmp_eq_0 [OF nz] strcmp_less [OF nz] assms(3,4) by (simp add: kstrcmp_def)
qed

text \<open>
  C25. \<open>kstrlcpy\<close> never writes outside the destination buffer: copying a string into a buffer of
  \<open>n\<close> bytes that does not overlap it returns the length of the string, leaves at most \<open>n - 1\<close> of
  its first bytes and a terminating zero in the buffer, and changes no other byte of memory.
\<close>

theorem kstrlcpy_stays_in_buffer:
  assumes "cstr m src s" and "length s < 2 ^ 32" and "n \<noteq> 0" and "dest \<noteq> 0" and "src \<noteq> 0"
    and "\<And>i j. i < unat n \<Longrightarrow> j \<le> length s \<Longrightarrow> dest + word_of_nat i \<noteq> src + word_of_nat j"
  shows "\<exists>m'. kstrlcpy m dest src n = Some (word_of_nat (length s), m')
    \<and> m' = overlay m dest (take (unat n - 1) s @ [0])
    \<and> cstr m' dest (take (unat n - 1) s) \<and> (\<forall>x. x - dest \<ge> n \<longrightarrow> m' x = m x)"
proof -
  let ?c = "min (length s) (unat n - 1)" and ?u = "take (unat n - 1) s"
  have "kstrlcpy_loop m dest src n 0 = Some (word_of_nat ?c, overlay m dest (take ?c s))"
    using kstrlcpy_loop_cstr [OF assms(1-3,6), where k = 0] by simp
  moreover have "take ?c s = ?u" by (simp add: min_def)
  moreover have "(overlay m dest ?u)(dest + word_of_nat ?c := 0) = overlay m dest (?u @ [0])"
    using overlay_snoc [of ?u m dest 0] assms(2) by simp
  ultimately have "kstrlcpy m dest src n = Some (word_of_nat (length s), overlay m dest (?u @ [0]))"
    using kstrlen_loop_cstr [of m src 0 s] assms(1,3-5) by (simp add: kstrlcpy_def)
  moreover have "cstr (overlay m dest (?u @ [0])) dest ?u"
    using cstr_nonzero [OF assms(1)] assms(2) by (intro cstr_overlay) (auto dest: in_set_takeD)
  moreover have "overlay m dest (?u @ [0]) x = m x" if "x - dest \<ge> n" for x
  proof -
    have "length (?u @ [0]) \<le> unat n" using assms(3) by (simp add: word_neq_0_conv word_less_nat_alt)
    with that have "\<not> unat (x - dest) < length (?u @ [0])" by (simp add: word_le_nat_alt)
    then show ?thesis by (simp only: overlay_def if_False)
  qed
  ultimately show ?thesis by blast
qed

definition sample_memory :: memory where
  "sample_memory = overlay (\<lambda>_. 0) 0x1000 [0x61, 0x62, 0x63, 0x64, 0, 0x61, 0x62, 0x7A, 0]"

theorem kstrcmp_is_lexicographic_witness:
  "kstrcmp sample_memory 0x1000 0x1005 = Some (strcmp [0x61, 0x62, 0x63, 0x64] [0x61, 0x62, 0x7A])
    \<and> strcmp [0x61, 0x62, 0x63, 0x64] [0x61, 0x62, 0x7A] < 0"
  using kstrcmp_is_lexicographic [of sample_memory "0x1000" "[0x61, 0x62, 0x63, 0x64]" "0x1005" "[0x61, 0x62, 0x7A]" 2]
  by (simp add: sample_memory_def overlay_def)

lemma sample_cstr: "cstr sample_memory 0x1000 [0x61, 0x62, 0x63, 0x64]"
  by (simp add: sample_memory_def overlay_def)

theorem kstrlcpy_stays_in_buffer_witness:
  "\<exists>m'. kstrlcpy sample_memory 0x2000 0x1000 3 = Some (4, m') \<and> cstr m' 0x2000 [0x61, 0x62]"
proof -
  have "(0x2000 :: u32) + word_of_nat i \<noteq> 0x1000 + word_of_nat j" if "i < unat (3 :: u32)" "j \<le> length [0x61, 0x62, 0x63, 0x64 :: u8]" for i j
  proof -
    have "i \<in> {0, 1, 2}" "j \<in> {0, 1, 2, 3, 4}" using that by auto
    then show ?thesis by auto
  qed
  from kstrlcpy_stays_in_buffer [of sample_memory "0x1000" "[0x61, 0x62, 0x63, 0x64]" 3 "0x2000", OF sample_cstr _ _ _ _ this]
  show ?thesis by simp
qed

end
