(* ===== verification/Vfs.thy ===== *)
theory Vfs
  imports Address_Space Kstring
begin

text \<open>
  The read-only RAM file system, \<open>kernel/vfs.c\<close>: a constant table of nodes and open files on the
  kernel heap. A path is the list of bytes of a C string or \<^const>\<open>None\<close> for a null pointer. The
  result parameters \<open>out_file\<close>, \<open>out_read\<close>, \<open>out_position\<close> and \<open>out_stat\<close> are components of
  the result; the bytes \<open>vfs_read\<close> copies into the caller's buffer are returned as a list. The
  lemmas show that reading in pieces of any sizes yields the file, and what seeking does.
\<close>

section \<open>Nodes and files\<close>

abbreviation (input) VFS_OK :: int where "VFS_OK \<equiv> 0"
abbreviation (input) VFS_ERR_NOT_FOUND :: int where "VFS_ERR_NOT_FOUND \<equiv> - 1"
abbreviation (input) VFS_ERR_INVALID :: int where "VFS_ERR_INVALID \<equiv> - 2"
abbreviation (input) VFS_ERR_NO_MEMORY :: int where "VFS_ERR_NO_MEMORY \<equiv> - 3"
abbreviation (input) TOYIX_SEEK_SET :: u32 where "TOYIX_SEEK_SET \<equiv> 0"
abbreviation (input) TOYIX_SEEK_CUR :: u32 where "TOYIX_SEEK_CUR \<equiv> 1"
abbreviation (input) TOYIX_SEEK_END :: u32 where "TOYIX_SEEK_END \<equiv> 2"
abbreviation (input) VFS_NODE_REGULAR :: u32 where "VFS_NODE_REGULAR \<equiv> 1"
abbreviation (input) SIZEOF_VFS_FILE :: u32 where "SIZEOF_VFS_FILE \<equiv> 8"

definition bytes :: "string \<Rightarrow> u8 list" where
  "bytes s = map (\<lambda>c. word_of_nat (of_char c)) s"

record ramfs_node =
  rn_path :: "u8 list"
  rn_type :: u32
  rn_data :: "u8 list"
  rn_size :: u32

record vfs_file =
  vf_node :: ramfs_node
  vf_offset :: u32

record vfs_stat_t =
  vs_type :: u32
  vs_size :: u32

record vfs =
  vheap :: heap
  vfiles :: "u32 \<rightharpoonup> vfs_file"

definition readme_text :: "u8 list" where
  "readme_text = bytes (''Toyix RAMFS'' @ [CHR 0x0A] @ ''This file lives inside the kernel image.'' @ [CHR 0x0A]
     @ ''The first filesystem is read-only and memory-backed.'' @ [CHR 0x0A])"

definition programs_text :: "u8 list" where
  "programs_text = bytes (''demo'' @ [CHR 0x0A] @ ''counter'' @ [CHR 0x0A] @ ''shell'' @ [CHR 0x0A])"

definition ramfs_nodes :: "ramfs_node list" where
  "ramfs_nodes =
     [\<lparr>rn_path = bytes ''/README'', rn_type = VFS_NODE_REGULAR, rn_data = readme_text, rn_size = word_of_nat (length readme_text)\<rparr>,
      \<lparr>rn_path = bytes ''/programs'', rn_type = VFS_NODE_REGULAR, rn_data = programs_text, rn_size = word_of_nat (length programs_text)\<rparr>]"

definition ramfs_find :: "u8 list option \<Rightarrow> ramfs_node option" where
  "ramfs_find path = (case path of None \<Rightarrow> None | Some p \<Rightarrow> find (\<lambda>n. strcmp p (rn_path n) = 0) ramfs_nodes)"

definition vfs_open :: "u8 list option \<Rightarrow> vfs \<Rightarrow> (int \<times> u32 \<times> vfs) res option" where
  "vfs_open path v =
     (if path = None then Some (Inr (VFS_ERR_INVALID, 0, v))
      else case ramfs_find path of
        None \<Rightarrow> Some (Inr (VFS_ERR_NOT_FOUND, 0, v))
      | Some node \<Rightarrow>
          bindO (kmalloc SIZEOF_VFS_FILE (vheap v)) (\<lambda>(file, h).
          if file = 0 then Some (Inr (VFS_ERR_NO_MEMORY, 0, v\<lparr>vheap := h\<rparr>))
          else Some (Inr (VFS_OK, file, v\<lparr>vheap := h, vfiles := (vfiles v)(file \<mapsto> \<lparr>vf_node = node, vf_offset = 0\<rparr>)\<rparr>))))"

definition get_file :: "u32 \<Rightarrow> vfs \<Rightarrow> vfs_file res" where
  "get_file file v = (case vfiles v file of None \<Rightarrow> Inl (Fault ''vfs_file'') | Some f \<Rightarrow> Inr f)"

definition vfs_read :: "u32 \<Rightarrow> u32 \<Rightarrow> u32 \<Rightarrow> vfs \<Rightarrow> (int \<times> u8 list \<times> vfs) res" where
  "vfs_read file buffer len v =
     (if file = 0 \<or> buffer = 0 then Inr (VFS_ERR_INVALID, [], v)
      else if len = 0 then Inr (VFS_OK, [], v)
      else bindE (get_file file v) (\<lambda>f.
        if vf_offset f \<ge> rn_size (vf_node f) then Inr (VFS_OK, [], v)
        else
          (let remaining = rn_size (vf_node f) - vf_offset f;
               to_copy = (if len > remaining then remaining else len)
           in Inr (VFS_OK, take (unat to_copy) (drop (unat (vf_offset f)) (rn_data (vf_node f))),
                   v\<lparr>vfiles := (vfiles v)(file \<mapsto> f\<lparr>vf_offset := vf_offset f + to_copy\<rparr>)\<rparr>))))"

definition vfs_seek :: "u32 \<Rightarrow> int \<Rightarrow> u32 \<Rightarrow> vfs \<Rightarrow> (int \<times> u32 \<times> vfs) res" where
  "vfs_seek file offset whence v =
     (if file = 0 then Inr (VFS_ERR_INVALID, 0, v)
      else bindE (get_file file v) (\<lambda>f.
        case (if whence = TOYIX_SEEK_SET then Some 0
              else if whence = TOYIX_SEEK_CUR then Some (uint (vf_offset f))
              else if whence = TOYIX_SEEK_END then Some (uint (rn_size (vf_node f)))
              else None) of
          None \<Rightarrow> Inr (VFS_ERR_INVALID, 0, v)
        | Some base \<Rightarrow>
            (let next = base + offset in
             if next < 0 \<or> next > 0xFFFFFFFF then Inr (VFS_ERR_INVALID, 0, v)
             else Inr (VFS_OK, word_of_int next,
                       v\<lparr>vfiles := (vfiles v)(file \<mapsto> f\<lparr>vf_offset := word_of_int next\<rparr>)\<rparr>))))"

definition vfs_tell :: "u32 \<Rightarrow> vfs \<Rightarrow> u32 res" where
  "vfs_tell file v = (if file = 0 then Inr 0 else bindE (get_file file v) (\<lambda>f. Inr (vf_offset f)))"

definition vfs_size :: "u32 \<Rightarrow> vfs \<Rightarrow> u32 res" where
  "vfs_size file v = (if file = 0 then Inr 0 else bindE (get_file file v) (\<lambda>f. Inr (rn_size (vf_node f))))"

definition vfs_stat :: "u8 list option \<Rightarrow> int \<times> vfs_stat_t option" where
  "vfs_stat path =
     (if path = None then (VFS_ERR_INVALID, None)
      else case ramfs_find path of
        None \<Rightarrow> (VFS_ERR_NOT_FOUND, None)
      | Some node \<Rightarrow> (VFS_OK, Some \<lparr>vs_type = rn_type node, vs_size = rn_size node\<rparr>))"

definition vfs_close :: "u32 \<Rightarrow> vfs \<Rightarrow> vfs res" where
  "vfs_close file v =
     (if file = 0 then Inr v
      else bindE (kfree file (vheap v)) (\<lambda>h. Inr (v\<lparr>vheap := h, vfiles := (vfiles v)(file := None)\<rparr>)))"

section \<open>Reading and seeking\<close>

definition node_ok :: "ramfs_node \<Rightarrow> bool" where
  "node_ok n \<longleftrightarrow> rn_size n = word_of_nat (length (rn_data n)) \<and> length (rn_data n) < 2 ^ 32"

lemma ramfs_nodes_ok: "list_all node_ok ramfs_nodes"
  by (simp add: ramfs_nodes_def node_ok_def readme_text_def programs_text_def bytes_def)

lemma ramfs_find_ok: "ramfs_find p = Some n \<Longrightarrow> node_ok n"
  using ramfs_nodes_ok by (auto simp: ramfs_find_def find_Some_iff list_all_length split: option.splits)

lemma node_size: "node_ok n \<Longrightarrow> unat (rn_size n) = length (rn_data n)"
  by (simp add: node_ok_def unat_of_nat take_bit_eq_mod)

text \<open>Successive calls of \<open>vfs_read\<close>, with the bytes they return joined.\<close>

primrec vfs_reads :: "u32 \<Rightarrow> u32 \<Rightarrow> u32 list \<Rightarrow> vfs \<Rightarrow> (u8 list \<times> vfs) res" where
  "vfs_reads file buffer [] v = Inr ([], v)"
| "vfs_reads file buffer (n # ns) v =
     bindE (vfs_read file buffer n v) (\<lambda>(rc, bs, v1). bindE (vfs_reads file buffer ns v1) (\<lambda>(bs', v2). Inr (bs @ bs', v2)))"

lemma vfs_read_law:
  assumes f: "vfiles v file = Some f" and n: "node_ok (vf_node f)" and nz: "file \<noteq> 0" "buffer \<noteq> 0"
  defines "rest \<equiv> drop (unat (vf_offset f)) (rn_data (vf_node f))"
  shows "\<exists>off. vfs_read file buffer len v = Inr (VFS_OK, take (unat len) rest, v\<lparr>vfiles := (vfiles v)(file \<mapsto> f\<lparr>vf_offset := off\<rparr>)\<rparr>)
    \<and> unat off = unat (vf_offset f) + length (take (unat len) rest)"
proof -
  note size = node_size [OF n]
  have same: "v\<lparr>vfiles := (vfiles v)(file \<mapsto> f\<lparr>vf_offset := vf_offset f\<rparr>)\<rparr> = v" using f by (simp add: fun_upd_idem)
  consider "len = 0" | "len \<noteq> 0" "vf_offset f \<ge> rn_size (vf_node f)" | "len \<noteq> 0" "vf_offset f < rn_size (vf_node f)" by fastforce
  then show ?thesis
  proof cases
    case 1
    then show ?thesis using nz same by (intro exI [of _ "vf_offset f"]) (simp add: vfs_read_def)
  next
    case 2
    then have "rest = []" using size by (simp add: rest_def word_le_nat_alt)
    with 2 show ?thesis using nz same f by (intro exI [of _ "vf_offset f"]) (simp add: vfs_read_def get_file_def)
  next
    case 3
    let ?n = "if len > rn_size (vf_node f) - vf_offset f then rn_size (vf_node f) - vf_offset f else len"
    have rem: "unat (rn_size (vf_node f) - vf_offset f) = length rest" using 3 size by (simp add: rest_def unat_sub less_imp_le)
    then have cnt: "unat ?n = min (unat len) (length rest)" by (auto simp: word_less_nat_alt)
    then have "take (unat ?n) rest = take (unat len) rest" by (simp add: min_def)
    moreover have "unat (vf_offset f + ?n) = unat (vf_offset f) + unat ?n"
    proof (rule unat_plus_simple [THEN iffD1], unfold word_le_nat_alt)
      have "unat (vf_offset f) + length rest < 2 ^ 32" using 3 size n by (simp add: rest_def node_ok_def word_less_nat_alt)
      then show "unat (vf_offset f) \<le> unat (vf_offset f + ?n)" using cnt by (simp add: unat_word_ariths)
    qed
    ultimately show ?thesis using 3 nz f cnt
      by (intro exI [of _ "vf_offset f + ?n"]) (simp add: vfs_read_def get_file_def Let_def rest_def not_le)
  qed
qed

lemma vfs_reads_law:
  assumes "vfiles v file = Some f" and "node_ok (vf_node f)" and "file \<noteq> 0" "buffer \<noteq> 0"
  shows "\<exists>v'. vfs_reads file buffer ns v = Inr (take (sum_list (map unat ns)) (drop (unat (vf_offset f)) (rn_data (vf_node f))), v')"
  using assms
proof (induction ns arbitrary: v f)
  case (Cons n ns)
  let ?rest = "drop (unat (vf_offset f)) (rn_data (vf_node f))"
  from vfs_read_law [OF Cons.prems, of n] obtain off where
    r: "vfs_read file buffer n v = Inr (VFS_OK, take (unat n) ?rest, v\<lparr>vfiles := (vfiles v)(file \<mapsto> f\<lparr>vf_offset := off\<rparr>)\<rparr>)"
    and off: "unat off = unat (vf_offset f) + length (take (unat n) ?rest)" by blast
  let ?v = "v\<lparr>vfiles := (vfiles v)(file \<mapsto> f\<lparr>vf_offset := off\<rparr>)\<rparr>"
  obtain v' where "vfs_reads file buffer ns ?v = Inr (take (sum_list (map unat ns)) (drop (unat off) (rn_data (vf_node f))), v')"
    using Cons.IH [of ?v "f\<lparr>vf_offset := off\<rparr>"] Cons.prems by auto
  moreover have "drop (unat off) (rn_data (vf_node f)) = drop (unat n) ?rest"
    by (cases "unat n \<le> length ?rest") (simp_all add: off add.commute)
  ultimately show ?case using r by (simp add: take_add)
qed simp


lemma ramfs_find_path:
  assumes "ramfs_find (Some p) = Some n" and "0 \<notin> set p"
  shows "rn_path n = p" and "n \<in> set ramfs_nodes"
proof -
  have n: "n \<in> set ramfs_nodes" "strcmp p (rn_path n) = 0" using assms(1) by (auto simp: ramfs_find_def find_Some_iff)
  have "list_all (\<lambda>n. 0 \<notin> set (rn_path n)) ramfs_nodes" by (simp add: ramfs_nodes_def bytes_def)
  then have "0 \<notin> set (rn_path n)" using n(1) by (auto simp: list_all_iff)
  with n strcmp_eq_0 [OF assms(2)] show "rn_path n = p" "n \<in> set ramfs_nodes" by auto
qed

text \<open>
  C26. Opening a file and reading it in pieces of any sizes yields the file from its start: the pieces
  joined are the first bytes of the data of the node with that path, as many as were asked for or
  all there are, and \<open>vfs_stat\<close> of the path reports that node's type and number of bytes.
\<close>

theorem vfs_read_in_pieces:
  assumes "vfs_open (Some p) v = Some (Inr (VFS_OK, file, v1))" and "0 \<notin> set p" and "buffer \<noteq> 0"
  shows "\<exists>n\<in>set ramfs_nodes. rn_path n = p
    \<and> (\<exists>v2. vfs_reads file buffer lengths v1 = Inr (take (sum_list (map unat lengths)) (rn_data n), v2))
    \<and> vfs_stat (Some p) = (VFS_OK, Some \<lparr>vs_type = rn_type n, vs_size = word_of_nat (length (rn_data n))\<rparr>)"
proof -
  from assms(1) obtain n where n: "ramfs_find (Some p) = Some n"
    and f: "vfiles v1 file = Some \<lparr>vf_node = n, vf_offset = 0\<rparr>" "file \<noteq> 0"
    by (auto simp: vfs_open_def bindO_eq_Inr_iff split: option.splits if_splits prod.splits)
  note path = ramfs_find_path [OF n assms(2)] and ok = ramfs_find_ok [OF n]
  from vfs_reads_law [OF f(1) _ f(2) assms(3), of lengths] ok
  have "\<exists>v2. vfs_reads file buffer lengths v1 = Inr (take (sum_list (map unat lengths)) (rn_data n), v2)" by simp
  moreover have "vfs_stat (Some p) = (VFS_OK, Some \<lparr>vs_type = rn_type n, vs_size = word_of_nat (length (rn_data n))\<rparr>)"
    using n ok by (simp add: vfs_stat_def node_ok_def)
  ultimately show ?thesis using path by blast
qed

text \<open>
  C27. Seeking computes the new position exactly, without wrap-around: for each of the three origins
  the position becomes origin plus offset when that lies between 0 and 2^32 - 1, and is then what
  \<open>vfs_tell\<close> reports; otherwise, and for an unknown origin, the call is refused and nothing changes.
\<close>

theorem vfs_seek_exact:
  fixes whence :: u32
  assumes "vfiles v file = Some f" and "file \<noteq> 0"
  defines "base \<equiv> (if whence = TOYIX_SEEK_SET then 0 else if whence = TOYIX_SEEK_CUR then uint (vf_offset f) else uint (rn_size (vf_node f)))"
  shows "if whence \<le> TOYIX_SEEK_END \<and> 0 \<le> base + offset \<and> base + offset < 2 ^ 32
    then \<exists>pos v'. vfs_seek file offset whence v = Inr (VFS_OK, pos, v') \<and> uint pos = base + offset
      \<and> vfs_tell file v' = Inr pos \<and> v' = v\<lparr>vfiles := (vfiles v)(file \<mapsto> f\<lparr>vf_offset := pos\<rparr>)\<rparr>
    else vfs_seek file offset whence v = Inr (VFS_ERR_INVALID, 0, v)"
proof -
  have w: "whence \<le> 2 \<longleftrightarrow> whence = 0 \<or> whence = 1 \<or> whence = 2"
  proof -
    have "whence \<le> 2 \<longleftrightarrow> unat whence = 0 \<or> unat whence = 1 \<or> unat whence = 2" by (auto simp: word_le_nat_alt)
    then show ?thesis by (auto simp: word_unat_eq_iff)
  qed
  have u: "uint (word_of_int (base + offset) :: u32) = base + offset" if "0 \<le> base + offset" "base + offset < 2 ^ 32"
    using that by (subst uint_word_of_int) simp
  have eq: "vfs_seek file offset whence v = (if whence \<le> 2 \<and> \<not> (base + offset < 0 \<or> base + offset > 0xFFFFFFFF)
      then Inr (VFS_OK, word_of_int (base + offset), v\<lparr>vfiles := (vfiles v)(file \<mapsto> f\<lparr>vf_offset := word_of_int (base + offset)\<rparr>)\<rparr>)
      else Inr (VFS_ERR_INVALID, 0, v))"
    unfolding w using assms(1,2)
    by (cases "whence = 0"; cases "whence = 1"; cases "whence = 2") (simp_all add: vfs_seek_def get_file_def base_def Let_def)
  show ?thesis
  proof (cases "whence \<le> 2 \<and> 0 \<le> base + offset \<and> base + offset < 2 ^ 32")
    case True
    then have "\<not> (base + offset < 0 \<or> base + offset > 0xFFFFFFFF)" by auto
    then show ?thesis using True u assms(2) by (simp only: eq) (simp add: vfs_tell_def get_file_def)
  qed (use eq in auto)
qed

text \<open>
  C28. Opening and closing leaves no trace. When the heap has a free block that holds a file object,
  opening an existing path succeeds, closing the file succeeds, and afterwards the live heap
  allocations are those from before and the file object is gone.
\<close>

theorem vfs_open_close:
  assumes "heap_inv (vheap v) bs" and "first_fit 8 bs \<noteq> None" and "ramfs_find path = Some node"
  shows "\<exists>file v1 v2 bs'. vfs_open path v = Some (Inr (VFS_OK, file, v1)) \<and> vfs_close file v1 = Inr v2
    \<and> heap_inv (vheap v2) bs' \<and> live BASE bs' = live BASE bs \<and> vfiles v2 = (vfiles v)(file := None)"
proof -
  have a8: "align_up_size 8 8 = 8" by (simp add: align_up_size_def)
  then obtain p h bs1 sz where p: "kmalloc 8 (vheap v) = Some (Inr (p, h))" "heap_inv h bs1" "new_block 8 p sz bs bs1"
    using kmalloc_room [OF assms(1), of 8] assms(2) by auto
  then have live: "live BASE bs1 = insert (unat p, sz) (live BASE bs)" "(unat p, sz) \<in> live BASE bs1" "(unat p, sz) \<notin> live BASE bs"
    by (auto simp: new_block_def)
  from kfree_result [OF p(2) live(2)] obtain h2 bs2 where
    h2: "kfree p h = Inr h2" "heap_inv h2 bs2" "live BASE bs2 = live BASE bs1 - {(unat p, sz)}" by auto
  have "path \<noteq> None" using assms(3) by (auto simp: ramfs_find_def split: option.splits)
  moreover have "p \<noteq> 0" by (rule live_pointer_nonzero [OF live(2)])
  ultimately show ?thesis using p(1) h2 live assms(3)
    by (auto simp: vfs_open_def vfs_close_def)
qed

definition sample_vfs :: vfs where
  "sample_vfs = \<lparr>vheap = sample_heap, vfiles = [0x100 \<mapsto> \<lparr>vf_node = ramfs_nodes ! 1, vf_offset = 4\<rparr>]\<rparr>"

lemma sample_vfs_heap: "heap_inv (vheap sample_vfs) [(4072, True)]" "first_fit 8 [(4072, True)] \<noteq> None"
  using sample_heap_inv by (simp_all add: sample_vfs_def first_fit_None)

lemma sample_ramfs_find: "ramfs_find (Some (bytes ''/programs'')) = Some (ramfs_nodes ! 1)"
  by (simp add: ramfs_find_def ramfs_nodes_def bytes_def)

lemma sample_vfs_open: "\<exists>file v1. vfs_open (Some (bytes ''/programs'')) sample_vfs = Some (Inr (VFS_OK, file, v1))"
proof -
  obtain p h bs sz where p: "kmalloc 8 (vheap sample_vfs) = Some (Inr (p, h))" "new_block 8 p sz [(4072, True)] bs"
    using kmalloc_room [OF sample_vfs_heap(1), of 8] sample_vfs_heap(2) by (auto simp: align_up_size_def)
  then have "p \<noteq> 0" using live_pointer_nonzero by (auto simp: new_block_def)
  with p(1) sample_ramfs_find show ?thesis by (simp add: vfs_open_def)
qed

theorem vfs_read_in_pieces_witness:
  "\<exists>file v1 v2. vfs_open (Some (bytes ''/programs'')) sample_vfs = Some (Inr (VFS_OK, file, v1))
     \<and> vfs_reads file 0x500 [2, 0, 3] v1 = Inr (bytes ''demo'' @ [0x0A], v2)"
proof -
  obtain fl v1 where o: "vfs_open (Some (bytes ''/programs'')) sample_vfs = Some (Inr (VFS_OK, fl, v1))" using sample_vfs_open by blast
  from vfs_read_in_pieces [OF o, of "0x500" "[2, 0, 3]"] obtain n v2 where
    "n \<in> set ramfs_nodes" "rn_path n = bytes ''/programs''" "vfs_reads fl 0x500 [2, 0, 3] v1 = Inr (take 5 (rn_data n), v2)"
    by (auto simp: bytes_def)
  moreover from this(1,2) have "take 5 (rn_data n) = bytes ''demo'' @ [0x0A]"
    by (auto simp: ramfs_nodes_def bytes_def programs_text_def)
  ultimately show ?thesis using o by auto
qed

theorem vfs_seek_exact_witness:
  "\<exists>pos v'. vfs_seek 0x100 (- 3) TOYIX_SEEK_CUR sample_vfs = Inr (VFS_OK, pos, v') \<and> uint pos = 1"
  using vfs_seek_exact [of sample_vfs "0x100" "\<lparr>vf_node = ramfs_nodes ! 1, vf_offset = 4\<rparr>" 1 "- 3"]
  by (auto simp: sample_vfs_def)

theorem vfs_open_close_witness:
  "\<exists>file v1 v2. vfs_open (Some (bytes ''/programs'')) sample_vfs = Some (Inr (VFS_OK, file, v1)) \<and> vfs_close file v1 = Inr v2"
  using vfs_open_close [OF sample_vfs_heap sample_ramfs_find] by blast

end
