(* ===== verification/Usercopy.thy ===== *)
theory Usercopy
  imports Address_Space
begin

text \<open>
  Memory accesses through the current address space, and the checked copies between kernel buffers
  and user memory of \<open>kernel/usercopy.c\<close>. A kernel buffer is a list of bytes, or \<^const>\<open>None\<close> for
  a null pointer; copying in returns the bytes. An access to a page that is not present is a page
  fault. The lemmas show that the page-wise check accepts exactly the ranges whose every byte is on
  a user page, so that no checked copy can fault, and that copied bytes read back.
\<close>

section \<open>Access through the current space\<close>

definition byte_address :: "u32 \<Rightarrow> u32 \<Rightarrow> u32" where
  "byte_address pte va = (pte AND X86_PAGE_FRAME_MASK) + (va AND 4095)"

definition vload :: "u32 \<Rightarrow> aspace \<Rightarrow> u8 res" where
  "vload va s =
     bindE (get_space (current_space s) s) (\<lambda>x.
     case translate (phys s) (page_directory x) va of
       None \<Rightarrow> Inl (Fault ''page fault'')
     | Some pte \<Rightarrow> Inr (phys s (byte_address pte va)))"

definition vstore :: "u32 \<Rightarrow> u8 \<Rightarrow> aspace \<Rightarrow> aspace res" where
  "vstore va b s =
     bindE (get_space (current_space s) s) (\<lambda>x.
     case translate (phys s) (page_directory x) va of
       None \<Rightarrow> Inl (Fault ''page fault'')
     | Some pte \<Rightarrow> Inr (set_phys ((phys s)(byte_address pte va := b)) s))"

primrec load_bytes :: "nat \<Rightarrow> u32 \<Rightarrow> aspace \<Rightarrow> u8 list res" where
  "load_bytes 0 va s = Inr []"
| "load_bytes (Suc n) va s = bindE (vload va s) (\<lambda>b. bindE (load_bytes n (va + 1) s) (\<lambda>bs. Inr (b # bs)))"

primrec store_bytes :: "u8 list \<Rightarrow> u32 \<Rightarrow> aspace \<Rightarrow> aspace res" where
  "store_bytes [] va s = Inr s"
| "store_bytes (b # bs) va s = bindE (vstore va b s) (store_bytes bs (va + 1))"

section \<open>Checked copies\<close>

abbreviation (input) USERCOPY_OK :: int where "USERCOPY_OK \<equiv> 0"
abbreviation (input) USERCOPY_ERR_FAULT :: int where "USERCOPY_ERR_FAULT \<equiv> - 1"
abbreviation (input) USERCOPY_ERR_TOO_LONG :: int where "USERCOPY_ERR_TOO_LONG \<equiv> - 2"

partial_function (option) accessible_loop :: "u32 \<Rightarrow> u32 \<Rightarrow> u32 \<Rightarrow> aspace \<Rightarrow> bool res option" where
  "accessible_loop space page end_addr s =
     (if page \<le> end_addr then
        (case address_space_get_flags space page s of
           Inl e \<Rightarrow> Some (Inl e)
         | Inr flags \<Rightarrow>
             if flags AND ADDRESS_SPACE_FLAG_USER = 0 then Some (Inr False)
             else if page > 0xFFFFFFFF - 0x1000 then Some (Inr True)
             else accessible_loop space (page + 0x1000) end_addr s)
      else Some (Inr True))"

definition user_range_accessible :: "u32 \<Rightarrow> u32 \<Rightarrow> aspace \<Rightarrow> bool res option" where
  "user_range_accessible user_addr size_bytes s =
     (if size_bytes = 0 then Some (Inr True)
      else if user_addr + size_bytes < user_addr then Some (Inr False)
      else accessible_loop (address_space_current s) (user_addr AND NOT 0xFFF) (user_addr + size_bytes - 1) s)"

definition copy_from_user :: "bool \<Rightarrow> u32 \<Rightarrow> u32 \<Rightarrow> aspace \<Rightarrow> (int \<times> u8 list) res option" where
  "copy_from_user kernel_dest_null user_src size_bytes s =
     (if kernel_dest_null \<and> size_bytes \<noteq> 0 then Some (Inr (USERCOPY_ERR_FAULT, []))
      else bindO (user_range_accessible user_src size_bytes s) (\<lambda>ok.
        if \<not> ok then Some (Inr (USERCOPY_ERR_FAULT, []))
        else Some (bindE (load_bytes (unat size_bytes) user_src s) (\<lambda>bs. Inr (USERCOPY_OK, bs)))))"

definition copy_to_user :: "u32 \<Rightarrow> u8 list option \<Rightarrow> u32 \<Rightarrow> aspace \<Rightarrow> (int \<times> aspace) res option" where
  "copy_to_user user_dest kernel_src size_bytes s =
     (if kernel_src = None \<and> size_bytes \<noteq> 0 then Some (Inr (USERCOPY_ERR_FAULT, s))
      else bindO (user_range_accessible user_dest size_bytes s) (\<lambda>ok.
        if \<not> ok then Some (Inr (USERCOPY_ERR_FAULT, s))
        else
          (let bs = (case kernel_src of None \<Rightarrow> [] | Some bs \<Rightarrow> bs) in
           if length bs < unat size_bytes then Some (Inl (Fault ''read past the kernel buffer''))
           else Some (bindE (store_bytes (take (unat size_bytes) bs) user_dest s) (\<lambda>s1. Inr (USERCOPY_OK, s1))))))"

primrec user_string_loop :: "nat list \<Rightarrow> u32 \<Rightarrow> aspace \<Rightarrow> (int \<times> u32) res option" where
  "user_string_loop [] user_str s = Some (Inr (USERCOPY_ERR_TOO_LONG, 0))"
| "user_string_loop (i # is) user_str s =
     bindO (copy_from_user False (user_str + word_of_nat i) 1 s) (\<lambda>(rc, ch).
     if rc \<noteq> USERCOPY_OK then Some (Inr (USERCOPY_ERR_FAULT, 0))
     else if ch = [0] then Some (Inr (USERCOPY_OK, word_of_nat i))
     else user_string_loop is user_str s)"

definition user_string_length :: "u32 \<Rightarrow> u32 \<Rightarrow> aspace \<Rightarrow> (int \<times> u32) res option" where
  "user_string_length user_str max_len s = user_string_loop [0..<unat max_len] user_str s"

section \<open>The check\<close>

definition user_byte :: "aspace \<Rightarrow> address_space \<Rightarrow> u32 \<Rightarrow> bool" where
  "user_byte s x va \<longleftrightarrow> (case translate (phys s) (page_directory x) va of None \<Rightarrow> False
     | Some pte \<Rightarrow> from_arch_flags (pte AND X86_PAGE_FLAGS_MASK) AND ADDRESS_SPACE_FLAG_USER \<noteq> 0)"

lemma user_byte_same_page: "unat va' div 4096 = unat va div 4096 \<Longrightarrow> user_byte s x va' = user_byte s x va"
  by (simp add: user_byte_def translate_same_page [of va' va])

lemma get_flags_user:
  assumes "validate_space sp s = Inr x"
  shows "\<exists>fl. address_space_get_flags sp va s = Inr fl \<and> (fl AND ADDRESS_SPACE_FLAG_USER = 0 \<longleftrightarrow> \<not> user_byte s x va)"
  unfolding address_space_get_flags_translate [OF assms] by (auto simp: user_byte_def split: option.splits)

lemma unat_page: "n < 1048576 \<Longrightarrow> unat (word_of_nat (4096 * n) :: u32) = 4096 * n"
  by (subst unat_of_nat) simp

lemma accessible_loop_law:
  assumes v: "validate_space sp s = Inr x" and n: "n \<le> 1048575"
  shows "accessible_loop sp (word_of_nat (4096 * n)) end_addr s =
    Some (Inr (\<forall>m. n \<le> m \<and> 4096 * m \<le> unat end_addr \<longrightarrow> user_byte s x (word_of_nat (4096 * m))))"
  using n
proof (induction "1048576 - n" arbitrary: n)
  case (Suc k)
  let ?p = "word_of_nat (4096 * n) :: u32"
  have un: "unat ?p = 4096 * n" by (rule unat_page) (use Suc.prems in simp)
  then have le: "?p \<le> end_addr \<longleftrightarrow> 4096 * n \<le> unat end_addr" by (simp only: word_le_nat_alt)
  have top: "?p > 0xFFFFFFFF - 0x1000 \<longleftrightarrow> n = 1048575" unfolding word_less_nat_alt un using Suc.prems by auto
  obtain fl where fl: "address_space_get_flags sp ?p s = Inr fl" "fl AND 2 = 0 \<longleftrightarrow> \<not> user_byte s x ?p"
    using get_flags_user [OF v] by blast
  have all: "(\<forall>m. n \<le> m \<and> 4096 * m \<le> unat end_addr \<longrightarrow> user_byte s x (word_of_nat (4096 * m)))
     \<longleftrightarrow> (4096 * n \<le> unat end_addr \<longrightarrow> user_byte s x ?p) \<and> (\<forall>m. Suc n \<le> m \<and> 4096 * m \<le> unat end_addr \<longrightarrow> user_byte s x (word_of_nat (4096 * m)))"
    by (metis Suc_leD le_eq_less_or_eq Suc_le_eq)
  have bound: "m \<le> 1048575" if "4096 * m \<le> unat end_addr" for m
  proof -
    have "unat end_addr < 4294967296" by simp
    with that show ?thesis by linarith
  qed
  consider "\<not> 4096 * n \<le> unat end_addr" | "4096 * n \<le> unat end_addr" "\<not> user_byte s x ?p"
    | "4096 * n \<le> unat end_addr" "user_byte s x ?p" "n = 1048575" | "4096 * n \<le> unat end_addr" "user_byte s x ?p" "n < 1048575"
    using Suc.prems by linarith
  then show ?case
  proof cases
    case 1
    then show ?thesis using le by (subst accessible_loop.simps) auto
  next
    case 2
    then show ?thesis using le fl by (subst accessible_loop.simps) auto
  next
    case 3
    moreover have "\<not> 4096 * m \<le> unat end_addr" if "Suc n \<le> m" for m using bound [of m] 3(3) that by linarith
    ultimately show ?thesis using le fl top unfolding all by (subst accessible_loop.simps) auto
  next
    case 4
    then have "accessible_loop sp ?p end_addr s = accessible_loop sp (word_of_nat (4096 * Suc n)) end_addr s"
      using le fl top by (subst accessible_loop.simps) (simp add: add.commute)
    also have "\<dots> = Some (Inr (\<forall>m. Suc n \<le> m \<and> 4096 * m \<le> unat end_addr \<longrightarrow> user_byte s x (word_of_nat (4096 * m))))"
      by (rule Suc.hyps(1)) (use Suc.hyps(2) 4 in auto)
    finally show ?thesis unfolding all using 4 by simp
  qed
qed simp


lemma user_range_accessible_law:
  assumes v: "validate_space (current_space s) s = Inr x"
  shows "user_range_accessible a n s = Some (Inr (n = 0 \<or> unat a + unat n < 2 ^ 32 \<and> (\<forall>i < unat n. user_byte s x (a + word_of_nat i))))"
proof (cases "n = 0 \<or> a + n < a")
  case True
  have "\<not> unat a + unat n < 2 ^ 32" if "a + n < a"
    using that by (cases "unat a + unat n < 2 ^ 32") (simp_all add: word_less_nat_alt unat_word_ariths)
  with True show ?thesis by (auto simp: user_range_accessible_def)
next
  case False
  then have n: "n \<noteq> 0" "unat n > 0" "unat (a + n) = unat a + unat n"
    using unat_plus_simple [of a n] by (auto simp: not_less unat_gt_0)
  have "unat (a + n) < 2 ^ 32" by simp
  note n = n this [unfolded n(3)]
  have n4: "unat a + unat n < 4294967296" using n(4) by simp
  have e: "unat (a + n - 1) = unat a + unat n - 1"
    using unat_minus_one [of "a + n"] n by (metis add_is_0 less_numeral_extra(3) unat_0)
  have base: "a AND NOT 0xFFF = word_of_nat (4096 * (unat a div 4096))"
  proof -
    have "unat (a AND NOT 0xFFF) = 4096 * (unat a div 4096)"
      using unat_and_not_mask [of a 12] by (simp add: mask_eq_exp_minus_1 mult.commute)
    moreover have "unat a div 4096 < 1048576" using n4 by linarith
    ultimately show ?thesis by (simp only: word_unat_eq_iff unat_page)
  qed
  let ?k = "unat a div 4096"
  have ai: "unat (a + word_of_nat i) = unat a + i" if "i < unat n" for i
    using that n(4) by (simp add: unat_word_ariths unat_of_nat take_bit_eq_mod)
  have "(\<forall>m. ?k \<le> m \<and> 4096 * m \<le> unat a + unat n - 1 \<longrightarrow> user_byte s x (word_of_nat (4096 * m)))
    \<longleftrightarrow> (\<forall>i < unat n. user_byte s x (a + word_of_nat i))" (is "?L \<longleftrightarrow> ?R")
  proof
    assume L: ?L
    show ?R
    proof (intro allI impI)
      fix i assume i: "i < unat n"
      let ?m = "(unat a + i) div 4096"
      have "?m < 1048576" using i n4 by linarith
      then have "unat (a + word_of_nat i) div 4096 = unat (word_of_nat (4096 * ?m) :: u32) div 4096"
        by (simp add: ai [OF i] unat_page del: of_nat_mult)
      moreover have "?k \<le> ?m" "4096 * ?m \<le> unat a + unat n - 1" using i n(2) by (auto intro: div_le_mono)
      ultimately show "user_byte s x (a + word_of_nat i)" using L user_byte_same_page by blast
    qed
  next
    assume R: ?R
    show ?L
    proof (intro allI impI)
      fix m assume m: "?k \<le> m \<and> 4096 * m \<le> unat a + unat n - 1"
      define i where "i = 4096 * m - unat a"
      have i: "i < unat n" using m n(2) by (auto simp: i_def)
      have m20: "m < 1048576" using m n4 by linarith
      have "(unat a + i) div 4096 = m" using m by (cases "4096 * m \<le> unat a") (auto simp: i_def)
      then have "unat (word_of_nat (4096 * m) :: u32) div 4096 = unat (a + word_of_nat i) div 4096"
        by (simp add: ai [OF i] unat_page [OF m20] del: of_nat_mult)
      with R i show "user_byte s x (word_of_nat (4096 * m))" using user_byte_same_page by blast
    qed
  qed
  moreover have "?k \<le> 1048575" using n4 by linarith
  moreover have "user_range_accessible a n s = accessible_loop (current_space s) (word_of_nat (4096 * ?k)) (a + n - 1) s"
    unfolding user_range_accessible_def base address_space_current_def using False by simp
  ultimately show ?thesis
    using n(1,4) accessible_loop_law [OF v, of ?k "a + n - 1"] by (simp add: e del: of_nat_mult)
qed

text \<open>A checked range never faults.\<close>

definition byte_at :: "aspace \<Rightarrow> address_space \<Rightarrow> u32 \<Rightarrow> u8" where
  "byte_at s x va = phys s (byte_address (the (translate (phys s) (page_directory x) va)) va)"

lemma load_bytes_law:
  assumes "spaces s (current_space s) = Some x" and "\<And>i. i < n \<Longrightarrow> translate (phys s) (page_directory x) (va + word_of_nat i) \<noteq> None"
  shows "load_bytes n va s = Inr (map (\<lambda>i. byte_at s x (va + word_of_nat i)) [0..<n])"
  using assms(2)
proof (induction n arbitrary: va)
  case (Suc n)
  have "translate (phys s) (page_directory x) (va + 1 + word_of_nat i) \<noteq> None" if "i < n" for i
    using Suc.prems [of "Suc i"] that by (simp add: add.assoc)
  note IH = Suc.IH [OF this]
  have "vload va s = Inr (byte_at s x va)"
    using Suc.prems [of 0] assms(1) by (auto simp: vload_def get_space_def byte_at_def)
  moreover have "[0..<Suc n] = 0 # map Suc [0..<n]" by (simp add: upt_conv_Cons map_Suc_upt del: upt_Suc)
  ultimately show ?case using IH by (simp add: add.assoc comp_def del: upt_Suc)
qed simp

lemma user_byte_mapped: "user_byte s x va \<Longrightarrow> translate (phys s) (page_directory x) va \<noteq> None"
  by (auto simp: user_byte_def split: option.splits)

lemma validate_space_spaces: "validate_space sp s = Inr x \<Longrightarrow> spaces s sp = Some x"
  by (auto simp: validate_space_def get_space_def bindE_eq_Inr_iff split: if_splits option.splits)

text \<open>
  C29. Copying from user memory returns for every address and size, and cannot fault. It succeeds
  exactly when the range does not wrap around and every byte of it lies on a page that is present
  and open to user mode in the current address space, and then yields the bytes there; otherwise
  it reports a fault and reads nothing. The page-wise check of the code is thus equivalent to the
  check of every byte.
\<close>

theorem copy_from_user_checks_every_byte:
  assumes "validate_space (current_space s) s = Inr x"
  shows "copy_from_user False a n s = Some (Inr
    (if n = 0 \<or> unat a + unat n < 2 ^ 32 \<and> (\<forall>i < unat n. user_byte s x (a + word_of_nat i))
     then (USERCOPY_OK, map (\<lambda>i. byte_at s x (a + word_of_nat i)) [0..<unat n]) else (USERCOPY_ERR_FAULT, [])))"
proof (cases "n = 0 \<or> unat a + unat n < 2 ^ 32 \<and> (\<forall>i < unat n. user_byte s x (a + word_of_nat i))")
  case True
  have "load_bytes (unat n) a s = Inr (map (\<lambda>i. byte_at s x (a + word_of_nat i)) [0..<unat n])"
    by (rule load_bytes_law [OF validate_space_spaces [OF assms]]) (use True user_byte_mapped [of s x] in fastforce)
  then show ?thesis using True by (simp only: copy_from_user_def user_range_accessible_law [OF assms] simp_thms bindO_simps if_True if_False bindE_simps)
qed (simp only: copy_from_user_def user_range_accessible_law [OF assms] simp_thms bindO_simps if_True if_False)

section \<open>Private memory\<close>

text \<open>
  Bytes of a space that are its own: they are mapped by well-formed tables, to frames that hold
  neither the directory nor a table of the space, and distinct pages have distinct frames.
\<close>

definition frame_of :: "aspace \<Rightarrow> address_space \<Rightarrow> u32 \<Rightarrow> u32" where
  "frame_of s x va = the (translate (phys s) (page_directory x) va) AND X86_PAGE_FRAME_MASK"

definition own_bytes :: "aspace \<Rightarrow> address_space \<Rightarrow> u32 set \<Rightarrow> bool" where
  "own_bytes s x A \<longleftrightarrow> spaces s (current_space s) = Some x \<and> dir_wf (phys s) (page_directory x) user_slots
     \<and> (\<forall>v\<in>A. directory_index v \<in> user_slots \<and> translate (phys s) (page_directory x) v \<noteq> None \<and> frame_of s x v \<notin> held s x)
     \<and> (\<forall>v\<in>A. \<forall>w\<in>A. frame_of s x v = frame_of s x w \<longrightarrow> unat v div 4096 = unat w div 4096)"

lemma frame_mask_page: "page_aligned (p AND 0xFFFFF000)"
  by (simp add: page_aligned_def and.assoc)

lemma unat_low_bits: "unat (v AND 4095 :: u32) = unat v mod 4096"
  unfolding u32_4095 take_bit_eq_mask [symmetric] unsigned_take_bit_eq by (simp add: take_bit_eq_mod)

lemma low_bits_less: "(v :: u32) AND 4095 < 4096"
  by (simp add: word_less_nat_alt unat_low_bits)

lemma table_entry_poke:
  assumes "page_aligned f" and "page_aligned q" and "q \<noteq> f" and "off < 4096" and "i < 1024"
  shows "table_entry (m(f + off := b)) q i = table_entry m q i"
proof -
  have "q + 4 * i + k \<noteq> f + off" if "k < 4" for k
  proof
    assume "q + 4 * i + k = f + off"
    then have "q + 4 * i + k - f = off" by (simp add: algebra_simps)
    with assms page_byte_diff [OF assms(1,2,5) that] show False by simp
  qed
  from this [of 0] this [of 1] this [of 2] this [of 3] show ?thesis by (simp add: table_entry_def load32_def)
qed

lemma poke_tables:
  assumes wf: "dir_wf m D I" and f: "page_aligned f" "f \<noteq> D" "f \<notin> tables_of m D I" and off: "off < 4096"
  shows "i \<in> I \<Longrightarrow> pde_table (m(f + off := b)) D i = pde_table m D i"
    and "directory_index va \<in> I \<Longrightarrow> translate (m(f + off := b)) D va = translate m D va"
    and "dir_wf (m(f + off := b)) D I" and "tables_of (m(f + off := b)) D I = tables_of m D I"
proof -
  have pde: "pde_table (m(f + off := b)) D i = pde_table m D i" if "i \<in> I" for i
    unfolding pde_table_def using wf f off that by (subst table_entry_poke) (auto simp: dir_wf_def)
  then show "i \<in> I \<Longrightarrow> pde_table (m(f + off := b)) D i = pde_table m D i" .
  show "translate (m(f + off := b)) D va = translate m D va" if "directory_index va \<in> I"
  proof (cases "pde_table m D (directory_index va)")
    case None
    then show ?thesis using pde [OF that] by (simp add: translate_def)
  next
    case (Some t)
    then have "t \<noteq> f" "page_aligned t" using f(3) that pde_table_aligned [OF Some] by (auto simp: tables_of_def)
    then have "table_entry (m(f + off := b)) t (table_index va) = table_entry m t (table_index va)"
      using f(1) off by (intro table_entry_poke) auto
    then show ?thesis using pde [OF that] Some by (simp add: translate_def)
  qed
  show "dir_wf (m(f + off := b)) D I" "tables_of (m(f + off := b)) D I = tables_of m D I"
    using wf pde by (simp_all add: dir_wf_def tables_of_def)
qed

lemma byte_address_eq_iff:
  "byte_address p v = byte_address q w \<longleftrightarrow> p AND 0xFFFFF000 = q AND 0xFFFFF000 \<and> v AND 4095 = w AND 4095"
proof
  assume eq: "byte_address p v = byte_address q w"
  note f = frame_mask_page [of p] frame_mask_page [of q] and o = low_bits_less [of v] low_bits_less [of w]
  have "unat (p AND 0xFFFFF000) div 4096 = unat (q AND 0xFFFFF000) div 4096" "v AND 4095 = w AND 4095"
    using eq same_page_offset [OF f(1) o(1)] same_page_offset [OF f(2) o(2)] unfolding byte_address_def by simp_all
  moreover obtain j where "unat (p AND 0xFFFFF000) = 4096 * j" using f(1) by (rule page_alignedE)
  moreover obtain k where "unat (q AND 0xFFFFF000) = 4096 * k" using f(2) by (rule page_alignedE)
  ultimately show "p AND 0xFFFFF000 = q AND 0xFFFFF000 \<and> v AND 4095 = w AND 4095" by (simp add: word_unat_eq_iff)
qed (simp add: byte_address_def)

lemma same_page_low_bits:
  fixes v w :: u32
  assumes "unat v div 4096 = unat w div 4096" and "v AND 4095 = w AND 4095"
  shows "v = w"
proof -
  have "unat v mod 4096 = unat w mod 4096" using arg_cong [OF assms(2), of unat] by (simp only: unat_low_bits)
  with assms(1) show ?thesis by (metis div_mod_decomp word_unat_eq_iff)
qed

lemma vstore_own:
  assumes p: "own_bytes s x A" and v: "v \<in> A"
  shows "\<exists>s'. vstore v b s = Inr s' \<and> own_bytes s' x A \<and> (\<forall>w\<in>A. byte_at s' x w = (if w = v then b else byte_at s x w))
    \<and> (\<forall>va. directory_index va \<in> user_slots \<longrightarrow> translate (phys s') (page_directory x) va = translate (phys s) (page_directory x) va)
    \<and> spaces s' = spaces s \<and> current_space s' = current_space s \<and> held s' x = held s x"
proof -
  let ?D = "page_directory x"
  from p v obtain pte where t: "translate (phys s) ?D v = Some pte" and wf: "dir_wf (phys s) ?D user_slots"
    and sp: "spaces s (current_space s) = Some x" by (auto simp: own_bytes_def)
  let ?f = "pte AND 0xFFFFF000" and ?o = "v AND 4095"
  let ?s = "set_phys ((phys s)(?f + ?o := b)) s"
  have "frame_of s x v = ?f" using t by (simp add: frame_of_def)
  then have f: "page_aligned ?f" "?f \<noteq> ?D" "?f \<notin> tables_of (phys s) ?D user_slots"
    using p v frame_mask_page by (auto simp: own_bytes_def held_def)
  note poke = poke_tables [OF wf f low_bits_less [of v], where b = b]
  have run: "vstore v b s = Inr ?s" using sp t by (simp add: vstore_def get_space_def byte_address_def)
  have tr: "translate (phys ?s) ?D va = translate (phys s) ?D va" if "directory_index va \<in> user_slots" for va
    using poke(2) [OF that] by simp
  have h: "held ?s x = held s x" using poke(4) by (simp add: held_def)
  have fr: "frame_of ?s x w = frame_of s x w" if "w \<in> A" for w using tr p that by (simp add: frame_of_def own_bytes_def)
  have priv: "own_bytes ?s x A" unfolding own_bytes_def
  proof (intro conjI ballI impI)
    fix u w assume uw: "u \<in> A" "w \<in> A" "frame_of ?s x u = frame_of ?s x w"
    then have "frame_of s x u = frame_of s x w" by (simp only: fr)
    with uw(1,2) p show "unat u div 4096 = unat w div 4096" unfolding own_bytes_def by blast
  next
    fix u assume u: "u \<in> A"
    with p have d: "directory_index u \<in> user_slots" "translate (phys s) ?D u \<noteq> None" "frame_of s x u \<notin> held s x"
      unfolding own_bytes_def by blast+
    then show "directory_index u \<in> user_slots" "translate (phys ?s) ?D u \<noteq> None" "frame_of ?s x u \<notin> held ?s x"
      using tr [OF d(1)] by (simp_all only: fr [OF u] h not_False_eq_True)
  qed (use sp poke(3) in simp_all)
  have "byte_at ?s x w = (if w = v then b else byte_at s x w)" if w: "w \<in> A" for w
  proof -
    from p w obtain q where q: "translate (phys s) ?D w = Some q" by (auto simp: own_bytes_def)
    have "byte_address q w = byte_address pte v \<longleftrightarrow> w = v"
    proof
      assume "byte_address q w = byte_address pte v"
      then have "frame_of s x w = frame_of s x v" "w AND 4095 = v AND 4095" using q t by (simp_all add: byte_address_eq_iff frame_of_def)
      then show "w = v" using p v w same_page_low_bits unfolding own_bytes_def by blast
    qed (use q t in simp)
    moreover have "directory_index w \<in> user_slots" using p w by (simp add: own_bytes_def)
    ultimately show ?thesis using tr [of w] q t by (simp add: byte_at_def byte_address_def)
  qed
  with run priv tr h show ?thesis by (intro exI [of _ ?s]) simp
qed


definition same_user_view :: "address_space \<Rightarrow> aspace \<Rightarrow> aspace \<Rightarrow> bool" where
  "same_user_view x s s' \<longleftrightarrow> (\<forall>va. directory_index va \<in> user_slots \<longrightarrow>
       translate (phys s') (page_directory x) va = translate (phys s) (page_directory x) va)
     \<and> spaces s' = spaces s \<and> current_space s' = current_space s \<and> held s' x = held s x"

lemma store_bytes_own:
  assumes "own_bytes s x A" and "length bs < 2 ^ 32" and "\<And>i. i < length bs \<Longrightarrow> a + word_of_nat i \<in> A"
  shows "\<exists>s'. store_bytes bs a s = Inr s' \<and> own_bytes s' x A \<and> same_user_view x s s'
    \<and> (\<forall>i < length bs. byte_at s' x (a + word_of_nat i) = bs ! i)
    \<and> (\<forall>w\<in>A. (\<forall>i < length bs. w \<noteq> a + word_of_nat i) \<longrightarrow> byte_at s' x w = byte_at s x w)"
  using assms
proof (induction bs arbitrary: a s)
  case (Cons b bs)
  have a: "a \<in> A" using Cons.prems(3) [of 0] by simp
  from vstore_own [OF Cons.prems(1) a, of b] obtain s1 where
    s1: "vstore a b s = Inr s1" "own_bytes s1 x A" "same_user_view x s s1"
    and by1: "\<And>w. w \<in> A \<Longrightarrow> byte_at s1 x w = (if w = a then b else byte_at s x w)"
    unfolding same_user_view_def by blast
  have step: "a + 1 + word_of_nat i = a + word_of_nat (Suc i)" for i by (simp add: add.assoc)
  have in_A: "a + 1 + word_of_nat i \<in> A" if "i < length bs" for i
    using Cons.prems(3) [of "Suc i"] that unfolding step by simp
  from Cons.IH [OF s1(2) _ in_A] Cons.prems(2) obtain s2 where
    s2: "store_bytes bs (a + 1) s1 = Inr s2" "own_bytes s2 x A" "same_user_view x s1 s2"
    and by2: "\<And>i. i < length bs \<Longrightarrow> byte_at s2 x (a + word_of_nat (Suc i)) = bs ! i"
      "\<And>w. w \<in> A \<Longrightarrow> (\<And>i. i < length bs \<Longrightarrow> w \<noteq> a + word_of_nat (Suc i)) \<Longrightarrow> byte_at s2 x w = byte_at s1 x w"
    unfolding step by auto
  have ne: "a \<noteq> a + word_of_nat (Suc i)" if "i < length bs" for i
    using word_of_nat_eq_diff_iff [of "Suc i" a a] that Cons.prems(2) by simp
  have "byte_at s2 x (a + word_of_nat i) = (b # bs) ! i" if "i < length (b # bs)" for i
  proof (cases i)
    case 0
    then show ?thesis using by2(2) [OF a ne] by1 [OF a] by simp
  next
    case (Suc j)
    then show ?thesis using by2(1) [of j] that by simp
  qed
  moreover have "byte_at s2 x w = byte_at s x w" if w: "w \<in> A" "\<forall>i < length (b # bs). w \<noteq> a + word_of_nat i" for w
  proof -
    have "w \<noteq> a" using w(2) [rule_format, of 0] by simp
    moreover have "byte_at s2 x w = byte_at s1 x w" by (rule by2(2) [OF w(1)]) (use w(2) in auto)
    ultimately show ?thesis using by1 [OF w(1)] by simp
  qed
  moreover have "same_user_view x s s2" using s1(3) s2(3) by (simp add: same_user_view_def)
  ultimately show ?case using s1(1) s2(1,2) by auto
qed (simp add: same_user_view_def)

text \<open>
  C30. What is copied to user memory is what user memory then holds. For a range of a process's own
  bytes that are open to user mode, \<open>copy_to_user\<close> succeeds, copying the range back yields the same
  bytes, no other byte of the process's own memory changes, and the translation of every user
  address stays as it was.
\<close>

theorem copy_to_user_reads_back:
  assumes "validate_space (current_space s) s = Inr x" and "own_bytes s x A" and "unat a + length bs < 2 ^ 32"
    and "\<And>i. i < length bs \<Longrightarrow> a + word_of_nat i \<in> A \<and> user_byte s x (a + word_of_nat i)"
  shows "\<exists>s'. copy_to_user a (Some bs) (word_of_nat (length bs)) s = Some (Inr (USERCOPY_OK, s'))
    \<and> copy_from_user False a (word_of_nat (length bs)) s' = Some (Inr (USERCOPY_OK, bs)) \<and> same_user_view x s s'
    \<and> (\<forall>w\<in>A. (\<forall>i < length bs. w \<noteq> a + word_of_nat i) \<longrightarrow> byte_at s' x w = byte_at s x w)"
proof -
  let ?n = "word_of_nat (length bs) :: u32"
  have len: "length bs < 2 ^ 32" using assms(3) by linarith
  then have n: "unat ?n = length bs" by (simp add: unat_of_nat take_bit_eq_mod)
  have acc: "?n = 0 \<or> unat a + unat ?n < 2 ^ 32 \<and> (\<forall>i < unat ?n. user_byte s x (a + word_of_nat i))"
    using assms(3,4) by (simp only: n) blast
  obtain s' where s': "store_bytes bs a s = Inr s'" "own_bytes s' x A" "same_user_view x s s'"
    "\<And>i. i < length bs \<Longrightarrow> byte_at s' x (a + word_of_nat i) = bs ! i"
    "\<forall>w\<in>A. (\<forall>i < length bs. w \<noteq> a + word_of_nat i) \<longrightarrow> byte_at s' x w = byte_at s x w"
    using store_bytes_own [OF assms(2) len] assms(4) by blast
  have "copy_to_user a (Some bs) ?n s = Some (Inr (USERCOPY_OK, s'))"
    using acc s'(1) by (simp add: copy_to_user_def user_range_accessible_law [OF assms(1)] n)
  moreover have "copy_from_user False a ?n s' = Some (Inr (USERCOPY_OK, bs))"
  proof -
    have "validate_space (current_space s') s' = validate_space (current_space s) s"
      using s'(3) by (simp add: same_user_view_def validate_space_def get_space_def)
    with assms(1) have v: "validate_space (current_space s') s' = Inr x" by simp
    have u: "user_byte s' x (a + word_of_nat i)" if "i < length bs" for i
    proof -
      have i: "a + word_of_nat i \<in> A" "user_byte s x (a + word_of_nat i)" using assms(4) [OF that] by simp_all
      then have "directory_index (a + word_of_nat i) \<in> user_slots" using assms(2) unfolding own_bytes_def by blast
      then have "translate (phys s') (page_directory x) (a + word_of_nat i) = translate (phys s) (page_directory x) (a + word_of_nat i)"
        using s'(3) unfolding same_user_view_def by blast
      with i(2) show ?thesis unfolding user_byte_def by simp
    qed
    then have "?n = 0 \<or> unat a + unat ?n < 2 ^ 32 \<and> (\<forall>i < unat ?n. user_byte s' x (a + word_of_nat i))"
      using assms(3) by (simp only: n) blast
    moreover have "load_bytes (length bs) a s' = Inr (map (\<lambda>i. byte_at s' x (a + word_of_nat i)) [0..<length bs])"
      by (rule load_bytes_law [OF validate_space_spaces [OF v] user_byte_mapped [OF u]])
    moreover have "map (\<lambda>i. byte_at s' x (a + word_of_nat i)) [0..<length bs] = bs"
      by (rule nth_equalityI) (simp_all add: s'(4))
    ultimately show ?thesis by (simp add: copy_from_user_def user_range_accessible_law [OF v] n)
  qed
  ultimately show ?thesis using s'(3,5) by blast
qed


text \<open>A space with one mapped user page.\<close>

definition sample_paged :: aspace where
  "sample_paged = set_phys (set_table_entry (set_table_entry (\<lambda>_. 0) 0x200000 4 0x201007) 0x201000 0 0x300007) sample_aspace"

lemma sample_paged_pde: "i < 1024 \<Longrightarrow> pde_table (phys sample_paged) 0x200000 i = (if i = 4 then Some 0x201000 else None)"
proof -
  assume i: "i < 1024"
  have al: "page_aligned 0x200000" "page_aligned 0x201000" by (simp_all add: page_aligned_def)
  have "table_entry (phys sample_paged) 0x200000 i = (if i = 4 then 0x201007 else 0)"
    using i al by (simp add: sample_paged_def table_entry_set)
  then show ?thesis by (simp add: pde_table_def table_from_pde_def)
qed

lemma sample_paged_translate:
  "translate (phys sample_paged) 0x200000 va = (if unat va div 4096 = 4096 then Some 0x300007 else None)"
proof -
  have al: "page_aligned 0x200000" "page_aligned 0x201000" by (simp_all add: page_aligned_def)
  have te: "table_entry (phys sample_paged) 0x201000 (table_index va) = (if table_index va = 0 then 0x300007 else 0)"
    using al by (simp add: sample_paged_def table_entry_set)
  have "directory_index va = directory_index 0x1000000 \<and> table_index va = table_index 0x1000000 \<longleftrightarrow> unat va div 4096 = 4096"
    unfolding indices_determine_page by simp
  then have "unat va div 4096 = 4096 \<longleftrightarrow> directory_index va = 4 \<and> table_index va = 0"
    by (simp add: directory_index_def table_index_def)
  then show ?thesis using sample_paged_pde [OF directory_index_less, of va] te by (auto simp: translate_def Let_def split: if_splits)
qed

lemma sample_paged_page: "i < 4096 \<Longrightarrow> unat ((0x1000000 :: u32) + word_of_nat i) div 4096 = 4096"
  by (simp add: unat_word_ariths unat_of_nat take_bit_eq_mod)

lemma sample_paged_sel: "spaces sample_paged (current_space sample_paged) = Some sample_space"
  by (simp add: sample_paged_def sample_aspace_def)

lemma sample_paged_valid: "validate_space (current_space sample_paged) sample_paged = Inr sample_space"
  using sample_paged_sel by (simp add: validate_space_def get_space_def) (simp add: sample_paged_def sample_aspace_def)

lemma sample_paged_own: "own_bytes sample_paged sample_space {va. unat va div 4096 = 4096}"
proof -
  have "dir_wf (phys sample_paged) 0x200000 user_slots"
    using sample_paged_pde user_slots_less by (auto simp: dir_wf_def page_aligned_def split: if_splits)
  moreover have "held sample_paged sample_space \<subseteq> {0x200000, 0x201000}"
    using sample_paged_pde user_slots_less by (auto simp: held_def tables_of_def split: if_splits)
  moreover have "directory_index va \<in> user_slots" if "unat va div 4096 = 4096" for va
    using that by (auto simp: user_slots_def word_le_nat_alt word_less_nat_alt unat_directory_index)
  ultimately show ?thesis using sample_paged_sel
    by (auto simp: own_bytes_def sample_paged_translate frame_of_def)
qed

lemma sample_paged_user: "unat va div 4096 = 4096 \<Longrightarrow> user_byte sample_paged sample_space va"
  by (simp add: user_byte_def sample_paged_translate from_arch_flags_def Let_def)

theorem copy_from_user_checks_every_byte_witness:
  "copy_from_user False 0x1000FFF 2 sample_paged = Some (Inr (USERCOPY_ERR_FAULT, []))"
proof -
  have "\<not> user_byte sample_paged sample_space (0x1000FFF + word_of_nat 1)"
    by (simp add: user_byte_def sample_paged_translate)
  moreover have "1 < unat (2 :: u32)" by simp
  ultimately have "\<not> (\<forall>i < unat (2 :: u32). user_byte sample_paged sample_space (0x1000FFF + word_of_nat i))" by blast
  with copy_from_user_checks_every_byte [OF sample_paged_valid, where a = "0x1000FFF" and n = 2] show ?thesis by simp
qed

theorem copy_to_user_reads_back_witness:
  "\<exists>s'. copy_to_user 0x1000010 (Some [1, 2, 3]) 3 sample_paged = Some (Inr (USERCOPY_OK, s'))
    \<and> copy_from_user False 0x1000010 3 s' = Some (Inr (USERCOPY_OK, [1, 2, 3]))"
proof -
  have "(0x1000010 :: u32) + word_of_nat i \<in> {va. unat va div 4096 = 4096} \<and> user_byte sample_paged sample_space (0x1000010 + word_of_nat i)"
    if "i < length [1, 2, 3 :: u8]" for i
  proof -
    have "unat ((0x1000010 :: u32) + word_of_nat i) div 4096 = 4096"
      using that by (simp add: unat_word_ariths unat_of_nat take_bit_eq_mod)
    then show ?thesis using sample_paged_user by simp
  qed
  from copy_to_user_reads_back [OF sample_paged_valid sample_paged_own _ this, where bs = "[1, 2, 3]"] show ?thesis by auto
qed

end
