(* ===== verification/Kernel.thy ===== *)
theory Kernel
  imports Scheduler Vfs Usercopy
begin

text \<open>
  The kernel state that threads and processes share, and the parts of \<open>kernel/thread.c\<close> that need
  all of it: creating threads with their initial stack, reaping zombies, and the complete scheduling
  interrupt with the switch of the address space. Thread and process objects live in typed stores;
  their memory is taken from and returned to the kernel heap. The addresses the linker gives to the
  functions a new thread starts in are fields of the state. Stores to kernel stacks go through the
  kernel's page directory.
\<close>

section \<open>State\<close>

abbreviation (input) INITIAL_EFLAGS :: u32 where "INITIAL_EFLAGS \<equiv> 0x202"
abbreviation (input) X86_KERNEL_CODE_SELECTOR :: u32 where "X86_KERNEL_CODE_SELECTOR \<equiv> 0x08"
abbreviation (input) X86_KERNEL_DATA_SELECTOR :: u32 where "X86_KERNEL_DATA_SELECTOR \<equiv> 0x10"
abbreviation (input) X86_SCHED_INTERRUPT_VECTOR :: u32 where "X86_SCHED_INTERRUPT_VECTOR \<equiv> 48"
abbreviation (input) SIZEOF_THREAD :: u32 where "SIZEOF_THREAD \<equiv> 52"
abbreviation (input) SIZEOF_PROCESS :: u32 where "SIZEOF_PROCESS \<equiv> 196"

datatype process_state = PROCESS_NEW | PROCESS_RUNNING | PROCESS_ZOMBIE | PROCESS_DESTROYED

record process_fd =
  fd_used :: bool
  fd_file :: u32

record process =
  p_magic :: u32
  p_pid :: u32
  p_parent_pid :: u32
  p_name :: string
  p_state :: process_state
  p_address_space :: u32
  p_main_thread :: u32
  p_exit_code :: u32
  p_exited :: bool
  p_kill_requested :: bool
  p_fds :: "process_fd list"
  p_user_code_base :: u32
  p_user_entry :: u32
  p_user_stack_base :: u32
  p_user_stack_top :: u32
  p_user_initial_esp :: u32
  p_next :: u32
  p_prev :: u32

record symbols =
  sym_thread_bootstrap :: u32
  sym_idle_thread_entry :: u32
  sym_user_process_thread_entry :: u32

record kernel =
  kas :: aspace
  kfiles :: "u32 \<rightharpoonup> vfs_file"
  ksched :: sched
  procs :: "u32 \<rightharpoonup> process"
  next_pid :: u32
  last_exit_code :: u32
  last_exit_seen :: bool
  process_head :: u32
  process_tail :: u32
  process_count :: u32
  ksym :: symbols

abbreviation kheap :: "kernel \<Rightarrow> heap" where "kheap k \<equiv> aheap (kas k)"

definition set_kheap :: "heap \<Rightarrow> kernel \<Rightarrow> kernel" where
  "set_kheap h k = k\<lparr>kas := (kas k)\<lparr>aheap := h\<rparr>\<rparr>"

definition on_sched :: "(sched \<Rightarrow> sched res) \<Rightarrow> kernel \<Rightarrow> kernel res" where
  "on_sched f k = bindE (f (ksched k)) (\<lambda>s. Inr (k\<lparr>ksched := s\<rparr>))"

definition on_vfs :: "(vfs \<Rightarrow> ('a \<times> vfs) res) \<Rightarrow> kernel \<Rightarrow> ('a \<times> kernel) res" where
  "on_vfs f k = bindE (f \<lparr>vheap = kheap k, vfiles = kfiles k\<rparr>) (\<lambda>(r, v). Inr (r, (set_kheap (vheap v) k)\<lparr>kfiles := vfiles v\<rparr>))"

definition get_process :: "u32 \<Rightarrow> kernel \<Rightarrow> process res" where
  "get_process a k = (case procs k a of None \<Rightarrow> Inl (Fault ''process'') | Some p \<Rightarrow> Inr p)"

definition upd_process :: "u32 \<Rightarrow> (process \<Rightarrow> process) \<Rightarrow> kernel \<Rightarrow> kernel res" where
  "upd_process a f k = bindE (get_process a k) (\<lambda>p. Inr (k\<lparr>procs := (procs k)(a \<mapsto> f p)\<rparr>))"

section \<open>Creating threads\<close>

definition kstore32 :: "u32 \<Rightarrow> u32 \<Rightarrow> vmm \<Rightarrow> vmm res" where
  "kstore32 va w v =
     foldE (\<lambda>i v.
       case translate (pmem v) (kernel_directory v) (va + word_of_nat i) of
         None \<Rightarrow> Inl (Fault ''page fault'')
       | Some pte \<Rightarrow> Inr (v\<lparr>pmem := (pmem v)(byte_address pte (va + word_of_nat i) := ucast (drop_bit (8 * i) w))\<rparr>)) [0..<4] v"

definition push32 :: "u32 \<Rightarrow> u32 \<times> vmm \<Rightarrow> (u32 \<times> vmm) res" where
  "push32 w = (\<lambda>(sp, v). bindE (kstore32 (sp - 4) w v) (\<lambda>v1. Inr (sp - 4, v1)))"

definition align_down :: "u32 \<Rightarrow> u32 \<Rightarrow> u32" where
  "align_down value alignment = value AND NOT (alignment - 1)"

definition initial_frame :: "u32 \<Rightarrow> u32 list" where
  "initial_frame bootstrap = [INITIAL_EFLAGS, X86_KERNEL_CODE_SELECTOR, bootstrap, 0, X86_SCHED_INTERRUPT_VECTOR,
     0, 0, 0, 0, 0, 0, 0, 0, X86_KERNEL_DATA_SELECTOR]"

definition thread_make_initial_stack :: "u32 \<Rightarrow> kernel \<Rightarrow> kernel res" where
  "thread_make_initial_stack thread k =
     bindE (validate_thread thread (threads (ksched k))) (\<lambda>t.
     let stack_top = align_down (t_stack_base t + t_stack_size t) 16 in
     bindE (foldE push32 (initial_frame (sym_thread_bootstrap (ksym k))) (stack_top, hvm (kheap k))) (\<lambda>(sp, v).
     on_sched (set_thread thread (\<lambda>t. t\<lparr>t_esp := sp\<rparr>)) (set_kheap ((kheap k)\<lparr>hvm := v\<rparr>) k)))"

definition thread_create_internal :: "string option \<Rightarrow> u32 \<Rightarrow> u32 \<Rightarrow> bool \<Rightarrow> kernel \<Rightarrow> (u32 \<times> kernel) res option" where
  "thread_create_internal name entry arg enqueue k =
     (if entry = 0 then Some (Inl (Panic ''thread_create received null entry''))
      else bindO (kcalloc 1 SIZEOF_THREAD (kheap k)) (\<lambda>(thread, h1).
      if thread = 0 then Some (Inl (Panic ''thread_create could not allocate thread object''))
      else bindO (kmalloc THREAD_STACK_SIZE h1) (\<lambda>(stack, h2).
      if stack = 0 then Some (Inl (Panic ''thread_create could not allocate kernel stack''))
      else
        (let s = ksched k;
             t = \<lparr>t_magic = THREAD_MAGIC, t_id = next_thread_id s,
                  t_name = (case name of None \<Rightarrow> ''unnamed'' | Some n \<Rightarrow> n), t_state = THREAD_NEW, t_esp = 0,
                  t_stack_base = stack, t_stack_size = THREAD_STACK_SIZE, t_entry = entry, t_arg = arg, t_process = 0,
                  t_wake_tick = 0, t_next = 0, t_prev = 0\<rparr>;
             k1 = (set_kheap h2 k)\<lparr>ksched := s\<lparr>threads := (threads s)(thread \<mapsto> t), next_thread_id := next_thread_id s + 1\<rparr>\<rparr>
         in Some (bindE (thread_make_initial_stack thread k1) (\<lambda>k2.
                  bindE (if enqueue then on_sched (ready_push thread) k2 else Inr k2) (\<lambda>k3.
                  Inr (thread, k3))))))))"

definition thread_create :: "string option \<Rightarrow> u32 \<Rightarrow> u32 \<Rightarrow> kernel \<Rightarrow> (u32 \<times> kernel) res option" where
  "thread_create name entry arg k = thread_create_internal name entry arg True k"

definition thread_create_suspended :: "string option \<Rightarrow> u32 \<Rightarrow> u32 \<Rightarrow> kernel \<Rightarrow> (u32 \<times> kernel) res option" where
  "thread_create_suspended name entry arg k = thread_create_internal name entry arg False k"

text \<open>\<open>threading_init\<close>; the static object \<open>bootstrap_thread\<close> is at the address the state names.\<close>

definition threading_init :: "kernel \<Rightarrow> kernel res option" where
  "threading_init k =
     (let s = ksched k; boot = bootstrap_thread s;
          bt = \<lparr>t_magic = THREAD_MAGIC, t_id = 0, t_name = ''bootstrap'', t_state = THREAD_RUNNING, t_esp = 0,
                t_stack_base = 0, t_stack_size = 0, t_entry = 0, t_arg = 0, t_process = 0, t_wake_tick = 0,
                t_next = 0, t_prev = 0\<rparr>;
          s1 = s\<lparr>ready := \<lparr>q_head = 0, q_tail = 0\<rparr>, sleeping := \<lparr>q_head = 0, q_tail = 0\<rparr>, zombies := \<lparr>q_head = 0, q_tail = 0\<rparr>,
                 next_thread_id := 1, zombie_created_count := 0, zombie_reaped_count := 0,
                 scheduler_initialized := False, preemption_enabled := False, ticks_per_slice := 1,
                 current_slice_ticks := 0, reschedule_requested := False, scheduler_ticks := 0,
                 threads := (threads s)(boot \<mapsto> bt), current_thread := boot\<rparr>
      in bindO (thread_create_internal (Some ''idle'') (sym_idle_thread_entry (ksym k)) 0 False (k\<lparr>ksched := s1\<rparr>)) (\<lambda>(idle, k1).
         Some (Inr (k1\<lparr>ksched := (ksched k1)\<lparr>idle_thread := idle, scheduler_initialized := True\<rparr>\<rparr>))))"

section \<open>Reaping\<close>

definition reap_one :: "kernel \<Rightarrow> (bool \<times> kernel) res" where
  "reap_one k =
     bindE (zombie_pop (ksched k)) (\<lambda>(zombie, s).
     if zombie = 0 then Inr (False, k\<lparr>ksched := s\<rparr>)
     else bindE (validate_thread zombie (threads s)) (\<lambda>t.
       let stack = t_stack_base t;
           s1 = s\<lparr>threads := (threads s)(zombie \<mapsto> t\<lparr>t_magic := 0\<rparr>)\<rparr>
       in bindE (if stack \<noteq> 0 then kfree stack (kheap k) else Inr (kheap k)) (\<lambda>h1.
          bindE (kfree zombie h1) (\<lambda>h2.
          Inr (True, (set_kheap h2 k)\<lparr>ksched := s1\<lparr>threads := (threads s1)(zombie := None),
                 zombie_reaped_count := zombie_reaped_count s1 + 1\<rparr>\<rparr>)))))"

partial_function (option) thread_reap_zombies :: "kernel \<Rightarrow> kernel res option" where
  "thread_reap_zombies k =
     (case reap_one k of
        Inl e \<Rightarrow> Some (Inl e)
      | Inr r \<Rightarrow> if fst r then thread_reap_zombies (snd r) else Some (Inr (snd r)))"

section \<open>The scheduling interrupt\<close>

definition thread_address_space :: "u32 \<Rightarrow> kernel \<Rightarrow> u32 res" where
  "thread_address_space thread k =
     (if thread = 0 then Inr (address_space_kernel (kas k))
      else bindE (get_thread thread (threads (ksched k))) (\<lambda>t.
        if t_process t = 0 then Inr (address_space_kernel (kas k))
        else bindE (get_process (t_process t) k) (\<lambda>p.
          if p_address_space p = 0 then Inr (address_space_kernel (kas k)) else Inr (p_address_space p))))"

text \<open>
  The interrupted thread goes on without a switch when the result is 0; otherwise the space of the
  thread chosen becomes current.
\<close>

definition thread_schedule_from_interrupt :: "u32 \<Rightarrow> kernel \<Rightarrow> (u32 \<times> kernel) res" where
  "thread_schedule_from_interrupt frame k =
     (let s = ksched k; old = threads s (current_thread s);
          stays = (\<not> scheduler_initialized s \<or> q_head (ready s) = 0
            \<and> (current_thread s = idle_thread s \<or> map_option t_state old = Some THREAD_RUNNING))
      in bindE (schedule_pick frame s) (\<lambda>(esp, s1).
         let k1 = k\<lparr>ksched := s1\<rparr> in
         if stays then Inr (esp, k1)
         else bindE (thread_address_space (current_thread s1) k1) (\<lambda>space.
              bindE (address_space_switch space (kas k1)) (\<lambda>a. Inr (esp, k1\<lparr>kas := a\<rparr>)))))"

section \<open>The current address space follows the current thread\<close>

definition process_of :: "threads \<Rightarrow> u32 \<Rightarrow> u32 option" where
  "process_of st a = map_option t_process (st a)"

lemma bindE_InrE: "bindE r f = Inr y \<Longrightarrow> (\<And>x. r = Inr x \<Longrightarrow> f x = Inr y \<Longrightarrow> P) \<Longrightarrow> P"
  by (cases r) simp_all

lemma process_of_upd [simp]:
  "st a = Some t \<Longrightarrow> t_process u = t_process t \<Longrightarrow> process_of (st(a \<mapsto> u)) = process_of st"
  by (rule ext) (simp add: process_of_def)

lemma process_of_dom:
  assumes "process_of st' = process_of st"
  shows "dom st' = dom st"
proof (rule set_eqI)
  fix a
  have "process_of st' a = process_of st a" by (simp add: assms)
  then show "a \<in> dom st' \<longleftrightarrow> a \<in> dom st" by (cases "st a"; cases "st' a") (simp_all add: process_of_def domIff)
qed

lemma set_thread_process:
  "set_thread a f s = Inr s' \<Longrightarrow> (\<And>t. t_process (f t) = t_process t) \<Longrightarrow> process_of (threads s') = process_of (threads s)"
  by (auto simp: set_thread_def upd_thread_def get_thread_def bindE_eq_Inr_iff split: option.splits)

lemma upd_thread_process:
  "upd_thread a f st = Inr st' \<Longrightarrow> (\<And>t. t_process (f t) = t_process t) \<Longrightarrow> process_of st' = process_of st"
  by (auto simp: upd_thread_def get_thread_def bindE_eq_Inr_iff split: option.splits)

lemma queue_push_process: "queue_push a (q, st) = Inr (q', st') \<Longrightarrow> process_of st' = process_of st"
  by (auto simp: queue_push_def bindE_eq_Inr_iff Let_def split: if_splits dest!: upd_thread_process)

lemma queue_pop_process: "queue_pop (q, st) = Inr (a, q', st') \<Longrightarrow> process_of st' = process_of st"
  by (auto simp: queue_pop_def bindE_eq_Inr_iff Let_def split: if_splits dest!: upd_thread_process)

lemma ready_push_process: "ready_push a s = Inr s' \<Longrightarrow> process_of (threads s') = process_of (threads s)"
  by (auto simp: ready_push_def bindE_eq_Inr_iff split: if_splits dest!: queue_push_process set_thread_process)

lemma ready_pop_process: "ready_pop s = Inr (a, s') \<Longrightarrow> process_of (threads s') = process_of (threads s)"
  by (auto simp: ready_pop_def bindE_eq_Inr_iff dest!: queue_pop_process)

lemma switch_to_process:
  assumes "switch_to a s = Inr (r, s')"
  shows "process_of (threads s') = process_of (threads s)"
proof -
  from assms obtain s3 where "set_thread (if a = 0 then idle_thread s else a) (\<lambda>t. t\<lparr>t_state := THREAD_RUNNING\<rparr>) s = Inr s3"
    and "threads s' = threads s3"
    unfolding switch_to_def Let_def by (elim bindE_InrE) (auto split: if_splits)
  then show ?thesis using set_thread_process [of _ "\<lambda>t. t\<lparr>t_state := THREAD_RUNNING\<rparr>"] by simp
qed

lemma schedule_pick_process:
  assumes "schedule_pick frame s = Inr (r, s')"
  shows "process_of (threads s') = process_of (threads s)"
proof (cases "scheduler_initialized s")
  case True
  have f: "frame \<noteq> 0" using assms by (auto simp: schedule_pick_def)
  from assms obtain old :: thread and s1 where s1: "set_thread (current_thread s) (\<lambda>t. t\<lparr>t_esp := frame\<rparr>) s = Inr s1"
    and rest: "(if q_head (ready s1) = 0 \<and> (current_thread s = idle_thread s1 \<or> t_state old = THREAD_RUNNING)
         then Inr (0, s1\<lparr>current_slice_ticks := 0, reschedule_requested := False\<rparr>)
         else
           bindE (if q_head (ready s1) = 0 then Inr (idle_thread s1, s1)
                  else bindE (if current_thread s \<noteq> idle_thread s1 \<and> t_state old = THREAD_RUNNING
                              then ready_push (current_thread s) s1 else Inr s1) ready_pop) (\<lambda>(nxt, s2).
           switch_to nxt s2)) = Inr (r, s')"
    unfolding schedule_pick_def Let_def if_not_P [OF f] not_not if_not_P [of "\<not> scheduler_initialized s", unfolded not_not, OF True]
    by (elim bindE_InrE) blast
  have "process_of (threads s1) = process_of (threads s)" by (rule set_thread_process [OF s1]) simp
  moreover have "process_of (threads s') = process_of (threads s1)"
    using rest by (auto simp: bindE_eq_Inr_iff split: if_splits dest!: ready_push_process ready_pop_process switch_to_process)
  ultimately show ?thesis by simp
qed (use assms in \<open>auto simp: schedule_pick_def split: if_splits\<close>)

lemma thread_address_space_process:
  "process_of (threads (ksched k)) a = Some p \<Longrightarrow>
     thread_address_space a k =
       (if a = 0 \<or> p = 0 then Inr (kernel_space (kas k))
        else bindE (get_process p k) (\<lambda>q. if p_address_space q = 0 then Inr (kernel_space (kas k)) else Inr (p_address_space q)))"
  by (auto simp: process_of_def thread_address_space_def get_thread_def address_space_kernel_def intro!: bindE_cong)

lemma thread_address_space_cong:
  assumes "process_of (threads (ksched k')) = process_of (threads (ksched k))" and "procs k' = procs k"
    and "kernel_space (kas k') = kernel_space (kas k)" and "a \<in> dom (threads (ksched k))"
  shows "thread_address_space a k' = thread_address_space a k"
proof -
  obtain p where p: "process_of (threads (ksched k)) a = Some p" using assms(4) by (auto simp: process_of_def)
  moreover have "process_of (threads (ksched k')) a = Some p" using p assms(1) by simp
  ultimately show ?thesis using assms(2,3) by (simp add: thread_address_space_process get_process_def cong: if_cong)
qed

lemma address_space_switch_law:
  assumes "validate_space sp a = Inr x"
  shows "\<exists>a'. address_space_switch sp a = Inr a' \<and> current_space a' = sp \<and> kernel_space a' = kernel_space a
    \<and> spaces a' = spaces a"
  using assms by (auto simp: address_space_switch_def Let_def sync_kernel_mappings_def set_phys_def)

definition thread_spaces_ok :: "kernel \<Rightarrow> bool" where
  "thread_spaces_ok k \<longleftrightarrow> (\<forall>a\<in>dom (threads (ksched k)). \<exists>sp x. thread_address_space a k = Inr sp \<and> validate_space sp (kas k) = Inr x)"

definition runs_in_own_space :: "kernel \<Rightarrow> bool" where
  "runs_in_own_space k \<longleftrightarrow> thread_address_space (current_thread (ksched k)) k = Inr (current_space (kas k))"

lemma validate_space_cong: "spaces a' = spaces a \<Longrightarrow> validate_space sp a' = validate_space sp a"
  by (simp add: validate_space_def get_space_def)

lemma thread_spaces_ok_cong:
  assumes "process_of (threads (ksched k')) = process_of (threads (ksched k))" and "procs k' = procs k"
    and "kernel_space (kas k') = kernel_space (kas k)" and "spaces (kas k') = spaces (kas k)" and "thread_spaces_ok k"
  shows "thread_spaces_ok k'"
proof -
  have "dom (threads (ksched k')) = dom (threads (ksched k))"
    using assms(1) by (rule process_of_dom)
  then show ?thesis
    using assms(5) thread_address_space_cong [OF assms(1-3)] validate_space_cong [OF assms(4)] by (auto simp: thread_spaces_ok_def)
qed

lemma schedule_pick_current:
  assumes "sched_inv s rs ss zs" and "scheduler_initialized s" and "frame \<noteq> 0" and old: "threads s (current_thread s) = Some old"
  shows "\<exists>r s'. schedule_pick frame s = Inr (r, s') \<and> current_thread s' \<in> dom (threads s')
    \<and> (rs = [] \<and> (current_thread s = idle_thread s \<or> t_state old = THREAD_RUNNING) \<longrightarrow> current_thread s' = current_thread s)"
proof -
  let ?kept = "if current_thread s \<noteq> idle_thread s \<and> t_state old = THREAD_RUNNING then [current_thread s] else []"
  obtain r s' where s': "schedule_pick frame s = Inr (r, s')" "switched frame (hd (rs @ ?kept @ [idle_thread s])) (tl (rs @ ?kept)) ss zs s (r, s')"
    using schedule_pick_law [OF assms] by blast
  then have "current_thread s' = hd (rs @ ?kept @ [idle_thread s])" "current_thread s' \<in> dom (threads s')"
    unfolding switched_def sched_inv_def prod.case by blast+
  with s'(1) show ?thesis by (intro exI [of _ r] exI [of _ s']) auto
qed

text \<open>
  C31. A thread runs in the address space of its process. If every thread's process has a valid
  space and the current space is that of the running thread, the scheduling interrupt returns, and
  afterwards the current space is that of the thread chosen, the kernel's own space for a thread
  without process; the choice and the returned stack pointer are those of \<open>schedule_pick\<close>, and
  the spaces and processes are as before.
\<close>

theorem thread_runs_in_own_space:
  assumes "sched_inv (ksched k) rs ss zs" and "scheduler_initialized (ksched k)" and "frame \<noteq> 0"
    and "thread_spaces_ok k" and "runs_in_own_space k"
  shows "\<exists>r k'. thread_schedule_from_interrupt frame k = Inr (r, k') \<and> schedule_pick frame (ksched k) = Inr (r, ksched k')
    \<and> thread_spaces_ok k' \<and> runs_in_own_space k' \<and> spaces (kas k') = spaces (kas k) \<and> procs k' = procs k"
proof -
  let ?s = "ksched k" and ?c = "current_thread (ksched k)"
  obtain old where old: "threads ?s ?c = Some old" using assms(1) by (auto simp: sched_inv_def)
  define goes_on where "goes_on \<longleftrightarrow> rs = [] \<and> (?c = idle_thread ?s \<or> t_state old = THREAD_RUNNING)"
  obtain r s' where pick: "schedule_pick frame ?s = Inr (r, s')" and sw: "current_thread s' \<in> dom (threads s')"
    and on: "goes_on \<Longrightarrow> current_thread s' = ?c"
    using schedule_pick_current [OF assms(1-3) old] unfolding goes_on_def by blast
  have proc: "process_of (threads s') = process_of (threads ?s)" by (rule schedule_pick_process [OF pick])
  have head: "q_head (ready ?s) = 0 \<longleftrightarrow> rs = []"
    using assms(1) hd0_eq_0 by (auto simp: sched_inv_def queues_ok_def queue_of_def)
  let ?k1 = "k\<lparr>ksched := s'\<rparr>"
  have ok1: "thread_spaces_ok ?k1" by (rule thread_spaces_ok_cong [OF _ _ _ _ assms(4)]) (use proc in simp_all)
  show ?thesis
  proof (cases goes_on)
    case True
    have "thread_address_space ?c ?k1 = thread_address_space ?c k" by (rule thread_address_space_cong) (use proc old in auto)
    then have "runs_in_own_space ?k1" using assms(5) on [OF True] by (simp add: runs_in_own_space_def)
    moreover have "thread_schedule_from_interrupt frame k = Inr (r, ?k1)"
      using True pick old head assms(2) by (auto simp: thread_schedule_from_interrupt_def goes_on_def Let_def)
    ultimately show ?thesis using ok1 pick by fastforce
  next
    case False
    obtain sp x where sp: "thread_address_space (current_thread s') ?k1 = Inr sp" "validate_space sp (kas ?k1) = Inr x"
      using bspec [OF ok1 [unfolded thread_spaces_ok_def], of "current_thread s'"] sw by auto
    obtain a' where a': "address_space_switch sp (kas ?k1) = Inr a'" "current_space a' = sp"
      "kernel_space a' = kernel_space (kas k)" "spaces a' = spaces (kas k)" using address_space_switch_law [OF sp(2)] by auto
    let ?k2 = "?k1\<lparr>kas := a'\<rparr>"
    have "thread_address_space (current_thread s') ?k2 = thread_address_space (current_thread s') ?k1"
      by (rule thread_address_space_cong) (use a' sw in auto)
    then have "runs_in_own_space ?k2" using sp a' by (simp add: runs_in_own_space_def)
    moreover have "thread_spaces_ok ?k2" by (rule thread_spaces_ok_cong [OF _ _ _ _ ok1]) (use a' in simp_all)
    moreover have "thread_schedule_from_interrupt frame k = Inr (r, ?k2)"
      using False pick old head assms(2) sp a' by (auto simp: thread_schedule_from_interrupt_def goes_on_def Let_def)
    ultimately show ?thesis using pick a' by fastforce
  qed
qed

section \<open>A kernel with one process\<close>

definition sample_process :: process where
  "sample_process = \<lparr>p_magic = 0x50524F43, p_pid = 1, p_parent_pid = 0, p_name = ''p'', p_state = PROCESS_RUNNING,
     p_address_space = 0xD1000018, p_main_thread = 32, p_exit_code = 0xFFFFFFFF, p_exited = False, p_kill_requested = False,
     p_fds = replicate 16 \<lparr>fd_used = False, fd_file = 0\<rparr>, p_user_code_base = 0x1000000, p_user_entry = 0x1000000,
     p_user_stack_base = 0x1000000, p_user_stack_top = 0x1000800, p_user_initial_esp = 0x1000800, p_next = 0, p_prev = 0\<rparr>"

definition sample_kernel :: "thread_state \<Rightarrow> kernel" where
  "sample_kernel x = \<lparr>kas = sample_paged, kfiles = Map.empty,
     ksched = sample_sched\<lparr>threads := [16 \<mapsto> sample_thread, 32 \<mapsto> sample_thread\<lparr>t_state := x, t_process := 64\<rparr>]\<rparr>,
     procs = [64 \<mapsto> sample_process], next_pid = 2, last_exit_code = 0xFFFFFFFF, last_exit_seen = False,
     process_head = 64, process_tail = 64, process_count = 1,
     ksym = \<lparr>sym_thread_bootstrap = 0x100000, sym_idle_thread_entry = 0x100100, sym_user_process_thread_entry = 0x100200\<rparr>\<rparr>"

lemma sample_kernel_sel [simp]:
  "kas (sample_kernel x) = sample_paged" "procs (sample_kernel x) = [64 \<mapsto> sample_process]"
  "threads (ksched (sample_kernel x)) = [16 \<mapsto> sample_thread, 32 \<mapsto> sample_thread\<lparr>t_state := x, t_process := 64\<rparr>]"
  "current_thread (ksched (sample_kernel x)) = 32" "process_head (sample_kernel x) = 64"
  "process_tail (sample_kernel x) = 64" "process_count (sample_kernel x) = 1"
  by (simp_all add: sample_kernel_def sample_sched_def)

lemma sample_kernel_sched: "sched_inv (ksched (sample_kernel THREAD_BLOCKED)) [] [] []"
  by (auto simp: sample_sched_def sched_inv_def queues_ok_def queue_of_def states_ok_def sleep_order_def
      view_def sample_thread_def sample_kernel_def split: if_splits)

lemma sample_kernel_spaces: "thread_spaces_ok (sample_kernel x)"
  by (auto simp: thread_spaces_ok_def thread_address_space_def get_thread_def get_process_def sample_process_def sample_thread_def
      sample_paged_def sample_aspace_def address_space_kernel_def validate_space_def get_space_def set_phys_def)

lemma sample_kernel_own: "runs_in_own_space (sample_kernel x)"
  by (simp add: runs_in_own_space_def thread_address_space_def get_thread_def get_process_def sample_process_def
      sample_paged_def sample_aspace_def set_phys_def)

theorem thread_runs_in_own_space_witness:
  "\<exists>r k'. thread_schedule_from_interrupt 8 (sample_kernel THREAD_BLOCKED) = Inr (r, k') \<and> runs_in_own_space k'"
  using thread_runs_in_own_space [OF sample_kernel_sched _ _ sample_kernel_spaces sample_kernel_own, of 8]
  by (fastforce simp: sample_kernel_def sample_sched_def)

end
