(* ===== verification/Linked_Store.thy ===== *)
theory Linked_Store
  imports Thread_Queue
begin

text \<open>
  Doubly linked lists of objects in a typed store, for any object type with a next and a previous
  pointer: the list a head and a tail pointer describe, appending an object and unlinking one at any
  position. The process table is an instance.
\<close>

locale linked_store =
  fixes nxt prv :: "'o \<Rightarrow> u32" and set_nxt set_prv :: "u32 \<Rightarrow> 'o \<Rightarrow> 'o"
  assumes link_laws: "nxt (set_nxt a x) = a" "prv (set_nxt a x) = prv x" "prv (set_prv a x) = a" "nxt (set_prv a x) = nxt x"
begin

primrec seg :: "(u32 \<rightharpoonup> 'o) \<Rightarrow> u32 \<Rightarrow> u32 list \<Rightarrow> u32 \<Rightarrow> bool" where
  "seg st p [] q \<longleftrightarrow> True"
| "seg st p (a # as) q \<longleftrightarrow> a \<noteq> 0 \<and> (\<exists>x. st a = Some x \<and> prv x = p \<and> nxt x = hd0 as q) \<and> seg st a as q"

definition dlist :: "(u32 \<rightharpoonup> 'o) \<Rightarrow> u32 \<Rightarrow> u32 \<Rightarrow> u32 list \<Rightarrow> bool" where
  "dlist st h t xs \<longleftrightarrow> seg st 0 xs 0 \<and> distinct xs \<and> h = hd0 xs 0 \<and> t = last0 0 xs"

lemma seg_append: "seg st p (xs @ ys) q \<longleftrightarrow> seg st p xs (hd0 ys q) \<and> seg st (last0 p xs) ys q"
  by (induction xs arbitrary: p) auto

lemma seg_nonzero: "seg st p xs q \<Longrightarrow> 0 \<notin> set xs"
  by (induction xs arbitrary: p) auto

lemma seg_in_store: "seg st p xs q \<Longrightarrow> a \<in> set xs \<Longrightarrow> \<exists>x. st a = Some x"
  by (induction xs arbitrary: p) auto

lemma seg_cong:
  assumes "seg st p xs q"
    and "\<And>a x. a \<in> set xs \<Longrightarrow> st a = Some x \<Longrightarrow> \<exists>y. st' a = Some y \<and> nxt y = nxt x \<and> prv y = prv x"
  shows "seg st' p xs q"
  using assms
proof (induction xs arbitrary: p)
  case (Cons a as)
  have "seg st' a as q" by (rule Cons.IH) (use Cons.prems in auto)
  moreover obtain x where x: "st a = Some x" "prv x = p" "nxt x = hd0 as q" using Cons.prems(1) by auto
  obtain y where "st' a = Some y" "nxt y = nxt x" "prv y = prv x" using Cons.prems(2) [of a x] x by auto
  ultimately show ?case using Cons.prems(1) x by auto
qed simp

lemma seg_upd_outside: "seg st p xs q \<Longrightarrow> a \<notin> set xs \<Longrightarrow> seg (st(a := v)) p xs q"
  by (erule seg_cong) auto

lemma seg_set_next:
  assumes "seg st p (xs @ [a]) q" and "distinct (xs @ [a])" and "st a = Some x"
  shows "seg (st(a \<mapsto> set_nxt q' x)) p (xs @ [a]) q'"
proof -
  have "seg (st(a \<mapsto> set_nxt q' x)) p xs a" using assms by (intro seg_upd_outside) (auto simp: seg_append)
  with assms show ?thesis by (auto simp: seg_append link_laws)
qed

lemma seg_set_prev:
  assumes "seg st p (a # xs) q" and "distinct (a # xs)" and "st a = Some x"
  shows "seg (st(a \<mapsto> set_prv p' x)) p' (a # xs) q"
proof -
  have "seg (st(a \<mapsto> set_prv p' x)) a xs q" using assms by (intro seg_upd_outside) auto
  with assms show ?thesis by (auto simp: link_laws)
qed

lemma dlist_cong:
  assumes "dlist st h t xs"
    and "\<And>a x. a \<in> set xs \<Longrightarrow> st a = Some x \<Longrightarrow> \<exists>y. st' a = Some y \<and> nxt y = nxt x \<and> prv y = prv x"
  shows "dlist st' h t xs"
  using assms seg_cong [of st 0 xs 0 st'] by (simp add: dlist_def)

lemma dlist_ends:
  assumes "dlist st h t xs"
  shows "h = 0 \<longleftrightarrow> xs = []" and "t = 0 \<longleftrightarrow> xs = []"
proof -
  have "0 \<notin> set xs" using assms seg_nonzero by (auto simp: dlist_def)
  then show "h = 0 \<longleftrightarrow> xs = []" "t = 0 \<longleftrightarrow> xs = []" using assms by (cases xs, auto simp: dlist_def last0_def split: if_splits dest!: last_in_set)
qed

text \<open>Appending: the new object's links are set, then the next pointer of the old tail.\<close>

lemma dlist_append:
  assumes d: "dlist st h t xs" and a: "a \<noteq> 0" "a \<notin> set xs" "st a = Some x" "nxt x = 0" "prv x = t"
  shows "xs = [] \<Longrightarrow> dlist st a a [a]"
    and "xs \<noteq> [] \<Longrightarrow> \<exists>u. st t = Some u \<and> t \<in> set xs \<and> dlist (st(t \<mapsto> set_nxt a u)) h a (xs @ [a])"
proof -
  show "xs = [] \<Longrightarrow> dlist st a a [a]" using d a by (simp add: dlist_def last0_def)
  assume xs: "xs \<noteq> []"
  then obtain ys b where yb: "xs = ys @ [b]" by (metis rev_exhaust)
  have tb: "t = b" using d yb by (simp add: dlist_def last0_def)
  have seg: "seg st 0 (ys @ [b]) 0" and di: "distinct (ys @ [b])" using d yb by (simp_all add: dlist_def)
  then obtain u where u: "st b = Some u" using seg_in_store by force
  have s: "seg (st(b \<mapsto> set_nxt a u)) 0 (ys @ [b]) a" by (rule seg_set_next [OF seg di u])
  have "(st(b \<mapsto> set_nxt a u)) a = Some x" using a yb by auto
  then have "dlist (st(b \<mapsto> set_nxt a u)) h a (xs @ [a])"
    using s d a yb tb di seg_append [of "st(b \<mapsto> set_nxt a u)" 0 "ys @ [b]" "[a]" 0] by (auto simp: dlist_def last0_def)
  then show "\<exists>u. st t = Some u \<and> t \<in> set xs \<and> dlist (st(t \<mapsto> set_nxt a u)) h a (xs @ [a])" using u tb yb by auto
qed

text \<open>Unlinking: the next pointer of the predecessor, or the head, then the previous pointer of the successor, or the tail.\<close>

lemma dlist_unlink_next:
  assumes "seg st 0 (xs @ a # ys) 0" and "distinct (xs @ a # ys)"
  shows "\<exists>st1. (if last0 0 xs \<noteq> 0 then \<exists>u. st (last0 0 xs) = Some u \<and> st1 = st(last0 0 xs \<mapsto> set_nxt (hd0 ys 0) u) else st1 = st)
    \<and> seg st1 0 xs (hd0 ys 0) \<and> seg st1 a ys 0 \<and> st1 a = st a"
proof (cases xs rule: rev_cases)
  case Nil
  then show ?thesis using assms by (auto simp: last0_def)
next
  case (snoc zs b)
  have s: "seg st 0 (zs @ [b]) a" "seg st a ys 0" using assms(1) snoc seg_append [of st 0 "zs @ [b]" "a # ys" 0] by simp_all
  then obtain u where u: "st b = Some u" using seg_in_store by force
  have "b \<noteq> 0" using s(1) seg_nonzero [of st 0 "zs @ [b]"] by auto
  moreover have "seg (st(b \<mapsto> set_nxt (hd0 ys 0) u)) 0 (zs @ [b]) (hd0 ys 0)" by (rule seg_set_next [OF s(1) _ u]) (use assms(2) snoc in auto)
  moreover have "seg (st(b \<mapsto> set_nxt (hd0 ys 0) u)) a ys 0" by (rule seg_upd_outside [OF s(2)]) (use assms(2) snoc in auto)
  ultimately show ?thesis using u snoc assms(2) by (auto simp: last0_def)
qed

lemma dlist_unlink_prev:
  assumes "seg st 0 xs (hd0 ys 0)" and "seg st a ys 0" and "distinct (xs @ a # ys)"
  shows "\<exists>st1. (if hd0 ys 0 \<noteq> 0 then \<exists>v. st (hd0 ys 0) = Some v \<and> st1 = st(hd0 ys 0 \<mapsto> set_prv (last0 0 xs) v) else st1 = st)
    \<and> seg st1 0 (xs @ ys) 0 \<and> st1 a = st a"
proof (cases ys)
  case Nil
  then show ?thesis using assms(1) by auto
next
  case (Cons c zs)
  then obtain v where v: "st c = Some v" and c0: "c \<noteq> 0" using assms(2) by auto
  have "seg (st(c \<mapsto> set_prv (last0 0 xs) v)) (last0 0 xs) (c # zs) 0" by (rule seg_set_prev [of st a]) (use assms Cons v in auto)
  moreover have "seg (st(c \<mapsto> set_prv (last0 0 xs) v)) 0 xs c" by (rule seg_upd_outside) (use assms Cons in auto)
  ultimately show ?thesis using v c0 Cons assms(3) by (auto simp: seg_append)
qed

end

end
