(* ===== verification/Process.thy ===== *)
theory Process
  imports Kernel Linked_Store
begin

text \<open>
  Processes, \<open>kernel/process.c\<close>, and the entry to user mode, \<open>kernel/usermode.c\<close>: the process
  table (a doubly linked list in creation order), descriptors, user memory, the initial user stack,
  starting, killing, exiting, waiting and destroying. A section between \<open>irq_save\<close> and
  \<open>irq_restore\<close> is atomic. Bytes read through a kernel pointer are given as a list. Waiting is given
  by the turns of its loop, between which the thread sleeps.
\<close>

section \<open>The process table\<close>

abbreviation (input) PROCESS_MAGIC :: u32 where "PROCESS_MAGIC \<equiv> 0x50524F43"
abbreviation (input) PROCESS_MAX_FDS :: u32 where "PROCESS_MAX_FDS \<equiv> 16"
abbreviation (input) PROCESS_FIRST_FILE_FD :: u32 where "PROCESS_FIRST_FILE_FD \<equiv> 3"
abbreviation (input) PROCESS_MAX_ARGC :: int where "PROCESS_MAX_ARGC \<equiv> 16"
abbreviation (input) PROCESS_MAX_ARG_STRING :: nat where "PROCESS_MAX_ARG_STRING \<equiv> 128"
abbreviation (input) PROCESS_KILLED_EXIT_CODE :: u32 where "PROCESS_KILLED_EXIT_CODE \<equiv> 128"

definition process_init_system :: "kernel \<Rightarrow> kernel" where
  "process_init_system k = k\<lparr>next_pid := 1, last_exit_code := 0xFFFFFFFF, last_exit_seen := False,
     process_head := 0, process_tail := 0, process_count := 0\<rparr>"

definition validate_process :: "u32 \<Rightarrow> kernel \<Rightarrow> process res" where
  "validate_process process k =
     (if process = 0 then Inl (Panic ''process: null process'')
      else bindE (get_process process k) (\<lambda>p.
        if p_magic p \<noteq> PROCESS_MAGIC then Inl (Panic ''process: magic mismatch'') else Inr p))"

definition validate_live_process :: "u32 \<Rightarrow> kernel \<Rightarrow> process res" where
  "validate_live_process process k =
     bindE (validate_process process k) (\<lambda>p.
     if p_state p = PROCESS_DESTROYED then Inl (Panic ''process: operation on destroyed process'') else Inr p)"

definition process_state_name :: "process_state \<Rightarrow> string" where
  "process_state_name state = (case state of PROCESS_NEW \<Rightarrow> ''new'' | PROCESS_RUNNING \<Rightarrow> ''running''
     | PROCESS_ZOMBIE \<Rightarrow> ''zombie'' | PROCESS_DESTROYED \<Rightarrow> ''destroyed'')"

definition process_table_insert :: "u32 \<Rightarrow> kernel \<Rightarrow> kernel res" where
  "process_table_insert process k =
     bindE (validate_process process k) (\<lambda>_.
     bindE (upd_process process (\<lambda>p. p\<lparr>p_next := 0, p_prev := process_tail k\<rparr>) k) (\<lambda>k1.
     bindE (if process_tail k1 \<noteq> 0 then upd_process (process_tail k1) (\<lambda>p. p\<lparr>p_next := process\<rparr>) k1
            else Inr (k1\<lparr>process_head := process\<rparr>)) (\<lambda>k2.
     Inr (k2\<lparr>process_tail := process, process_count := process_count k2 + 1\<rparr>))))"

definition process_table_remove :: "u32 \<Rightarrow> kernel \<Rightarrow> kernel res" where
  "process_table_remove process k =
     bindE (validate_process process k) (\<lambda>p.
     bindE (if p_prev p \<noteq> 0 then upd_process (p_prev p) (\<lambda>q. q\<lparr>p_next := p_next p\<rparr>) k
            else Inr (k\<lparr>process_head := p_next p\<rparr>)) (\<lambda>k1.
     bindE (get_process process k1) (\<lambda>p.
     bindE (if p_next p \<noteq> 0 then upd_process (p_next p) (\<lambda>q. q\<lparr>p_prev := p_prev p\<rparr>) k1
            else Inr (k1\<lparr>process_tail := p_prev p\<rparr>)) (\<lambda>k2.
     bindE (upd_process process (\<lambda>p. p\<lparr>p_next := 0, p_prev := 0\<rparr>) k2) (\<lambda>k3.
     Inr (if process_count k3 > 0 then k3\<lparr>process_count := process_count k3 - 1\<rparr> else k3))))))"

definition process_create_empty :: "string option \<Rightarrow> kernel \<Rightarrow> (u32 \<times> kernel) res option" where
  "process_create_empty name k =
     bindO (kcalloc 1 SIZEOF_PROCESS (kheap k)) (\<lambda>(process, h).
     if process = 0 then Some (Inl (Panic ''process_create_empty could not allocate process object''))
     else
       (let k1 = (set_kheap h k)\<lparr>next_pid := next_pid k + 1\<rparr> in
        bindO (address_space_create (kas k1)) (\<lambda>(space, a).
        let p = \<lparr>p_magic = PROCESS_MAGIC, p_pid = next_pid k, p_parent_pid = 0,
                 p_name = (case name of None \<Rightarrow> ''unnamed'' | Some n \<Rightarrow> n), p_state = PROCESS_NEW,
                 p_address_space = space, p_main_thread = 0, p_exit_code = 0xFFFFFFFF, p_exited = False,
                 p_kill_requested = False, p_fds = replicate (unat PROCESS_MAX_FDS) \<lparr>fd_used = False, fd_file = 0\<rparr>,
                 p_user_code_base = 0, p_user_entry = 0, p_user_stack_base = 0, p_user_stack_top = 0,
                 p_user_initial_esp = 0, p_next = 0, p_prev = 0\<rparr>
        in Some (bindE (process_table_insert process (k1\<lparr>kas := a, procs := (procs k1)(process \<mapsto> p)\<rparr>)) (\<lambda>k2.
                 Inr (process, k2))))))"

definition process_set_parent :: "u32 \<Rightarrow> u32 \<Rightarrow> kernel \<Rightarrow> kernel res" where
  "process_set_parent process parent_pid k =
     bindE (validate_live_process process k) (\<lambda>_. upd_process process (\<lambda>p. p\<lparr>p_parent_pid := parent_pid\<rparr>) k)"

definition process_parent_pid :: "u32 \<Rightarrow> kernel \<Rightarrow> u32 res" where
  "process_parent_pid process k = bindE (validate_live_process process k) (\<lambda>p. Inr (p_parent_pid p))"

definition process_is_child_of :: "u32 \<Rightarrow> u32 \<Rightarrow> kernel \<Rightarrow> bool res" where
  "process_is_child_of process parent_pid k = bindE (validate_live_process process k) (\<lambda>p. Inr (p_parent_pid p = parent_pid))"

section \<open>Killing\<close>

definition killable :: "process \<Rightarrow> bool" where
  "killable p \<longleftrightarrow> \<not> p_exited p \<and> p_state p \<noteq> PROCESS_ZOMBIE \<and> p_state p \<noteq> PROCESS_DESTROYED"

definition process_request_kill :: "u32 \<Rightarrow> kernel \<Rightarrow> kernel res" where
  "process_request_kill process k =
     bindE (validate_live_process process k) (\<lambda>p.
     if killable p then upd_process process (\<lambda>p. p\<lparr>p_kill_requested := True\<rparr>) k else Inr k)"

definition process_kill_requested :: "u32 \<Rightarrow> kernel \<Rightarrow> bool res" where
  "process_kill_requested process k = bindE (validate_live_process process k) (\<lambda>p. Inr (p_kill_requested p))"

partial_function (option) kill_child_loop :: "u32 \<Rightarrow> u32 \<Rightarrow> u32 \<Rightarrow> kernel \<Rightarrow> (int \<times> kernel) res option" where
  "kill_child_loop cur parent_pid child_pid k =
     (if cur = 0 then Some (Inr (-1, k))
      else case get_process cur k of
        Inl e \<Rightarrow> Some (Inl e)
      | Inr p \<Rightarrow>
          if p_pid p = child_pid \<and> p_parent_pid p = parent_pid
          then if killable p then Some (bindE (upd_process cur (\<lambda>p. p\<lparr>p_kill_requested := True\<rparr>) k) (\<lambda>k1. Inr (0, k1)))
               else Some (Inr (-1, k))
          else kill_child_loop (p_next p) parent_pid child_pid k)"

definition process_request_kill_child :: "u32 \<Rightarrow> u32 \<Rightarrow> kernel \<Rightarrow> (int \<times> kernel) res option" where
  "process_request_kill_child parent_pid child_pid k = kill_child_loop (process_head k) parent_pid child_pid k"

section \<open>Descriptors\<close>

definition free_fd :: "process_fd list \<Rightarrow> nat option" where
  "free_fd fds = find (\<lambda>fd. \<not> fd_used (fds ! fd)) [unat PROCESS_FIRST_FILE_FD..<unat PROCESS_MAX_FDS]"

definition process_fd_install :: "u32 \<Rightarrow> u32 \<Rightarrow> kernel \<Rightarrow> (int \<times> kernel) res" where
  "process_fd_install process file k =
     bindE (validate_live_process process k) (\<lambda>p.
     if file = 0 then Inr (-1, k)
     else case free_fd (p_fds p) of
       None \<Rightarrow> Inr (-1, k)
     | Some fd \<Rightarrow> bindE (upd_process process (\<lambda>p. p\<lparr>p_fds := (p_fds p)[fd := \<lparr>fd_used = True, fd_file = file\<rparr>]\<rparr>) k) (\<lambda>k1.
                    Inr (int fd, k1)))"

definition process_fd_get :: "u32 \<Rightarrow> u32 \<Rightarrow> kernel \<Rightarrow> u32 res" where
  "process_fd_get process fd k =
     bindE (validate_live_process process k) (\<lambda>p.
     if fd < PROCESS_FIRST_FILE_FD \<or> fd \<ge> PROCESS_MAX_FDS then Inr 0
     else Inr (if fd_used (p_fds p ! unat fd) then fd_file (p_fds p ! unat fd) else 0))"

definition process_fd_close :: "u32 \<Rightarrow> u32 \<Rightarrow> kernel \<Rightarrow> (int \<times> kernel) res" where
  "process_fd_close process fd k =
     bindE (validate_live_process process k) (\<lambda>p.
     if fd < PROCESS_FIRST_FILE_FD \<or> fd \<ge> PROCESS_MAX_FDS then Inr (-1, k)
     else
       (let d = p_fds p ! unat fd; file = (if fd_used d then fd_file d else 0) in
        bindE (if fd_used d then upd_process process (\<lambda>p. p\<lparr>p_fds := (p_fds p)[unat fd := \<lparr>fd_used = False, fd_file = 0\<rparr>]\<rparr>) k
               else Inr k) (\<lambda>k1.
        if file = 0 then Inr (-1, k1)
        else bindE (on_vfs (\<lambda>v. bindE (vfs_close file v) (\<lambda>v1. Inr ((), v1))) k1) (\<lambda>(_, k2). Inr (0, k2)))))"

definition process_close_all_files :: "u32 \<Rightarrow> kernel \<Rightarrow> kernel res" where
  "process_close_all_files process k =
     bindE (validate_live_process process k) (\<lambda>p.
     let range = [unat PROCESS_FIRST_FILE_FD..<unat PROCESS_MAX_FDS];
         to_close = map (\<lambda>fd. if fd_used (p_fds p ! fd) then fd_file (p_fds p ! fd) else 0) range;
         fds = fold (\<lambda>fd ds. if fd_used (ds ! fd) then ds[fd := \<lparr>fd_used = False, fd_file = 0\<rparr>] else ds) range (p_fds p)
     in bindE (upd_process process (\<lambda>p. p\<lparr>p_fds := fds\<rparr>) k) (\<lambda>k1.
        foldE (\<lambda>file k. if file \<noteq> 0
                 then bindE (on_vfs (\<lambda>v. bindE (vfs_close file v) (\<lambda>v1. Inr ((), v1))) k) (\<lambda>(_, k2). Inr k2)
                 else Inr k) to_close k1))"

section \<open>User memory\<close>

definition page_align_down :: "u32 \<Rightarrow> u32" where
  "page_align_down value = value AND NOT (PMM_PAGE_SIZE - 1)"

definition page_align_up :: "u32 \<Rightarrow> u32" where
  "page_align_up value = (value + PMM_PAGE_SIZE - 1) AND NOT (PMM_PAGE_SIZE - 1)"

definition align_down_4 :: "u32 \<Rightarrow> u32" where
  "align_down_4 value = value AND NOT 3"

definition map_user_page :: "u32 \<Rightarrow> u32 \<Rightarrow> kernel \<Rightarrow> (int \<times> kernel) res option" where
  "map_user_page process virtual_addr k =
     bindO (Some (validate_process process k)) (\<lambda>p.
     let (physical, fr) = pmm_alloc_page (frames (kas k)); a = set_frames fr (kas k) in
     if physical = PMM_INVALID_PAGE then Some (Inr (-1, k\<lparr>kas := a\<rparr>))
     else bindO (address_space_map_page (p_address_space p) virtual_addr physical
                   (ADDRESS_SPACE_FLAG_WRITABLE OR ADDRESS_SPACE_FLAG_USER) a) (\<lambda>(rc, a1).
       if rc \<noteq> 0
       then Some (bindE (pmm_free_page physical (frames a1)) (\<lambda>fr. Inr (-1, k\<lparr>kas := set_frames fr a1\<rparr>)))
       else Some (Inr (0, k\<lparr>kas := a1\<rparr>))))"

primrec map_user_pages :: "u32 list \<Rightarrow> u32 \<Rightarrow> kernel \<Rightarrow> (int \<times> kernel) res option" where
  "map_user_pages [] process k = Some (Inr (0, k))"
| "map_user_pages (addr # as) process k =
     bindO (map_user_page process addr k) (\<lambda>(rc, k1).
     if rc \<noteq> 0 then Some (Inr (-1, k1)) else map_user_pages as process k1)"

definition process_map_user_region :: "u32 \<Rightarrow> u32 \<Rightarrow> u32 \<Rightarrow> kernel \<Rightarrow> (int \<times> kernel) res option" where
  "process_map_user_region process virtual_addr size_bytes k =
     bindO (Some (validate_process process k)) (\<lambda>_.
     if size_bytes = 0 then Some (Inr (0, k))
     else
       (let start = page_align_down virtual_addr; end_raw = virtual_addr + size_bytes in
        if end_raw < virtual_addr then Some (Inr (-1, k))
        else map_user_pages (page_list start (page_align_up end_raw)) process k))"

definition process_with_address_space :: "u32 \<Rightarrow> (aspace \<Rightarrow> aspace res) \<Rightarrow> kernel \<Rightarrow> kernel res" where
  "process_with_address_space process operation k =
     bindE (validate_process process k) (\<lambda>p.
     let old_space = address_space_current (kas k) in
     bindE (address_space_switch (p_address_space p) (kas k)) (\<lambda>a1.
     bindE (operation a1) (\<lambda>a2.
     bindE (address_space_switch old_space a2) (\<lambda>a3.
     Inr (k\<lparr>kas := a3\<rparr>)))))"

definition copy_operation :: "u32 \<Rightarrow> u8 list \<Rightarrow> u32 \<Rightarrow> aspace \<Rightarrow> aspace res" where
  "copy_operation user_dest kernel_src size_bytes a =
     (if length kernel_src < unat size_bytes then Inl (Fault ''read past the kernel buffer'')
      else store_bytes (take (unat size_bytes) kernel_src) user_dest a)"

definition process_copy_to_user_init :: "u32 \<Rightarrow> u32 \<Rightarrow> u8 list option \<Rightarrow> u32 \<Rightarrow> kernel \<Rightarrow> (int \<times> kernel) res" where
  "process_copy_to_user_init process user_dest kernel_src size_bytes k =
     bindE (validate_process process k) (\<lambda>_.
     if size_bytes = 0 then Inr (0, k)
     else case kernel_src of
       None \<Rightarrow> Inr (-1, k)
     | Some src \<Rightarrow> bindE (process_with_address_space process (copy_operation user_dest src size_bytes) k) (\<lambda>k1. Inr (0, k1)))"

definition zero_operation :: "u32 \<Rightarrow> u32 \<Rightarrow> aspace \<Rightarrow> aspace res" where
  "zero_operation user_dest size_bytes a = store_bytes (replicate (unat size_bytes) 0) user_dest a"

definition process_zero_user_init :: "u32 \<Rightarrow> u32 \<Rightarrow> u32 \<Rightarrow> kernel \<Rightarrow> (int \<times> kernel) res" where
  "process_zero_user_init process user_dest size_bytes k =
     bindE (validate_process process k) (\<lambda>_.
     if size_bytes = 0 then Inr (0, k)
     else bindE (process_with_address_space process (zero_operation user_dest size_bytes) k) (\<lambda>k1. Inr (0, k1)))"

definition process_set_user_entry :: "u32 \<Rightarrow> u32 \<Rightarrow> kernel \<Rightarrow> kernel res" where
  "process_set_user_entry process entry k =
     bindE (validate_process process k) (\<lambda>_. upd_process process (\<lambda>p. p\<lparr>p_user_entry := entry\<rparr>) k)"

definition process_set_user_stack :: "u32 \<Rightarrow> u32 \<Rightarrow> u32 \<Rightarrow> kernel \<Rightarrow> kernel res" where
  "process_set_user_stack process stack_base stack_top k =
     bindE (validate_process process k) (\<lambda>_.
     upd_process process (\<lambda>p. p\<lparr>p_user_stack_base := stack_base, p_user_stack_top := stack_top, p_user_initial_esp := stack_top\<rparr>) k)"


section \<open>The initial user stack\<close>

definition argv_copy_operation :: "u32 \<Rightarrow> u8 list \<Rightarrow> u32 \<Rightarrow> aspace \<Rightarrow> aspace res" where
  "argv_copy_operation dest src size_bytes a =
     (if length src < unat size_bytes then Inl (Fault ''read past the kernel buffer'')
      else store_bytes (take (unat size_bytes) src) dest a)"

definition process_copy_stack_bytes :: "u32 \<Rightarrow> u32 \<Rightarrow> u8 list \<Rightarrow> u32 \<Rightarrow> kernel \<Rightarrow> (int \<times> kernel) res" where
  "process_copy_stack_bytes process dest src size_bytes k =
     (if size_bytes = 0 then Inr (0, k)
      else bindE (process_with_address_space process (argv_copy_operation dest src size_bytes) k) (\<lambda>k1. Inr (0, k1)))"

text \<open>
  The loop over the arguments, from the last to the first; the length loop gives up at
  \<open>PROCESS_MAX_ARG_STRING\<close>. An argument is the list of the bytes before its terminator. The
  result \<^const>\<open>None\<close> is the return of \<open>-1\<close>.
\<close>

primrec push_arguments :: "nat \<Rightarrow> u8 list option list \<Rightarrow> u32 \<Rightarrow> u32 \<Rightarrow> u32 list \<Rightarrow> kernel \<Rightarrow> ((u32 \<times> u32 list) option \<times> kernel) res" where
  "push_arguments 0 argv process sp arg_ptrs k = Inr (Some (sp, arg_ptrs), k)"
| "push_arguments (Suc i) argv process sp arg_ptrs k =
     (if length argv \<le> i then Inl (Fault ''read past argv'')
      else case argv ! i of
        None \<Rightarrow> Inr (None, k)
      | Some arg \<Rightarrow>
          if length arg \<ge> PROCESS_MAX_ARG_STRING then Inr (None, k)
          else bindE (get_process process k) (\<lambda>p.
            let n = word_of_nat (length arg) + 1 in
            if sp < p_user_stack_base p + n then Inr (None, k)
            else bindE (process_copy_stack_bytes process (sp - n) (arg @ [0]) n k) (\<lambda>(rc, k1).
              if rc \<noteq> 0 then Inr (None, k1)
              else push_arguments i argv process (sp - n) ((sp - n) # arg_ptrs) k1)))"

definition word_bytes :: "u32 \<Rightarrow> u8 list" where
  "word_bytes w = map (\<lambda>i. ucast (drop_bit (8 * i) w)) [0..<4]"

definition process_setup_arguments :: "u32 \<Rightarrow> int \<Rightarrow> u8 list option list option \<Rightarrow> kernel \<Rightarrow> (int \<times> kernel) res" where
  "process_setup_arguments process argc argv k =
     bindE (validate_live_process process k) (\<lambda>p.
     if argc < 0 \<or> argc > PROCESS_MAX_ARGC then Inr (-1, k)
     else if argc > 0 \<and> argv = None then Inr (-1, k)
     else if p_user_stack_base p = 0 \<or> p_user_stack_top p = 0 then Inr (-1, k)
     else
       bindE (push_arguments (nat argc) (case argv of None \<Rightarrow> [] | Some as \<Rightarrow> as) process (p_user_stack_top p) [] k) (\<lambda>(r, k1).
       case r of
         None \<Rightarrow> Inr (-1, k1)
       | Some (sp0, arg_ptrs) \<Rightarrow>
           (let sp = align_down_4 sp0;
                pointer_words = 1 + word_of_int argc + 1 + 1;
                table_bytes = pointer_words * 4
            in bindE (get_process process k1) (\<lambda>p.
               if sp < p_user_stack_base p + table_bytes then Inr (-1, k1)
               else
                 (let stack_table = [word_of_int argc] @ arg_ptrs @ [0, 0] in
                  bindE (process_copy_stack_bytes process (sp - table_bytes) (concat (map word_bytes stack_table)) table_bytes k1)
                    (\<lambda>(rc, k2).
                  if rc \<noteq> 0 then Inr (-1, k2)
                  else bindE (upd_process process (\<lambda>p. p\<lparr>p_user_initial_esp := sp - table_bytes\<rparr>) k2) (\<lambda>k3.
                    Inr (0, k3))))))))"

section \<open>Running, exiting and waiting\<close>

definition process_start_user :: "u32 \<Rightarrow> kernel \<Rightarrow> kernel res option" where
  "process_start_user process k =
     bindO (Some (validate_process process k)) (\<lambda>p.
     if p_user_entry p = 0 \<or> p_user_stack_base p = 0 \<or> p_user_stack_top p = 0 \<or> p_user_initial_esp p = 0
     then Some (Inl (Panic ''process_start_user missing entry or initial stack''))
     else bindO (thread_create_suspended (Some (p_name p)) (sym_user_process_thread_entry (ksym k)) process k) (\<lambda>(thread, k1).
       Some (bindE (on_sched (thread_set_process thread process) k1) (\<lambda>k2.
             bindE (upd_process process (\<lambda>p. p\<lparr>p_main_thread := thread, p_state := PROCESS_RUNNING\<rparr>) k2) (\<lambda>k3.
             on_sched (thread_start thread) k3)))))"

definition process_current :: "kernel \<Rightarrow> u32 res" where
  "process_current k =
     (let thread = thread_current (ksched k) in
      if thread = 0 then Inr 0 else thread_get_process thread (ksched k))"

partial_function (option) process_find_loop :: "u32 \<Rightarrow> u32 \<Rightarrow> kernel \<Rightarrow> u32 res option" where
  "process_find_loop cur pid k =
     (if cur = 0 then Some (Inr 0)
      else case get_process cur k of
        Inl e \<Rightarrow> Some (Inl e)
      | Inr p \<Rightarrow> if p_pid p = pid then Some (Inr cur) else process_find_loop (p_next p) pid k)"

definition process_find :: "u32 \<Rightarrow> kernel \<Rightarrow> u32 res option" where
  "process_find pid k = process_find_loop (process_head k) pid k"

definition process_exit_current :: "u32 \<Rightarrow> kernel \<Rightarrow> kernel res" where
  "process_exit_current exit_code k =
     bindE (process_current k) (\<lambda>process.
     bindE (if process = 0 then Inr k
            else upd_process process (\<lambda>p. p\<lparr>p_exit_code := exit_code, p_exited := True, p_state := PROCESS_ZOMBIE,
                   p_kill_requested := False\<rparr>) k) (\<lambda>k1.
     Inr (k1\<lparr>last_exit_code := exit_code, last_exit_seen := True\<rparr>)))"

text \<open>
  \<open>process_wait\<close>: the checks before the loop, and one turn of the loop: either the exit code
  after the last reaping, or the thread put to sleep; when it runs again it reaps and takes the
  next turn.
\<close>

definition process_wait_begin :: "u32 \<Rightarrow> kernel \<Rightarrow> unit res" where
  "process_wait_begin process k =
     bindE (validate_live_process process k) (\<lambda>_.
     bindE (process_current k) (\<lambda>current.
     if current = process then Inl (Panic ''process attempted to wait on itself'') else Inr ()))"

definition process_wait_turn :: "u32 \<Rightarrow> bool \<Rightarrow> kernel \<Rightarrow> (u32 option \<times> kernel) res option" where
  "process_wait_turn process interrupts_enabled k =
     bindO (Some (get_process process k)) (\<lambda>p.
     if p_exited p
     then bindO (thread_reap_zombies k) (\<lambda>k1. bindO (Some (get_process process k1)) (\<lambda>p1. Some (Inr (Some (p_exit_code p1), k1))))
     else bindO (thread_sleep_ticks 1 interrupts_enabled (ksched k)) (\<lambda>(_, s). Some (Inr (None, k\<lparr>ksched := s\<rparr>))))"

definition process_wait_resumed :: "kernel \<Rightarrow> kernel res option" where
  "process_wait_resumed k = thread_reap_zombies k"

section \<open>Destroying\<close>

partial_function (option) orphan_loop :: "u32 \<Rightarrow> u32 \<Rightarrow> kernel \<Rightarrow> kernel res option" where
  "orphan_loop cur pid k =
     (if cur = 0 then Some (Inr k)
      else case get_process cur k of
        Inl e \<Rightarrow> Some (Inl e)
      | Inr p \<Rightarrow> orphan_loop (p_next p) pid
                   (if p_parent_pid p = pid then k\<lparr>procs := (procs k)(cur \<mapsto> p\<lparr>p_parent_pid := 0\<rparr>)\<rparr> else k))"

definition process_destroy :: "u32 \<Rightarrow> kernel \<Rightarrow> kernel res option" where
  "process_destroy process k =
     bindO (Some (validate_live_process process k)) (\<lambda>p.
     if \<not> p_exited p \<and> p_state p \<noteq> PROCESS_ZOMBIE
     then Some (Inl (Panic ''process_destroy called on running process''))
     else bindO (orphan_loop (process_head k) (p_pid p) k) (\<lambda>k1.
       bindO (Some (process_table_remove process k1)) (\<lambda>k2.
       bindO (Some (process_close_all_files process k2)) (\<lambda>k3.
       bindO (Some (get_process process k3)) (\<lambda>p3.
       bindO (if p_address_space p3 \<noteq> 0
              then bindO (address_space_destroy (p_address_space p3) (kas k3)) (\<lambda>a.
                   Some (upd_process process (\<lambda>p. p\<lparr>p_address_space := 0\<rparr>) (k3\<lparr>kas := a\<rparr>)))
              else Some (Inr k3)) (\<lambda>k4.
       Some (bindE (upd_process process (\<lambda>p. p\<lparr>p_state := PROCESS_DESTROYED, p_kill_requested := False, p_magic := 0\<rparr>) k4) (\<lambda>k5.
             bindE (kfree process (kheap k5)) (\<lambda>h.
             Inr ((set_kheap h k5)\<lparr>procs := (procs k5)(process := None)\<rparr>))))))))))"

definition process_last_exit_code :: "kernel \<Rightarrow> u32" where
  "process_last_exit_code k = last_exit_code k"

definition process_last_exit_seen :: "kernel \<Rightarrow> bool" where
  "process_last_exit_seen k = last_exit_seen k"

section \<open>Entering user mode\<close>

definition current_thread_kernel_stack_top :: "kernel \<Rightarrow> u32 res" where
  "current_thread_kernel_stack_top k =
     (let self = thread_current (ksched k) in
      if self = 0 then Inl (Panic ''user mode entry requires current thread stack'')
      else bindE (get_thread self (threads (ksched k))) (\<lambda>t.
        if t_stack_base t = 0 then Inl (Panic ''user mode entry requires current thread stack'')
        else Inr (t_stack_base t + t_stack_size t)))"

text \<open>The result is the instruction pointer and the stack pointer \<open>x86_enter_user_mode\<close> is called with.\<close>

definition usermode_enter_current_process :: "kernel \<Rightarrow> (u32 \<times> u32 \<times> kernel) res" where
  "usermode_enter_current_process k =
     bindE (process_current k) (\<lambda>process.
     if process = 0 then Inl (Panic ''usermode entry without process'')
     else bindE (get_process process k) (\<lambda>p.
       if p_user_entry p = 0 \<or> p_user_initial_esp p = 0
       then Inl (Panic ''usermode entry missing entry point or initial stack'')
       else bindE (current_thread_kernel_stack_top k) (\<lambda>stack_top.
         Inr (p_user_entry p, p_user_initial_esp p, k\<lparr>ksched := (ksched k)\<lparr>tss_esp0 := stack_top\<rparr>\<rparr>))))"

definition user_process_thread_entry :: "u32 \<Rightarrow> kernel \<Rightarrow> (u32 \<times> u32 \<times> kernel) res" where
  "user_process_thread_entry process k =
     (if process = 0 then Inl (Panic ''user process thread received invalid process'')
      else bindE (get_process process k) (\<lambda>p.
        if p_magic p \<noteq> PROCESS_MAGIC then Inl (Panic ''user process thread received invalid process'')
        else usermode_enter_current_process k))"

section \<open>The process table as a list\<close>

interpretation pl: linked_store p_next p_prev "\<lambda>a p. p\<lparr>p_next := a\<rparr>" "\<lambda>a p. p\<lparr>p_prev := a\<rparr>"
  by unfold_locales simp_all

definition ptable :: "kernel \<Rightarrow> u32 list \<Rightarrow> bool" where
  "ptable k ps \<longleftrightarrow> pl.dlist (procs k) (process_head k) (process_tail k) ps
     \<and> process_count k = word_of_nat (length ps)
     \<and> (\<forall>a\<in>set ps. map_option p_magic (procs k a) = Some PROCESS_MAGIC)"

text \<open>What a process record says besides its place in the table.\<close>

definition contents :: "(u32 \<rightharpoonup> process) \<Rightarrow> u32 \<rightharpoonup> process" where
  "contents st a = map_option (\<lambda>p. p\<lparr>p_next := 0, p_prev := 0\<rparr>) (st a)"

lemma contents_links [simp]:
  "st a = Some p \<Longrightarrow> contents (st(a \<mapsto> p\<lparr>p_next := n\<rparr>)) = contents st"
  "st a = Some p \<Longrightarrow> contents (st(a \<mapsto> p\<lparr>p_prev := n\<rparr>)) = contents st"
  "st a = Some p \<Longrightarrow> contents (st(a \<mapsto> p\<lparr>p_next := n, p_prev := m\<rparr>)) = contents st"
  by (auto simp: contents_def fun_eq_iff)

lemma contents_field:
  assumes "contents st' = contents st" and "\<And>p n m. f (p\<lparr>p_next := n, p_prev := m\<rparr>) = f p"
  shows "map_option f (st' a) = map_option f (st a)"
proof -
  have "map_option f (st a) = map_option f (contents st a)" for st :: "u32 \<rightharpoonup> process"
    by (cases "st a") (simp_all add: contents_def assms(2))
  then show ?thesis using assms(1) by metis
qed

lemma contents_magic: "contents st' = contents st \<Longrightarrow> map_option p_magic (st' a) = map_option p_magic (st a)"
  by (erule contents_field) simp

lemma ptable_process: "ptable k ps \<Longrightarrow> a \<in> set ps \<Longrightarrow> \<exists>p. procs k a = Some p \<and> p_magic p = PROCESS_MAGIC \<and> a \<noteq> 0"
  using pl.seg_nonzero by (fastforce simp: ptable_def pl.dlist_def)

lemma ptable_length:
  assumes "ptable k ps"
  shows "length ps < 4294967296"
proof -
  have d: "distinct ps" "0 \<notin> set ps" using assms pl.seg_nonzero by (auto simp: ptable_def pl.dlist_def)
  have "card (set ps) \<le> card (UNIV - {0 :: u32})" by (rule card_mono) (use d in auto)
  also have "\<dots> < card (UNIV :: u32 set)" by (rule psubset_card_mono) auto
  finally show ?thesis using d by (simp add: distinct_card card_word)
qed

lemma process_table_insert_law:
  assumes t: "ptable k ps" and a: "a \<noteq> 0" "a \<notin> set ps" "procs k a = Some p" "p_magic p = PROCESS_MAGIC"
  shows "\<exists>k'. process_table_insert a k = Inr k' \<and> ptable k' (ps @ [a]) \<and> contents (procs k') = contents (procs k)
    \<and> k' = k\<lparr>procs := procs k', process_head := process_head k', process_tail := a, process_count := process_count k + 1\<rparr>"
proof -
  let ?x = "p\<lparr>p_next := 0, p_prev := process_tail k\<rparr>"
  let ?st = "(procs k)(a \<mapsto> ?x)"
  have d: "pl.dlist ?st (process_head k) (process_tail k) ps"
    by (rule pl.dlist_cong [of "procs k"]) (use t a in \<open>auto simp: ptable_def\<close>)
  have c: "contents ?st = contents (procs k)" using a by simp
  have upd: "upd_process a (\<lambda>p. p\<lparr>p_next := 0, p_prev := process_tail k\<rparr>) k = Inr (k\<lparr>procs := ?st\<rparr>)"
    using a by (simp add: upd_process_def get_process_def)
  have v: "validate_process a k = Inr p" using a by (simp add: validate_process_def get_process_def)
  have m: "map_option p_magic (st' b) = Some PROCESS_MAGIC" if "b \<in> set (ps @ [a])" "contents st' = contents ?st" for st' b
    using that contents_magic [of st' "procs k" b] c t a by (auto simp: ptable_def)
  show ?thesis
  proof (cases "ps = []")
    case True
    let ?k = "k\<lparr>procs := ?st, process_head := a, process_tail := a, process_count := process_count k + 1\<rparr>"
    have z: "process_tail k = 0" using pl.dlist_ends(2) [OF d] True by simp
    have "process_table_insert a k = Inr ?k" unfolding process_table_insert_def v bindE_simps upd using z by simp
    moreover have "pl.dlist ?st a a [a]" by (rule pl.dlist_append(1) [OF d a(1,2), of ?x]) (use True in simp_all)
    then have "ptable ?k (ps @ [a])" using True t a by (simp add: ptable_def)
    ultimately show ?thesis using c by (intro exI [of _ ?k]) simp
  next
    case False
    then obtain u where u: "?st (process_tail k) = Some u" "process_tail k \<in> set ps"
      "pl.dlist (?st(process_tail k \<mapsto> u\<lparr>p_next := a\<rparr>)) (process_head k) a (ps @ [a])"
      using pl.dlist_append(2) [OF d a(1,2), of ?x] by auto
    have c': "contents (?st(process_tail k \<mapsto> u\<lparr>p_next := a\<rparr>)) = contents ?st" using u(1) by simp
    let ?k = "k\<lparr>procs := ?st(process_tail k \<mapsto> u\<lparr>p_next := a\<rparr>), process_tail := a, process_count := process_count k + 1\<rparr>"
    have "process_tail k \<noteq> 0" using pl.dlist_ends(2) [OF d] False by simp
    then have "process_table_insert a k = Inr ?k"
      unfolding process_table_insert_def v bindE_simps upd using u by (simp add: get_process_def upd_process_def)
    moreover have "ptable ?k (ps @ [a])" using u(3) m [OF _ c'] t by (auto simp: ptable_def)
    ultimately show ?thesis using c c' by (intro exI [of _ ?k]) simp
  qed
qed

lemma word_of_length_positive: "0 < n \<Longrightarrow> n < 4294967296 \<Longrightarrow> (0 :: u32) < word_of_nat n"
  by (simp add: word_less_nat_alt unat_of_nat take_bit_eq_mod)

lemma process_table_remove_law:
  assumes t: "ptable k (xs @ a # ys)"
  shows "\<exists>k'. process_table_remove a k = Inr k' \<and> ptable k' (xs @ ys) \<and> contents (procs k') = contents (procs k)
    \<and> k' = k\<lparr>procs := procs k', process_head := process_head k', process_tail := process_tail k', process_count := process_count k - 1\<rparr>"
proof -
  have d: "pl.seg (procs k) 0 (xs @ a # ys) 0" "distinct (xs @ a # ys)" using t by (simp_all add: ptable_def pl.dlist_def)
  obtain p where p: "procs k a = Some p" "a \<noteq> 0" "p_prev p = last0 0 xs" "p_next p = hd0 ys 0" "p_magic p = PROCESS_MAGIC"
    using d(1) ptable_process [OF t, of a] by (auto simp: pl.seg_append)
  obtain st1 where st1: "if last0 0 xs \<noteq> 0 then \<exists>u. procs k (last0 0 xs) = Some u \<and> st1 = (procs k)(last0 0 xs \<mapsto> u\<lparr>p_next := hd0 ys 0\<rparr>) else st1 = procs k"
    "pl.seg st1 0 xs (hd0 ys 0)" "pl.seg st1 a ys 0" "st1 a = procs k a" using pl.dlist_unlink_next [OF d] by blast
  obtain st2 where st2: "if hd0 ys 0 \<noteq> 0 then \<exists>v. st1 (hd0 ys 0) = Some v \<and> st2 = st1(hd0 ys 0 \<mapsto> v\<lparr>p_prev := last0 0 xs\<rparr>) else st2 = st1"
    "pl.seg st2 0 (xs @ ys) 0" "st2 a = st1 a" using pl.dlist_unlink_prev [OF st1(2,3) d(2)] by blast
  let ?st = "st2(a \<mapsto> p\<lparr>p_next := 0, p_prev := 0\<rparr>)"
  have seg: "pl.seg ?st 0 (xs @ ys) 0" by (rule pl.seg_upd_outside [OF st2(2)]) (use d(2) in auto)
  have c1: "contents st1 = contents (procs k)" using st1(1) by (auto split: if_splits)
  have c2: "contents st2 = contents st1" using st2(1) by (auto split: if_splits)
  have c: "contents ?st = contents (procs k)" using c1 c2 st1(4) st2(3) p by simp
  let ?k = "k\<lparr>procs := ?st, process_head := hd0 (xs @ ys) 0, process_tail := last0 0 (xs @ ys), process_count := process_count k - 1\<rparr>"
  have head: "process_head k = hd0 (xs @ a # ys) 0" "process_tail k = last0 0 (xs @ a # ys)" "process_count k = word_of_nat (length (xs @ a # ys))"
    using t by (simp_all add: ptable_def pl.dlist_def)
  have pos: "process_count k > 0" using word_of_length_positive [of "length (xs @ a # ys)"] ptable_length [OF t] unfolding head(3) by simp
  have z: "last0 0 xs = 0 \<longleftrightarrow> xs = []" "hd0 ys 0 = 0 \<longleftrightarrow> ys = []"
    using pl.seg_nonzero [OF d(1)] by (auto simp: last0_def hd0_def split: list.splits dest!: last_in_set)
  let ?k1 = "k\<lparr>procs := st1, process_head := hd0 (xs @ ys) 0\<rparr>" and ?k2 = "k\<lparr>procs := st2, process_head := hd0 (xs @ ys) 0, process_tail := last0 0 (xs @ ys)\<rparr>"
  have 1: "(if p_prev p \<noteq> 0 then upd_process (p_prev p) (\<lambda>q. q\<lparr>p_next := p_next p\<rparr>) k else Inr (k\<lparr>process_head := p_next p\<rparr>)) = Inr ?k1"
    using p st1(1) head z(1) by (cases xs) (auto simp: upd_process_def get_process_def)
  have 2: "(if p_next p \<noteq> 0 then upd_process (p_next p) (\<lambda>q. q\<lparr>p_prev := p_prev p\<rparr>) ?k1 else Inr (?k1\<lparr>process_tail := p_prev p\<rparr>)) = Inr ?k2"
    using p st2(1) head z(2) by (cases ys) (auto simp: upd_process_def get_process_def)
  have v: "validate_process a k = Inr p" and g: "get_process a ?k1 = Inr p"
    and u: "upd_process a (\<lambda>p. p\<lparr>p_next := 0, p_prev := 0\<rparr>) ?k2 = Inr (?k2\<lparr>procs := ?st\<rparr>)"
    using p st1(4) st2(3) by (simp_all add: validate_process_def get_process_def upd_process_def)
  have "process_table_remove a k = Inr ?k"
    unfolding process_table_remove_def v bindE_simps 1 g 2 u using pos by simp
  moreover have "ptable ?k (xs @ ys)"
    using seg d(2) head(3) t contents_magic [OF c] by (auto simp: ptable_def pl.dlist_def)
  ultimately show ?thesis using c by (intro exI [of _ ?k]) simp
qed

definition first_with :: "(process \<Rightarrow> bool) \<Rightarrow> kernel \<Rightarrow> u32 list \<Rightarrow> u32" where
  "first_with P k ps = (case find (\<lambda>a. \<exists>p. procs k a = Some p \<and> P p) ps of None \<Rightarrow> 0 | Some a \<Rightarrow> a)"

lemma process_find_loop_list:
  "pl.seg (procs k) p ps 0 \<Longrightarrow> process_find_loop (hd0 ps 0) pid k = Some (Inr (first_with (\<lambda>p. p_pid p = pid) k ps))"
proof (induction ps arbitrary: p)
  case Nil
  then show ?case by (simp add: process_find_loop.simps first_with_def)
next
  case (Cons a as)
  then show ?case by (subst process_find_loop.simps) (auto simp: get_process_def first_with_def)
qed

lemma ptable_seg: "ptable k ps \<Longrightarrow> pl.seg (procs k) 0 ps 0" "ptable k ps \<Longrightarrow> process_head k = hd0 ps 0" "ptable k ps \<Longrightarrow> distinct ps"
  by (simp_all add: ptable_def pl.dlist_def)

lemma process_find_list: "ptable k ps \<Longrightarrow> process_find pid k = Some (Inr (first_with (\<lambda>p. p_pid p = pid) k ps))"
  using process_find_loop_list ptable_seg [of k ps] unfolding process_find_def by metis

lemma kill_child_loop_list:
  fixes parent child :: u32
  assumes "pl.seg (procs k) q ps 0"
  defines "a \<equiv> first_with (\<lambda>p. p_pid p = child \<and> p_parent_pid p = parent) k ps"
  shows "kill_child_loop (hd0 ps 0) parent child k =
    (case procs k a of
       None \<Rightarrow> Some (Inr (-1, k))
     | Some p \<Rightarrow> Some (Inr (if a \<noteq> 0 \<and> killable p then (0, k\<lparr>procs := (procs k)(a \<mapsto> p\<lparr>p_kill_requested := True\<rparr>)\<rparr>) else (-1, k))))"
  using assms(1) unfolding a_def
proof (induction ps arbitrary: q)
  case Nil
  then show ?case by (simp add: kill_child_loop.simps first_with_def split: option.split)
next
  case (Cons a as)
  then obtain p where p: "procs k a = Some p" "p_next p = hd0 as 0" "a \<noteq> 0" by auto
  show ?case
  proof (cases "p_pid p = child \<and> p_parent_pid p = parent")
    case True
    then show ?thesis using p by (subst kill_child_loop.simps) (simp add: get_process_def upd_process_def first_with_def)
  next
    case False
    have eq: "first_with (\<lambda>p. p_pid p = child \<and> p_parent_pid p = parent) k (a # as)
      = first_with (\<lambda>p. p_pid p = child \<and> p_parent_pid p = parent) k as" using p False by (auto simp: first_with_def)
    have step: "kill_child_loop (hd0 (a # as) 0) parent child k = kill_child_loop (hd0 as 0) parent child k"
      using p False by (subst kill_child_loop.simps) (auto simp: get_process_def)
    have "pl.seg (procs k) a as 0" using Cons.prems by simp
    from Cons.IH [OF this] show ?thesis unfolding eq step .
  qed
qed

lemma process_request_kill_child_list:
  fixes parent child :: u32
  assumes "ptable k ps"
  defines "a \<equiv> first_with (\<lambda>p. p_pid p = child \<and> p_parent_pid p = parent) k ps"
  shows "process_request_kill_child parent child k =
    (case procs k a of
       None \<Rightarrow> Some (Inr (-1, k))
     | Some p \<Rightarrow> Some (Inr (if a \<noteq> 0 \<and> killable p then (0, k\<lparr>procs := (procs k)(a \<mapsto> p\<lparr>p_kill_requested := True\<rparr>)\<rparr>) else (-1, k))))"
  unfolding process_request_kill_child_def ptable_seg(2) [OF assms(1)] a_def by (rule kill_child_loop_list [OF ptable_seg(1) [OF assms(1)]])

definition orphan :: "u32 \<Rightarrow> process \<Rightarrow> process" where
  "orphan pid p = (if p_parent_pid p = pid then p\<lparr>p_parent_pid := 0\<rparr> else p)"

lemma orphan_loop_list:
  "pl.seg (procs k) q ps 0 \<Longrightarrow> distinct ps \<Longrightarrow> orphan_loop (hd0 ps 0) pid k
     = Some (Inr (k\<lparr>procs := \<lambda>b. if b \<in> set ps then map_option (orphan pid) (procs k b) else procs k b\<rparr>))"
proof (induction ps arbitrary: q k)
  case Nil
  then show ?case by (simp add: orphan_loop.simps)
next
  case (Cons a as)
  then obtain p where p: "procs k a = Some p" "p_next p = hd0 as 0" "a \<noteq> 0" by auto
  define k1 where "k1 = k\<lparr>procs := (procs k)(a \<mapsto> orphan pid p)\<rparr>"
  have "(if p_parent_pid p = pid then k\<lparr>procs := (procs k)(a \<mapsto> p\<lparr>p_parent_pid := 0\<rparr>)\<rparr> else k) = k1"
    using p by (simp add: k1_def orphan_def fun_upd_idem)
  then have step: "orphan_loop (hd0 (a # as) 0) pid k = orphan_loop (hd0 as 0) pid k1"
    using p by (subst orphan_loop.simps) (simp only: get_process_def hd0_simps option.case sum.case if_False)
  have seg: "pl.seg (procs k1) a as 0" using Cons.prems by (auto simp: k1_def intro: pl.seg_upd_outside)
  have "orphan_loop (hd0 as 0) pid k1 = Some (Inr (k1\<lparr>procs := \<lambda>b. if b \<in> set as then map_option (orphan pid) (procs k1 b) else procs k1 b\<rparr>))"
    by (rule Cons.IH [OF seg]) (use Cons.prems in simp)
  moreover have "k1\<lparr>procs := \<lambda>b. if b \<in> set as then map_option (orphan pid) (procs k1 b) else procs k1 b\<rparr>
    = k\<lparr>procs := \<lambda>b. if b \<in> set (a # as) then map_option (orphan pid) (procs k b) else procs k b\<rparr>"
    using p Cons.prems(2) by (auto simp: k1_def fun_eq_iff)
  ultimately show ?case using step by simp
qed

text \<open>
  C32. The process table is a list of processes in creation order: inserting appends, removing
  takes out the given process wherever it stands, and \<open>process_find\<close> returns the first process
  with the given identifier or a null pointer. The linked pointers, the head, the tail and the count
  stay consistent, each operation returns, and nothing but links and table pointers changes.
\<close>

theorem process_table_refines_list:
  assumes "ptable k ps" and "a \<noteq> 0" and "a \<notin> set ps" and "procs k a = Some p" and "p_magic p = PROCESS_MAGIC"
    and "b \<in> set (ps @ [a])"
  shows "\<exists>k1 k2. process_table_insert a k = Inr k1 \<and> ptable k1 (ps @ [a]) \<and> contents (procs k1) = contents (procs k)
    \<and> process_find pid k1 = Some (Inr (first_with (\<lambda>p. p_pid p = pid) k (ps @ [a])))
    \<and> process_table_remove b k1 = Inr k2 \<and> ptable k2 (remove1 b (ps @ [a])) \<and> contents (procs k2) = contents (procs k)
    \<and> (kas k2, kfiles k2, ksched k2, next_pid k2) = (kas k, kfiles k, ksched k, next_pid k)"
proof -
  obtain k1 where k1: "process_table_insert a k = Inr k1" "ptable k1 (ps @ [a])" "contents (procs k1) = contents (procs k)"
    "k1 = k\<lparr>procs := procs k1, process_head := process_head k1, process_tail := a, process_count := process_count k + 1\<rparr>"
    using process_table_insert_law [OF assms(1-5)] by blast
  obtain xs ys where b: "ps @ [a] = xs @ b # ys" "b \<notin> set xs" using split_list_first [OF assms(6)] by blast
  obtain k2 where k2: "process_table_remove b k1 = Inr k2" "ptable k2 (xs @ ys)" "contents (procs k2) = contents (procs k1)"
    "k2 = k1\<lparr>procs := procs k2, process_head := process_head k2, process_tail := process_tail k2, process_count := process_count k1 - 1\<rparr>"
    using process_table_remove_law k1(2) unfolding b(1) by blast
  have sel: "(kas k1, kfiles k1, ksched k1, next_pid k1) = (kas k, kfiles k, ksched k, next_pid k)" by (subst (1 2 3 4) k1(4)) simp
  have "(kas k2, kfiles k2, ksched k2, next_pid k2) = (kas k1, kfiles k1, ksched k1, next_pid k1)" by (subst (1 2 3 4) k2(4)) simp
  moreover have "remove1 b (ps @ [a]) = xs @ ys" unfolding b(1) using b(2) by (simp add: remove1_append)
  moreover have "(\<exists>p. procs k1 c = Some p \<and> p_pid p = pid) = (\<exists>p. procs k c = Some p \<and> p_pid p = pid)" for c
  proof -
    have "map_option p_pid (procs k1 c) = map_option p_pid (procs k c)" by (rule contents_field [OF k1(3)]) simp
    then show ?thesis by (cases "procs k c"; cases "procs k1 c") auto
  qed
  then have "first_with (\<lambda>p. p_pid p = pid) k1 (ps @ [a]) = first_with (\<lambda>p. p_pid p = pid) k (ps @ [a])" by (simp add: first_with_def)
  ultimately show ?thesis using k1(1-3) k2(1-3) process_find_list [OF k1(2), of pid] sel by auto
qed

lemma sample_kernel_table: "ptable (sample_kernel x) [64]"
  by (simp add: ptable_def pl.dlist_def last0_def sample_process_def)

theorem process_table_refines_list_witness:
  "\<exists>k1 k2. process_table_insert 512 ((sample_kernel THREAD_RUNNING)\<lparr>procs := [64 \<mapsto> sample_process, 512 \<mapsto> sample_process\<lparr>p_pid := 2\<rparr>]\<rparr>) = Inr k1
    \<and> process_find 2 k1 = Some (Inr 512) \<and> process_table_remove 64 k1 = Inr k2 \<and> ptable k2 [512]"
proof -
  let ?k = "(sample_kernel THREAD_RUNNING)\<lparr>procs := [64 \<mapsto> sample_process, 512 \<mapsto> sample_process\<lparr>p_pid := 2\<rparr>]\<rparr>"
  have "ptable ?k [64]" by (simp add: ptable_def pl.dlist_def last0_def sample_process_def)
  from process_table_refines_list [OF this, of 512 "sample_process\<lparr>p_pid := 2\<rparr>" 64 2] show ?thesis
    by (auto simp: sample_process_def first_with_def)
qed

section \<open>Destroying a process\<close>

definition open_files :: "process \<Rightarrow> u32 list" where
  "open_files p = filter ((\<noteq>) 0) (map (\<lambda>fd. if fd_used (p_fds p ! fd) then fd_file (p_fds p ! fd) else 0) [3..<16])"

definition live_at :: "u32 \<Rightarrow> hblk list \<Rightarrow> bool" where
  "live_at a bs \<longleftrightarrow> (\<exists>sz. (unat a, sz) \<in> live BASE bs)"

lemma free_block:
  assumes inv: "heap_inv h bs" and lv: "live_at a bs"
  shows "\<exists>h' bs'. kfree a h = Inr h' \<and> heap_inv h' bs' \<and> hvm h' = hvm h \<and> live BASE bs' = live BASE bs - blocks_at {a} (live BASE bs)"
proof -
  obtain sz where sz: "(unat a, sz) \<in> live BASE bs" using lv by (auto simp: live_at_def)
  obtain h' bs' where h': "kfree a h = Inr h'" "heap_inv h' bs'" "live BASE bs' = live BASE bs - {(unat a, sz)}"
    using kfree_result [OF inv sz] by blast
  have "live BASE bs - {(unat a, sz)} = live BASE bs - blocks_at {a} (live BASE bs)"
    using blocks_at_insert_last [OF sz, of "{}"] live_address_unique [OF _ sz inv] by (simp add: blocks_at_def)
  then show ?thesis using h' kfree_hvm [OF h'(1)] by auto
qed

lemma unat_mem_image: "unat a \<in> unat ` A \<longleftrightarrow> a \<in> A" for a :: u32
  by (auto simp flip: word_unat_eq_iff)

lemma live_at_minus:
  "live BASE bs' = live BASE bs - blocks_at A (live BASE bs) \<Longrightarrow> live_at a bs' \<longleftrightarrow> live_at a bs \<and> a \<notin> A"
  unfolding live_at_def blocks_at_def by (simp add: unat_mem_image) blast

lemma blocks_at_Un: "L - blocks_at A L - blocks_at B (L - blocks_at A L) = L - blocks_at (A \<union> B) L"
  by (auto simp: blocks_at_def)

definition close_file :: "u32 \<Rightarrow> kernel \<Rightarrow> kernel res" where
  "close_file f k = (if f \<noteq> 0 then bindE (on_vfs (\<lambda>v. bindE (vfs_close f v) (\<lambda>v1. Inr ((), v1))) k) (\<lambda>(_, k2). Inr k2) else Inr k)"

lemma close_file_law: "f \<noteq> 0 \<Longrightarrow> kfree f (kheap k) = Inr h \<Longrightarrow> close_file f k = Inr ((set_kheap h k)\<lparr>kfiles := (kfiles k)(f := None)\<rparr>)"
  by (simp add: close_file_def on_vfs_def vfs_close_def set_kheap_def)

lemma close_files_law:
  assumes "heap_inv (kheap k) bs" and "distinct (filter ((\<noteq>) 0) fs)" and "\<forall>f\<in>set fs. f \<noteq> 0 \<longrightarrow> live_at f bs"
  shows "\<exists>h bs' fl. foldE close_file fs k = Inr ((set_kheap h k)\<lparr>kfiles := fl\<rparr>) \<and> heap_inv h bs' \<and> hvm h = hvm (kheap k)
    \<and> live BASE bs' = live BASE bs - blocks_at (set fs - {0}) (live BASE bs)"
  using assms
proof (induction fs arbitrary: k bs)
  case Nil
  then show ?case by (intro exI [of _ "kheap k"] exI [of _ bs] exI [of _ "kfiles k"]) (simp add: set_kheap_def blocks_at_def)
next
  case (Cons f fs)
  show ?case
  proof (cases "f = 0")
    case True
    then have "foldE close_file (f # fs) k = foldE close_file fs k" by (simp add: close_file_def)
    moreover have "set (f # fs) - {0} = set fs - {0}" using True by auto
    ultimately show ?thesis using Cons.IH [of k bs] Cons.prems True by simp
  next
    case False
    obtain h1 bs1 where 1: "kfree f (kheap k) = Inr h1" "heap_inv h1 bs1" "hvm h1 = hvm (kheap k)"
      "live BASE bs1 = live BASE bs - blocks_at {f} (live BASE bs)" using free_block [OF Cons.prems(1), of f] Cons.prems(3) False by auto
    define k1 where "k1 = (set_kheap h1 k)\<lparr>kfiles := (kfiles k)(f := None)\<rparr>"
    have k1: "kheap k1 = h1" by (simp add: k1_def set_kheap_def)
    have others: "\<forall>g\<in>set fs. g \<noteq> 0 \<longrightarrow> live_at g bs1"
      using Cons.prems(2,3) False by (auto simp: live_at_minus [OF 1(4)])
    have inv1: "heap_inv (kheap k1) bs1" and d1: "distinct (filter ((\<noteq>) 0) fs)" using 1(2) k1 Cons.prems(2) by (auto split: if_splits)
    obtain h bs' fl where 2: "foldE close_file fs k1 = Inr ((set_kheap h k1)\<lparr>kfiles := fl\<rparr>)" "heap_inv h bs'" "hvm h = hvm (kheap k1)"
      "live BASE bs' = live BASE bs1 - blocks_at (set fs - {0}) (live BASE bs1)" using Cons.IH [OF inv1 d1 others] by blast
    have "foldE close_file (f # fs) k = Inr ((set_kheap h k)\<lparr>kfiles := fl\<rparr>)"
      using close_file_law [OF False 1(1)] 2(1) by (simp add: k1_def set_kheap_def)
    moreover have "live BASE bs' = live BASE bs - blocks_at (set (f # fs) - {0}) (live BASE bs)"
    proof -
      have "{f} \<union> (set fs - {0}) = set (f # fs) - {0}" using False by auto
      then show ?thesis using blocks_at_Un [of "live BASE bs" "{f}" "set fs - {0}"] 2(4) 1(4) by metis
    qed
    ultimately show ?thesis using 2(2,3) 1(3) k1 by auto
  qed
qed

lemma process_close_all_files_law:
  assumes p: "procs k a = Some p" "a \<noteq> 0" "p_magic p = PROCESS_MAGIC" "p_state p \<noteq> PROCESS_DESTROYED"
    and inv: "heap_inv (kheap k) bs" and fs: "distinct (open_files p)" "\<forall>f\<in>set (open_files p). live_at f bs"
  shows "\<exists>h bs' fl fds. process_close_all_files a k = Inr ((set_kheap h k)\<lparr>kfiles := fl, procs := (procs k)(a \<mapsto> p\<lparr>p_fds := fds\<rparr>)\<rparr>)
    \<and> heap_inv h bs' \<and> hvm h = hvm (kheap k) \<and> live BASE bs' = live BASE bs - blocks_at (set (open_files p)) (live BASE bs)"
proof -
  define c where "c = map (\<lambda>fd. if fd_used (p_fds p ! fd) then fd_file (p_fds p ! fd) else 0) [3..<16]"
  define fds where "fds = fold (\<lambda>fd ds. if fd_used (ds ! fd) then ds[fd := \<lparr>fd_used = False, fd_file = 0\<rparr>] else ds) [3..<16] (p_fds p)"
  define k1 where "k1 = k\<lparr>procs := (procs k)(a \<mapsto> p\<lparr>p_fds := fds\<rparr>)\<rparr>"
  have k1: "kheap k1 = kheap k" by (simp add: k1_def)
  have s: "set c - {0} = set (open_files p)" unfolding open_files_def c_def [symmetric] by auto
  have d: "distinct (filter ((\<noteq>) 0) c)" using fs(1) unfolding open_files_def c_def [symmetric] .
  have lv: "\<forall>f\<in>set c. f \<noteq> 0 \<longrightarrow> live_at f bs" using fs(2) s by blast
  obtain h bs' fl where cl: "foldE close_file c k1 = Inr ((set_kheap h k1)\<lparr>kfiles := fl\<rparr>)" "heap_inv h bs'" "hvm h = hvm (kheap k1)"
    "live BASE bs' = live BASE bs - blocks_at (set c - {0}) (live BASE bs)"
    using close_files_law [of k1 bs c, OF _ d lv] inv k1 by auto
  have v: "validate_live_process a k = Inr p" using p by (simp add: validate_live_process_def validate_process_def get_process_def)
  have n: "unat PROCESS_FIRST_FILE_FD = 3" "unat PROCESS_MAX_FDS = 16" by simp_all
  have u: "upd_process a (\<lambda>p. p\<lparr>p_fds := fds\<rparr>) k = Inr k1" using p by (simp add: upd_process_def get_process_def k1_def)
  have "process_close_all_files a k = foldE close_file c k1"
    unfolding process_close_all_files_def v bindE_simps Let_def n fds_def [symmetric] u c_def [symmetric] close_file_def [symmetric, abs_def] ..
  then show ?thesis using cl s k1 by (intro exI [of _ h] exI [of _ bs'] exI [of _ fl] exI [of _ fds]) (simp add: k1_def set_kheap_def)
qed

lemma space_ok_free_blocks:
  assumes ok: "space_ok s bs sp x ns" and h: "heap_inv h bs'" "hvm h = hvm (aheap s)"
    "live BASE bs' = live BASE bs - blocks_at A (live BASE bs)" and A: "A \<inter> insert sp (node_addr ` set ns) = {}"
  shows "space_ok (s\<lparr>aheap := h\<rparr>) bs' sp x ns"
proof -
  have lv: "\<exists>sz. (unat b, sz) \<in> live BASE bs'" if "b \<in> insert sp (node_addr ` set ns)" "\<exists>sz. (unat b, sz) \<in> live BASE bs" for b
    using that A live_at_minus [OF h(3), of b] unfolding live_at_def by blast
  have old: "\<exists>sz. (unat sp, sz) \<in> live BASE bs" "\<forall>n\<in>set ns. user_page (node_page n) \<and> (\<exists>sz. (unat (node_addr n), sz) \<in> live BASE bs)"
    using ok unfolding space_ok_def by blast+
  have "\<exists>sz. (unat sp, sz) \<in> live BASE bs'" using lv [of sp] old(1) by blast
  moreover have "\<forall>n\<in>set ns. user_page (node_page n) \<and> (\<exists>sz. (unat (node_addr n), sz) \<in> live BASE bs')" using lv old(2) by blast
  ultimately show ?thesis using ok h(1,2) unfolding space_ok_def by simp
qed

lemma orphan_fields [simp]:
  "p_magic (orphan pid p) = p_magic p" "p_state (orphan pid p) = p_state p" "p_exited (orphan pid p) = p_exited p"
  "p_fds (orphan pid p) = p_fds p" "p_address_space (orphan pid p) = p_address_space p" "p_next (orphan pid p) = p_next p"
  "p_prev (orphan pid p) = p_prev p"
  by (simp_all add: orphan_def)

text \<open>The bookkeeping of \<open>process_destroy\<close>: children lose their parent and the process leaves the table.\<close>

lemma process_leaves_table:
  assumes t: "ptable k (xs @ a # ys)" and p: "procs k a = Some p"
  shows "\<exists>k1 k2 p2. orphan_loop (process_head k) pid k = Some (Inr k1) \<and> process_table_remove a k1 = Inr k2
    \<and> ptable k2 (xs @ ys) \<and> procs k2 a = Some p2 \<and> p_magic p2 = p_magic p \<and> p_state p2 = p_state p
    \<and> p_fds p2 = p_fds p \<and> p_address_space p2 = p_address_space p
    \<and> contents (procs k2) = contents (\<lambda>b. if b \<in> set (xs @ a # ys) then map_option (orphan pid) (procs k b) else procs k b)
    \<and> k2 = k\<lparr>procs := procs k2, process_head := process_head k2, process_tail := process_tail k2, process_count := process_count k - 1\<rparr>"
proof -
  define st where "st = (\<lambda>b. if b \<in> set (xs @ a # ys) then map_option (orphan pid) (procs k b) else procs k b)"
  define k1 where "k1 = k\<lparr>procs := st\<rparr>"
  have 1: "orphan_loop (process_head k) pid k = Some (Inr k1)"
    unfolding ptable_seg(2) [OF t] k1_def st_def by (rule orphan_loop_list [OF ptable_seg(1,3) [OF t]])
  have "pl.dlist st (process_head k) (process_tail k) (xs @ a # ys)"
    by (rule pl.dlist_cong [of "procs k"]) (use t in \<open>auto simp: ptable_def st_def\<close>)
  moreover have "map_option p_magic (st b) = map_option p_magic (procs k b)" for b by (cases "procs k b") (simp_all add: st_def)
  ultimately have t1: "ptable k1 (xs @ a # ys)" using t unfolding ptable_def k1_def by simp
  obtain k2 where 2: "process_table_remove a k1 = Inr k2" "ptable k2 (xs @ ys)" "contents (procs k2) = contents (procs k1)"
    "k2 = k1\<lparr>procs := procs k2, process_head := process_head k2, process_tail := process_tail k2, process_count := process_count k1 - 1\<rparr>"
    using process_table_remove_law [OF t1] by blast
  have field: "map_option f (procs k2 a) = Some (f p)"
    if "\<And>q n m. f (q\<lparr>p_next := n, p_prev := m\<rparr>) = f q" "\<And>q. f (orphan pid q) = f q" for f :: "process \<Rightarrow> 'b"
    using contents_field [of "procs k2" "procs k1" f a] 2(3) that p by (simp add: k1_def st_def)
  have fs: "map_option p_magic (procs k2 a) = Some (p_magic p)" "map_option p_state (procs k2 a) = Some (p_state p)"
    "map_option p_fds (procs k2 a) = Some (p_fds p)" "map_option p_address_space (procs k2 a) = Some (p_address_space p)"
    by (rule field; simp)+
  have "k2 = k\<lparr>procs := procs k2, process_head := process_head k2, process_tail := process_tail k2, process_count := process_count k - 1\<rparr>"
    by (subst 2(4)) (simp add: k1_def)
  moreover obtain p2 where "procs k2 a = Some p2" using fs(1) by auto
  ultimately show ?thesis using 1 2(1-3) fs by (intro exI [of _ k1] exI [of _ k2] exI [of _ p2]) (simp add: k1_def st_def)
qed

lemma ptable_forget: "ptable k ps \<Longrightarrow> a \<notin> set ps \<Longrightarrow> procs k' = (procs k)(a := v) \<Longrightarrow> process_head k' = process_head k
   \<Longrightarrow> process_tail k' = process_tail k \<Longrightarrow> process_count k' = process_count k \<Longrightarrow> ptable k' ps"
  unfolding ptable_def by (auto intro: pl.dlist_cong)

text \<open>
  C33. Destroying an exited process returns and gives back everything the process held: its open
  files, its address space with all mapping nodes, and its own record are the heap allocations that
  disappear; the frames of its user pages, page tables and page directory become free; it leaves the
  process table, its children have no parent any more, and the other processes are unchanged.
\<close>

theorem process_destroy_gives_back_everything:
  assumes t: "ptable k (xs @ a # ys)" and p: "procs k a = Some p" "p_state p \<noteq> PROCESS_DESTROYED" "p_exited p \<or> p_state p = PROCESS_ZOMBIE"
    and ok: "space_ok (kas k) bs (p_address_space p) x ns" and rel: "releasable (kas k) x ns"
    and kern: "p_address_space p \<noteq> kernel_space (kas k)" "validate_space (kernel_space (kas k)) (kas k) = Inr kx"
    and lv: "live_at a bs" "distinct (open_files p)" "\<forall>f\<in>set (open_files p). live_at f bs"
    and apart: "a \<notin> insert (p_address_space p) (node_addr ` set ns) \<union> set (open_files p)"
      "set (open_files p) \<inter> insert (p_address_space p) (node_addr ` set ns) = {}"
  shows "\<exists>k' bs'. process_destroy a k = Some (Inr k') \<and> heap_inv (kheap k') bs'
    \<and> live BASE bs' = live BASE bs - blocks_at ({a, p_address_space p} \<union> node_addr ` set ns \<union> set (open_files p)) (live BASE bs)
    \<and> free_pages (frames (kas k')) = free_pages (frames (kas k)) \<union> node_frame ` set ns
         \<union> tables_of (phys (kas k)) (page_directory x) user_slots \<union> {page_directory x}
    \<and> ptable k' (xs @ ys) \<and> procs k' a = None
    \<and> (\<forall>b\<in>set (xs @ ys). contents (procs k') b = map_option (orphan (p_pid p)) (contents (procs k) b))"
proof -
  let ?sp = "p_address_space p"
  have a0: "a \<noteq> 0" and m: "p_magic p = PROCESS_MAGIC" using ptable_process [OF t, of a] p(1) by auto
  obtain k1 k2 p2 where 2: "orphan_loop (process_head k) (p_pid p) k = Some (Inr k1)" "process_table_remove a k1 = Inr k2"
    "ptable k2 (xs @ ys)" "procs k2 a = Some p2" "p_magic p2 = p_magic p" "p_state p2 = p_state p"
    "p_fds p2 = p_fds p" "p_address_space p2 = ?sp"
    "contents (procs k2) = contents (\<lambda>b. if b \<in> set (xs @ a # ys) then map_option (orphan (p_pid p)) (procs k b) else procs k b)"
    "k2 = k\<lparr>procs := procs k2, process_head := process_head k2, process_tail := process_tail k2, process_count := process_count k - 1\<rparr>"
    using process_leaves_table [OF t p(1), of "p_pid p"] by (elim exE conjE) (rule that)
  have kas2: "kas k2 = kas k" by (subst 2(10)) simp
  have fl2: "open_files p2 = open_files p" unfolding open_files_def 2(7) ..
  have inv: "heap_inv (kheap k2) bs" using ok kas2 by (simp add: space_ok_def)
  have live: "p_magic p2 = PROCESS_MAGIC" "p_state p2 \<noteq> PROCESS_DESTROYED" using 2(5,6) m p(2) by simp_all
  obtain h bs3 fl fds where 3: "process_close_all_files a k2 = Inr ((set_kheap h k2)\<lparr>kfiles := fl, procs := (procs k2)(a \<mapsto> p2\<lparr>p_fds := fds\<rparr>)\<rparr>)"
    "heap_inv h bs3" "hvm h = hvm (kheap k2)" "live BASE bs3 = live BASE bs - blocks_at (set (open_files p)) (live BASE bs)"
    using process_close_all_files_law [OF 2(4) a0 live inv, unfolded fl2, OF lv(2,3)] by blast
  define k3 where "k3 = (set_kheap h k2)\<lparr>kfiles := fl, procs := (procs k2)(a \<mapsto> p2\<lparr>p_fds := fds\<rparr>)\<rparr>"
  have k3: "kas k3 = (kas k)\<lparr>aheap := h\<rparr>" "get_process a k3 = Inr (p2\<lparr>p_fds := fds\<rparr>)"
    by (simp_all add: k3_def set_kheap_def kas2 get_process_def)
  have ok3: "space_ok (kas k3) bs3 ?sp x ns" unfolding k3(1) by (rule space_ok_free_blocks [OF ok 3(2) _ 3(4) apart(2)]) (use 3(3) kas2 in simp)
  have hv: "hvm h = hvm (kheap k)" using 3(3) kas2 by simp
  have rel3: "releasable (kas k3) x ns" and kern3: "?sp \<noteq> kernel_space (kas k3)" "validate_space (kernel_space (kas k3)) (kas k3) = Inr kx"
    using rel kern hv validate_space_cong [of "kas k3" "kas k"] by (simp_all add: k3(1) releasable_def)
  obtain a4 bs4 where 4: "address_space_destroy ?sp (kas k3) = Some (Inr a4)" "heap_inv (aheap a4) bs4"
    "free_pages (frames a4) = free_pages (frames (kas k3)) \<union> node_frame ` set ns \<union> tables_of (phys (kas k3)) (page_directory x) user_slots \<union> {page_directory x}"
    "live BASE bs4 = live BASE bs3 - blocks_at (insert ?sp (node_addr ` set ns)) (live BASE bs3)"
    using address_space_destroy_ok [OF ok3 rel3 kern3] by blast
  have "live_at a bs4" using lv(1) apart(1) live_at_minus [OF 3(4)] live_at_minus [OF 4(4)] by simp
  then obtain h5 bs5 where 5: "kfree a (aheap a4) = Inr h5" "heap_inv h5 bs5" "hvm h5 = hvm (aheap a4)"
    "live BASE bs5 = live BASE bs4 - blocks_at {a} (live BASE bs4)" using free_block [OF 4(2)] by blast
  define k' where "k' = k2\<lparr>kas := a4\<lparr>aheap := h5\<rparr>, kfiles := fl, procs := (procs k2)(a := None)\<rparr>"
  have sp0: "?sp \<noteq> 0" using ok by (simp add: space_ok_def)
  have v: "validate_live_process a k = Inr p" using p a0 m by (simp add: validate_live_process_def validate_process_def get_process_def)
  have k': "process_destroy a k = Some (Inr k')"
    using p(3) 2(8) sp0 4(1) 5(1) unfolding process_destroy_def v 2(1) bindO_simps
    by (simp add: 2(2) 3(1) k3_def [symmetric] k3(2)) (simp add: k3_def upd_process_def get_process_def set_kheap_def k'_def)
  show ?thesis
  proof (intro exI [of _ k'] exI [of _ bs5] conjI ballI)
    show "live BASE bs5 = live BASE bs - blocks_at ({a, ?sp} \<union> node_addr ` set ns \<union> set (open_files p)) (live BASE bs)"
    proof -
      have e: "set (open_files p) \<union> insert ?sp (node_addr ` set ns) \<union> {a} = {a, ?sp} \<union> node_addr ` set ns \<union> set (open_files p)" by auto
      show ?thesis unfolding 5(4) 4(4) 3(4) blocks_at_Un e ..
    qed
    show "ptable k' (xs @ ys)" by (rule ptable_forget [OF 2(3)]) (use ptable_seg(3) [OF t] in \<open>auto simp: k'_def\<close>)
    fix b assume b: "b \<in> set (xs @ ys)"
    then have "b \<noteq> a" using ptable_seg(3) [OF t] by auto
    then have "contents (procs k') b = contents (procs k2) b" by (simp add: k'_def contents_def)
    also have "\<dots> = map_option (orphan (p_pid p)) (contents (procs k) b)"
      unfolding 2(9) using b by (cases "procs k b") (auto simp: contents_def orphan_def)
    finally show "contents (procs k') b = map_option (orphan (p_pid p)) (contents (procs k) b)" .
  qed (use k' 4(3) 5 hv in \<open>simp_all add: k'_def k3(1)\<close>)
qed


definition sample_zombie :: kernel where
  "sample_zombie = (sample_kernel THREAD_RUNNING)\<lparr>kas := sample_aspace\<lparr>aheap := (aheap sample_aspace)\<lparr>
         blocks := [0xD1000000 \<mapsto> \<lparr>hb_magic = HEAP_MAGIC, hb_size = 24, hb_is_free = 0, hb_reserved = 0, hb_next = 0xD1000030, hb_prev = 0\<rparr>,
           0xD1000030 \<mapsto> \<lparr>hb_magic = HEAP_MAGIC, hb_size = 200, hb_is_free = 0, hb_reserved = 0, hb_next = 0xD1000110, hb_prev = 0xD1000000\<rparr>,
           0xD1000110 \<mapsto> \<lparr>hb_magic = HEAP_MAGIC, hb_size = 3800, hb_is_free = 1, hb_reserved = 0, hb_next = 0, hb_prev = 0xD1000030\<rparr>],
         heap_active_allocations := 2\<rparr>\<rparr>,
     procs := [0xD1000048 \<mapsto> sample_process\<lparr>p_state := PROCESS_ZOMBIE, p_exited := True\<rparr>],
     process_head := 0xD1000048, process_tail := 0xD1000048\<rparr>"

lemma sample_zombie_space:
  "space_ok (kas sample_zombie) [(24, False), (200, False), (3800, True)] 0xD1000018 sample_space []"
  by (simp add: sample_zombie_def space_ok_def sample_aspace_def heap_inv_def heap_list_def sample_heap_def dir_wf_def page_aligned_def user_slots_less)

theorem process_destroy_gives_back_everything_witness:
  "\<exists>k' bs'. process_destroy 0xD1000048 sample_zombie = Some (Inr k') \<and> heap_inv (kheap k') bs' \<and> live BASE bs' = {}"
proof -
  let ?p = "sample_process\<lparr>p_state := PROCESS_ZOMBIE, p_exited := True\<rparr>" and ?bs = "[(24, False), (200, False), (3800, True)] :: hblk list"
  have t: "ptable sample_zombie ([] @ 0xD1000048 # [])"
    by (simp add: ptable_def pl.dlist_def last0_def sample_zombie_def sample_process_def sample_kernel_def)
  have p: "procs sample_zombie 0xD1000048 = Some ?p" "p_state ?p \<noteq> PROCESS_DESTROYED" "p_exited ?p \<or> p_state ?p = PROCESS_ZOMBIE"
    "p_address_space ?p = 0xD1000018" by (simp_all add: sample_zombie_def sample_process_def)
  have ok: "space_ok (kas sample_zombie) ?bs (p_address_space ?p) sample_space []" unfolding p(4) by (rule sample_zombie_space)
  have fs: "open_files ?p = []" by (simp add: open_files_def sample_process_def filter_empty_conv)
  have lv: "live BASE ?bs = {(0xD1000018, 24), (0xD1000048, 200)}" by auto
  have rel: "releasable (kas sample_zombie) sample_space []" by (simp add: releasable_def sample_zombie_def sample_aspace_def tables_of_def)
  have kern: "p_address_space ?p \<noteq> kernel_space (kas sample_zombie)"
    "validate_space (kernel_space (kas sample_zombie)) (kas sample_zombie) = Inr (the (spaces sample_aspace 8))"
    unfolding p(4) by (simp_all add: sample_zombie_def sample_aspace_def validate_space_def get_space_def)
  have l1: "live_at 0xD1000048 ?bs" unfolding live_at_def lv by (intro exI [of _ 200]) simp
  have l2: "distinct (open_files ?p)" "\<forall>f\<in>set (open_files ?p). live_at f ?bs"
    "0xD1000048 \<notin> insert (p_address_space ?p) (node_addr ` set []) \<union> set (open_files ?p)"
    "set (open_files ?p) \<inter> insert (p_address_space ?p) (node_addr ` set []) = {}" unfolding fs p(4) by simp_all
  obtain k' bs' where k': "process_destroy 0xD1000048 sample_zombie = Some (Inr k')" "heap_inv (kheap k') bs'"
    "live BASE bs' = live BASE ?bs - blocks_at ({0xD1000048, p_address_space ?p} \<union> node_addr ` set [] \<union> set (open_files ?p)) (live BASE ?bs)"
    using process_destroy_gives_back_everything [OF t p(1-3) ok rel kern l1 l2] by blast
  then show ?thesis unfolding fs p(4) lv by (auto simp: blocks_at_def)
qed

section \<open>Well-formed process records\<close>

text \<open>
  Sixteen descriptors, the first three never used, a used one with a file; a zombie has exited and a
  new process has not; a process that has exited is not to be killed; the exit code is unset before;
  a process that has not started has no thread and a running one has. \<open>process_start_user\<close> does not
  look at the state of the process, so a process may be started again after it has exited; only when
  no process is (\<open>once\<close>) is every process that has exited a zombie.
\<close>

definition fds_ok :: "process_fd list \<Rightarrow> bool" where
  "fds_ok ds \<longleftrightarrow> length ds = 16 \<and> (\<forall>d\<in>set (take 3 ds). \<not> fd_used d) \<and> (\<forall>d\<in>set ds. fd_used d \<longleftrightarrow> fd_file d \<noteq> 0)"

definition process_ok_at :: "bool \<Rightarrow> process \<Rightarrow> bool" where
  "process_ok_at once p \<longleftrightarrow> p_magic p = PROCESS_MAGIC \<and> fds_ok (p_fds p)
     \<and> (case p_state p of
          PROCESS_NEW \<Rightarrow> \<not> p_exited p \<and> p_main_thread p = 0
        | PROCESS_RUNNING \<Rightarrow> (once \<longrightarrow> \<not> p_exited p) \<and> p_main_thread p \<noteq> 0
        | PROCESS_ZOMBIE \<Rightarrow> p_exited p
        | PROCESS_DESTROYED \<Rightarrow> False)
     \<and> (if p_exited p then \<not> p_kill_requested p else p_exit_code p = 0xFFFFFFFF)"

abbreviation process_ok :: "process \<Rightarrow> bool" where
  "process_ok \<equiv> process_ok_at False"

definition procs_ok_at :: "bool \<Rightarrow> kernel \<Rightarrow> bool" where
  "procs_ok_at once k \<longleftrightarrow> (\<forall>a p. procs k a = Some p \<longrightarrow> a \<noteq> 0 \<and> process_ok_at once p)"

abbreviation procs_ok :: "kernel \<Rightarrow> bool" where
  "procs_ok \<equiv> procs_ok_at False"

lemma fds_ok_update:
  assumes "fds_ok ds" and "3 \<le> i" and "fd_used d \<longleftrightarrow> fd_file d \<noteq> 0"
  shows "fds_ok (ds[i := d])"
proof -
  have "take 3 (ds[i := d]) = take 3 ds" using assms(2) by simp
  moreover have "set (ds[i := d]) \<subseteq> insert d (set ds)" by (rule set_update_subset_insert)
  ultimately show ?thesis using assms unfolding fds_ok_def by auto
qed

lemma procs_okD: "procs_ok_at once k \<Longrightarrow> procs k a = Some p \<Longrightarrow> process_ok_at once p" "procs_ok_at once k \<Longrightarrow> procs k a = Some p \<Longrightarrow> a \<noteq> 0"
  unfolding procs_ok_at_def by blast+

lemma procs_ok_store: "procs_ok_at once k \<Longrightarrow> a \<noteq> 0 \<Longrightarrow> process_ok_at once p \<Longrightarrow> procs_ok_at once (k\<lparr>procs := (procs k)(a \<mapsto> p)\<rparr>)"
  by (simp add: procs_ok_at_def)

lemma procs_ok_upd:
  assumes "procs_ok_at once k" and "upd_process a f k = Inr k'" and "\<And>p. procs k a = Some p \<Longrightarrow> process_ok_at once p \<Longrightarrow> process_ok_at once (f p)"
  shows "procs_ok_at once k'"
proof -
  obtain p where p: "procs k a = Some p" "k' = k\<lparr>procs := (procs k)(a \<mapsto> f p)\<rparr>"
    using assms(2) by (auto simp: upd_process_def get_process_def bindE_eq_Inr_iff split: option.splits)
  then show ?thesis using procs_ok_store [OF assms(1)] procs_okD [OF assms(1) p(1)] assms(3) by simp
qed

lemma procs_ok_cong: "procs_ok_at once k \<Longrightarrow> procs k' = procs k \<Longrightarrow> procs_ok_at once k'"
  by (simp add: procs_ok_at_def)

text \<open>Updates that a record's well-formedness does not depend on.\<close>

lemma process_ok_upd [simp]:
  "process_ok_at once (p\<lparr>p_parent_pid := v\<rparr>) = process_ok_at once p" "process_ok_at once (p\<lparr>p_user_entry := v\<rparr>) = process_ok_at once p"
  "process_ok_at once (p\<lparr>p_user_stack_base := v\<rparr>) = process_ok_at once p" "process_ok_at once (p\<lparr>p_user_stack_top := v\<rparr>) = process_ok_at once p"
  "process_ok_at once (p\<lparr>p_user_initial_esp := v\<rparr>) = process_ok_at once p" "process_ok_at once (p\<lparr>p_user_code_base := v\<rparr>) = process_ok_at once p"
  "process_ok_at once (p\<lparr>p_next := v\<rparr>) = process_ok_at once p" "process_ok_at once (p\<lparr>p_prev := v\<rparr>) = process_ok_at once p"
  "process_ok_at once (p\<lparr>p_address_space := v\<rparr>) = process_ok_at once p"
  by (simp_all add: process_ok_at_def split: process_state.split)

lemma process_ok_kill: "process_ok_at once p \<Longrightarrow> killable p \<Longrightarrow> process_ok_at once (p\<lparr>p_kill_requested := True\<rparr>)"
  by (auto simp: process_ok_at_def killable_def split: process_state.splits)

lemma process_ok_fds: "process_ok_at once p \<Longrightarrow> fds_ok ds \<Longrightarrow> process_ok_at once (p\<lparr>p_fds := ds\<rparr>)"
  by (simp add: process_ok_at_def split: process_state.splits)

lemma process_ok_fdsD: "process_ok_at once p \<Longrightarrow> fds_ok (p_fds p)"
  by (simp add: process_ok_at_def)

lemma process_ok_liveD: "process_ok_at once p \<Longrightarrow> p_magic p = PROCESS_MAGIC \<and> p_state p \<noteq> PROCESS_DESTROYED"
  by (auto simp: process_ok_at_def)

lemma process_ok_start:
  "process_ok_at once p \<Longrightarrow> once \<longrightarrow> p_state p = PROCESS_NEW \<Longrightarrow> t \<noteq> 0 \<Longrightarrow>
   process_ok_at once (p\<lparr>p_main_thread := t, p_state := PROCESS_RUNNING\<rparr>)"
  by (cases once) (simp_all add: process_ok_at_def split: process_state.splits)

named_theorems keeps_procs_ok

lemma process_set_parent_ok [keeps_procs_ok]: "process_set_parent a v k = Inr k' \<Longrightarrow> procs_ok_at once k \<Longrightarrow> procs_ok_at once k'"
  by (auto simp: process_set_parent_def bindE_eq_Inr_iff elim: procs_ok_upd)

lemma process_set_user_entry_ok [keeps_procs_ok]: "process_set_user_entry a v k = Inr k' \<Longrightarrow> procs_ok_at once k \<Longrightarrow> procs_ok_at once k'"
  by (auto simp: process_set_user_entry_def bindE_eq_Inr_iff elim: procs_ok_upd)

lemma process_set_user_stack_ok [keeps_procs_ok]: "process_set_user_stack a v w k = Inr k' \<Longrightarrow> procs_ok_at once k \<Longrightarrow> procs_ok_at once k'"
  by (auto simp: process_set_user_stack_def bindE_eq_Inr_iff elim: procs_ok_upd)

lemma process_request_kill_ok [keeps_procs_ok]:
  assumes "process_request_kill a k = Inr k'" and "procs_ok_at once k"
  shows "procs_ok_at once k'"
proof -
  obtain p where p: "validate_live_process a k = Inr p"
    and r: "(if killable p then upd_process a (\<lambda>p. p\<lparr>p_kill_requested := True\<rparr>) k else Inr k) = Inr k'"
    using assms(1) unfolding process_request_kill_def by (elim bindE_InrE)
  have "procs k a = Some p" using p
    by (auto simp: validate_live_process_def validate_process_def get_process_def bindE_eq_Inr_iff split: if_splits option.splits)
  then show ?thesis using r assms(2) procs_ok_upd [OF assms(2), of a "\<lambda>p. p\<lparr>p_kill_requested := True\<rparr>"] process_ok_kill
    by (auto split: if_splits)
qed

lemma kill_child_loop_ok:
  assumes "kill_child_loop cur pp cp k = Some res"
  shows "procs_ok_at once k \<longrightarrow> (\<forall>r k'. res = Inr (r, k') \<longrightarrow> procs_ok_at once k')"
proof (rule kill_child_loop.raw_induct [OF _ assms], goal_cases)
  case (1 kl cur pp cp k res)
  show ?case
  proof (cases "procs k cur")
    case (Some p)
    have "procs_ok_at once (k\<lparr>procs := (procs k)(cur \<mapsto> p\<lparr>p_kill_requested := True\<rparr>)\<rparr>)" if "killable p" "procs_ok_at once k"
      using procs_ok_store procs_okD [OF that(2) Some] process_ok_kill that by blast
    then show ?thesis using 1 Some by (auto simp: get_process_def upd_process_def split: if_splits)
  qed (use 1(2) in \<open>auto simp: get_process_def split: if_splits\<close>)
qed

lemma process_request_kill_child_ok [keeps_procs_ok]:
  "process_request_kill_child pp cp k = Some (Inr (r, k')) \<Longrightarrow> procs_ok_at once k \<Longrightarrow> procs_ok_at once k'"
  unfolding process_request_kill_child_def using kill_child_loop_ok by blast

lemma procs_ok_sel [simp]:
  "procs_ok_at once (k\<lparr>process_head := v\<rparr>) = procs_ok_at once k" "procs_ok_at once (k\<lparr>process_tail := v\<rparr>) = procs_ok_at once k"
  "procs_ok_at once (k\<lparr>process_count := w\<rparr>) = procs_ok_at once k" "procs_ok_at once (k\<lparr>kas := a\<rparr>) = procs_ok_at once k"
  "procs_ok_at once (k\<lparr>ksched := s\<rparr>) = procs_ok_at once k" "procs_ok_at once (k\<lparr>kfiles := f\<rparr>) = procs_ok_at once k"
  "procs_ok_at once (k\<lparr>next_pid := w\<rparr>) = procs_ok_at once k" "procs_ok_at once (set_kheap h k) = procs_ok_at once k"
  "procs_ok_at once (k\<lparr>last_exit_code := w\<rparr>) = procs_ok_at once k" "procs_ok_at once (k\<lparr>last_exit_seen := b\<rparr>) = procs_ok_at once k"
  by (simp_all add: procs_ok_at_def set_kheap_def)

lemma upd_links_ok:
  assumes "procs_ok_at once k"
  shows "upd_process a (\<lambda>p. p\<lparr>p_next := n\<rparr>) k = Inr k' \<Longrightarrow> procs_ok_at once k'"
    and "upd_process a (\<lambda>p. p\<lparr>p_prev := n\<rparr>) k = Inr k' \<Longrightarrow> procs_ok_at once k'"
    and "upd_process a (\<lambda>p. p\<lparr>p_next := n, p_prev := m\<rparr>) k = Inr k' \<Longrightarrow> procs_ok_at once k'"
  by (erule procs_ok_upd [OF assms]; simp)+

lemma process_table_insert_ok:
  assumes "process_table_insert a k = Inr k'" and "procs_ok_at once k"
  shows "procs_ok_at once k'"
  using assms(1) unfolding process_table_insert_def
proof (elim bindE_InrE)
  fix k1 k2
  assume 1: "upd_process a (\<lambda>p. p\<lparr>p_next := 0, p_prev := process_tail k\<rparr>) k = Inr k1"
    and 2: "(if process_tail k1 \<noteq> 0 then upd_process (process_tail k1) (\<lambda>p. p\<lparr>p_next := a\<rparr>) k1 else Inr (k1\<lparr>process_head := a\<rparr>)) = Inr k2"
    and 3: "Inr (k2\<lparr>process_tail := a, process_count := process_count k2 + 1\<rparr>) = Inr k'"
  have "procs_ok_at once k1" by (rule upd_links_ok(3) [OF assms(2) 1])
  then have "procs_ok_at once k2" using 2 upd_links_ok(1) by (auto split: if_splits)
  then show "procs_ok_at once k'" using 3 by auto
qed

lemma process_table_remove_ok:
  assumes "process_table_remove a k = Inr k'" and "procs_ok_at once k"
  shows "procs_ok_at once k'"
  using assms(1) unfolding process_table_remove_def
proof (elim bindE_InrE)
  fix p k1 p1 k2 k3
  assume 1: "(if p_prev p \<noteq> 0 then upd_process (p_prev p) (\<lambda>q. q\<lparr>p_next := p_next p\<rparr>) k else Inr (k\<lparr>process_head := p_next p\<rparr>)) = Inr k1"
    and 2: "(if p_next p1 \<noteq> 0 then upd_process (p_next p1) (\<lambda>q. q\<lparr>p_prev := p_prev p1\<rparr>) k1 else Inr (k1\<lparr>process_tail := p_prev p1\<rparr>)) = Inr k2"
    and 3: "upd_process a (\<lambda>p. p\<lparr>p_next := 0, p_prev := 0\<rparr>) k2 = Inr k3"
    and 4: "Inr (if process_count k3 > 0 then k3\<lparr>process_count := process_count k3 - 1\<rparr> else k3) = Inr k'"
  have "procs_ok_at once k1" using 1 upd_links_ok(1) [OF assms(2)] assms(2) by (auto split: if_splits)
  then have "procs_ok_at once k2" using 2 upd_links_ok(2) by (auto split: if_splits)
  then have "procs_ok_at once k3" using 3 upd_links_ok(3) by blast
  then show "procs_ok_at once k'" using 4 by (auto split: if_splits)
qed

lemma fds_ok_fresh: "fds_ok (replicate 16 \<lparr>fd_used = False, fd_file = 0\<rparr>)"
  by (auto simp: fds_ok_def)

lemma process_create_empty_ok [keeps_procs_ok]:
  assumes "process_create_empty name k = Some (Inr (a, k'))" and "procs_ok_at once k"
  shows "procs_ok_at once k'"
  using assms unfolding process_create_empty_def
  by (clarsimp simp: bindO_eq_Inr_iff Let_def bindE_eq_Inr_iff split: if_splits)
    (erule process_table_insert_ok, simp add: procs_ok_at_def set_kheap_def process_ok_at_def fds_ok_fresh)

lemma validate_live_process_store: "validate_live_process a k = Inr p \<Longrightarrow> procs k a = Some p"
  by (auto simp: validate_live_process_def validate_process_def get_process_def bindE_eq_Inr_iff split: if_splits option.splits)

lemma on_vfs_procs: "on_vfs f k = Inr (r, k') \<Longrightarrow> procs k' = procs k"
  by (auto simp: on_vfs_def set_kheap_def bindE_eq_Inr_iff)

lemma on_sched_procs: "on_sched f k = Inr k' \<Longrightarrow> procs k' = procs k"
  by (auto simp: on_sched_def bindE_eq_Inr_iff)

lemma free_fd_range: "free_fd ds = Some i \<Longrightarrow> 3 \<le> i \<and> i < 16 \<and> \<not> fd_used (ds ! i)"
  unfolding free_fd_def by (auto simp: find_Some_iff simp del: upt_rec_numeral)

lemma process_fd_install_ok [keeps_procs_ok]:
  assumes "process_fd_install a f k = Inr (r, k')" and "procs_ok_at once k"
  shows "procs_ok_at once k'"
  using assms(1) unfolding process_fd_install_def
proof (elim bindE_InrE)
  fix p assume p: "validate_live_process a k = Inr p"
    and r: "(if f = 0 then Inr (-1, k) else case free_fd (p_fds p) of None \<Rightarrow> Inr (-1, k)
      | Some fd \<Rightarrow> bindE (upd_process a (\<lambda>p. p\<lparr>p_fds := (p_fds p)[fd := \<lparr>fd_used = True, fd_file = f\<rparr>]\<rparr>) k) (\<lambda>k1. Inr (int fd, k1))) = Inr (r, k')"
  show "procs_ok_at once k'"
  proof (cases "f = 0 \<or> free_fd (p_fds p) = None")
    case False
    then obtain fd where fd: "free_fd (p_fds p) = Some fd" by auto
    have u: "upd_process a (\<lambda>p. p\<lparr>p_fds := (p_fds p)[fd := \<lparr>fd_used = True, fd_file = f\<rparr>]\<rparr>) k = Inr k'"
      using r False fd by (auto simp: bindE_eq_Inr_iff)
    show ?thesis
      by (rule procs_ok_upd [OF assms(2) u], rule process_ok_fds, assumption)
        (use free_fd_range [OF fd] False in \<open>auto dest: process_ok_fdsD intro: fds_ok_update\<close>)
  qed (use r assms(2) in \<open>auto split: if_splits\<close>)
qed

lemma clear_fd_ok: "fds_ok ds \<Longrightarrow> 3 \<le> i \<Longrightarrow> fds_ok (ds[i := \<lparr>fd_used = False, fd_file = 0\<rparr>])"
  by (erule fds_ok_update) simp_all

lemma process_fd_close_ok [keeps_procs_ok]:
  assumes "process_fd_close a fd k = Inr (r, k')" and "procs_ok_at once k"
  shows "procs_ok_at once k'"
  using assms(1) unfolding process_fd_close_def Let_def
proof (elim bindE_InrE)
  fix p assume r: "(if fd < PROCESS_FIRST_FILE_FD \<or> fd \<ge> PROCESS_MAX_FDS then Inr (-1, k)
     else bindE (if fd_used (p_fds p ! unat fd) then upd_process a (\<lambda>p. p\<lparr>p_fds := (p_fds p)[unat fd := \<lparr>fd_used = False, fd_file = 0\<rparr>]\<rparr>) k
               else Inr k) (\<lambda>k1.
        if (if fd_used (p_fds p ! unat fd) then fd_file (p_fds p ! unat fd) else 0) = 0 then Inr (-1, k1)
        else bindE (on_vfs (\<lambda>v. bindE (vfs_close (if fd_used (p_fds p ! unat fd) then fd_file (p_fds p ! unat fd) else 0) v) (\<lambda>v1. Inr ((), v1))) k1)
          (\<lambda>(_, k2). Inr (0, k2)))) = Inr (r, k')"
  show "procs_ok_at once k'"
  proof (cases "fd < PROCESS_FIRST_FILE_FD \<or> fd \<ge> PROCESS_MAX_FDS")
    case False
    then have 3: "3 \<le> unat fd" by (auto simp: word_less_nat_alt)
    have "procs_ok_at once k1" if "upd_process a (\<lambda>p. p\<lparr>p_fds := (p_fds p)[unat fd := \<lparr>fd_used = False, fd_file = 0\<rparr>]\<rparr>) k = Inr k1" for k1
      by (rule procs_ok_upd [OF assms(2) that], rule process_ok_fds, assumption) (use 3 in \<open>auto dest: process_ok_fdsD intro: clear_fd_ok\<close>)
    then show ?thesis using r False assms(2)
      by (auto simp: bindE_eq_Inr_iff split: if_splits dest!: on_vfs_procs intro: procs_ok_cong)
  qed (use r assms(2) in auto)
qed

lemma foldE_close_procs: "foldE close_file fs k = Inr k' \<Longrightarrow> procs k' = procs k"
proof (induction fs arbitrary: k)
  case (Cons f fs)
  then obtain k1 where k1: "close_file f k = Inr k1" "foldE close_file fs k1 = Inr k'" by (auto elim: bindE_InrE)
  have "procs k1 = procs k" using k1(1) by (auto simp: close_file_def bindE_eq_Inr_iff dest!: on_vfs_procs split: if_splits)
  then show ?case using Cons.IH [OF k1(2)] by simp
qed simp

lemma clear_fds_ok:
  "fds_ok ds \<Longrightarrow> \<forall>i\<in>set is. 3 \<le> i \<Longrightarrow>
     fds_ok (fold (\<lambda>fd ds. if fd_used (ds ! fd) then ds[fd := \<lparr>fd_used = False, fd_file = 0\<rparr>] else ds) is ds)"
  by (induction "is" arbitrary: ds) (auto intro: clear_fd_ok)

lemma process_close_all_files_ok [keeps_procs_ok]:
  assumes "process_close_all_files a k = Inr k'" and "procs_ok_at once k"
  shows "procs_ok_at once k'"
  using assms(1) unfolding process_close_all_files_def Let_def close_file_def [symmetric, abs_def]
proof (elim bindE_InrE)
  fix p k1
  assume p: "validate_live_process a k = Inr p"
    and u: "upd_process a (\<lambda>q. q\<lparr>p_fds := fold (\<lambda>fd ds. if fd_used (ds ! fd) then ds[fd := \<lparr>fd_used = False, fd_file = 0\<rparr>] else ds)
        [unat PROCESS_FIRST_FILE_FD..<unat PROCESS_MAX_FDS] (p_fds p)\<rparr>) k = Inr k1"
    and f: "foldE close_file (map (\<lambda>fd. if fd_used (p_fds p ! fd) then fd_file (p_fds p ! fd) else 0)
        [unat PROCESS_FIRST_FILE_FD..<unat PROCESS_MAX_FDS]) k1 = Inr k'"
  have "fds_ok (p_fds p)" using procs_okD(1) [OF assms(2) validate_live_process_store [OF p]] by (simp add: process_ok_at_def)
  then have "fds_ok (fold (\<lambda>fd ds. if fd_used (ds ! fd) then ds[fd := \<lparr>fd_used = False, fd_file = 0\<rparr>] else ds)
        [unat PROCESS_FIRST_FILE_FD..<unat PROCESS_MAX_FDS] (p_fds p))" by (rule clear_fds_ok) (simp only: set_upt, simp)
  then have "procs_ok_at once k1" by (intro procs_ok_upd [OF assms(2) u] process_ok_fds)
  then show "procs_ok_at once k'" using foldE_close_procs [OF f] by (rule procs_ok_cong)
qed

text \<open>Operations on memory, threads and time leave every process record as it is.\<close>

lemma map_user_page_procs: "map_user_page a v k = Some (Inr (r, k')) \<Longrightarrow> procs k' = procs k"
  by (cases "pmm_alloc_page (frames (kas k))") (auto simp: map_user_page_def bindO_eq_Inr_iff bindE_eq_Inr_iff Let_def split: if_splits)

lemma map_user_pages_procs: "map_user_pages vs a k = Some (Inr (r, k')) \<Longrightarrow> procs k' = procs k"
  by (induction vs arbitrary: k) (auto simp: bindO_eq_Inr_iff split: if_splits dest!: map_user_page_procs)

lemma process_map_user_region_procs: "process_map_user_region a v n k = Some (Inr (r, k')) \<Longrightarrow> procs k' = procs k"
  by (auto simp: process_map_user_region_def bindO_eq_Inr_iff Let_def split: if_splits dest!: map_user_pages_procs)

lemma process_with_address_space_procs: "process_with_address_space a f k = Inr k' \<Longrightarrow> procs k' = procs k"
  by (auto simp: process_with_address_space_def Let_def elim!: bindE_InrE)

lemma process_copy_to_user_init_procs: "process_copy_to_user_init a v b n k = Inr (r, k') \<Longrightarrow> procs k' = procs k"
  by (auto simp: process_copy_to_user_init_def bindE_eq_Inr_iff split: if_splits option.splits dest!: process_with_address_space_procs)

lemma process_zero_user_init_procs: "process_zero_user_init a v n k = Inr (r, k') \<Longrightarrow> procs k' = procs k"
  by (auto simp: process_zero_user_init_def bindE_eq_Inr_iff split: if_splits dest!: process_with_address_space_procs)

lemma process_copy_stack_bytes_procs: "process_copy_stack_bytes a v b n k = Inr (r, k') \<Longrightarrow> procs k' = procs k"
  by (auto simp: process_copy_stack_bytes_def bindE_eq_Inr_iff split: if_splits dest!: process_with_address_space_procs)

lemma push_arguments_procs: "push_arguments n argv a sp ptrs k = Inr (r, k') \<Longrightarrow> procs k' = procs k"
proof (induction n arbitrary: sp ptrs k)
  case (Suc n)
  then show ?case
    by (auto simp: bindE_eq_Inr_iff Let_def split: if_splits option.splits dest!: process_copy_stack_bytes_procs)
qed simp

lemma process_setup_arguments_ok [keeps_procs_ok]:
  assumes "process_setup_arguments a argc argv k = Inr (r, k')" and "procs_ok_at once k"
  shows "procs_ok_at once k'"
proof -
  have c: "procs_ok_at once k2" if "procs k2 = procs k" for k2 by (rule procs_ok_cong [OF assms(2) that])
  have *: "procs_ok_at once k3" if "procs k2 = procs k" "upd_process a (\<lambda>p. p\<lparr>p_user_initial_esp := v\<rparr>) k2 = Inr k3" for k2 k3 v
    by (rule procs_ok_upd [OF procs_ok_cong [OF assms(2) that(1)] that(2)]) simp
  show ?thesis
    using assms unfolding process_setup_arguments_def Let_def
    by (auto simp: bindE_eq_Inr_iff split: if_splits option.splits dest!: process_copy_stack_bytes_procs push_arguments_procs)
      (erule c | erule (1) *)+
qed

lemma thread_create_suspended_procs:
  "thread_create_suspended n e a k = Some (Inr (t, k')) \<Longrightarrow> procs k' = procs k \<and> t \<noteq> 0"
  by (auto simp: thread_create_suspended_def thread_create_internal_def thread_make_initial_stack_def bindO_eq_Inr_iff
      bindE_eq_Inr_iff Let_def set_kheap_def dest!: on_sched_procs split: if_splits)

lemma reap_one_procs: "reap_one k = Inr (r, k') \<Longrightarrow> procs k' = procs k"
  by (auto simp: reap_one_def bindE_eq_Inr_iff Let_def set_kheap_def split: if_splits)

lemma thread_reap_zombies_procs:
  assumes "thread_reap_zombies k = Some res"
  shows "\<forall>k'. res = Inr k' \<longrightarrow> procs k' = procs k"
proof (rule thread_reap_zombies.raw_induct [OF _ assms], goal_cases)
  case (1 f k res)
  then show ?case by (auto split: sum.splits if_splits dest!: reap_one_procs)
qed


lemma process_start_user_ok [keeps_procs_ok]:
  assumes "process_start_user a k = Some (Inr k')" and "procs_ok_at once k" and "once \<longrightarrow> map_option p_state (procs k a) = Some PROCESS_NEW"
  shows "procs_ok_at once k'"
proof -
  have "procs_ok_at once k3" if "procs k2 = procs k" "t \<noteq> 0" "upd_process a (\<lambda>p. p\<lparr>p_main_thread := t, p_state := PROCESS_RUNNING\<rparr>) k2 = Inr k3" for t k2 k3
    by (rule procs_ok_upd [OF procs_ok_cong [OF assms(2) that(1)] that(3)]) (use assms(3) that in \<open>auto intro: process_ok_start\<close>)
  then show ?thesis
    using assms(1) unfolding process_start_user_def
    by (auto simp: bindO_eq_Inr_iff bindE_eq_Inr_iff split: if_splits dest!: thread_create_suspended_procs on_sched_procs)
      (rule procs_ok_cong, blast, assumption)
qed

lemma process_exit_current_ok [keeps_procs_ok]:
  assumes "process_exit_current c k = Inr k'" and "procs_ok_at once k"
  shows "procs_ok_at once k'"
proof -
  have "procs_ok_at once k1" if "upd_process a (\<lambda>p. p\<lparr>p_exit_code := c, p_exited := True, p_state := PROCESS_ZOMBIE, p_kill_requested := False\<rparr>) k = Inr k1" for a k1
    by (rule procs_ok_upd [OF assms(2) that]) (simp add: process_ok_at_def)
  then show ?thesis using assms unfolding process_exit_current_def by (auto simp: bindE_eq_Inr_iff split: if_splits)
qed

lemma process_wait_turn_ok [keeps_procs_ok]: "process_wait_turn a i k = Some (Inr (r, k')) \<Longrightarrow> procs_ok_at once k \<Longrightarrow> procs_ok_at once k'"
  unfolding process_wait_turn_def
  by (auto simp: bindO_eq_Inr_iff split: if_splits dest!: thread_reap_zombies_procs intro: procs_ok_cong)

lemma process_wait_resumed_ok [keeps_procs_ok]: "process_wait_resumed k = Some (Inr k') \<Longrightarrow> procs_ok_at once k \<Longrightarrow> procs_ok_at once k'"
  unfolding process_wait_resumed_def by (auto dest!: thread_reap_zombies_procs intro: procs_ok_cong)

lemma thread_schedule_from_interrupt_ok [keeps_procs_ok]:
  "thread_schedule_from_interrupt f k = Inr (r, k') \<Longrightarrow> procs_ok_at once k \<Longrightarrow> procs_ok_at once k'"
  unfolding thread_schedule_from_interrupt_def Let_def by (auto simp: bindE_eq_Inr_iff split: if_splits)

lemma orphan_loop_ok:
  assumes "orphan_loop cur pid k = Some res"
  shows "procs_ok_at once k \<longrightarrow> (\<forall>k'. res = Inr k' \<longrightarrow> procs_ok_at once k')"
proof (rule orphan_loop.raw_induct [OF _ assms], goal_cases)
  case (1 f cur pid k res)
  show ?case
  proof (cases "procs k cur")
    case (Some p)
    let ?k = "if p_parent_pid p = pid then k\<lparr>procs := (procs k)(cur \<mapsto> p\<lparr>p_parent_pid := 0\<rparr>)\<rparr> else k"
    have ok: "procs_ok_at once ?k" if "procs_ok_at once k" using procs_ok_store [OF that] procs_okD [OF that Some] that by simp
    have "cur = 0 \<and> res = Inr k \<or> f (p_next p) pid ?k = Some res"
      using 1(2) Some unfolding get_process_def by (cases "cur = 0") simp_all
    then show ?thesis using 1(1) [of "p_next p" pid ?k res] ok by blast
  qed (use 1(2) in \<open>auto simp: get_process_def split: if_splits\<close>)
qed

lemma bindO_InrE: "bindO r f = Some (Inr y) \<Longrightarrow> (\<And>x. r = Some (Inr x) \<Longrightarrow> f x = Some (Inr y) \<Longrightarrow> P) \<Longrightarrow> P"
  by (auto simp: bindO_eq_Inr_iff)

lemma if_Some_Inl_eq_Inr: "((if c then Some (Inl e) else x) = Some (Inr y)) = (\<not> c \<and> x = Some (Inr y))"
  by simp

lemma upd_process_others:
  "upd_process a f k = Inr k' \<Longrightarrow> procs k' = (procs k)(a := procs k' a)"
  by (auto simp: upd_process_def bindE_eq_Inr_iff)

lemma process_destroy_ok [keeps_procs_ok]:
  assumes "process_destroy a k = Some (Inr k')" and "procs_ok_at once k"
  shows "procs_ok_at once k'"
proof -
  obtain p p3 :: process and k1 k2 k3 k4 k5 h where s: "orphan_loop (process_head k) (p_pid p) k = Some (Inr k1)" "process_table_remove a k1 = Inr k2"
    "process_close_all_files a k2 = Inr k3"
    and s4: "(if p_address_space p3 \<noteq> 0
              then bindO (address_space_destroy (p_address_space p3) (kas k3)) (\<lambda>as.
                   Some (upd_process a (\<lambda>p. p\<lparr>p_address_space := 0\<rparr>) (k3\<lparr>kas := as\<rparr>)))
              else Some (Inr k3)) = Some (Inr k4)"
    and s5: "upd_process a (\<lambda>p. p\<lparr>p_state := PROCESS_DESTROYED, p_kill_requested := False, p_magic := 0\<rparr>) k4 = Inr k5"
    "k' = (set_kheap h k5)\<lparr>procs := (procs k5)(a := None)\<rparr>"
    using assms(1) unfolding process_destroy_def
    unfolding bindO_eq_Inr_iff if_Some_Inl_eq_Inr bindE_eq_Inr_iff option.inject sum.inject by blast
  have s6: "procs k4 = (procs k3)(a := procs k4 a)"
    using s4 by (auto simp: bindO_eq_Inr_iff split: if_splits dest: upd_process_others)
  have "procs_ok_at once k1" using orphan_loop_ok [OF s(1)] assms(2) by blast
  then have "procs_ok_at once k3" using process_table_remove_ok [OF s(2)] process_close_all_files_ok [OF s(3)] by blast
  moreover have "procs k' = (procs k3)(a := None)"
    unfolding s5(2) using upd_process_others [OF s5(1)] s6 by (simp add: fun_eq_iff)
  ultimately show ?thesis by (auto simp: procs_ok_at_def)
qed

text \<open>Every operation on processes as a step of the kernel.\<close>

datatype process_op =
  Create "string option" | Set_Parent u32 u32 | Request_Kill u32 | Kill_Child u32 u32 | Fd_Install u32 u32 | Fd_Close u32 u32
| Close_Files u32 | Map_Region u32 u32 u32 | Copy_Init u32 u32 "u8 list option" u32 | Zero_Init u32 u32 u32 | Set_Entry u32 u32
| Set_Stack u32 u32 u32 | Setup_Arguments u32 int "u8 list option list option" | Start_User u32 | Exit_Current u32
| Wait_Turn u32 | Wait_Resumed | Destroy u32 | Interrupt u32

fun run_process_op :: "process_op \<Rightarrow> kernel \<Rightarrow> kernel res option" where
  "run_process_op (Create n) k = bindO (process_create_empty n k) (\<lambda>r. Some (Inr (snd r)))"
| "run_process_op (Set_Parent a pid) k = Some (process_set_parent a pid k)"
| "run_process_op (Request_Kill a) k = Some (process_request_kill a k)"
| "run_process_op (Kill_Child pp cp) k = bindO (process_request_kill_child pp cp k) (\<lambda>r. Some (Inr (snd r)))"
| "run_process_op (Fd_Install a f) k = Some (bindE (process_fd_install a f k) (\<lambda>r. Inr (snd r)))"
| "run_process_op (Fd_Close a fd) k = Some (bindE (process_fd_close a fd k) (\<lambda>r. Inr (snd r)))"
| "run_process_op (Close_Files a) k = Some (process_close_all_files a k)"
| "run_process_op (Map_Region a v n) k = bindO (process_map_user_region a v n k) (\<lambda>r. Some (Inr (snd r)))"
| "run_process_op (Copy_Init a v b n) k = Some (bindE (process_copy_to_user_init a v b n k) (\<lambda>r. Inr (snd r)))"
| "run_process_op (Zero_Init a v n) k = Some (bindE (process_zero_user_init a v n k) (\<lambda>r. Inr (snd r)))"
| "run_process_op (Set_Entry a e) k = Some (process_set_user_entry a e k)"
| "run_process_op (Set_Stack a b t) k = Some (process_set_user_stack a b t k)"
| "run_process_op (Setup_Arguments a n v) k = Some (bindE (process_setup_arguments a n v k) (\<lambda>r. Inr (snd r)))"
| "run_process_op (Start_User a) k = process_start_user a k"
| "run_process_op (Exit_Current c) k = Some (process_exit_current c k)"
| "run_process_op (Wait_Turn a) k = bindO (process_wait_turn a True k) (\<lambda>r. Some (Inr (snd r)))"
| "run_process_op Wait_Resumed k = process_wait_resumed k"
| "run_process_op (Destroy a) k = process_destroy a k"
| "run_process_op (Interrupt f) k = Some (bindE (thread_schedule_from_interrupt f k) (\<lambda>r. Inr (snd r)))"

primrec run_process_ops :: "process_op list \<Rightarrow> kernel \<Rightarrow> kernel res option" where
  "run_process_ops [] k = Some (Inr k)"
| "run_process_ops (x # xs) k = bindO (run_process_op x k) (run_process_ops xs)"

text \<open>A process is started once, while it is new.\<close>

fun started_once :: "process_op list \<Rightarrow> kernel \<Rightarrow> bool" where
  "started_once [] k \<longleftrightarrow> True"
| "started_once (x # xs) k \<longleftrightarrow>
     (case x of Start_User a \<Rightarrow> map_option p_state (procs k a) = Some PROCESS_NEW | _ \<Rightarrow> True)
     \<and> (case run_process_op x k of Some (Inr k1) \<Rightarrow> started_once xs k1 | _ \<Rightarrow> True)"

lemma run_process_op_ok:
  assumes r: "run_process_op x k = Some (Inr k')" and ok: "procs_ok_at once k"
    and new: "\<And>a. once \<Longrightarrow> x = Start_User a \<Longrightarrow> map_option p_state (procs k a) = Some PROCESS_NEW"
  shows "procs_ok_at once k'"
proof (cases x)
  case (Start_User a)
  show ?thesis by (rule process_start_user_ok [of a k]) (use r ok new Start_User in simp_all)
next
  case (Map_Region a v n)
  then obtain c where "process_map_user_region a v n k = Some (Inr (c, k'))" using r by (auto simp: bindO_eq_Inr_iff)
  from procs_ok_cong [OF ok process_map_user_region_procs [OF this]] show ?thesis .
next
  case (Copy_Init a v b n)
  then obtain c where "process_copy_to_user_init a v b n k = Inr (c, k')" using r by (auto simp: bindE_eq_Inr_iff)
  from procs_ok_cong [OF ok process_copy_to_user_init_procs [OF this]] show ?thesis .
next
  case (Zero_Init a v n)
  then obtain c where "process_zero_user_init a v n k = Inr (c, k')" using r by (auto simp: bindE_eq_Inr_iff)
  from procs_ok_cong [OF ok process_zero_user_init_procs [OF this]] show ?thesis .
qed (use r ok in \<open>auto simp: bindO_eq_Inr_iff bindE_eq_Inr_iff dest: keeps_procs_ok\<close>)

lemma run_process_ops_ok:
  assumes "procs_ok_at once k" and "once \<Longrightarrow> started_once ops k" and "run_process_ops ops k = Some (Inr k')"
  shows "procs_ok_at once k'"
  using assms
proof (induction ops arbitrary: k)
  case (Cons x xs)
  then obtain k1 where k1: "run_process_op x k = Some (Inr k1)" "run_process_ops xs k1 = Some (Inr k')" by (auto simp: bindO_eq_Inr_iff)
  have "procs_ok_at once k1" by (rule run_process_op_ok [OF k1(1) Cons.prems(1)]) (use Cons.prems(2) in auto)
  then show ?case using Cons.IH [OF _ _ k1(2)] Cons.prems(2) k1(1) by simp
qed simp

text \<open>
  C34. Process records are well formed in every reachable state. Whatever operations run in whatever
  order, also when a process is started again, as long as none of them panics every process record
  keeps sixteen descriptors of which the first three are never used and the used ones have a file,
  has exited when it is a zombie and has not when it is new, is not marked for killing once it has
  exited, has its exit code set only then, has no thread before its start and one while it runs. In
  runs that start only new processes, moreover, every process that has exited is a zombie.
\<close>

theorem process_records_well_formed:
  assumes "run_process_ops ops k = Some (Inr k')"
  shows "(procs_ok_at False k \<longrightarrow> procs_ok_at False k') \<and> (procs_ok_at True k \<and> started_once ops k \<longrightarrow> procs_ok_at True k')"
  using run_process_ops_ok [OF _ _ assms] by blast

lemma sample_kernel_ok: "procs_ok_at once (sample_kernel x)"
  by (auto simp: procs_ok_at_def process_ok_at_def sample_process_def fds_ok_def split: if_splits)

theorem process_records_well_formed_witness:
  "\<exists>k'. run_process_ops [Fd_Install 64 0x1000, Request_Kill 64, Exit_Current 128] (sample_kernel THREAD_RUNNING) = Some (Inr k')
     \<and> procs_ok_at False k' \<and> procs_ok_at True k' \<and> map_option p_exit_code (procs k' 64) = Some 128"
proof -
  let ?ops = "[Fd_Install 64 0x1000, Request_Kill 64, Exit_Current 128]"
  have st: "started_once ?ops (sample_kernel THREAD_RUNNING)" by (simp split: option.split sum.split)
  have "\<exists>k'. run_process_ops ?ops (sample_kernel THREAD_RUNNING) = Some (Inr k') \<and> map_option p_exit_code (procs k' 64) = Some 128"
    by (simp add: process_fd_install_def validate_live_process_def validate_process_def get_process_def upd_process_def free_fd_def
        process_request_kill_def killable_def process_exit_current_def process_current_def thread_current_def thread_get_process_def
        validate_thread_def get_thread_def sample_process_def sample_thread_def)
  with process_records_well_formed [of ?ops "sample_kernel THREAD_RUNNING"] sample_kernel_ok st show ?thesis by blast
qed

section \<open>Descriptors\<close>

lemma validate_live_ok: "procs k a = Some p \<Longrightarrow> a \<noteq> 0 \<Longrightarrow> process_ok p \<Longrightarrow> validate_live_process a k = Inr p"
  by (simp add: validate_live_process_def validate_process_def get_process_def process_ok_liveD)

lemma free_fd_None: "free_fd ds = None \<longleftrightarrow> (\<forall>i. 3 \<le> i \<and> i < 16 \<longrightarrow> fd_used (ds ! i))"
  unfolding free_fd_def by (auto simp: find_None_iff simp del: upt_rec_numeral)

lemma free_fd_first: "free_fd ds = Some fd \<Longrightarrow> 3 \<le> i \<Longrightarrow> i < fd \<Longrightarrow> fd_used (ds ! i)"
proof -
  assume f: "free_fd ds = Some fd" and i: "3 \<le> i" "i < fd"
  obtain j where j: "j < 13" "[3..<16] ! j = fd" "\<forall>m<j. fd_used (ds ! ([3..<16] ! m))"
    using f by (auto simp: free_fd_def find_Some_iff simp del: upt_rec_numeral)
  then have fd: "fd = 3 + j" by (simp del: upt_rec_numeral)
  then have "i - 3 < j" using i by simp
  then have "fd_used (ds ! ([3..<16] ! (i - 3)))" using j(3) by blast
  moreover have "[3..<16] ! (i - 3) = i" using i fd j(1) by (simp del: upt_rec_numeral)
  ultimately show ?thesis by simp
qed

text \<open>
  C35. Descriptors. Installing a file takes the lowest free descriptor from 3 on, or fails and
  changes nothing when all thirteen are used. Afterwards this descriptor, and no other, denotes the
  file. Closing it succeeds and frees the file; the process is then as before the installation, and
  a second close fails.
\<close>

theorem process_fd_install_close:
  assumes p: "procs k a = Some p" "a \<noteq> 0" "process_ok p" and nz: "file \<noteq> 0" and h: "kfree file (kheap k) = Inr h"
  shows "if \<forall>i. 3 \<le> i \<and> i < 16 \<longrightarrow> fd_used (p_fds p ! i) then process_fd_install a file k = Inr (-1, k)
    else \<exists>fd k1 k2. process_fd_install a file k = Inr (int fd, k1) \<and> 3 \<le> fd \<and> fd < 16 \<and> \<not> fd_used (p_fds p ! fd)
      \<and> (\<forall>i. 3 \<le> i \<and> i < fd \<longrightarrow> fd_used (p_fds p ! i))
      \<and> (\<forall>g. process_fd_get a g k1 = (if g = word_of_nat fd then Inr file else process_fd_get a g k))
      \<and> process_fd_close a (word_of_nat fd) k1 = Inr (0, k2) \<and> procs k2 = procs k \<and> kheap k2 = h
      \<and> process_fd_close a (word_of_nat fd) k2 = Inr (-1, k2)"
proof (cases "free_fd (p_fds p)")
  case None
  then show ?thesis using free_fd_None [of "p_fds p"] validate_live_ok [OF p] nz by (simp add: process_fd_install_def)
next
  case (Some fd)
  let ?d = "\<lparr>fd_used = True, fd_file = file\<rparr>" and ?g = "word_of_nat fd :: u32"
  let ?p1 = "p\<lparr>p_fds := (p_fds p)[fd := ?d]\<rparr>"
  define k1 where "k1 = k\<lparr>procs := (procs k)(a \<mapsto> ?p1)\<rparr>"
  define k2 where "k2 = (set_kheap h k)\<lparr>kfiles := (kfiles k)(file := None)\<rparr>"
  note fd = free_fd_range [OF Some]
  have len: "length (p_fds p) = 16" and unused: "p_fds p ! fd = \<lparr>fd_used = False, fd_file = 0\<rparr>"
    using process_ok_fdsD [OF p(3)] fd by (auto simp: fds_ok_def process_fd.equality)
  have g: "unat ?g = fd" using fd by (simp add: unat_of_nat take_bit_eq_mod)
  then have in_range: "\<not> ?g < 3" "\<not> ?g \<ge> 16" using fd by (simp_all add: word_less_nat_alt word_le_nat_alt)
  have v: "validate_live_process a k = Inr p" "validate_live_process a k1 = Inr ?p1" "validate_live_process a k2 = Inr p"
    using p process_ok_liveD [OF p(3)] by (simp_all add: validate_live_process_def validate_process_def get_process_def k1_def k2_def set_kheap_def)
  have 1: "process_fd_install a file k = Inr (int fd, k1)"
    using v(1) nz Some p(1) by (simp add: process_fd_install_def upd_process_def get_process_def k1_def)
  have 2: "process_fd_get a x k1 = (if x = ?g then Inr file else process_fd_get a x k)" for x
  proof (cases "x = ?g")
    case False
    then have "unat x \<noteq> fd" using g word_unat_eq_iff [of x ?g] by simp
    then show ?thesis using False by (simp add: process_fd_get_def v)
  qed (use in_range g fd len in \<open>simp add: process_fd_get_def v\<close>)
  have restore: "(p_fds p)[fd := \<lparr>fd_used = False, fd_file = 0\<rparr>] = p_fds p" using unused list_update_id [of "p_fds p" fd] by simp
  have u: "upd_process a (\<lambda>p. p\<lparr>p_fds := (p_fds p)[fd := \<lparr>fd_used = False, fd_file = 0\<rparr>]\<rparr>) k1 = Inr k"
    using p(1) restore by (simp add: upd_process_def get_process_def k1_def fun_upd_idem)
  have c: "on_vfs (\<lambda>v. bindE (vfs_close file v) (\<lambda>v1. Inr ((), v1))) k = Inr ((), k2)"
    using nz h by (simp add: on_vfs_def vfs_close_def k2_def set_kheap_def)
  have 3: "process_fd_close a ?g k1 = Inr (0, k2)"
    unfolding process_fd_close_def v bindE_simps using in_range fd len nz by (simp add: g u c)
  have 4: "process_fd_close a ?g k2 = Inr (-1, k2)" using in_range g unused by (simp add: process_fd_close_def v)
  have "procs k2 = procs k" "kheap k2 = h" by (simp_all add: k2_def set_kheap_def)
  moreover have "\<not> (\<forall>i. 3 \<le> i \<and> i < 16 \<longrightarrow> fd_used (p_fds p ! i))" using fd by blast
  ultimately show ?thesis using 1 2 3 4 fd free_fd_first [OF Some] by auto
qed

lemma sample_zombie_free: "\<exists>h. kfree 0xD1000048 (kheap sample_zombie) = Inr h"
proof -
  have "heap_inv (kheap sample_zombie) [(24, False), (200, False), (3800, True)]"
    using sample_zombie_space unfolding space_ok_def by blast
  moreover have "live_at 0xD1000048 [(24, False), (200, False), (3800, True)]" unfolding live_at_def by (intro exI [of _ 200]) simp
  ultimately show ?thesis using free_block by blast
qed

theorem process_fd_install_close_witness:
  "\<exists>k1 k2. process_fd_install 64 0xD1000048 (sample_zombie\<lparr>procs := [64 \<mapsto> sample_process]\<rparr>) = Inr (3, k1)
    \<and> process_fd_get 64 3 k1 = Inr 0xD1000048 \<and> process_fd_close 64 3 k1 = Inr (0, k2) \<and> procs k2 = [64 \<mapsto> sample_process]"
proof -
  let ?k = "sample_zombie\<lparr>procs := [64 \<mapsto> sample_process]\<rparr>"
  obtain h where h: "kfree 0xD1000048 (kheap ?k) = Inr h" using sample_zombie_free by auto
  have ok: "process_ok sample_process" using procs_okD(1) [OF sample_kernel_ok, of THREAD_RUNNING 64] by simp
  have free: "\<not> fd_used (p_fds sample_process ! 3)" by (simp add: sample_process_def)
  have p: "procs ?k 64 = Some sample_process" "(64 :: u32) \<noteq> 0" "(0xD1000048 :: u32) \<noteq> 0" by simp_all
  have all: "\<not> (\<forall>i. 3 \<le> i \<and> i < 16 \<longrightarrow> fd_used (p_fds sample_process ! i))" using free by (auto intro: exI [of _ 3])
  from process_fd_install_close [OF p(1,2) ok p(3) h] all obtain fd k1 k2 where
    r: "process_fd_install 64 0xD1000048 ?k = Inr (int fd, k1)" "3 \<le> fd" "\<forall>i. 3 \<le> i \<and> i < fd \<longrightarrow> fd_used (p_fds sample_process ! i)"
    "\<forall>g. process_fd_get 64 g k1 = (if g = word_of_nat fd then Inr 0xD1000048 else process_fd_get 64 g ?k)"
    "process_fd_close 64 (word_of_nat fd) k1 = Inr (0, k2)" "procs k2 = procs ?k" unfolding if_not_P [OF all] by blast
  then have "fd = 3" using free le_neq_implies_less [of 3 fd] by auto
  with r show ?thesis by auto
qed

end
