(* ===== verification/User_Stack.thy ===== *)
theory User_Stack
  imports Process
begin

text \<open>
  Writing to the memory of a process from another address space, and the initial user stack that
  \<open>process_setup_arguments\<close> of \<open>kernel/process.c\<close> builds: switching to the process's space and
  back, the shared kernel entries being copied on each switch, leaves the process's pages and their
  contents alone except for the bytes stored.
\<close>

section \<open>Writing to a process's memory from another address space\<close>

text \<open>The bytes of \<open>A\<close> belong to the space \<open>x\<close>, whichever space is current.\<close>

definition own_area :: "aspace \<Rightarrow> address_space \<Rightarrow> u32 set \<Rightarrow> bool" where
  "own_area s x A \<longleftrightarrow> dir_wf (phys s) (page_directory x) user_slots
     \<and> (\<forall>v\<in>A. directory_index v \<in> user_slots \<and> translate (phys s) (page_directory x) v \<noteq> None \<and> frame_of s x v \<notin> held s x)
     \<and> (\<forall>v\<in>A. \<forall>w\<in>A. frame_of s x v = frame_of s x w \<longrightarrow> unat v div 4096 = unat w div 4096)"

lemma own_bytes_area: "own_bytes s x A \<longleftrightarrow> spaces s (current_space s) = Some x \<and> own_area s x A"
  by (simp add: own_bytes_def own_area_def)

lemma same_view_entry:
  assumes wf: "dir_wf m D I" and P: "page_aligned P" "P \<notin> tables_of m D I" "P = D \<Longrightarrow> j \<notin> I" and j: "j < 1024"
  shows "same_view m (set_table_entry m P j v) D I"
proof (cases "P = D")
  case True
  have pde: "pde_table (set_table_entry m P j v) D i = pde_table m D i" if "i \<in> I" for i
  proof -
    have "i \<noteq> j" using that P(3) True by auto
    then show ?thesis using wf that P(1) j by (simp add: pde_table_def table_entry_set dir_wf_def)
  qed
  show ?thesis
  proof (rule same_view_pde [OF wf pde])
    fix va assume va: "directory_index va \<in> I"
    show "translate (set_table_entry m P j v) D va = translate m D va"
    proof (cases "pde_table m D (directory_index va)")
      case (Some t)
      then have "t \<noteq> P" "page_aligned t" using P(2) va pde_table_aligned [OF Some] by (auto simp: tables_of_def)
      then show ?thesis using Some pde [OF va] P(1) j by (simp add: translate_def table_entry_set)
    qed (use pde [OF va] in \<open>simp add: translate_def\<close>)
  qed
qed (use assms in \<open>auto intro: same_view_set\<close>)

lemma byte_entry:
  assumes "page_aligned P" and "page_aligned f" and "f \<noteq> P" and "off < 4096" and "j < 1024"
  shows "set_table_entry m P j v (f + off) = m (f + off)"
proof -
  have "f + off \<noteq> P + 4 * j + k" if "k < 4" for k
  proof
    assume "f + off = P + 4 * j + k"
    then have "P + 4 * j + k - f = off" by (simp add: algebra_simps)
    with assms page_byte_diff [OF assms(2,1,5) that] show False by simp
  qed
  from this [of 0] this [of 1] this [of 2] this [of 3] show ?thesis by (simp add: set_table_entry_def store32_other)
qed

lemma copy_entries_view:
  assumes "dir_wf m D I" and P: "page_aligned P" "P \<notin> tables_of m D I"
    and "\<And>j. j \<in> set js \<Longrightarrow> j < 1024 \<and> word_of_nat j \<notin> I"
  shows "same_view m (copy_entries P K js m) D I
    \<and> (\<forall>f off. page_aligned f \<and> f \<noteq> P \<and> off < 4096 \<longrightarrow> copy_entries P K js m (f + off) = m (f + off))"
  using assms(1,3,4) unfolding copy_entries_def
proof (induction js arbitrary: m)
  case Nil
  then show ?case by (simp add: same_view_def)
next
  case (Cons j js)
  let ?m = "set_table_entry m P (word_of_nat j) (table_entry m K (word_of_nat j))"
  have j: "(word_of_nat j :: u32) < 1024" "word_of_nat j \<notin> I"
    using Cons.prems(3) [of j] by (simp_all add: word_less_nat_alt unat_of_nat take_bit_eq_mod)
  have 1: "same_view m ?m D I" by (rule same_view_entry [OF Cons.prems(1) P(1) Cons.prems(2) _ j(1)]) (use j in simp)
  then have "dir_wf ?m D I" "P \<notin> tables_of ?m D I" using Cons.prems(2) by (simp_all add: same_view_def)
  note IH = Cons.IH [OF this]
  have b: "?m (f + off) = m (f + off)" if "page_aligned f" "f \<noteq> P" "off < 4096" for f off by (rule byte_entry [OF P(1) that j(1)])
  show ?case using IH Cons.prems(3) 1 b by (auto intro: same_view_trans)
qed

lemma shared_slots:
  "j \<in> set [0..<4] \<Longrightarrow> j < 1024 \<and> (word_of_nat j :: u32) \<notin> user_slots"
  "j \<in> set [768..<1024] \<Longrightarrow> j < 1024 \<and> (word_of_nat j :: u32) \<notin> user_slots"
  unfolding set_upt by (auto simp: user_slots_def word_le_nat_alt word_less_nat_alt unat_of_nat take_bit_eq_mod)

lemma sync_view:
  assumes wf: "dir_wf (phys s) D user_slots" and P: "page_aligned (page_directory y)" "page_directory y \<notin> tables_of (phys s) D user_slots"
  shows "same_view (phys s) (phys (sync_kernel_mappings y s)) D user_slots"
    and "page_aligned f \<Longrightarrow> f \<noteq> page_directory y \<Longrightarrow> off < 4096 \<Longrightarrow> phys (sync_kernel_mappings y s) (f + off) = phys s (f + off)"
proof -
  let ?m = "copy_entries (page_directory y) (kernel_dir s) [0..<4] (phys s)"
  have idx: "unat (LOW_IDENTITY_SHARED_BYTES div (4 * 1024 * 1024)) = 4" "unat (aspace_directory_index KERNEL_HIGH_BASE) = 768"
    "unat PAGE_DIRECTORY_ENTRIES = 1024" by (simp_all add: aspace_directory_index_def directory_index_def)
  have 1: "same_view (phys s) ?m D user_slots
    \<and> (\<forall>f off. page_aligned f \<and> f \<noteq> page_directory y \<and> off < 4096 \<longrightarrow> ?m (f + off) = phys s (f + off))"
    by (rule copy_entries_view [OF wf P shared_slots(1)])
  then have "dir_wf ?m D user_slots" "page_directory y \<notin> tables_of ?m D user_slots" using P(2) by (simp_all add: same_view_def)
  then have 2: "same_view ?m (copy_entries (page_directory y) (kernel_dir s) [768..<1024] ?m) D user_slots
    \<and> (\<forall>f off. page_aligned f \<and> f \<noteq> page_directory y \<and> off < 4096
        \<longrightarrow> copy_entries (page_directory y) (kernel_dir s) [768..<1024] ?m (f + off) = ?m (f + off))"
    by (rule copy_entries_view [OF _ P(1) _ shared_slots(2)])
  have eq: "phys (sync_kernel_mappings y s) = copy_entries (page_directory y) (kernel_dir s) [768..<1024] ?m"
    unfolding sync_kernel_mappings_def Let_def idx set_phys_sel ..
  show "same_view (phys s) (phys (sync_kernel_mappings y s)) D user_slots" unfolding eq using 1 2 same_view_trans by blast
  show "phys (sync_kernel_mappings y s) (f + off) = phys s (f + off)" if "page_aligned f" "f \<noteq> page_directory y" "off < 4096"
    unfolding eq using 1 2 that by auto
qed

lemma own_area_view:
  assumes a: "own_area s x A" and v: "same_view (phys s) (phys s') (page_directory x) user_slots"
  shows "own_area s' x A" and "v \<in> A \<Longrightarrow> frame_of s' x v = frame_of s x v" and "held s' x = held s x"
proof -
  have h: "held s' x = held s x" using v by (simp add: held_def same_view_def)
  have d: "directory_index w \<in> user_slots" if "w \<in> A" for w using a that unfolding own_area_def by blast
  have t: "translate (phys s') (page_directory x) w = translate (phys s) (page_directory x) w" if "w \<in> A" for w
    using v d [OF that] unfolding same_view_def by blast
  then have f: "frame_of s' x w = frame_of s x w" if "w \<in> A" for w using that by (simp add: frame_of_def)
  then show "v \<in> A \<Longrightarrow> frame_of s' x v = frame_of s x v" .
  show "held s' x = held s x" by (rule h)
  show "own_area s' x A" unfolding own_area_def
  proof (intro conjI ballI impI)
    show "dir_wf (phys s') (page_directory x) user_slots" using v by (simp add: same_view_def)
    fix u assume u: "u \<in> A"
    show "directory_index u \<in> user_slots" by (rule d [OF u])
    show "translate (phys s') (page_directory x) u \<noteq> None" using a u unfolding t [OF u] own_area_def by blast
    show "frame_of s' x u \<notin> held s' x" using a u unfolding f [OF u] h own_area_def by blast
    fix w assume w: "w \<in> A" "frame_of s' x u = frame_of s' x w"
    then have "frame_of s x u = frame_of s x w" using f u by simp
    then show "unat u div 4096 = unat w div 4096" using a u w(1) unfolding own_area_def by blast
  qed
qed

definition apart_directory :: "aspace \<Rightarrow> address_space \<Rightarrow> u32 set \<Rightarrow> u32 \<Rightarrow> bool" where
  "apart_directory s x A P \<longleftrightarrow> page_aligned P \<and> P \<notin> tables_of (phys s) (page_directory x) user_slots \<and> (\<forall>v\<in>A. frame_of s x v \<noteq> P)"

lemma apart_directory_view:
  assumes "own_area s x A" and "same_view (phys s) (phys s') (page_directory x) user_slots" and "apart_directory s x A P"
  shows "apart_directory s' x A P"
  using assms own_area_view(2) [OF assms(1,2)] unfolding apart_directory_def same_view_def by auto

lemma apart_directory_own: "own_area s x A \<Longrightarrow> apart_directory s x A (page_directory x)"
  unfolding own_area_def apart_directory_def held_def by (auto simp: dir_wf_def tables_of_def)

lemma byte_at_split: "byte_at s x v = phys s (frame_of s x v + (v AND 4095))"
  by (simp add: byte_at_def byte_address_def frame_of_def)

lemma switch_area:
  assumes a: "own_area s x A" and y: "validate_space sp s = Inr y" and P: "apart_directory s x A (page_directory y)"
  shows "\<exists>s'. address_space_switch sp s = Inr s' \<and> current_space s' = sp \<and> spaces s' = spaces s
    \<and> own_area s' x A \<and> same_view (phys s) (phys s') (page_directory x) user_slots \<and> (\<forall>v\<in>A. byte_at s' x v = byte_at s x v)"
proof -
  define s1 where "s1 = (if sp \<noteq> kernel_space s then sync_kernel_mappings y s else s)"
  have wf: "dir_wf (phys s) (page_directory x) user_slots" using a by (simp add: own_area_def)
  note sync = sync_view [OF wf, of y]
  have view: "same_view (phys s) (phys s1) (page_directory x) user_slots"
    using sync(1) P wf by (auto simp: s1_def apart_directory_def same_view_def)
  have fr: "page_aligned (frame_of s x v)" for v by (simp add: frame_of_def frame_mask_page)
  have by1: "byte_at s1 x v = byte_at s x v" if v: "v \<in> A" for v
  proof -
    have "frame_of s x v \<noteq> page_directory y" using P v unfolding apart_directory_def by blast
    then have "phys s1 (frame_of s x v + (v AND 4095)) = phys s (frame_of s x v + (v AND 4095))"
      using sync(2) [OF _ _ fr _ low_bits_less, of v v] P by (auto simp: s1_def apart_directory_def)
    then show ?thesis unfolding byte_at_split own_area_view(2) [OF a view v] .
  qed
  define s2 where "s2 = (if current_space s1 = sp then s1 else s1\<lparr>current_space := sp\<rparr>)"
  have s2: "phys s2 = phys s1" "current_space s2 = sp" "spaces s2 = spaces s"
    by (simp_all add: s2_def s1_def sync_kernel_mappings_def Let_def)
  have "address_space_switch sp s = Inr s2" using y by (simp add: address_space_switch_def s1_def s2_def Let_def)
  moreover have "byte_at s2 x v = byte_at s1 x v" for v by (simp add: byte_at_def s2(1))
  moreover have "same_view (phys s) (phys s2) (page_directory x) user_slots" using view s2(1) by simp
  ultimately show ?thesis using s2 own_area_view(1) [OF a] by1 by (intro exI [of _ s2]) simp
qed

text \<open>A process whose memory can be written through \<open>process_with_address_space\<close>.\<close>

definition writable_area :: "kernel \<Rightarrow> u32 \<Rightarrow> address_space \<Rightarrow> u32 set \<Rightarrow> bool" where
  "writable_area k a x A \<longleftrightarrow> a \<noteq> 0 \<and> own_area (kas k) x A
     \<and> (\<exists>p. procs k a = Some p \<and> p_magic p = PROCESS_MAGIC \<and> validate_space (p_address_space p) (kas k) = Inr x)
     \<and> (\<exists>y. validate_space (current_space (kas k)) (kas k) = Inr y \<and> apart_directory (kas k) x A (page_directory y))"

lemma with_address_space_stores:
  assumes w: "writable_area k a x A" and len: "length bs < 2 ^ 32" and dest: "\<And>i. i < length bs \<Longrightarrow> dest + word_of_nat i \<in> A"
  shows "\<exists>k'. process_with_address_space a (store_bytes bs dest) k = Inr k' \<and> writable_area k' a x A \<and> procs k' = procs k
    \<and> (\<forall>i < length bs. byte_at (kas k') x (dest + word_of_nat i) = bs ! i)
    \<and> (\<forall>v\<in>A. (\<forall>i < length bs. v \<noteq> dest + word_of_nat i) \<longrightarrow> byte_at (kas k') x v = byte_at (kas k) x v)"
proof -
  from w obtain p y where p: "procs k a = Some p" "p_magic p = PROCESS_MAGIC" "validate_space (p_address_space p) (kas k) = Inr x"
    and y: "validate_space (current_space (kas k)) (kas k) = Inr y" "apart_directory (kas k) x A (page_directory y)"
    and a: "a \<noteq> 0" "own_area (kas k) x A" unfolding writable_area_def by blast
  let ?sp = "p_address_space p" and ?old = "current_space (kas k)" and ?D = "page_directory x"
  obtain s1 where s1: "address_space_switch ?sp (kas k) = Inr s1" "current_space s1 = ?sp" "spaces s1 = spaces (kas k)"
    "own_area s1 x A" "same_view (phys (kas k)) (phys s1) ?D user_slots" "\<forall>v\<in>A. byte_at s1 x v = byte_at (kas k) x v"
    using switch_area [OF a(2) p(3) apart_directory_own [OF a(2)]] by blast
  have "own_bytes s1 x A" using s1(2,3,4) validate_space_spaces [OF p(3)] by (simp add: own_bytes_area)
  from store_bytes_own [OF this len dest] obtain s2 where s2: "store_bytes bs dest s1 = Inr s2" "own_bytes s2 x A" "same_user_view x s1 s2"
    "\<forall>i < length bs. byte_at s2 x (dest + word_of_nat i) = bs ! i"
    "\<forall>v\<in>A. (\<forall>i < length bs. v \<noteq> dest + word_of_nat i) \<longrightarrow> byte_at s2 x v = byte_at s1 x v" by blast
  have a2: "own_area s2 x A" using s2(2) unfolding own_bytes_area by blast
  have wf1: "dir_wf (phys s1) ?D user_slots" and wf2: "dir_wf (phys s2) ?D user_slots" using s1(4) a2 unfolding own_area_def by blast+
  have v12: "same_view (phys s1) (phys s2) ?D user_slots"
  proof -
    have "?D \<notin> tables_of (phys s1) ?D user_slots" "?D \<notin> tables_of (phys s2) ?D user_slots"
      using wf1 wf2 by (auto simp: dir_wf_def tables_of_def)
    then have "tables_of (phys s2) ?D user_slots = tables_of (phys s1) ?D user_slots"
      using s2(3) by (simp add: same_user_view_def held_def insert_ident)
    then show ?thesis using wf2 s2(3) by (simp add: same_view_def same_user_view_def)
  qed
  have v02: "same_view (phys (kas k)) (phys s2) ?D user_slots" by (rule same_view_trans [OF s1(5) v12])
  have sp2: "spaces s2 = spaces (kas k)" using s2(3) s1(3) by (simp add: same_user_view_def)
  have y2: "validate_space ?old s2 = Inr y" using y(1) validate_space_cong [OF sp2] by simp
  obtain s3 where s3: "address_space_switch ?old s2 = Inr s3" "current_space s3 = ?old" "spaces s3 = spaces s2"
    "own_area s3 x A" "same_view (phys s2) (phys s3) ?D user_slots" "\<forall>v\<in>A. byte_at s3 x v = byte_at s2 x v"
    using switch_area [OF a2 y2 apart_directory_view [OF a(2) v02 y(2)]] by blast
  have v03: "same_view (phys (kas k)) (phys s3) ?D user_slots" by (rule same_view_trans [OF v02 s3(5)])
  have sp3: "spaces s3 = spaces (kas k)" using s3(3) sp2 by simp
  let ?k = "k\<lparr>kas := s3\<rparr>"
  have "process_with_address_space a (store_bytes bs dest) k = Inr ?k"
    using p a(1) s1(1) s2(1) s3(1)
    by (simp add: process_with_address_space_def validate_process_def get_process_def address_space_current_def)
  moreover have "writable_area ?k a x A"
    unfolding writable_area_def using a(1) s3(2,4) p y(1) apart_directory_view [OF a(2) v03 y(2)] validate_space_cong [OF sp3] by auto
  moreover have "byte_at s3 x (dest + word_of_nat i) = bs ! i" if "i < length bs" for i using that s3(6) s2(4) dest by auto
  moreover have "byte_at s3 x v = byte_at (kas k) x v" if "v \<in> A" "\<forall>i < length bs. v \<noteq> dest + word_of_nat i" for v
    using that s3(6) s2(5) s1(6) by auto
  ultimately show ?thesis by (intro exI [of _ ?k]) simp
qed

section \<open>The initial user stack\<close>

definition bytes_at :: "aspace \<Rightarrow> address_space \<Rightarrow> u32 \<Rightarrow> nat \<Rightarrow> u8 list" where
  "bytes_at s x a n = map (\<lambda>i. byte_at s x (a + word_of_nat i)) [0..<n]"

lemma bytes_at_eq: "length bs = n \<Longrightarrow> (\<And>i. i < n \<Longrightarrow> byte_at s x (a + word_of_nat i) = bs ! i) \<Longrightarrow> bytes_at s x a n = bs"
  unfolding bytes_at_def by (rule nth_equalityI) simp_all

lemma bytes_at_cong: "(\<And>i. i < n \<Longrightarrow> byte_at s' x (a + word_of_nat i) = byte_at s x (a + word_of_nat i)) \<Longrightarrow> bytes_at s' x a n = bytes_at s x a n"
  unfolding bytes_at_def by simp

lemma unat_offset: "unat a + i < 4294967296 \<Longrightarrow> unat (a + word_of_nat i) = unat a + i" for a :: u32
  by (simp add: unat_word_ariths unat_of_nat take_bit_eq_mod)

definition stack_area :: "u32 \<Rightarrow> u32 \<Rightarrow> u32 set" where
  "stack_area base stack_top = {v. unat base \<le> unat v \<and> unat v < unat stack_top}"

lemma copy_stack_law:
  assumes w: "writable_area k a x (stack_area base stack_top)" and bs: "bs \<noteq> []" "unat base \<le> unat dest" "unat dest + length bs \<le> unat stack_top"
  shows "\<exists>k'. process_copy_stack_bytes a dest bs (word_of_nat (length bs)) k = Inr (0, k') \<and> writable_area k' a x (stack_area base stack_top)
    \<and> procs k' = procs k \<and> bytes_at (kas k') x dest (length bs) = bs
    \<and> (\<forall>v\<in>stack_area base stack_top. unat v < unat dest \<or> unat dest + length bs \<le> unat v \<longrightarrow> byte_at (kas k') x v = byte_at (kas k) x v)"
proof -
  let ?A = "stack_area base stack_top" and ?n = "word_of_nat (length bs) :: u32"
  have top: "unat stack_top < 4294967296" using unat_u32_less by simp
  have off: "unat (dest + word_of_nat i) = unat dest + i" if "i < length bs" for i using that bs(3) top by (intro unat_offset) linarith
  have l: "length bs < 4294967296" using bs(3) top by linarith
  then have n: "unat ?n = length bs" by (simp add: unat_of_nat take_bit_eq_mod)
  then have n0: "?n \<noteq> 0" using bs(1) by (auto simp: word_unat_eq_iff)
  have in_A: "dest + word_of_nat i \<in> ?A" if "i < length bs" for i using that bs(2,3) off [OF that] by (simp add: stack_area_def)
  have len: "length bs < 2 ^ 32" using l by simp
  obtain k' where k': "process_with_address_space a (store_bytes bs dest) k = Inr k'" "writable_area k' a x ?A" "procs k' = procs k"
    "\<forall>i < length bs. byte_at (kas k') x (dest + word_of_nat i) = bs ! i"
    "\<forall>v\<in>?A. (\<forall>i < length bs. v \<noteq> dest + word_of_nat i) \<longrightarrow> byte_at (kas k') x v = byte_at (kas k) x v"
    using with_address_space_stores [OF w len in_A] by blast
  have "argv_copy_operation dest bs ?n = store_bytes bs dest" by (rule ext) (simp add: argv_copy_operation_def n)
  then have "process_copy_stack_bytes a dest bs ?n k = Inr (0, k')" using n0 k'(1) by (simp add: process_copy_stack_bytes_def)
  moreover have "bytes_at (kas k') x dest (length bs) = bs" by (rule bytes_at_eq) (use k'(4) in auto)
  moreover have "byte_at (kas k') x v = byte_at (kas k) x v" if "v \<in> ?A" "unat v < unat dest \<or> unat dest + length bs \<le> unat v" for v
    using k'(5) that off by force
  ultimately show ?thesis using k'(2,3) by blast
qed

definition arg_bytes :: "u8 list list \<Rightarrow> nat \<Rightarrow> nat" where
  "arg_bytes args n = (\<Sum>j<n. Suc (length (args ! j)))"

lemma arg_bytes_Suc [simp]: "arg_bytes args 0 = 0" "arg_bytes args (Suc n) = arg_bytes args n + Suc (length (args ! n))"
  by (simp_all add: arg_bytes_def)

definition pushed :: "u8 list list \<Rightarrow> aspace \<Rightarrow> address_space \<Rightarrow> nat \<Rightarrow> nat \<Rightarrow> u32 list \<Rightarrow> bool" where
  "pushed args s x low high ps \<longleftrightarrow> (\<forall>j < length ps. low \<le> unat (ps ! j) \<and> unat (ps ! j) + length (args ! j) < high
     \<and> bytes_at s x (ps ! j) (Suc (length (args ! j))) = args ! j @ [0])"

lemma pushed_cong:
  assumes "pushed args s x low high ps" and "high < 4294967296" and "low' \<le> low"
    and "\<And>v. low \<le> unat v \<Longrightarrow> unat v < high \<Longrightarrow> byte_at s' x v = byte_at s x v"
  shows "pushed args s' x low' high ps"
  unfolding pushed_def
proof (intro allI impI)
  fix j assume "j < length ps"
  then have q: "low \<le> unat (ps ! j)" "unat (ps ! j) + length (args ! j) < high"
    "bytes_at s x (ps ! j) (Suc (length (args ! j))) = args ! j @ [0]" using assms(1) unfolding pushed_def by blast+
  have "bytes_at s' x (ps ! j) (Suc (length (args ! j))) = bytes_at s x (ps ! j) (Suc (length (args ! j)))"
  proof (rule bytes_at_cong)
    fix i assume i: "i < Suc (length (args ! j))"
    then have o: "unat (ps ! j + word_of_nat i) = unat (ps ! j) + i" using q(2) assms(2) by (intro unat_offset) linarith
    show "byte_at s' x (ps ! j + word_of_nat i) = byte_at s x (ps ! j + word_of_nat i)" by (rule assms(4)) (use o q i in simp_all)
  qed
  then show "low' \<le> unat (ps ! j) \<and> unat (ps ! j) + length (args ! j) < high
    \<and> bytes_at s' x (ps ! j) (Suc (length (args ! j))) = args ! j @ [0]" using q assms(3) by simp
qed

lemma push_arguments_law:
  assumes "writable_area k a x (stack_area (p_user_stack_base p) stack_top)" and "procs k a = Some p" and "unat sp \<le> unat stack_top"
    and "i \<le> length args" and "\<forall>j<i. length (args ! j) < 128" and "unat (p_user_stack_base p) + arg_bytes args i \<le> unat sp"
  shows "\<exists>sp' ps k'. push_arguments i (map Some args) a sp ptrs k = Inr (Some (sp', ps @ ptrs), k') \<and> length ps = i
    \<and> unat sp' + arg_bytes args i = unat sp \<and> writable_area k' a x (stack_area (p_user_stack_base p) stack_top) \<and> procs k' = procs k
    \<and> pushed args (kas k') x (unat sp') (unat sp) ps
    \<and> (\<forall>v\<in>stack_area (p_user_stack_base p) stack_top. unat sp \<le> unat v \<longrightarrow> byte_at (kas k') x v = byte_at (kas k) x v)"
  using assms
proof (induction i arbitrary: k sp ptrs)
  case 0
  then show ?case by (simp add: pushed_def)
next
  case (Suc i)
  let ?A = "stack_area (p_user_stack_base p) stack_top" and ?arg = "args ! i"
  define n :: u32 where "n = word_of_nat (length ?arg) + 1"
  have n: "n = word_of_nat (length (?arg @ [0]))" by (simp add: n_def add.commute)
  have arg: "length ?arg < 128" "i < length args" using Suc.prems(4,5) by auto
  have un: "unat n = Suc (length ?arg)" using arg(1) unat_offset [of 1 "length ?arg"] by (simp add: n_def add.commute)
  have room: "unat (p_user_stack_base p) + arg_bytes args i + Suc (length ?arg) \<le> unat sp" using Suc.prems(6) by simp
  have top: "unat stack_top < 4294967296" using unat_u32_less by simp
  have "unat (p_user_stack_base p) + Suc (length ?arg) < 4294967296" using room Suc.prems(3) top by linarith
  then have "unat (p_user_stack_base p + n) = unat (p_user_stack_base p) + Suc (length ?arg)" using un by (simp add: unat_word_ariths)
  then have fits: "\<not> sp < p_user_stack_base p + n" using room by (simp add: word_less_nat_alt)
  have "n \<le> sp" using room un by (simp add: word_le_nat_alt)
  then have usp: "unat (sp - n) + Suc (length ?arg) = unat sp" using un by (simp add: unat_sub word_le_nat_alt)
  obtain k1 where k1: "process_copy_stack_bytes a (sp - n) (?arg @ [0]) n k = Inr (0, k1)" "writable_area k1 a x ?A" "procs k1 = procs k"
    "bytes_at (kas k1) x (sp - n) (Suc (length ?arg)) = ?arg @ [0]"
    "\<forall>v\<in>?A. unat v < unat (sp - n) \<or> unat sp \<le> unat v \<longrightarrow> byte_at (kas k1) x v = byte_at (kas k) x v"
    using copy_stack_law [OF Suc.prems(1), of "?arg @ [0]" "sp - n"] usp room Suc.prems(3) unfolding n by auto
  have "procs k1 a = Some p" "unat (sp - n) \<le> unat stack_top" "i \<le> length args" "\<forall>j<i. length (args ! j) < 128"
    "unat (p_user_stack_base p) + arg_bytes args i \<le> unat (sp - n)" using k1(3) Suc.prems usp by auto
  from Suc.IH [OF k1(2) this, of "(sp - n) # ptrs"] obtain sp' ps k' where
    r: "push_arguments i (map Some args) a (sp - n) ((sp - n) # ptrs) k1 = Inr (Some (sp', ps @ (sp - n) # ptrs), k')" "length ps = i"
    "unat sp' + arg_bytes args i = unat (sp - n)" "writable_area k' a x ?A" "procs k' = procs k1"
    "pushed args (kas k') x (unat sp') (unat (sp - n)) ps"
    "\<forall>v\<in>?A. unat (sp - n) \<le> unat v \<longrightarrow> byte_at (kas k') x v = byte_at (kas k1) x v" by blast
  have "push_arguments (Suc i) (map Some args) a sp ptrs k = Inr (Some (sp', (ps @ [sp - n]) @ ptrs), k')"
    using arg fits k1(1) r(1) Suc.prems(2) by (simp add: get_process_def Let_def n_def [symmetric])
  moreover have "pushed args (kas k') x (unat sp') (unat sp) (ps @ [sp - n])"
  proof -
    have "bytes_at (kas k') x (sp - n) (Suc (length ?arg)) = bytes_at (kas k1) x (sp - n) (Suc (length ?arg))"
    proof (rule bytes_at_cong)
      fix j assume j: "j < Suc (length ?arg)"
      then have "unat (sp - n + word_of_nat j) = unat (sp - n) + j" using usp Suc.prems(3) top by (intro unat_offset) linarith
      then show "byte_at (kas k') x (sp - n + word_of_nat j) = byte_at (kas k1) x (sp - n + word_of_nat j)"
        using r(7) j usp room Suc.prems(3) by (simp add: stack_area_def)
    qed
    then show ?thesis using r(2,3,6) k1(4) usp unfolding pushed_def by (auto simp: nth_append less_Suc_eq)
  qed
  moreover have "\<forall>v\<in>?A. unat sp \<le> unat v \<longrightarrow> byte_at (kas k') x v = byte_at (kas k) x v" using r(7) k1(5) usp by auto
  ultimately show ?case using r(2-5) k1(3) usp by (intro exI [of _ sp'] exI [of _ "ps @ [sp - n]"] exI [of _ k']) simp
qed


lemma unat_align_down_4: "unat (align_down_4 v) = unat v - unat v mod 4"
  unfolding align_down_4_def using unat_and_not_mask [of v 2] by (simp add: mask_eq_exp_minus_1 minus_mod_eq_div_mult)

text \<open>
  C36. The initial stack of a program. For at most 16 arguments of fewer than 128 bytes that fit the
  process's own stack, with three bytes to spare for alignment, \<open>process_setup_arguments\<close> succeeds
  from any address space. The stack pointer it records is a multiple of four inside the stack and
  points to the argument count, the addresses of the arguments in order and two null words; at each
  address stand the bytes of that argument and a terminator, all above the table.
\<close>

theorem process_setup_arguments_layout:
  assumes w: "writable_area k a x (stack_area (p_user_stack_base p) (p_user_stack_top p))" and p: "procs k a = Some p"
    "p_state p \<noteq> PROCESS_DESTROYED" "p_user_stack_base p \<noteq> 0"
    and args: "length args \<le> 16" "\<forall>j < length args. length (args ! j) < 128"
    and fits: "unat (p_user_stack_base p) + arg_bytes args (length args) + 3 + 4 * (length args + 3) \<le> unat (p_user_stack_top p)"
  shows "\<exists>k' esp ps. process_setup_arguments a (int (length args)) (Some (map Some args)) k = Inr (0, k')
    \<and> procs k' = (procs k)(a \<mapsto> p\<lparr>p_user_initial_esp := esp\<rparr>)
    \<and> unat (p_user_stack_base p) \<le> unat esp \<and> unat esp mod 4 = 0 \<and> length ps = length args
    \<and> bytes_at (kas k') x esp (4 * (length args + 3)) = concat (map word_bytes (word_of_nat (length args) # ps @ [0, 0]))
    \<and> pushed args (kas k') x (unat esp + 4 * (length args + 3)) (unat (p_user_stack_top p)) ps"
proof -
  let ?n = "length args" and ?base = "p_user_stack_base p" and ?top = "p_user_stack_top p" and ?A = "stack_area (p_user_stack_base p) (p_user_stack_top p)"
  have top: "unat ?top < 4294967296" using unat_u32_less by simp
  have a: "a \<noteq> 0" "p_magic p = PROCESS_MAGIC" using w p(1) by (auto simp: writable_area_def)
  have top0: "?top \<noteq> 0" using fits by (auto simp: word_unat_eq_iff)
  have v: "validate_live_process a k = Inr p" using p a by (simp add: validate_live_process_def validate_process_def get_process_def)
  obtain sp ps k1 where k1: "push_arguments ?n (map Some args) a ?top [] k = Inr (Some (sp, ps @ []), k1)" "length ps = ?n"
    "unat sp + arg_bytes args ?n = unat ?top" "writable_area k1 a x ?A" "procs k1 = procs k" "pushed args (kas k1) x (unat sp) (unat ?top) ps"
    using push_arguments_law [OF w p(1) order_refl order_refl args(2), of "[]"] fits by auto
  define n4 :: u32 where "n4 = (1 + word_of_int (int ?n) + 1 + 1) * 4"
  define esp where "esp = align_down_4 sp - n4"
  have n4: "n4 = word_of_nat (4 * (?n + 3))" by (simp add: n4_def)
  have un4: "unat n4 = 4 * (?n + 3)" unfolding n4 using args(1) by (subst unat_of_nat) (simp add: take_bit_eq_mod)
  have al: "unat (align_down_4 sp) = unat sp - unat sp mod 4" by (rule unat_align_down_4)
  have low: "unat ?base + 4 * (?n + 3) \<le> unat (align_down_4 sp)" using fits k1(3) al by simp
  have "unat ?base + 4 * (?n + 3) < 4294967296" using low al k1(3) top by linarith
  then have "unat (?base + n4) = unat ?base + 4 * (?n + 3)" using un4 by (simp add: unat_word_ariths)
  then have enough: "\<not> align_down_4 sp < ?base + n4" using low by (simp add: word_less_nat_alt)
  have "n4 \<le> align_down_4 sp" using low un4 by (simp add: word_le_nat_alt)
  then have uesp: "unat esp + 4 * (?n + 3) = unat (align_down_4 sp)" using un4 by (simp add: esp_def unat_sub word_le_nat_alt)
  let ?tab = "concat (map word_bytes (word_of_nat ?n # ps @ [0, 0]))"
  have lw: "length (word_bytes u) = 4" for u by (simp add: word_bytes_def)
  have lt: "length ?tab = 4 * (?n + 3)" using k1(2) by (simp add: length_concat lw comp_def sum_list_triv)
  have ne: "?tab \<noteq> []" unfolding length_greater_0_conv [symmetric] lt by simp
  have bounds: "unat ?base \<le> unat esp" "unat esp + length ?tab \<le> unat ?top" using uesp low al k1(3) unfolding lt by linarith+
  obtain k2 where k2: "process_copy_stack_bytes a esp ?tab (word_of_nat (length ?tab)) k1 = Inr (0, k2)" "procs k2 = procs k1"
    "bytes_at (kas k2) x esp (length ?tab) = ?tab"
    "\<forall>v\<in>?A. unat v < unat esp \<or> unat esp + length ?tab \<le> unat v \<longrightarrow> byte_at (kas k2) x v = byte_at (kas k1) x v"
    using copy_stack_law [OF k1(4) ne bounds] by blast
  have k2': "process_copy_stack_bytes a (align_down_4 sp - n4) ?tab n4 k1 = Inr (0, k2)" using k2(1) unfolding lt n4 esp_def .
  define k3 where "k3 = k2\<lparr>procs := (procs k2)(a \<mapsto> p\<lparr>p_user_initial_esp := esp\<rparr>)\<rparr>"
  have run: "process_setup_arguments a (int ?n) (Some (map Some args)) k = Inr (0, k3)"
    unfolding process_setup_arguments_def v bindE_simps Let_def n4_def [symmetric] option.case nat_int k1(1) prod.case
    using args(1) p top0 enough k2' k1(5) k2(2)
    by (simp add: get_process_def upd_process_def k3_def esp_def)
  have "byte_at (kas k3) x v = byte_at (kas k1) x v" if "unat sp \<le> unat v" "unat v < unat ?top" for v
  proof -
    have "v \<in> ?A" "unat esp + length ?tab \<le> unat v" unfolding lt stack_area_def mem_Collect_eq using that uesp bounds(1) al by linarith+
    then show ?thesis using k2(4) by (simp add: k3_def)
  qed
  then have keep: "pushed args (kas k3) x (unat esp + 4 * (?n + 3)) (unat ?top) ps"
    by (rule pushed_cong [OF k1(6) top, rotated]) (use uesp al in simp_all)
  have "unat esp mod 4 = (unat esp + 4 * (?n + 3)) mod 4" by (simp only: mod_mult_self2)
  also have "\<dots> = 0" unfolding uesp al by (simp add: minus_mod_eq_mult_div)
  finally show ?thesis using run keep bounds(1) k1(2,5) k2(2,3) unfolding lt
    by (intro exI [of _ k3] exI [of _ esp] exI [of _ ps]) (simp add: k3_def)
qed


lemma sample_kernel_area:
  "writable_area (sample_kernel THREAD_RUNNING) 64 sample_space (stack_area (p_user_stack_base sample_process) (p_user_stack_top sample_process))"
proof -
  have sub: "stack_area (p_user_stack_base sample_process) (p_user_stack_top sample_process) \<subseteq> {va. unat va div 4096 = 4096}"
    by (auto simp: stack_area_def sample_process_def)
  have "own_area sample_paged sample_space {va. unat va div 4096 = 4096}" using sample_paged_own by (simp add: own_bytes_area)
  then have own: "own_area sample_paged sample_space (stack_area (p_user_stack_base sample_process) (p_user_stack_top sample_process))"
    unfolding own_area_def using sub by blast
  have cur: "p_address_space sample_process = current_space sample_paged" by (simp add: sample_process_def sample_paged_def sample_aspace_def)
  have "p_magic sample_process = PROCESS_MAGIC" by (simp add: sample_process_def)
  then show ?thesis using own sample_paged_valid apart_directory_own [OF own] cur unfolding writable_area_def by simp
qed

theorem process_setup_arguments_layout_witness:
  "\<exists>k' esp ps. process_setup_arguments 64 2 (Some [Some [101, 99], Some []]) (sample_kernel THREAD_RUNNING) = Inr (0, k')
    \<and> bytes_at (kas k') sample_space esp 20 = concat (map word_bytes (2 # ps @ [0, 0]))
    \<and> bytes_at (kas k') sample_space (ps ! 0) 3 = [101, 99, 0]"
proof -
  have p: "procs (sample_kernel THREAD_RUNNING) 64 = Some sample_process" "p_state sample_process \<noteq> PROCESS_DESTROYED"
    "p_user_stack_base sample_process \<noteq> 0" by (simp_all add: sample_process_def)
  let ?args = "[[101, 99], []] :: u8 list list"
  have len: "length ?args \<le> 16" "\<forall>j < length ?args. length (?args ! j) < 128" by (simp_all add: less_Suc_eq nth_Cons')
  have fits: "unat (p_user_stack_base sample_process) + arg_bytes ?args (length ?args) + 3 + 4 * (length ?args + 3) \<le> unat (p_user_stack_top sample_process)"
    by (simp add: sample_process_def)
  obtain k' esp ps where r: "process_setup_arguments 64 (int (length ?args)) (Some (map Some ?args)) (sample_kernel THREAD_RUNNING) = Inr (0, k')"
    "length ps = length ?args" "bytes_at (kas k') sample_space esp (4 * (length ?args + 3)) = concat (map word_bytes (word_of_nat (length ?args) # ps @ [0, 0]))"
    "pushed ?args (kas k') sample_space (unat esp + 4 * (length ?args + 3)) (unat (p_user_stack_top sample_process)) ps"
    using process_setup_arguments_layout [OF sample_kernel_area p len fits] by blast
  have "0 < length ps" using r(2) by simp
  with r(4) have "bytes_at (kas k') sample_space (ps ! 0) (Suc (length (?args ! 0))) = ?args ! 0 @ [0]" unfolding pushed_def by blast
  then have "bytes_at (kas k') sample_space (ps ! 0) 3 = [101, 99, 0]" by (simp add: numeral_3_eq_3)
  with r(1,3) show ?thesis by auto
qed

end
