(* ===== verification/Loaders.thy ===== *)
theory Loaders
  imports User_Stack
begin

text \<open>
  The loaders of user programs: \<open>kernel/elf_loader.c\<close> with the structures of \<open>elf32.h\<close>, and
  \<open>kernel/toyexe.c\<close>. An image is the list of its bytes, and a structure read at an offset
  that does not lie in the list is a fault. The messages a loader prints on the console are left out.
\<close>

section \<open>The ELF structures\<close>

abbreviation (input) ELF_MAX_IMAGE_MEMORY :: u32 where "ELF_MAX_IMAGE_MEMORY \<equiv> 1024 * 1024"
abbreviation (input) ELF_USER_STACK_TOP :: u32 where "ELF_USER_STACK_TOP \<equiv> 0x70000000"
abbreviation (input) ELF_USER_STACK_SIZE :: u32 where "ELF_USER_STACK_SIZE \<equiv> 4096"
abbreviation (input) SIZEOF_EHDR :: u32 where "SIZEOF_EHDR \<equiv> 52"
abbreviation (input) SIZEOF_PHDR :: u32 where "SIZEOF_PHDR \<equiv> 32"
abbreviation (input) PT_LOAD :: u32 where "PT_LOAD \<equiv> 1"
abbreviation (input) PF_W :: u32 where "PF_W \<equiv> 2"
abbreviation (input) EV_CURRENT :: u32 where "EV_CURRENT \<equiv> 1"
abbreviation (input) ET_EXEC :: u16 where "ET_EXEC \<equiv> 2"
abbreviation (input) EM_386 :: u16 where "EM_386 \<equiv> 3"
abbreviation (input) ELF_LOADER_OK :: int where "ELF_LOADER_OK \<equiv> 0"
abbreviation (input) ELF_LOADER_ERR_INVALID :: int where "ELF_LOADER_ERR_INVALID \<equiv> - 1"
abbreviation (input) ELF_LOADER_ERR_UNSUPPORTED :: int where "ELF_LOADER_ERR_UNSUPPORTED \<equiv> - 2"
abbreviation (input) ELF_LOADER_ERR_TOO_LARGE :: int where "ELF_LOADER_ERR_TOO_LARGE \<equiv> - 3"
abbreviation (input) ELF_LOADER_ERR_LOAD_FAILED :: int where "ELF_LOADER_ERR_LOAD_FAILED \<equiv> - 4"

record elf32_ehdr =
  e_ident :: "u8 list"
  e_type :: u16
  e_machine :: u16
  e_version :: u32
  e_entry :: u32
  e_phoff :: u32
  e_shoff :: u32
  e_flags :: u32
  e_ehsize :: u16
  e_phentsize :: u16
  e_phnum :: u16
  e_shentsize :: u16
  e_shnum :: u16
  e_shstrndx :: u16

record elf32_phdr =
  p_type :: u32
  p_offset :: u32
  p_vaddr :: u32
  p_paddr :: u32
  p_filesz :: u32
  p_memsz :: u32
  p_flags :: u32
  p_align :: u32

definition le16 :: "u8 list \<Rightarrow> nat \<Rightarrow> u16" where
  "le16 img i = ucast (img ! i) OR push_bit 8 (ucast (img ! (i + 1)))"

definition le32 :: "u8 list \<Rightarrow> nat \<Rightarrow> u32" where
  "le32 img i = ucast (img ! i) OR push_bit 8 (ucast (img ! (i + 1)))
     OR push_bit 16 (ucast (img ! (i + 2))) OR push_bit 24 (ucast (img ! (i + 3)))"

definition ehdr_of :: "u8 list \<Rightarrow> elf32_ehdr" where
  "ehdr_of img = \<lparr>e_ident = take 16 img, e_type = le16 img 16, e_machine = le16 img 18,
     e_version = le32 img 20, e_entry = le32 img 24, e_phoff = le32 img 28, e_shoff = le32 img 32,
     e_flags = le32 img 36, e_ehsize = le16 img 40, e_phentsize = le16 img 42, e_phnum = le16 img 44,
     e_shentsize = le16 img 46, e_shnum = le16 img 48, e_shstrndx = le16 img 50\<rparr>"

definition phdr_of :: "u8 list \<Rightarrow> nat \<Rightarrow> elf32_phdr" where
  "phdr_of img i = \<lparr>p_type = le32 img i, p_offset = le32 img (i + 4), p_vaddr = le32 img (i + 8),
     p_paddr = le32 img (i + 12), p_filesz = le32 img (i + 16), p_memsz = le32 img (i + 20),
     p_flags = le32 img (i + 24), p_align = le32 img (i + 28)\<rparr>"

definition in_image :: "u8 list \<Rightarrow> nat \<Rightarrow> nat \<Rightarrow> unit res" where
  "in_image img i n = (if i + n \<le> length img then Inr () else Inl (Fault ''read past the image''))"

section \<open>Checking an ELF image\<close>

definition align_down_page :: "u32 \<Rightarrow> u32" where
  "align_down_page value = value AND NOT (4096 - 1)"

definition align_up_page :: "u32 \<Rightarrow> u32" where
  "align_up_page value = (value + 4096 - 1) AND NOT (4096 - 1)"

definition range_overflows :: "u32 \<Rightarrow> u32 \<Rightarrow> bool" where
  "range_overflows start n \<longleftrightarrow> start + n < start"

definition validate_elf_header :: "u8 list option \<Rightarrow> u32 \<Rightarrow> int res" where
  "validate_elf_header header image_size =
     (case header of None \<Rightarrow> Inr ELF_LOADER_ERR_INVALID
      | Some img \<Rightarrow>
     if image_size < SIZEOF_EHDR then Inr ELF_LOADER_ERR_INVALID
     else bindE (in_image img 0 (unat SIZEOF_EHDR)) (\<lambda>_. let h = ehdr_of img in Inr (
       if e_ident h ! 0 \<noteq> 0x7F \<or> e_ident h ! 1 \<noteq> 0x45 \<or> e_ident h ! 2 \<noteq> 0x4C \<or> e_ident h ! 3 \<noteq> 0x46 then ELF_LOADER_ERR_INVALID
       else if e_ident h ! 4 \<noteq> 1 then ELF_LOADER_ERR_UNSUPPORTED
       else if e_ident h ! 5 \<noteq> 1 then ELF_LOADER_ERR_UNSUPPORTED
       else if e_ident h ! 6 \<noteq> 1 then ELF_LOADER_ERR_UNSUPPORTED
       else if e_type h \<noteq> ET_EXEC then ELF_LOADER_ERR_UNSUPPORTED
       else if e_machine h \<noteq> EM_386 then ELF_LOADER_ERR_UNSUPPORTED
       else if e_version h \<noteq> EV_CURRENT then ELF_LOADER_ERR_UNSUPPORTED
       else if ucast (e_ehsize h) \<noteq> SIZEOF_EHDR then ELF_LOADER_ERR_INVALID
       else if e_phoff h = 0 \<or> e_phnum h = 0 then ELF_LOADER_ERR_INVALID
       else if ucast (e_phentsize h) \<noteq> SIZEOF_PHDR then ELF_LOADER_ERR_INVALID
       else let phdr_bytes = ucast (e_phnum h) * SIZEOF_PHDR in
         if range_overflows (e_phoff h) phdr_bytes then ELF_LOADER_ERR_INVALID
         else if e_phoff h + phdr_bytes > image_size then ELF_LOADER_ERR_INVALID
         else ELF_LOADER_OK)))"

definition validate_load_segment :: "elf32_phdr \<Rightarrow> u32 \<Rightarrow> int" where
  "validate_load_segment program_header image_size =
     (if p_type program_header \<noteq> PT_LOAD then ELF_LOADER_OK
      else if p_memsz program_header = 0 then ELF_LOADER_ERR_INVALID
      else if p_filesz program_header > p_memsz program_header then ELF_LOADER_ERR_INVALID
      else if range_overflows (p_offset program_header) (p_filesz program_header) then ELF_LOADER_ERR_INVALID
      else if p_offset program_header + p_filesz program_header > image_size then ELF_LOADER_ERR_INVALID
      else if range_overflows (p_vaddr program_header) (p_memsz program_header) then ELF_LOADER_ERR_INVALID
      else if p_memsz program_header > ELF_MAX_IMAGE_MEMORY then ELF_LOADER_ERR_TOO_LARGE
      else if p_vaddr program_header < ADDRESS_SPACE_USER_BASE \<or> p_vaddr program_header \<ge> ADDRESS_SPACE_USER_TOP
      then ELF_LOADER_ERR_INVALID
      else if p_vaddr program_header + p_memsz program_header > ADDRESS_SPACE_USER_TOP then ELF_LOADER_ERR_INVALID
      else if p_vaddr program_header AND (4096 - 1) \<noteq> 0 then ELF_LOADER_ERR_UNSUPPORTED
      else ELF_LOADER_OK)"

definition segment_flags_to_process_flags :: "elf32_phdr \<Rightarrow> u32" where
  "segment_flags_to_process_flags phdr =
     (let flags = ADDRESS_SPACE_FLAG_USER in
      if p_flags phdr AND PF_W \<noteq> 0 then flags OR ADDRESS_SPACE_FLAG_WRITABLE
      else flags OR ADDRESS_SPACE_FLAG_WRITABLE)"

definition program_header :: "u8 list \<Rightarrow> nat \<Rightarrow> elf32_phdr res" where
  "program_header img i =
     (let at = unat (e_phoff (ehdr_of img)) + unat SIZEOF_PHDR * i in
      bindE (in_image img at (unat SIZEOF_PHDR)) (\<lambda>_. Inr (phdr_of img at)))"

primrec validate_segments :: "nat list \<Rightarrow> u8 list \<Rightarrow> u32 \<Rightarrow> bool \<Rightarrow> (int \<times> bool) res" where
  "validate_segments [] img image_size saw_load = Inr (ELF_LOADER_OK, saw_load)"
| "validate_segments (i # is) img image_size saw_load =
     bindE (program_header img i) (\<lambda>phdr.
     let rc = validate_load_segment phdr image_size in
     if rc \<noteq> ELF_LOADER_OK then Inr (rc, saw_load)
     else validate_segments is img image_size (saw_load \<or> p_type phdr = PT_LOAD))"

definition elf_check :: "u8 list \<Rightarrow> u32 \<Rightarrow> int res" where
  "elf_check img image_size =
     bindE (validate_elf_header (Some img) image_size) (\<lambda>rc.
     if rc \<noteq> ELF_LOADER_OK then Inr rc
     else bindE (validate_segments [0..<unat (e_phnum (ehdr_of img))] img image_size False) (\<lambda>(rc, saw_load).
       if rc \<noteq> ELF_LOADER_OK then Inr rc
       else if \<not> saw_load then Inr ELF_LOADER_ERR_INVALID
       else Inr ELF_LOADER_OK))"

section \<open>Loading an ELF image\<close>

definition load_segment :: "u32 \<Rightarrow> u8 list \<Rightarrow> elf32_phdr \<Rightarrow> kernel \<Rightarrow> (int \<times> kernel) res option" where
  "load_segment process img phdr k =
     (let segment_start = align_down_page (p_vaddr phdr);
          segment_end = align_up_page (p_vaddr phdr + p_memsz phdr);
          runtime_size = segment_end - segment_start
      in bindO (process_map_user_region process segment_start runtime_size k) (\<lambda>(rc, k1).
         if rc \<noteq> 0 then Some (Inr (ELF_LOADER_ERR_LOAD_FAILED, k1))
         else bindO (Some (process_copy_to_user_init process (p_vaddr phdr) (Some (drop (unat (p_offset phdr)) img)) (p_filesz phdr) k1)) (\<lambda>(rc, k2).
           if rc \<noteq> 0 then Some (Inr (ELF_LOADER_ERR_LOAD_FAILED, k2))
           else if p_memsz phdr > p_filesz phdr
           then bindO (Some (process_zero_user_init process (p_vaddr phdr + p_filesz phdr) (p_memsz phdr - p_filesz phdr) k2)) (\<lambda>(rc, k3).
                Some (Inr (if rc \<noteq> 0 then ELF_LOADER_ERR_LOAD_FAILED else ELF_LOADER_OK, k3)))
           else Some (Inr (ELF_LOADER_OK, k2)))))"

primrec load_segments :: "nat list \<Rightarrow> u32 \<Rightarrow> u8 list \<Rightarrow> kernel \<Rightarrow> (int \<times> kernel) res option" where
  "load_segments [] process img k = Some (Inr (ELF_LOADER_OK, k))"
| "load_segments (i # is) process img k =
     bindO (Some (program_header img i)) (\<lambda>phdr.
     if p_type phdr \<noteq> PT_LOAD then load_segments is process img k
     else bindO (load_segment process img phdr k) (\<lambda>(rc, k1).
       if rc \<noteq> ELF_LOADER_OK then Some (Inr (rc, k1))
       else load_segments is process img k1))"

definition elf_load_process :: "u32 \<Rightarrow> u8 list option \<Rightarrow> u32 \<Rightarrow> kernel \<Rightarrow> (int \<times> kernel) res option" where
  "elf_load_process process img image_size k =
     (case img of None \<Rightarrow> Some (Inr (ELF_LOADER_ERR_INVALID, k))
      | Some img \<Rightarrow>
     if process = 0 then Some (Inr (ELF_LOADER_ERR_INVALID, k))
     else bindO (Some (elf_check img image_size)) (\<lambda>rc.
       if rc \<noteq> ELF_LOADER_OK then Some (Inr (rc, k))
       else
         (let header = ehdr_of img;
              stack_top = ELF_USER_STACK_TOP;
              stack_base = stack_top - ELF_USER_STACK_SIZE
          in bindO (process_map_user_region process stack_base ELF_USER_STACK_SIZE k) (\<lambda>(rc, k1).
             if rc \<noteq> 0 then Some (Inr (ELF_LOADER_ERR_LOAD_FAILED, k1))
             else bindO (Some (process_zero_user_init process stack_base ELF_USER_STACK_SIZE k1)) (\<lambda>(rc, k2).
               if rc \<noteq> 0 then Some (Inr (ELF_LOADER_ERR_LOAD_FAILED, k2))
               else bindO (Some (process_set_user_stack process stack_base stack_top k2)) (\<lambda>k3.
                 bindO (load_segments [0..<unat (e_phnum header)] process img k3) (\<lambda>(rc, k4).
                 if rc \<noteq> ELF_LOADER_OK then Some (Inr (rc, k4))
                 else if e_entry header < ADDRESS_SPACE_USER_BASE \<or> e_entry header \<ge> ADDRESS_SPACE_USER_TOP
                 then Some (Inr (ELF_LOADER_ERR_INVALID, k4))
                 else Some (bindE (upd_process process (\<lambda>p. p\<lparr>p_user_code_base := e_entry header\<rparr>) k4) (\<lambda>k5.
                            bindE (process_set_user_entry process (e_entry header) k5) (\<lambda>k6.
                            Inr (ELF_LOADER_OK, k6))))))))))) "

definition elf_create_process_suspended :: "string option \<Rightarrow> u8 list option \<Rightarrow> u32 \<Rightarrow> kernel \<Rightarrow> (u32 \<times> kernel) res option" where
  "elf_create_process_suspended name img image_size k =
     bindO (process_create_empty name k) (\<lambda>(process, k1).
     bindO (elf_load_process process img image_size k1) (\<lambda>(rc, k2).
     if rc \<noteq> ELF_LOADER_OK then Some (Inl (Panic ''ELF32 process load failed''))
     else Some (Inr (process, k2))))"

definition elf_create_process :: "string option \<Rightarrow> u8 list option \<Rightarrow> u32 \<Rightarrow> kernel \<Rightarrow> (u32 \<times> kernel) res option" where
  "elf_create_process name img image_size k =
     bindO (elf_create_process_suspended name img image_size k) (\<lambda>(process, k1).
     bindO (Some (process_setup_arguments process 1 (Some [Some (bytes ''program'')]) k1)) (\<lambda>(rc, k2).
     if rc \<noteq> 0 then Some (Inl (Panic ''ELF32 default argument setup failed''))
     else bindO (process_start_user process k2) (\<lambda>k3. Some (Inr (process, k3)))))"

section \<open>The TOYEXE format\<close>

abbreviation (input) TOYEXE_MAGIC :: u32 where "TOYEXE_MAGIC \<equiv> 0x45595854"
abbreviation (input) TOYEXE_VERSION :: u32 where "TOYEXE_VERSION \<equiv> 1"
abbreviation (input) TOYEXE_USER_BASE :: u32 where "TOYEXE_USER_BASE \<equiv> 0x40100000"
abbreviation (input) TOYEXE_DEFAULT_STACK_TOP :: u32 where "TOYEXE_DEFAULT_STACK_TOP \<equiv> 0x70000000"
abbreviation (input) TOYEXE_DEFAULT_STACK_SIZE :: u32 where "TOYEXE_DEFAULT_STACK_SIZE \<equiv> 4096"
abbreviation (input) SIZEOF_TOYEXE_HEADER :: u32 where "SIZEOF_TOYEXE_HEADER \<equiv> 32"
abbreviation (input) TOYEXE_OK :: int where "TOYEXE_OK \<equiv> 0"
abbreviation (input) TOYEXE_ERR_INVALID :: int where "TOYEXE_ERR_INVALID \<equiv> - 1"
abbreviation (input) TOYEXE_ERR_UNSUPPORTED :: int where "TOYEXE_ERR_UNSUPPORTED \<equiv> - 2"
abbreviation (input) TOYEXE_ERR_TOO_LARGE :: int where "TOYEXE_ERR_TOO_LARGE \<equiv> - 3"
abbreviation (input) TOYEXE_ERR_LOAD_FAILED :: int where "TOYEXE_ERR_LOAD_FAILED \<equiv> - 4"

record toyexe_header =
  tx_magic :: u32
  tx_version :: u32
  tx_header_size :: u32
  tx_entry_offset :: u32
  tx_image_offset :: u32
  tx_image_size :: u32
  tx_bss_size :: u32
  tx_stack_size :: u32

definition toyexe_header_of :: "u8 list \<Rightarrow> toyexe_header" where
  "toyexe_header_of img = \<lparr>tx_magic = le32 img 0, tx_version = le32 img 4, tx_header_size = le32 img 8,
     tx_entry_offset = le32 img 12, tx_image_offset = le32 img 16, tx_image_size = le32 img 20,
     tx_bss_size = le32 img 24, tx_stack_size = le32 img 28\<rparr>"

definition toyexe_align_up_page :: "u32 \<Rightarrow> u32" where
  "toyexe_align_up_page value = (value + 4096 - 1) AND NOT (4096 - 1)"

definition validate_header :: "toyexe_header option \<Rightarrow> u32 \<Rightarrow> int" where
  "validate_header header file_size =
     (case header of None \<Rightarrow> TOYEXE_ERR_INVALID
      | Some h \<Rightarrow>
     if tx_magic h \<noteq> TOYEXE_MAGIC then TOYEXE_ERR_INVALID
     else if tx_version h \<noteq> TOYEXE_VERSION then TOYEXE_ERR_UNSUPPORTED
     else if tx_header_size h < SIZEOF_TOYEXE_HEADER then TOYEXE_ERR_INVALID
     else if tx_header_size h > file_size then TOYEXE_ERR_INVALID
     else if tx_image_offset h < tx_header_size h then TOYEXE_ERR_INVALID
     else if tx_image_offset h > file_size then TOYEXE_ERR_INVALID
     else if tx_image_size h = 0 then TOYEXE_ERR_INVALID
     else if tx_image_offset h + tx_image_size h < tx_image_offset h then TOYEXE_ERR_INVALID
     else if tx_image_offset h + tx_image_size h > file_size then TOYEXE_ERR_INVALID
     else if tx_entry_offset h \<ge> tx_image_size h then TOYEXE_ERR_INVALID
     else if tx_image_size h + tx_bss_size h < tx_image_size h then TOYEXE_ERR_INVALID
     else if tx_image_size h + tx_bss_size h > 1024 * 1024 then TOYEXE_ERR_TOO_LARGE
     else if tx_stack_size h > 1024 * 1024 then TOYEXE_ERR_TOO_LARGE
     else TOYEXE_OK)"

definition toyexe_load_process :: "u32 \<Rightarrow> u8 list option \<Rightarrow> u32 \<Rightarrow> kernel \<Rightarrow> (int \<times> kernel) res option" where
  "toyexe_load_process process img image_size k =
     (case img of None \<Rightarrow> Some (Inr (TOYEXE_ERR_INVALID, k))
      | Some img \<Rightarrow>
     if process = 0 \<or> image_size < SIZEOF_TOYEXE_HEADER then Some (Inr (TOYEXE_ERR_INVALID, k))
     else bindO (Some (in_image img 0 (unat SIZEOF_TOYEXE_HEADER))) (\<lambda>_.
       let header = toyexe_header_of img; rc = validate_header (Some header) image_size in
       if rc \<noteq> TOYEXE_OK then Some (Inr (rc, k))
       else let runtime_size = tx_image_size header + tx_bss_size header in
       if runtime_size = 0 then Some (Inr (TOYEXE_ERR_INVALID, k))
       else let stack_size = toyexe_align_up_page (if tx_stack_size header = 0 then TOYEXE_DEFAULT_STACK_SIZE else tx_stack_size header);
                user_base = TOYEXE_USER_BASE;
                user_stack_top = TOYEXE_DEFAULT_STACK_TOP;
                user_stack_base = user_stack_top - stack_size in
       bindO (process_map_user_region process user_base runtime_size k) (\<lambda>(rc, k1).
       if rc \<noteq> 0 then Some (Inr (TOYEXE_ERR_LOAD_FAILED, k1))
       else bindO (process_map_user_region process user_stack_base stack_size k1) (\<lambda>(rc, k2).
       if rc \<noteq> 0 then Some (Inr (TOYEXE_ERR_LOAD_FAILED, k2))
       else bindO (Some (process_copy_to_user_init process user_base (Some (drop (unat (tx_image_offset header)) img)) (tx_image_size header) k2)) (\<lambda>(rc, k3).
       if rc \<noteq> 0 then Some (Inr (TOYEXE_ERR_LOAD_FAILED, k3))
       else bindO (Some (if tx_bss_size header \<noteq> 0
                         then process_zero_user_init process (user_base + tx_image_size header) (tx_bss_size header) k3
                         else Inr (0, k3))) (\<lambda>(rc, k4).
       if rc \<noteq> 0 then Some (Inr (TOYEXE_ERR_LOAD_FAILED, k4))
       else Some (bindE (upd_process process (\<lambda>p. p\<lparr>p_user_code_base := user_base\<rparr>) k4) (\<lambda>k5.
                  bindE (process_set_user_entry process (user_base + tx_entry_offset header) k5) (\<lambda>k6.
                  bindE (process_set_user_stack process user_stack_base user_stack_top k6) (\<lambda>k7.
                  Inr (TOYEXE_OK, k7)))))))))))"

definition toyexe_create_process :: "string option \<Rightarrow> u8 list option \<Rightarrow> u32 \<Rightarrow> kernel \<Rightarrow> (u32 \<times> kernel) res option" where
  "toyexe_create_process name img image_size k =
     bindO (process_create_empty name k) (\<lambda>(process, k1).
     bindO (toyexe_load_process process img image_size k1) (\<lambda>(rc, k2).
     if rc \<noteq> TOYEXE_OK then Some (Inl (Panic ''TOYEXE process load failed''))
     else bindO (process_start_user process k2) (\<lambda>k3. Some (Inr (process, k3)))))"

section \<open>Which images are accepted\<close>

text \<open>A loadable segment whose file bytes lie in the image and whose memory lies in the user half.\<close>

definition wf_segment :: "u8 list \<Rightarrow> elf32_phdr \<Rightarrow> bool" where
  "wf_segment img ph \<longleftrightarrow> 0 < unat (p_memsz ph) \<and> unat (p_filesz ph) \<le> unat (p_memsz ph) \<and> unat (p_memsz ph) \<le> 2 ^ 20
     \<and> unat (p_offset ph) + unat (p_filesz ph) \<le> length img
     \<and> unat ADDRESS_SPACE_USER_BASE \<le> unat (p_vaddr ph)
     \<and> unat (p_vaddr ph) + unat (p_memsz ph) \<le> unat ADDRESS_SPACE_USER_TOP
     \<and> 4096 dvd unat (p_vaddr ph)"

text \<open>An executable for the i386 whose program headers lie in the image, with a loadable segment.\<close>

definition wf_elf :: "u8 list \<Rightarrow> bool" where
  "wf_elf img \<longleftrightarrow>
     (let h = ehdr_of img; ph = (\<lambda>i. phdr_of img (unat (e_phoff h) + 32 * i)) in
      52 \<le> length img \<and> take 7 img = [0x7F, 0x45, 0x4C, 0x46, 1, 1, 1]
      \<and> e_type h = 2 \<and> e_machine h = 3 \<and> e_version h = 1 \<and> e_ehsize h = 52 \<and> e_phentsize h = 32
      \<and> e_phoff h \<noteq> 0 \<and> unat (e_phoff h) + 32 * unat (e_phnum h) \<le> length img
      \<and> (\<exists>i<unat (e_phnum h). p_type (ph i) = PT_LOAD)
      \<and> (\<forall>i<unat (e_phnum h). p_type (ph i) = PT_LOAD \<longrightarrow> wf_segment img (ph i)))"

lemma range_overflows_unat: "range_overflows a n \<longleftrightarrow> 4294967296 \<le> unat a + unat n"
proof (cases "unat a + unat n < 4294967296")
  case True
  then have "unat (a + n) = unat a + unat n" by (simp add: unat_word_ariths)
  with True show ?thesis by (simp add: range_overflows_def word_less_nat_alt)
next
  case False
  have n: "unat n < 4294967296" "unat a + unat n - 4294967296 < 4294967296" using unat_u32_less [of a] unat_u32_less [of n] by linarith+
  have "unat (a + n) = (unat a + unat n) mod 4294967296" by (simp add: unat_word_ariths)
  also have "\<dots> = unat a + unat n - 4294967296" using False n(2) by (subst le_mod_geq) (auto intro: mod_less)
  finally have "unat (a + n) < unat a" using False n(1) by linarith
  with False show ?thesis by (simp add: range_overflows_def word_less_nat_alt)
qed

lemma unat_add_in: "\<not> range_overflows a n \<Longrightarrow> unat (a + n) = unat a + unat n"
  by (simp add: range_overflows_unat unat_word_ariths)

lemma range_within: "\<not> range_overflows a n \<and> \<not> a + n > N \<longleftrightarrow> unat a + unat n \<le> unat N"
proof (cases "range_overflows a n")
  case True
  then have "\<not> unat a + unat n \<le> unat N" using unat_u32_less [of N] unfolding range_overflows_unat by linarith
  with True show ?thesis by simp
qed (simp add: not_less word_le_nat_alt unat_add_in)

lemma range_within_top: "n \<noteq> 0 \<Longrightarrow> \<not> range_overflows a n \<and> a < N \<and> \<not> a + n > N \<longleftrightarrow> unat a + unat n \<le> unat N"
proof -
  assume "n \<noteq> 0"
  then have "0 < unat n" by (simp add: unat_gt_0)
  then have "a < N" if "unat a + unat n \<le> unat N" unfolding word_less_nat_alt using that by linarith
  then show ?thesis using range_within [of a n N] by blast
qed

lemma validate_load_segment_exact:
  assumes "length img = unat image_size"
  shows "validate_load_segment ph image_size = ELF_LOADER_OK \<longleftrightarrow> (p_type ph = PT_LOAD \<longrightarrow> wf_segment img ph)"
proof (cases "p_type ph = PT_LOAD \<and> p_memsz ph \<noteq> 0")
  case True
  then have "validate_load_segment ph image_size = 0 \<longleftrightarrow> \<not> p_filesz ph > p_memsz ph
      \<and> (\<not> range_overflows (p_offset ph) (p_filesz ph) \<and> \<not> p_offset ph + p_filesz ph > image_size)
      \<and> \<not> p_memsz ph > ELF_MAX_IMAGE_MEMORY \<and> ADDRESS_SPACE_USER_BASE \<le> p_vaddr ph
      \<and> (\<not> range_overflows (p_vaddr ph) (p_memsz ph) \<and> p_vaddr ph < ADDRESS_SPACE_USER_TOP
         \<and> \<not> p_vaddr ph + p_memsz ph > ADDRESS_SPACE_USER_TOP) \<and> p_vaddr ph AND 4095 = 0"
    by (auto simp: validate_load_segment_def)
  also have "\<dots> \<longleftrightarrow> wf_segment img ph"
    unfolding range_within range_within_top [OF conjunct2 [OF True]] u32_4095 and_mask_eq_0_iff wf_segment_def
    using True assms by (auto simp: not_less word_le_nat_alt unat_gt_0)
  finally show ?thesis using True by simp
qed (auto simp: validate_load_segment_def wf_segment_def)

lemma validate_load_segment_sign: "validate_load_segment ph n \<le> 0"
  by (simp add: validate_load_segment_def)

abbreviation (input) nth_phdr :: "u8 list \<Rightarrow> nat \<Rightarrow> elf32_phdr" where
  "nth_phdr img i \<equiv> phdr_of img (unat (e_phoff (ehdr_of img)) + 32 * i)"

lemma validate_segments_exact:
  assumes "length img = unat image_size" and "\<forall>i\<in>set is. unat (e_phoff (ehdr_of img)) + 32 * Suc i \<le> length img"
  shows "\<exists>rc saw'. validate_segments is img image_size saw = Inr (rc, saw') \<and> rc \<le> 0
    \<and> (rc = ELF_LOADER_OK \<longleftrightarrow> (\<forall>i\<in>set is. p_type (nth_phdr img i) = PT_LOAD \<longrightarrow> wf_segment img (nth_phdr img i)))
    \<and> (rc = ELF_LOADER_OK \<longrightarrow> (saw' \<longleftrightarrow> saw \<or> (\<exists>i\<in>set is. p_type (nth_phdr img i) = PT_LOAD)))"
  using assms(2)
proof (induction "is" arbitrary: saw)
  case (Cons i "is")
  have "program_header img i = Inr (nth_phdr img i)" using Cons.prems by (simp add: program_header_def in_image_def)
  moreover have "validate_load_segment (nth_phdr img i) image_size \<le> 0" by (rule validate_load_segment_sign)
  ultimately show ?case
    using Cons.IH [of "saw \<or> p_type (nth_phdr img i) = PT_LOAD"] Cons.prems validate_load_segment_exact [OF assms(1), of "nth_phdr img i"]
    by (auto simp: Let_def)
qed simp

lemma unat_u16_u32: "unat (ucast (x :: u16) :: u32) = unat x"
  using unsigned_less [of x, where ?'a = nat] by (simp add: unsigned_ucast_eq take_bit_eq_mod)

lemma upt_quantifiers: "(\<forall>i\<in>set [0..<n]. P i) \<longleftrightarrow> (\<forall>i<n. P i)" "(\<exists>i\<in>set [0..<n]. P i) \<longleftrightarrow> (\<exists>i<n. P i)"
  by auto

lemma ident_bytes:
  assumes "52 \<le> length img"
  shows "take 7 img = [b0, b1, b2, b3, b4, b5, b6]
    \<longleftrightarrow> e_ident (ehdr_of img) ! 0 = b0 \<and> e_ident (ehdr_of img) ! 1 = b1 \<and> e_ident (ehdr_of img) ! 2 = b2 \<and> e_ident (ehdr_of img) ! 3 = b3
      \<and> e_ident (ehdr_of img) ! 4 = b4 \<and> e_ident (ehdr_of img) ! 5 = b5 \<and> e_ident (ehdr_of img) ! 6 = b6"
proof -
  have "take 7 img = map ((!) img) [0, 1, 2, 3, 4, 5, 6]"
    by (rule nth_equalityI) (use assms in \<open>auto simp: nth_Cons numeral_eq_Suc split: nat.splits\<close>)
  then show ?thesis using assms by (simp add: ehdr_of_def)
qed

lemma validate_elf_header_exact:
  assumes "length img = unat image_size"
  shows "\<exists>rc. validate_elf_header (Some img) image_size = Inr rc \<and> rc \<le> 0
    \<and> (rc = ELF_LOADER_OK \<longleftrightarrow> (let h = ehdr_of img in
        52 \<le> length img \<and> take 7 img = [0x7F, 0x45, 0x4C, 0x46, 1, 1, 1]
        \<and> e_type h = 2 \<and> e_machine h = 3 \<and> e_version h = 1 \<and> e_ehsize h = 52 \<and> e_phentsize h = 32
        \<and> e_phoff h \<noteq> 0 \<and> e_phnum h \<noteq> 0 \<and> unat (e_phoff h) + 32 * unat (e_phnum h) \<le> length img))"
proof (cases "image_size < 52")
  case False
  let ?h = "ehdr_of img"
  let ?n = "ucast (e_phnum ?h) * (32 :: u32)"
  have l: "52 \<le> length img" using False assms by (simp add: word_less_nat_alt)
  have n: "unat ?n = 32 * unat (e_phnum ?h)"
    using unsigned_less [of "e_phnum ?h", where ?'a = nat] by (simp add: unat_word_ariths unat_u16_u32)
  have w: "(ucast (e_ehsize ?h) = (52 :: u32)) = (e_ehsize ?h = 52)" "(ucast (e_phentsize ?h) = (32 :: u32)) = (e_phentsize ?h = 32)"
    by (simp_all add: word_unat_eq_iff unat_u16_u32)
  define fits where "fits \<longleftrightarrow> \<not> range_overflows (e_phoff ?h) ?n \<and> \<not> e_phoff ?h + ?n > image_size"
  then have fits: "fits \<longleftrightarrow> unat (e_phoff ?h) + 32 * unat (e_phnum ?h) \<le> length img" using range_within n assms by simp
  let ?rc = "if e_ident ?h ! 0 \<noteq> 0x7F \<or> e_ident ?h ! 1 \<noteq> 0x45 \<or> e_ident ?h ! 2 \<noteq> 0x4C \<or> e_ident ?h ! 3 \<noteq> 0x46 then - 1
      else if e_ident ?h ! 4 \<noteq> 1 \<or> e_ident ?h ! 5 \<noteq> 1 \<or> e_ident ?h ! 6 \<noteq> 1 \<or> e_type ?h \<noteq> 2 \<or> e_machine ?h \<noteq> 3 \<or> e_version ?h \<noteq> 1 then - 2
      else if e_ehsize ?h \<noteq> 52 \<or> e_phoff ?h = 0 \<or> e_phnum ?h = 0 \<or> e_phentsize ?h \<noteq> 32 \<or> \<not> fits then - 1 else (0 :: int)"
  have "validate_elf_header (Some img) image_size = Inr ?rc"
    using False l by (auto simp: validate_elf_header_def in_image_def w Let_def fits_def)
  moreover have "?rc \<le> 0" by simp
  moreover have "?rc = 0 \<longleftrightarrow> e_ident ?h ! 0 = 0x7F \<and> e_ident ?h ! 1 = 0x45 \<and> e_ident ?h ! 2 = 0x4C \<and> e_ident ?h ! 3 = 0x46
      \<and> e_ident ?h ! 4 = 1 \<and> e_ident ?h ! 5 = 1 \<and> e_ident ?h ! 6 = 1 \<and> e_type ?h = 2 \<and> e_machine ?h = 3 \<and> e_version ?h = 1
      \<and> e_ehsize ?h = 52 \<and> e_phoff ?h \<noteq> 0 \<and> e_phnum ?h \<noteq> 0 \<and> e_phentsize ?h = 32 \<and> fits" by auto
  ultimately show ?thesis using l unfolding fits ident_bytes [OF l] Let_def by blast
qed (use assms in \<open>simp add: validate_elf_header_def Let_def word_less_nat_alt\<close>)

lemma elf_check_exact:
  assumes "length img = unat image_size"
  shows "\<exists>rc. elf_check img image_size = Inr rc \<and> rc \<le> 0 \<and> (rc = ELF_LOADER_OK \<longleftrightarrow> wf_elf img)"
proof -
  let ?h = "ehdr_of img"
  obtain rc where rc: "validate_elf_header (Some img) image_size = Inr rc" "rc \<le> 0"
    "rc = 0 \<longleftrightarrow> 52 \<le> length img \<and> take 7 img = [0x7F, 0x45, 0x4C, 0x46, 1, 1, 1]
        \<and> e_type ?h = 2 \<and> e_machine ?h = 3 \<and> e_version ?h = 1 \<and> e_ehsize ?h = 52 \<and> e_phentsize ?h = 32
        \<and> e_phoff ?h \<noteq> 0 \<and> e_phnum ?h \<noteq> 0 \<and> unat (e_phoff ?h) + 32 * unat (e_phnum ?h) \<le> length img"
    using validate_elf_header_exact [OF assms] unfolding Let_def by blast
  show ?thesis
  proof (cases "rc = 0")
    case True
    then have "\<forall>i\<in>set [0..<unat (e_phnum ?h)]. unat (e_phoff ?h) + 32 * Suc i \<le> length img" using rc(3) by auto
    from validate_segments_exact [OF assms this, of False] obtain rc2 saw where
      2: "validate_segments [0..<unat (e_phnum ?h)] img image_size False = Inr (rc2, saw)" "rc2 \<le> 0"
      "rc2 = 0 \<longleftrightarrow> (\<forall>i<unat (e_phnum ?h). p_type (nth_phdr img i) = PT_LOAD \<longrightarrow> wf_segment img (nth_phdr img i))"
      "rc2 = 0 \<longrightarrow> (saw \<longleftrightarrow> False \<or> (\<exists>i<unat (e_phnum ?h). p_type (nth_phdr img i) = PT_LOAD))"
      unfolding upt_quantifiers by blast
    have "elf_check img image_size = Inr (if rc2 \<noteq> 0 then rc2 else if \<not> saw then ELF_LOADER_ERR_INVALID else ELF_LOADER_OK)"
      using True rc(1) 2(1) by (simp add: elf_check_def)
    moreover have "wf_elf img \<longleftrightarrow> rc2 = 0 \<and> saw" using True 2(3,4) rc(3) unfolding wf_elf_def Let_def by blast
    ultimately show ?thesis using 2(2) by auto
  next
    case False
    then have "\<not> wf_elf img" using rc(3) unfolding wf_elf_def Let_def by (metis gr_implies_not0 unat_0)
    then show ?thesis using False rc(1,2) by (simp add: elf_check_def)
  qed
qed

text \<open>
  C37. The checks at the start of \<open>elf_load_process\<close> accept exactly the well-formed executables. For an
  image of any bytes they end without reading outside it. They succeed if and only if the image is an
  i386 executable with its program headers inside the image, with at least one loadable segment, and
  with every loadable segment's file bytes inside the image and its memory page aligned, at most
  1 MiB and inside the user half, all in exact arithmetic. A refused image gives an error code and
  leaves the kernel as it was.
\<close>

theorem elf_load_process_accepts:
  assumes "length img = unat image_size" and "process \<noteq> 0"
  shows "\<exists>rc. elf_check img image_size = Inr rc \<and> (rc = ELF_LOADER_OK \<longleftrightarrow> wf_elf img)
    \<and> (\<not> wf_elf img \<longrightarrow> rc < 0 \<and> elf_load_process process (Some img) image_size k = Some (Inr (rc, k)))"
  using elf_check_exact [OF assms(1)] assms(2) by (auto simp: elf_load_process_def)

definition sample_elf :: "u8 list" where
  "sample_elf = [0x7F, 0x45, 0x4C, 0x46, 1, 1, 1, 0, 0, 0, 0, 0, 0, 0, 0, 0,
     2, 0, 3, 0, 1, 0, 0, 0, 0, 0, 0, 0x40, 52, 0, 0, 0, 0, 0, 0, 0, 0, 0, 0, 0,
     52, 0, 32, 0, 1, 0, 0, 0, 0, 0, 0, 0,
     1, 0, 0, 0, 84, 0, 0, 0, 0, 0, 0, 0x40, 0, 0, 0, 0, 4, 0, 0, 0, 16, 0, 0, 0, 5, 0, 0, 0, 0, 16, 0, 0,
     0x90, 0x90, 0xEB, 0xFE]"

theorem elf_load_process_accepts_witness:
  "wf_elf sample_elf \<and> elf_check sample_elf 88 = Inr ELF_LOADER_OK \<and> \<not> wf_elf (take 60 sample_elf)
   \<and> (\<exists>rc<0. elf_load_process 8 (Some (take 60 sample_elf)) 60 (sample_kernel THREAD_BLOCKED) = Some (Inr (rc, sample_kernel THREAD_BLOCKED)))"
proof -
  have "length sample_elf = 88" by (simp add: sample_elf_def)
  have wf: "wf_elf sample_elf"
    by (simp add: wf_elf_def Let_def ehdr_of_def phdr_of_def le16_def le32_def sample_elf_def wf_segment_def)
  have nwf: "\<not> wf_elf (take 60 sample_elf)"
    by (simp add: wf_elf_def Let_def ehdr_of_def phdr_of_def le16_def le32_def sample_elf_def wf_segment_def)
  show ?thesis
    using elf_load_process_accepts [of sample_elf 88 8] elf_load_process_accepts [of "take 60 sample_elf" 60 8 "sample_kernel THREAD_BLOCKED"] wf nwf
      \<open>length sample_elf = 88\<close> by auto
qed

end
