(* ===== verification/Sync.thy ===== *)
theory Sync
  imports Scheduler
begin

text \<open>
  Waiting and waking on wait queues (\<open>kernel/wait_queue.c\<close>), mutexes and semaphores
  (\<open>kernel/sync.c\<close>). A section between \<open>irq_save\<close> and \<open>irq_restore\<close> is atomic, and so is one turn
  of the loop of \<open>wait_queue_wait\<close>: test the condition, else enqueue and block; the thread then
  yields and takes the next turn when it runs again. The functions below are these sections.
  Threads sharing a mutex or a semaphore are a transition system whose steps are the sections, taken
  by whichever thread runs, interleaved with timer ticks and scheduling interrupts at any point. The lemmas show
  mutual exclusion and that no wake-up is lost. A mutex, semaphore or queue is a value of the model,
  so the checks for a null pointer to one have no counterpart, except where a null argument has a
  result of its own.
\<close>

section \<open>Wait queues\<close>

definition wait_queue_wait_step :: "bool \<Rightarrow> wait_queue \<Rightarrow> sched \<Rightarrow> (bool \<times> wait_queue \<times> sched) res" where
  "wait_queue_wait_step condition queue s =
     (if condition then Inr (True, queue, s)
      else
        (let self = thread_current s in
         bindE (wait_queue_push_locked self (queue, threads s)) (\<lambda>(q, st).
         bindE (thread_block_current (s\<lparr>threads := st\<rparr>)) (\<lambda>s1.
         Inr (False, q, s1)))))"

definition wait_queue_take :: "wait_queue \<Rightarrow> sched \<Rightarrow> (u32 \<times> wait_queue \<times> sched) res" where
  "wait_queue_take queue s =
     bindE (wait_queue_pop_locked (queue, threads s)) (\<lambda>(thread, q, st). Inr (thread, q, s\<lparr>threads := st\<rparr>))"

definition wait_queue_wake_one :: "wait_queue \<Rightarrow> sched \<Rightarrow> (wait_queue \<times> sched) res" where
  "wait_queue_wake_one queue s =
     bindE (wait_queue_take queue s) (\<lambda>(thread, q, s1).
     if thread \<noteq> 0 then bindE (thread_wake thread s1) (\<lambda>s2. Inr (q, s2)) else Inr (q, s1))"

partial_function (option) wait_queue_wake_all :: "wait_queue \<Rightarrow> sched \<Rightarrow> (wait_queue \<times> sched) res option" where
  "wait_queue_wake_all queue s =
     (case wait_queue_take queue s of
        Inl e \<Rightarrow> Some (Inl e)
      | Inr r \<Rightarrow>
          if fst r = 0 then Some (Inr (fst (snd r), snd (snd r)))
          else case thread_wake (fst r) (snd (snd r)) of
            Inl e \<Rightarrow> Some (Inl e)
          | Inr s2 \<Rightarrow> wait_queue_wake_all (fst (snd r)) s2)"

section \<open>Mutexes\<close>

record mutex =
  mx_name :: string
  mx_locked :: bool
  mx_owner :: u32
  mx_waiters :: wait_queue

definition mutex_available_condition :: "mutex \<Rightarrow> bool" where
  "mutex_available_condition m \<longleftrightarrow> \<not> mx_locked m"

definition mutex_init :: "string option \<Rightarrow> mutex \<Rightarrow> mutex" where
  "mutex_init name m =
     (let nm = (case name of None \<Rightarrow> ''unnamed'' | Some n \<Rightarrow> n)
      in m\<lparr>mx_name := nm, mx_locked := False, mx_owner := 0, mx_waiters := wait_queue_init (Some nm) (mx_waiters m)\<rparr>)"

text \<open>
  \<open>mutex_lock\<close> in sections: the test on entry, with the check for a recursive lock, and the test
  after a wait. The first component is whether the lock was taken; if not, the thread waits with
  \<^const>\<open>wait_queue_wait_step\<close>.
\<close>

definition mutex_lock_again :: "u32 \<Rightarrow> mutex \<Rightarrow> bool \<times> mutex" where
  "mutex_lock_again self m = (if mx_locked m then (False, m) else (True, m\<lparr>mx_locked := True, mx_owner := self\<rparr>))"

definition mutex_lock_enter :: "u32 \<Rightarrow> mutex \<Rightarrow> (bool \<times> mutex) res" where
  "mutex_lock_enter self m =
     (if mx_locked m \<and> mx_owner m = self then Inl (Panic ''mutex_lock attempted recursive lock'')
      else Inr (mutex_lock_again self m))"

definition mutex_lock_wait :: "mutex \<Rightarrow> sched \<Rightarrow> (bool \<times> mutex \<times> sched) res" where
  "mutex_lock_wait m s =
     bindE (wait_queue_wait_step (mutex_available_condition m) (mx_waiters m) s) (\<lambda>(ok, q, s1).
     Inr (ok, m\<lparr>mx_waiters := q\<rparr>, s1))"

definition mutex_try_lock :: "u32 \<Rightarrow> mutex \<Rightarrow> bool \<times> mutex" where
  "mutex_try_lock self m = (if \<not> mx_locked m then (True, m\<lparr>mx_locked := True, mx_owner := self\<rparr>) else (False, m))"

definition mutex_unlock_release :: "u32 \<Rightarrow> mutex \<Rightarrow> mutex res" where
  "mutex_unlock_release self m =
     (if \<not> mx_locked m then Inl (Panic ''mutex_unlock attempted unlock of unlocked mutex'')
      else if mx_owner m \<noteq> self then Inl (Panic ''mutex_unlock attempted by non-owner'')
      else Inr (m\<lparr>mx_locked := False, mx_owner := 0\<rparr>))"

definition mutex_unlock :: "mutex \<Rightarrow> sched \<Rightarrow> (mutex \<times> sched) res" where
  "mutex_unlock m s =
     bindE (mutex_unlock_release (thread_current s) m) (\<lambda>m1.
     bindE (wait_queue_wake_one (mx_waiters m1) s) (\<lambda>(q, s1). Inr (m1\<lparr>mx_waiters := q\<rparr>, s1)))"

definition mutex_is_locked :: "mutex option \<Rightarrow> bool" where
  "mutex_is_locked m = (case m of None \<Rightarrow> False | Some x \<Rightarrow> mx_locked x)"

section \<open>Semaphores\<close>

text \<open>The count is an \<open>int32_t\<close>; incrementing the largest one is a signed overflow, a fault.\<close>

record semaphore =
  sem_name :: string
  sem_count :: int
  sem_waiters :: wait_queue

definition semaphore_available_condition :: "semaphore \<Rightarrow> bool" where
  "semaphore_available_condition sem \<longleftrightarrow> sem_count sem > 0"

definition semaphore_init :: "string option \<Rightarrow> int \<Rightarrow> semaphore \<Rightarrow> semaphore res" where
  "semaphore_init name initial_count sem =
     (if initial_count < 0 then Inl (Panic ''semaphore_init received negative count'')
      else (let nm = (case name of None \<Rightarrow> ''unnamed'' | Some n \<Rightarrow> n)
            in Inr (sem\<lparr>sem_name := nm, sem_count := initial_count,
                       sem_waiters := wait_queue_init (Some nm) (sem_waiters sem)\<rparr>)))"

definition semaphore_wait_test :: "semaphore \<Rightarrow> bool \<times> semaphore" where
  "semaphore_wait_test sem = (if sem_count sem \<le> 0 then (False, sem) else (True, sem\<lparr>sem_count := sem_count sem - 1\<rparr>))"

definition semaphore_wait_wait :: "semaphore \<Rightarrow> sched \<Rightarrow> (bool \<times> semaphore \<times> sched) res" where
  "semaphore_wait_wait sem s =
     bindE (wait_queue_wait_step (semaphore_available_condition sem) (sem_waiters sem) s) (\<lambda>(ok, q, s1).
     Inr (ok, sem\<lparr>sem_waiters := q\<rparr>, s1))"

definition semaphore_try_wait :: "semaphore \<Rightarrow> bool \<times> semaphore" where
  "semaphore_try_wait sem = (if sem_count sem > 0 then (True, sem\<lparr>sem_count := sem_count sem - 1\<rparr>) else (False, sem))"

definition semaphore_post :: "semaphore \<Rightarrow> semaphore res" where
  "semaphore_post sem =
     (if sem_count sem = 0x7FFFFFFF then Inl (Fault ''semaphore count overflow'')
      else Inr (sem\<lparr>sem_count := sem_count sem + 1\<rparr>))"

definition semaphore_signal :: "semaphore \<Rightarrow> sched \<Rightarrow> (semaphore \<times> sched) res" where
  "semaphore_signal sem s =
     bindE (semaphore_post sem) (\<lambda>sem1.
     bindE (wait_queue_wake_one (sem_waiters sem1) s) (\<lambda>(q, s1). Inr (sem1\<lparr>sem_waiters := q\<rparr>, s1)))"

section \<open>Scheduler steps seen by a wait queue\<close>

lemma view_state: "view (threads s') b = view (threads s) b \<Longrightarrow> state_of s' b = state_of s b"
  by (cases "threads s b"; cases "threads s' b") (auto simp: view_def state_of_def)

lemma sched_ok_relinked:
  assumes ok: "sched_ok s rs ss zs" and r: "relinked A (threads s) st" and A: "A \<inter> (set rs \<union> set ss \<union> set zs) = {}"
  shows "sched_ok (s\<lparr>threads := st\<rparr>) rs ss zs"
proof -
  have "queues_ok (s\<lparr>threads := st\<rparr>) rs ss zs"
    using ok queue_of_relinked [OF _ r] A by (auto simp: sched_ok_def sched_inv_def queues_ok_def Int_Un_distrib)
  then show ?thesis using ok relinked_view [OF r] relinked_dom [OF r] by (simp add: sched_ok_def sched_inv_def)
qed

lemma queue_of_links:
  assumes "queue_of st h e xs" and "\<And>a. a \<in> set xs \<Longrightarrow> links st' a = links st a"
  shows "queue_of st' h e xs"
proof -
  have seg: "tseg st 0 xs 0" using assms(1) by (simp add: queue_of_def)
  have "tseg st' 0 xs 0"
  proof (rule tseg_cong [OF seg])
    fix a assume a: "a \<in> set xs"
    then obtain t where t: "st a = Some t" using tseg_in_store [OF seg] by blast
    with assms(2) [OF a] obtain t' where "st' a = Some t'" "t_next t' = t_next t" "t_prev t' = t_prev t" by (auto simp: links_def)
    with t show "\<exists>t t'. st a = Some t \<and> st' a = Some t' \<and> t_next t' = t_next t \<and> t_prev t' = t_prev t" by blast
  qed
  with assms(1) show ?thesis by (simp add: queue_of_def)
qed

text \<open>A timer tick or a scheduling interrupt blocks no thread, wakes no blocked thread and leaves the links of blocked threads alone.\<close>

definition quiet :: "sched \<Rightarrow> sched \<Rightarrow> bool" where
  "quiet s s' \<longleftrightarrow> idle_thread s' = idle_thread s
     \<and> (\<forall>b. b \<noteq> idle_thread s \<longrightarrow> (state_of s' b = Some THREAD_BLOCKED \<longleftrightarrow> state_of s b = Some THREAD_BLOCKED)
        \<and> (state_of s b \<in> {Some THREAD_READY, Some THREAD_RUNNING} \<longrightarrow> state_of s' b \<in> {Some THREAD_READY, Some THREAD_RUNNING})
        \<and> (state_of s b = Some THREAD_BLOCKED \<longrightarrow> links (threads s') b = links (threads s) b))"

lemma state_of_cases:
  assumes "sched_inv s rs ss zs"
  shows "b \<in> set rs \<Longrightarrow> state_of s b = Some THREAD_READY" and "b \<in> set ss \<Longrightarrow> state_of s b = Some THREAD_SLEEPING"
  using state_of_ready [OF assms] state_of_sleeping [OF assms] by blast+

lemma tick_quiet:
  assumes ok: "sched_ok s rs ss zs"
  shows "\<exists>s' rs' ss' zs'. run_op Tick s = Some (Inr s') \<and> sched_ok s' rs' ss' zs' \<and> quiet s s'"
proof -
  from ok have inv: "sched_inv s rs ss zs" "scheduler_initialized s"
    and pos: "\<forall>a\<in>set ss. 1 \<le> due (scheduler_ticks s) (view (threads s)) a" by (simp_all add: sched_ok_def)
  let ?d = "due (scheduler_ticks s) (view (threads s))"
  from thread_on_timer_tick_list [OF inv(1) pos inv(2)] obtain s' where
    s': "thread_on_timer_tick s = Some (Inr s')" "sched_inv s' (rs @ filter (\<lambda>a. ?d a = 1) ss) (filter (\<lambda>a. ?d a \<noteq> 1) ss) zs"
    "idle_thread s' = idle_thread s" "\<forall>b. b \<notin> set rs \<union> set ss \<longrightarrow> threads s' b = threads s b" by blast
  obtain rs' ss' zs' where "sched_ok s' rs' ss' zs'" using run_tick [OF ok] s'(1) by (auto simp: step_ok_def)
  moreover have "quiet s s'"
    unfolding quiet_def
  proof (intro conjI allI impI)
    fix b
    consider (out) "b \<notin> set rs \<union> set ss" | (ready) "b \<in> set rs" | (due) "b \<in> set ss" "?d b = 1" | (sleeps) "b \<in> set ss" "?d b \<noteq> 1" by blast
    then have "state_of s' b = state_of s b \<and> links (threads s') b = links (threads s) b
      \<or> state_of s b \<in> {Some THREAD_READY, Some THREAD_SLEEPING} \<and> state_of s' b \<in> {Some THREAD_READY, Some THREAD_SLEEPING}
        \<and> (state_of s b = Some THREAD_READY \<longrightarrow> state_of s' b = Some THREAD_READY)"
    proof cases
      case out
      then show ?thesis using s'(4) by (simp add: state_of_def links_def)
    next
      case ready
      then show ?thesis using state_of_cases(1) [OF inv(1)] state_of_cases(1) [OF s'(2)] by simp
    next
      case due
      then show ?thesis using state_of_cases(2) [OF inv(1)] state_of_cases(1) [OF s'(2)] by simp
    next
      case sleeps
      then show ?thesis using state_of_cases(2) [OF inv(1)] state_of_cases(2) [OF s'(2)] by simp
    qed
    then show "state_of s' b = Some THREAD_BLOCKED \<longleftrightarrow> state_of s b = Some THREAD_BLOCKED"
      "state_of s b \<in> {Some THREAD_READY, Some THREAD_RUNNING} \<Longrightarrow> state_of s' b \<in> {Some THREAD_READY, Some THREAD_RUNNING}"
      "state_of s b = Some THREAD_BLOCKED \<Longrightarrow> links (threads s') b = links (threads s) b" by auto
  qed (rule s'(3))
  ultimately show ?thesis using s'(1) by auto
qed

lemma schedule_quiet:
  assumes ok: "sched_ok s rs ss zs" and f: "frame \<noteq> 0"
  shows "\<exists>s' rs' ss' zs'. run_op (Schedule frame) s = Some (Inr s') \<and> sched_ok s' rs' ss' zs' \<and> quiet s s'"
proof -
  from ok have inv: "sched_inv s rs ss zs" "scheduler_initialized s" by (simp_all add: sched_ok_def)
  then obtain old where old: "threads s (current_thread s) = Some old" by (auto simp: sched_inv_def)
  define kept where "kept = (if current_thread s \<noteq> idle_thread s \<and> t_state old = THREAD_RUNNING then [current_thread s] else [])"
  define a where "a = hd (rs @ kept @ [idle_thread s])"
  let ?go = "rs = [] \<and> (current_thread s = idle_thread s \<or> t_state old = THREAD_RUNNING)"
  from schedule_pick_law [OF inv f old] obtain r s' where s': "schedule_pick frame s = Inr (r, s')"
    "switched frame a (tl (rs @ kept)) ss zs s (r, s')"
    and go: "if ?go then view (threads s') = view (threads s) else map_option t_state (threads s' a) = Some THREAD_RUNNING"
    unfolding kept_def a_def by blast
  have inv': "sched_inv s' (tl (rs @ kept)) ss zs" "idle_thread s' = idle_thread s"
    and vw: "\<And>b. b \<noteq> a \<Longrightarrow> \<not> (b = current_thread s \<and> running s b) \<Longrightarrow> view (threads s') b = view (threads s) b"
    and lk: "\<And>b. b \<notin> insert a (set (tl (rs @ kept))) \<Longrightarrow> \<not> (b = current_thread s \<and> running s b) \<Longrightarrow> links (threads s') b = links (threads s) b"
    using s'(2) by (auto simp: switched_def)
  have kept: "state_of s b = Some THREAD_RUNNING" if "b \<in> set kept" for b
    using that old by (auto simp: kept_def state_of_def split: if_splits)
  have cases: "b \<in> set (rs @ kept)" if "b \<in> insert a (set (tl (rs @ kept)))" "b \<noteq> idle_thread s" for b
    using that unfolding a_def by (cases rs) (auto simp: kept_def split: if_splits)
  have "quiet s s'" unfolding quiet_def
  proof (intro conjI allI impI)
    fix b assume b: "b \<noteq> idle_thread s"
    have "state_of s' b = state_of s b \<and> links (threads s') b = links (threads s) b
      \<or> state_of s b \<in> {Some THREAD_READY, Some THREAD_RUNNING} \<and> state_of s' b \<in> {Some THREAD_READY, Some THREAD_RUNNING}"
    proof (cases "b \<in> set (rs @ kept)")
      case True
      then have 1: "state_of s b \<in> {Some THREAD_READY, Some THREAD_RUNNING}"
        using kept state_of_ready [OF inv(1)] by auto
      have "state_of s' b \<in> {Some THREAD_READY, Some THREAD_RUNNING}"
      proof (cases "b = a")
        case True
        with go view_state [of s' b s] 1 show ?thesis by (auto simp: state_of_def split: if_splits)
      next
        case False
        then have "b \<in> set (tl (rs @ kept))" using True unfolding a_def by (cases rs) (auto simp: kept_def split: if_splits)
        then show ?thesis using state_of_ready [OF inv'(1)] by simp
      qed
      with 1 show ?thesis by simp
    next
      case False
      with cases b have "b \<notin> insert a (set (tl (rs @ kept)))" by blast
      moreover have "\<not> (b = current_thread s \<and> running s b)" using False old b by (auto simp: kept_def)
      ultimately show ?thesis using vw [of b] lk [of b] view_state [of s' b s] by blast
    qed
    then show "state_of s' b = Some THREAD_BLOCKED \<longleftrightarrow> state_of s b = Some THREAD_BLOCKED"
      "state_of s b \<in> {Some THREAD_READY, Some THREAD_RUNNING} \<Longrightarrow> state_of s' b \<in> {Some THREAD_READY, Some THREAD_RUNNING}"
      "state_of s b = Some THREAD_BLOCKED \<Longrightarrow> links (threads s') b = links (threads s) b" by auto
  qed (rule inv'(2))
  moreover obtain rs' ss' zs' where "sched_ok s' rs' ss' zs'"
    using run_schedule [OF ok f] s'(1) by (auto simp: step_ok_def lift_res_def)
  moreover have "run_op (Schedule frame) s = Some (Inr s')" using s'(1) by (simp add: lift_res_def)
  ultimately show ?thesis by blast
qed

section \<open>Threads that share a waitable resource\<close>

text \<open>
  A mutex and a semaphore are used in the same way: a thread takes a unit, or waits in
  \<open>wait_queue_wait\<close> and tests again, and a thread that gives a unit back then wakes the first waiter.
  \<open>wpc\<close> is where a thread stands between two atomic sections: outside the functions, in the loop of
  \<open>wait_queue_wait\<close>, back from it, between giving the unit back and popping a waiter, and between
  popping a waiter and waking it. \<open>ws_got\<close> counts the units a thread took less those it gave back.
\<close>

datatype wpc = Away | Waiting | Testing | Posting | Waking u32

record 'r wsys =
  ws_sched :: sched
  ws_res :: 'r
  ws_pc :: "u32 \<Rightarrow> wpc"
  ws_got :: "u32 \<Rightarrow> int"

definition runs :: "u32 set \<Rightarrow> 'r wsys \<Rightarrow> u32 \<Rightarrow> wpc \<Rightarrow> bool" where
  "runs T M c p \<longleftrightarrow> c \<in> T \<and> current_thread (ws_sched M) = c \<and> state_of (ws_sched M) c = Some THREAD_RUNNING \<and> ws_pc M c = p"

definition goto :: "u32 \<Rightarrow> wpc \<Rightarrow> 'r \<Rightarrow> int \<Rightarrow> 'r wsys \<Rightarrow> 'r wsys" where
  "goto c p r d M = M\<lparr>ws_res := r, ws_pc := (ws_pc M)(c := p), ws_got := (ws_got M)(c := ws_got M c + d)\<rparr>"

inductive wstep :: "u32 set \<Rightarrow> (u32 \<Rightarrow> 'r \<Rightarrow> (bool \<times> 'r) res) \<Rightarrow> (u32 \<Rightarrow> 'r \<Rightarrow> bool \<times> 'r)
    \<Rightarrow> ('r \<Rightarrow> sched \<Rightarrow> (bool \<times> 'r \<times> sched) res) \<Rightarrow> (u32 \<Rightarrow> 'r \<Rightarrow> 'r res) \<Rightarrow> ('r \<Rightarrow> wait_queue)
    \<Rightarrow> (wait_queue \<Rightarrow> 'r \<Rightarrow> 'r) \<Rightarrow> 'r wsys \<Rightarrow> 'r wsys \<Rightarrow> bool"
  for T enter again wait put queue set_queue where
  enter: "runs T M c Away \<Longrightarrow> enter c (ws_res M) = Inr (g, r) \<Longrightarrow>
    wstep T enter again wait put queue set_queue M (goto c (if g then Away else Waiting) r (of_bool g) M)"
| wait: "runs T M c Waiting \<Longrightarrow> wait (ws_res M) (ws_sched M) = Inr (g, r, s) \<Longrightarrow>
    wstep T enter again wait put queue set_queue M (goto c (if g then Testing else Waiting) r 0 (M\<lparr>ws_sched := s\<rparr>))"
| again: "runs T M c Testing \<Longrightarrow> again c (ws_res M) = (g, r) \<Longrightarrow>
    wstep T enter again wait put queue set_queue M (goto c (if g then Away else Waiting) r (of_bool g) M)"
| put: "runs T M c Away \<Longrightarrow> put c (ws_res M) = Inr r \<Longrightarrow>
    wstep T enter again wait put queue set_queue M (goto c Posting r (- 1) M)"
| pop: "runs T M c Posting \<Longrightarrow> wait_queue_take (queue (ws_res M)) (ws_sched M) = Inr (a, q, s) \<Longrightarrow>
    wstep T enter again wait put queue set_queue M
      (goto c (if a = 0 then Away else Waking a) (set_queue q (ws_res M)) 0 (M\<lparr>ws_sched := s\<rparr>))"
| wake: "runs T M c (Waking a) \<Longrightarrow> thread_wake a (ws_sched M) = Inr s \<Longrightarrow>
    wstep T enter again wait put queue set_queue M (goto c Away (ws_res M) 0 (M\<lparr>ws_sched := s\<rparr>))"
| interrupt: "op = Tick \<or> (\<exists>frame. frame \<noteq> 0 \<and> op = Schedule frame) \<Longrightarrow> run_op op (ws_sched M) = Some (Inr s) \<Longrightarrow>
    wstep T enter again wait put queue set_queue M (M\<lparr>ws_sched := s\<rparr>)"

definition asleep :: "'r wsys \<Rightarrow> u32 \<Rightarrow> bool" where
  "asleep M a \<longleftrightarrow> ws_pc M a = Waiting \<and> state_of (ws_sched M) a = Some THREAD_BLOCKED"

definition active :: "'r wsys \<Rightarrow> u32 \<Rightarrow> bool" where
  "active M c \<longleftrightarrow> ws_pc M c \<noteq> Away \<and> \<not> asleep M c"

definition waiters_ok :: "'r wsys \<Rightarrow> u32 list \<Rightarrow> bool" where
  "waiters_ok M ws \<longleftrightarrow> (\<forall>a\<in>set ws. asleep M a)
     \<and> (\<forall>c a. ws_pc M c = Waking a \<longrightarrow> asleep M a \<and> a \<notin> set ws \<and> (\<forall>d. ws_pc M d = Waking a \<longrightarrow> d = c))
     \<and> (\<forall>c. ws_pc M c \<noteq> Away \<longrightarrow> state_of (ws_sched M) c \<in> {Some THREAD_READY, Some THREAD_RUNNING}
          \<or> asleep M c \<and> (c \<in> set ws \<or> (\<exists>d. ws_pc M d = Waking c)))"

definition winv :: "('r \<Rightarrow> nat) \<Rightarrow> ('r \<Rightarrow> bool) \<Rightarrow> ('r \<Rightarrow> wait_queue) \<Rightarrow> int \<Rightarrow> u32 set \<Rightarrow> 'r wsys
    \<Rightarrow> u32 list \<Rightarrow> u32 list \<Rightarrow> u32 list \<Rightarrow> u32 list \<Rightarrow> bool" where
  "winv units ok queue K T M rs ss zs ws \<longleftrightarrow> sched_ok (ws_sched M) rs ss zs
     \<and> queue_of (threads (ws_sched M)) (wq_head (queue (ws_res M))) (wq_tail (queue (ws_res M))) ws
     \<and> ok (ws_res M) \<and> finite T \<and> idle_thread (ws_sched M) \<notin> T \<and> (\<forall>c. c \<notin> T \<longrightarrow> ws_pc M c = Away)
     \<and> waiters_ok M ws
     \<and> (ws \<noteq> [] \<longrightarrow> units (ws_res M) \<le> card {c \<in> T. active M c})
     \<and> int (units (ws_res M)) + (\<Sum>c\<in>T. ws_got M c) = K"

lemma goto_sel [simp]: "ws_sched (goto c p r d M) = ws_sched M" "ws_res (goto c p r d M) = r"
  "ws_pc (goto c p r d M) = (ws_pc M)(c := p)" "ws_got (goto c p r d M) = (ws_got M)(c := ws_got M c + d)"
  by (simp_all add: goto_def)

lemma sum_bump: "finite T \<Longrightarrow> c \<in> T \<Longrightarrow> (\<Sum>x\<in>T. ((f :: u32 \<Rightarrow> int)(c := f c + d)) x) = sum f T + d"
  by (simp add: sum.remove [of T c])

text \<open>One thread moves while the scheduler stays as it is, up to the links of the waiters.\<close>

lemma active_goto:
  assumes run: "state_of (ws_sched M) c = Some THREAD_RUNNING" and T: "finite T" "c \<in> T" and st: "\<And>b. state_of s b = state_of (ws_sched M) b"
  shows "int (card {x \<in> T. active (goto c p r d (M\<lparr>ws_sched := s\<rparr>)) x}) =
    int (card {x \<in> T. active M x}) + of_bool (p \<noteq> Away) - of_bool (ws_pc M c \<noteq> Away)"
proof -
  let ?M = "goto c p r d (M\<lparr>ws_sched := s\<rparr>)" let ?A = "{x \<in> T - {c}. active M x}"
  have "{x \<in> T. active M x} = ?A \<union> (if ws_pc M c \<noteq> Away then {c} else {})"
    using T run by (auto simp: active_def asleep_def)
  moreover have "{x \<in> T. active ?M x} = ?A \<union> (if p \<noteq> Away then {c} else {})"
    using T run by (auto simp: active_def asleep_def st)
  moreover have "finite ?A" "c \<notin> ?A" using T by auto
  ultimately show ?thesis by simp
qed

lemma waiters_ok_goto:
  assumes ok: "waiters_ok M ws" and run: "state_of (ws_sched M) c = Some THREAD_RUNNING" and st: "\<And>b. state_of s b = state_of (ws_sched M) b"
    and "\<And>a. ws_pc M c \<noteq> Waking a" and "\<And>a. p \<noteq> Waking a"
  shows "waiters_ok (goto c p r d (M\<lparr>ws_sched := s\<rparr>)) ws"
proof -
  let ?M = "goto c p r d (M\<lparr>ws_sched := s\<rparr>)"
  have sleep: "asleep M a \<Longrightarrow> asleep ?M a" for a using run by (auto simp: asleep_def st)
  have pc: "ws_pc ?M x = Waking a \<longleftrightarrow> ws_pc M x = Waking a" for x a using assms(4,5) by auto
  show ?thesis unfolding waiters_ok_def pc
  proof (intro conjI ballI allI impI)
    fix x assume "ws_pc ?M x \<noteq> Away"
    then show "state_of (ws_sched ?M) x \<in> {Some THREAD_READY, Some THREAD_RUNNING} \<or> asleep ?M x \<and> (x \<in> set ws \<or> (\<exists>d. ws_pc M d = Waking x))"
      using ok run sleep by (cases "x = c") (auto simp: waiters_ok_def st)
  qed (use ok sleep in \<open>auto simp: waiters_ok_def\<close>)
qed

lemma goto_id: "goto c p r d M = goto c p r d (M\<lparr>ws_sched := ws_sched M\<rparr>)"
  by simp

lemma winvI:
  assumes "sched_ok (ws_sched M) rs ss zs"
    and "queue_of (threads (ws_sched M)) (wq_head (queue (ws_res M))) (wq_tail (queue (ws_res M))) ws"
    and "ok (ws_res M)" and "finite T" and "idle_thread (ws_sched M) \<notin> T" and "\<And>c. c \<notin> T \<Longrightarrow> ws_pc M c = Away"
    and "waiters_ok M ws" and "ws \<noteq> [] \<Longrightarrow> units (ws_res M) \<le> card {c \<in> T. active M c}"
    and "int (units (ws_res M)) + sum (ws_got M) T = K"
  shows "winv units ok queue K T M rs ss zs ws"
  using assms by (simp add: winv_def)

lemma winvD:
  assumes "winv units ok queue K T M rs ss zs ws"
  shows "sched_ok (ws_sched M) rs ss zs"
    and "queue_of (threads (ws_sched M)) (wq_head (queue (ws_res M))) (wq_tail (queue (ws_res M))) ws"
    and "ok (ws_res M)" and "finite T" and "idle_thread (ws_sched M) \<notin> T" and "\<And>c. c \<notin> T \<Longrightarrow> ws_pc M c = Away"
    and "waiters_ok M ws" and "ws \<noteq> [] \<Longrightarrow> units (ws_res M) \<le> card {c \<in> T. active M c}"
    and "int (units (ws_res M)) + sum (ws_got M) T = K"
  using assms by (simp_all add: winv_def)

lemma winv_goto:
  assumes inv: "winv units ok queue K T M rs ss zs ws" and c: "runs T M c p0"
    and "\<And>a. p0 \<noteq> Waking a" and "\<And>a. p \<noteq> Waking a" and "queue r = queue (ws_res M)" and "ok r"
    and d: "int (units r) + d = int (units (ws_res M))"
    and prog: "ws = [] \<or> int (units r) - int (units (ws_res M)) \<le> of_bool (p \<noteq> Away) - of_bool (p0 \<noteq> Away)"
  shows "winv units ok queue K T (goto c p r d M) rs ss zs ws"
proof -
  from c have run: "c \<in> T" "state_of (ws_sched M) c = Some THREAD_RUNNING" "ws_pc M c = p0" by (simp_all add: runs_def)
  from inv have T: "finite T" by (simp add: winv_def)
  have w: "waiters_ok (goto c p r d M) ws"
    by (subst goto_id, rule waiters_ok_goto) (use inv run assms(3,4) in \<open>simp_all add: winv_def\<close>)
  have "int (card {x \<in> T. active (goto c p r d M) x}) = int (card {x \<in> T. active M x}) + of_bool (p \<noteq> Away) - of_bool (p0 \<noteq> Away)"
    using active_goto [OF run(2) T run(1), of "ws_sched M" p r d] run(3) by (simp flip: goto_id)
  then have "ws \<noteq> [] \<longrightarrow> units r \<le> card {x \<in> T. active (goto c p r d M) x}" using inv prog by (auto simp: winv_def)
  moreover have "c' \<notin> T \<Longrightarrow> ws_pc (goto c p r d M) c' = Away" for c' using winvD(6) [OF inv] run(1) by auto
  moreover have "int (units r) + sum (ws_got (goto c p r d M)) T = K"
    using winvD(9) [OF inv] d by (simp only: goto_sel sum_bump [OF T run(1)])
  ultimately show ?thesis using winvD(1-5) [OF inv] assms(5,6) w by (intro winvI) simp_all
qed

lemma asleep_outside:
  assumes "sched_inv (ws_sched M) rs ss zs" and "asleep M a"
  shows "a \<notin> set rs \<union> set ss \<union> set zs" and "\<exists>t. threads (ws_sched M) a = Some t \<and> t_state t = THREAD_BLOCKED"
proof -
  obtain t where "threads (ws_sched M) a = Some t" "t_state t = THREAD_BLOCKED" using assms(2) by (auto simp: asleep_def state_of_def)
  with running_outside(1) [OF assms(1)] show "a \<notin> set rs \<union> set ss \<union> set zs"
    "\<exists>t. threads (ws_sched M) a = Some t \<and> t_state t = THREAD_BLOCKED" by auto
qed

lemma state_of_upd: "state_of (s\<lparr>threads := st\<rparr>) b = map_option t_state (st b)"
  by (simp add: state_of_def)

lemma relinked_state:
  assumes "relinked A st st'" shows "map_option t_state (st' b) = map_option t_state (st b)"
  using relinked_view [OF assms] by (cases "st b"; cases "st' b") (auto simp: view_def dest: fun_cong [of _ _ b])

lemma waiters_ok_take:
  assumes "waiters_ok M (a # ws')" and "a \<notin> set ws'"
    and run: "state_of (ws_sched M) c = Some THREAD_RUNNING" "ws_pc M c = Posting"
    and st: "\<And>b. state_of s b = state_of (ws_sched M) b"
  shows "waiters_ok (goto c (Waking a) r d (M\<lparr>ws_sched := s\<rparr>)) ws'"
proof -
  let ?M = "goto c (Waking a) r d (M\<lparr>ws_sched := s\<rparr>)"
  have sleep: "asleep M x \<Longrightarrow> asleep ?M x" for x using run by (auto simp: asleep_def st)
  show ?thesis unfolding waiters_ok_def
  proof (intro conjI ballI allI impI)
    fix x assume "ws_pc ?M x \<noteq> Away"
    then show "state_of (ws_sched ?M) x \<in> {Some THREAD_READY, Some THREAD_RUNNING} \<or> asleep ?M x \<and> (x \<in> set ws' \<or> (\<exists>d. ws_pc ?M d = Waking x))"
    proof (cases "x = c")
      case False
      with \<open>ws_pc ?M x \<noteq> Away\<close> assms(1) have "state_of (ws_sched M) x \<in> {Some THREAD_READY, Some THREAD_RUNNING} \<or> asleep M x \<and> (x \<in> set (a # ws') \<or> (\<exists>d. ws_pc M d = Waking x))"
        by (auto simp: waiters_ok_def)
      then show ?thesis
      proof (elim disjE conjE exE)
        assume "asleep M x" "x \<in> set (a # ws')"
        then show ?thesis using sleep by (cases "x = a") auto
      next
        fix d assume "asleep M x" "ws_pc M d = Waking x"
        then have "ws_pc ?M d = Waking x" using run(2) by auto
        then show ?thesis using sleep [OF \<open>asleep M x\<close>] by blast
      qed (simp add: st)
    qed (simp add: st run)
  qed (use assms sleep in \<open>auto simp: waiters_ok_def split: if_splits\<close>)
qed

lemma winv_pop:
  assumes inv: "winv units ok queue K T M rs ss zs ws" and c: "runs T M c Posting"
  shows "\<exists>a q s. wait_queue_take (queue (ws_res M)) (ws_sched M) = Inr (a, q, s)
    \<and> (\<forall>r. queue r = q \<longrightarrow> units r = units (ws_res M) \<longrightarrow> ok r \<longrightarrow>
        winv units ok queue K T (goto c (if a = 0 then Away else Waking a) r 0 (M\<lparr>ws_sched := s\<rparr>)) rs ss zs (tl ws))"
proof (cases ws)
  case Nil
  with inv have "wait_queue_take (queue (ws_res M)) (ws_sched M) = Inr (0, queue (ws_res M), ws_sched M)"
    using wq.pop_empty by (simp add: wait_queue_take_def winv_def)
  moreover have "winv units ok queue K T (goto c Away r 0 M) rs ss zs ws"
    if "queue r = queue (ws_res M)" "units r = units (ws_res M)" "ok r" for r
    by (rule winv_goto [OF inv c]) (use that Nil in simp_all)
  ultimately show ?thesis using Nil by auto
next
  case (Cons a ws')
  let ?s = "ws_sched M"
  from c have run: "c \<in> T" "state_of ?s c = Some THREAD_RUNNING" "ws_pc M c = Posting" by (simp_all add: runs_def)
  from inv have ok: "sched_ok ?s rs ss zs" and T: "finite T" and w: "waiters_ok M ws" by (simp_all add: winv_def)
  have q: "queue_of (threads ?s) (wq_head (queue (ws_res M))) (wq_tail (queue (ws_res M))) (a # ws')" using inv Cons by (simp add: winv_def)
  then have a: "a \<noteq> 0" "a \<notin> set ws'" by (auto simp: queue_of_def)
  from wq.pop_law [OF q] obtain q' st where pop: "wait_queue_pop_locked (queue (ws_res M), threads ?s) = Inr (a, q', st)"
    "queue_of st (wq_head q') (wq_tail q') ws'" "relinked (set ws) (threads ?s) st" using Cons by auto
  have disj: "set ws \<inter> (set rs \<union> set ss \<union> set zs) = {}" using asleep_outside(1) [of M] ok w by (auto simp: sched_ok_def waiters_ok_def)
  have st: "state_of (?s\<lparr>threads := st\<rparr>) b = state_of ?s b" for b using relinked_state [OF pop(3)] by (simp add: state_of_def)
  have "winv units ok queue K T (goto c (Waking a) r 0 (M\<lparr>ws_sched := ?s\<lparr>threads := st\<rparr>\<rparr>)) rs ss zs ws'"
    if r: "queue r = q'" "units r = units (ws_res M)" "ok r" for r
  proof -
    let ?M = "goto c (Waking a) r 0 (M\<lparr>ws_sched := ?s\<lparr>threads := st\<rparr>\<rparr>)"
    have "waiters_ok ?M ws'" using waiters_ok_take [OF w [unfolded Cons] a(2) run(2,3) st] .
    moreover have "card {x \<in> T. active ?M x} = card {x \<in> T. active M x}"
      using active_goto [OF run(2) T run(1) st, of "Waking a" r 0] run(3) by simp
    moreover have "x \<notin> T \<Longrightarrow> ws_pc ?M x = Away" for x using winvD(6) [OF inv] run(1) by auto
    moreover have "int (units r) + sum (ws_got ?M) T = K" using winvD(9) [OF inv] r(2) by simp
    ultimately show ?thesis using winvD(4,5,8) [OF inv] r Cons pop(2) sched_ok_relinked [OF ok pop(3) disj]
      by (intro winvI) simp_all
  qed
  then show ?thesis using pop(1) a(1) Cons by (simp add: wait_queue_take_def)
qed

lemma waiters_ok_block:
  assumes w: "waiters_ok M ws" and c: "ws_pc M c = Waiting" "state_of (ws_sched M) c = Some THREAD_RUNNING"
    and st: "\<And>b. state_of s b = (if b = c then Some THREAD_BLOCKED else state_of (ws_sched M) b)"
  shows "waiters_ok (goto c Waiting r d (M\<lparr>ws_sched := s\<rparr>)) (ws @ [c])"
proof -
  let ?M = "goto c Waiting r d (M\<lparr>ws_sched := s\<rparr>)"
  have sleep: "asleep M x \<or> x = c \<Longrightarrow> asleep ?M x" for x using c by (auto simp: asleep_def st)
  have "\<not> asleep M c" using c by (simp add: asleep_def)
  with w have nw: "ws_pc M d \<noteq> Waking c" for d by (auto simp: waiters_ok_def)
  have pc: "ws_pc ?M = ws_pc M" using c by auto
  show ?thesis unfolding waiters_ok_def pc
  proof (intro conjI ballI allI impI)
    fix x assume "ws_pc M x \<noteq> Away"
    with w have "state_of (ws_sched M) x \<in> {Some THREAD_READY, Some THREAD_RUNNING} \<or> asleep M x \<and> (x \<in> set ws \<or> (\<exists>d. ws_pc M d = Waking x))"
      by (auto simp: waiters_ok_def)
    then show "state_of (ws_sched ?M) x \<in> {Some THREAD_READY, Some THREAD_RUNNING} \<or> asleep ?M x \<and> (x \<in> set (ws @ [c]) \<or> (\<exists>d. ws_pc M d = Waking x))"
      using sleep by (cases "x = c") (auto simp: st)
  next
    fix x assume "x \<in> set (ws @ [c])"
    then show "asleep ?M x" using w sleep by (auto simp: waiters_ok_def)
  next
    fix x a assume x: "ws_pc M x = Waking a"
    then have "a \<noteq> c" using nw by blast
    moreover have "asleep M a \<and> a \<notin> set ws" using w x by (auto simp: waiters_ok_def)
    ultimately show "asleep ?M a" "a \<notin> set (ws @ [c])" using sleep by simp_all
    show "d = x" if "ws_pc M d = Waking a" for d using w x that by (auto simp: waiters_ok_def)
  qed
qed

lemma waiters_apart:
  assumes "waiters_ok M ws" and "sched_ok (ws_sched M) rs ss zs"
  shows "set ws \<inter> (set rs \<union> set ss \<union> set zs) = {}"
proof -
  have "sched_inv (ws_sched M) rs ss zs" using assms(2) by (simp add: sched_ok_def)
  from asleep_outside(1) [OF this] show ?thesis using assms(1) unfolding waiters_ok_def by blast
qed

lemma wait_step_blocks:
  assumes ok: "sched_ok s rs ss zs" and q: "queue_of (threads s) (wq_head q) (wq_tail q) ws"
    and disj: "set ws \<inter> (set rs \<union> set ss \<union> set zs) = {}"
    and c: "current_thread s = c" "state_of s c = Some THREAD_RUNNING" "c \<noteq> idle_thread s" "c \<notin> set ws"
  shows "\<exists>q' s'. wait_queue_wait_step False q s = Inr (False, q', s') \<and> sched_ok s' rs ss zs
    \<and> queue_of (threads s') (wq_head q') (wq_tail q') (ws @ [c]) \<and> idle_thread s' = idle_thread s
    \<and> (\<forall>b. state_of s' b = (if b = c then Some THREAD_BLOCKED else state_of s b))"
proof -
  have inv: "sched_inv s rs ss zs" using ok by (simp add: sched_ok_def)
  obtain t where t: "threads s c = Some t" "t_state t = THREAD_RUNNING" using c(2) by (auto simp: state_of_def)
  note out = running_outside [OF inv t(1)]
  obtain q' st where p: "wait_queue_push_locked c (q, threads s) = Inr (q', st)"
    "queue_of st (wq_head q') (wq_tail q') (ws @ [c])" "relinked (insert c (set ws)) (threads s) st"
    using wait_queue_push_law [OF q _ c(4) t(1)] out t by auto
  have ok1: "sched_ok (s\<lparr>threads := st\<rparr>) rs ss zs"
    by (rule sched_ok_relinked [OF ok p(3)]) (use disj out t in auto)
  then have inv1: "sched_inv (s\<lparr>threads := st\<rparr>) rs ss zs" by (simp add: sched_ok_def)
  obtain n m where u: "st c = Some (t\<lparr>t_next := n, t_prev := m\<rparr>)" using relinked_fields [OF p(3) t(1)] by blast
  let ?u = "t\<lparr>t_next := n, t_prev := m\<rparr>"
  let ?s = "s\<lparr>threads := st(c \<mapsto> ?u\<lparr>t_state := THREAD_BLOCKED\<rparr>), reschedule_requested := True\<rparr>"
  have b: "thread_block_current (s\<lparr>threads := st\<rparr>) = Inr ?s" "sched_inv ?s rs ss zs"
    using thread_block_current_law [OF inv1, of ?u] c u t by simp_all
  have "due (scheduler_ticks s) (view (threads ?s)) a = due (scheduler_ticks s) (view st) a" if "a \<in> set ss" for a
    using that out t by (auto simp: due_def view_upd)
  then have f1: "sched_ok ?s rs ss zs" using ok1 b(2) by (simp add: sched_ok_def)
  have f2: "queue_of (threads ?s) (wq_head q') (wq_tail q') (ws @ [c])"
    by (rule queue_of_links [OF p(2)]) (use u in auto)
  have f3: "state_of ?s b = (if b = c then Some THREAD_BLOCKED else state_of s b)" for b
    using relinked_state [OF p(3), of b] by (simp add: state_of_def)
  have f4: "wait_queue_wait_step False q s = Inr (False, q', ?s)"
    using p(1) b(1) c(1) by (simp add: wait_queue_wait_step_def thread_current_def Let_def)
  show ?thesis by (intro exI conjI allI, rule f4, rule f1, rule f2, simp, rule f3)
qed

lemma winv_block:
  assumes inv: "winv units ok queue K T M rs ss zs ws" and c: "runs T M c Waiting" and u: "units (ws_res M) = 0"
  shows "\<exists>q s. wait_queue_wait_step False (queue (ws_res M)) (ws_sched M) = Inr (False, q, s)
    \<and> (\<forall>r. queue r = q \<longrightarrow> units r = 0 \<longrightarrow> ok r \<longrightarrow>
        winv units ok queue K T (goto c Waiting r 0 (M\<lparr>ws_sched := s\<rparr>)) rs ss zs (ws @ [c]))"
proof -
  let ?s = "ws_sched M"
  from c have run: "c \<in> T" "state_of ?s c = Some THREAD_RUNNING" "ws_pc M c = Waiting" "current_thread ?s = c" by (simp_all add: runs_def)
  note i = winvD [OF inv]
  have "asleep M c" if "c \<in> set ws" using i(7) that unfolding waiters_ok_def by blast
  then have "c \<notin> set ws" using run(2) by (auto simp: asleep_def)
  moreover have "c \<noteq> idle_thread ?s" using i(5) run(1) by auto
  ultimately obtain q s where
    s: "wait_queue_wait_step False (queue (ws_res M)) ?s = Inr (False, q, s)" "sched_ok s rs ss zs"
    "queue_of (threads s) (wq_head q) (wq_tail q) (ws @ [c])" "idle_thread s = idle_thread ?s"
    "\<And>b. state_of s b = (if b = c then Some THREAD_BLOCKED else state_of ?s b)"
    using wait_step_blocks [OF i(1,2) waiters_apart [OF i(7,1)] run(4,2)] by blast
  have "winv units ok queue K T (goto c Waiting r 0 (M\<lparr>ws_sched := s\<rparr>)) rs ss zs (ws @ [c])"
    if r: "queue r = q" "units r = 0" "ok r" for r
  proof (rule winvI)
    show "waiters_ok (goto c Waiting r 0 (M\<lparr>ws_sched := s\<rparr>)) (ws @ [c])"
      by (rule waiters_ok_block [OF i(7) run(3,2) s(5)])
    show "x \<notin> T \<Longrightarrow> ws_pc (goto c Waiting r 0 (M\<lparr>ws_sched := s\<rparr>)) x = Away" for x using i(6) run(1) by auto
  qed (use r s i u in simp_all)
  with s(1) show ?thesis by blast
qed

lemma waiters_ok_wake:
  assumes w: "waiters_ok M ws" and c: "ws_pc M c = Waking a" "state_of (ws_sched M) c = Some THREAD_RUNNING"
    and st: "\<And>b. state_of s b = (if b = a then Some THREAD_READY else state_of (ws_sched M) b)"
  shows "waiters_ok (goto c Away r d (M\<lparr>ws_sched := s\<rparr>)) ws"
proof -
  let ?M = "goto c Away r d (M\<lparr>ws_sched := s\<rparr>)"
  have a: "asleep M a" "a \<notin> set ws" "\<And>d. ws_pc M d = Waking a \<Longrightarrow> d = c" using w c by (auto simp: waiters_ok_def)
  have sleep: "asleep M x \<Longrightarrow> x \<noteq> a \<Longrightarrow> asleep ?M x" for x using c by (auto simp: asleep_def st)
  show ?thesis unfolding waiters_ok_def
  proof (intro conjI ballI allI impI)
    fix x assume x: "ws_pc ?M x \<noteq> Away"
    then have xc: "x \<noteq> c" "ws_pc M x \<noteq> Away" by (auto split: if_splits)
    with w have "state_of (ws_sched M) x \<in> {Some THREAD_READY, Some THREAD_RUNNING} \<or> asleep M x \<and> (x \<in> set ws \<or> (\<exists>d. ws_pc M d = Waking x))"
      by (auto simp: waiters_ok_def)
    then show "state_of (ws_sched ?M) x \<in> {Some THREAD_READY, Some THREAD_RUNNING} \<or> asleep ?M x \<and> (x \<in> set ws \<or> (\<exists>d. ws_pc ?M d = Waking x))"
    proof (cases "x = a")
      case False
      have "d \<noteq> c" if "ws_pc M d = Waking x" for d using that c(1) False by auto
      with \<open>_ \<or> _\<close> False sleep [of x] show ?thesis by (auto simp: st)
    qed (simp add: st)
  next
    fix x assume "x \<in> set ws"
    then show "asleep ?M x" using w a(2) sleep [of x] by (auto simp: waiters_ok_def)
  next
    fix x b assume "ws_pc ?M x = Waking b"
    then have x: "x \<noteq> c" "ws_pc M x = Waking b" by (auto split: if_splits)
    then have "b \<noteq> a" using a(3) by blast
    with x show "asleep ?M b" "b \<notin> set ws" using w sleep [of b] by (auto simp: waiters_ok_def)
    show "d = x" if "ws_pc ?M d = Waking b" for d using w x that by (auto simp: waiters_ok_def split: if_splits)
  qed
qed

lemma thread_wake_ready:
  assumes ok: "sched_ok s rs ss zs" and a: "state_of s a = Some THREAD_BLOCKED" "a \<noteq> idle_thread s"
  shows "\<exists>s'. thread_wake a s = Inr s' \<and> sched_ok s' (rs @ [a]) ss zs \<and> idle_thread s' = idle_thread s
    \<and> (\<forall>b. state_of s' b = (if b = a then Some THREAD_READY else state_of s b))
    \<and> (\<forall>b. b \<notin> insert a (set rs) \<longrightarrow> threads s' b = threads s b)"
proof -
  have inv: "sched_inv s rs ss zs" using ok by (simp add: sched_ok_def)
  obtain t where t: "threads s a = Some t" "t_state t = THREAD_BLOCKED" using a(1) by (auto simp: state_of_def)
  have out: "a \<notin> set ss" using running_outside(1) [OF inv t(1)] t(2) by simp
  obtain s' where s': "thread_wake a s = Inr s'" "sched_inv s' (rs @ [a]) ss zs"
    and sel: "s' = s\<lparr>ready := ready s', threads := threads s', reschedule_requested := True\<rparr>"
    and vw: "\<And>b. b \<noteq> a \<Longrightarrow> view (threads s') b = view (threads s) b"
    and fr: "\<forall>b. b \<notin> insert a (set rs) \<longrightarrow> threads s' b = threads s b"
    using thread_wake_law [OF inv t(1)] a(2) t(2) by auto
  have sels: "idle_thread s' = idle_thread s" "scheduler_ticks s' = scheduler_ticks s" "scheduler_initialized s' = scheduler_initialized s"
    by (subst sel, simp)+
  have "due (scheduler_ticks s) (view (threads s')) b = due (scheduler_ticks s) (view (threads s)) b" if "b \<in> set ss" for b
  proof -
    have "b \<noteq> a" using that out by blast
    then show ?thesis unfolding due_def by (simp add: vw)
  qed
  then have "sched_ok s' (rs @ [a]) ss zs" using ok s'(2) by (simp add: sched_ok_def sels)
  moreover have "state_of s' b = (if b = a then Some THREAD_READY else state_of s b)" for b
    using state_of_ready [OF s'(2), of a] view_state [OF vw, of b] by simp
  ultimately show ?thesis using s'(1) sels(1) fr by blast
qed

lemma card_swap: "finite A \<Longrightarrow> a \<notin> A \<Longrightarrow> c \<in> A \<Longrightarrow> card (insert a (A - {c})) = card A"
  by (cases "card A") (auto simp: card_Diff_singleton)

lemma winv_wake:
  assumes inv: "winv units ok queue K T M rs ss zs ws" and c: "runs T M c (Waking a)"
  shows "\<exists>s. thread_wake a (ws_sched M) = Inr s
    \<and> winv units ok queue K T (goto c Away (ws_res M) 0 (M\<lparr>ws_sched := s\<rparr>)) (rs @ [a]) ss zs ws"
proof -
  let ?s = "ws_sched M"
  from c have run: "c \<in> T" "state_of ?s c = Some THREAD_RUNNING" "ws_pc M c = Waking a" by (simp_all add: runs_def)
  note i = winvD [OF inv]
  have a: "asleep M a" "a \<notin> set ws" using i(7) run(3) unfolding waiters_ok_def by blast+
  then have as: "state_of ?s a = Some THREAD_BLOCKED" "ws_pc M a = Waiting" by (simp_all add: asleep_def)
  have aT: "a \<in> T" using i(6) [of a] as(2) by auto
  then have "a \<noteq> idle_thread ?s" using i(5) by auto
  with thread_wake_ready [OF i(1) as(1)] obtain s where s: "thread_wake a ?s = Inr s" "sched_ok s (rs @ [a]) ss zs"
    "idle_thread s = idle_thread ?s" "\<And>b. state_of s b = (if b = a then Some THREAD_READY else state_of ?s b)"
    "\<And>b. b \<notin> insert a (set rs) \<Longrightarrow> threads s b = threads ?s b" by blast
  let ?M = "goto c Away (ws_res M) 0 (M\<lparr>ws_sched := s\<rparr>)"
  have ca: "c \<noteq> a" using run as by auto
  have "{x \<in> T. active ?M x} = insert a ({x \<in> T. active M x} - {c})"
    using aT ca as run(3) by (auto simp: active_def asleep_def s(4))
  moreover have "a \<notin> {x \<in> T. active M x}" using a(1) by (simp add: active_def)
  moreover have "c \<in> {x \<in> T. active M x}" using run by (simp add: active_def asleep_def)
  ultimately have card: "card {x \<in> T. active ?M x} = card {x \<in> T. active M x}"
    using card_swap [of "{x \<in> T. active M x}" a c] i(4) by simp
  have "threads s b = threads ?s b" if b: "b \<in> set ws" for b
    using s(5) [of b] b a(2) waiters_apart [OF i(7,1)] by blast
  then have "queue_of (threads s) (wq_head (queue (ws_res M))) (wq_tail (queue (ws_res M))) ws"
    by (intro queue_of_links [OF i(2)]) (simp add: links_def)
  moreover have "waiters_ok ?M ws" by (rule waiters_ok_wake [OF i(7) run(3,2) s(4)])
  moreover have "x \<notin> T \<Longrightarrow> ws_pc ?M x = Away" for x using i(6) run(1) by auto
  ultimately have "winv units ok queue K T ?M (rs @ [a]) ss zs ws"
    using i(3,4,5,8,9) s(2,3) card by (intro winvI) simp_all
  with s(1) show ?thesis by blast
qed

lemma winv_interrupt:
  assumes inv: "winv units ok queue K T M rs ss zs ws" and op: "op = Tick \<or> (\<exists>frame. frame \<noteq> 0 \<and> op = Schedule frame)"
  shows "\<exists>s rs' ss' zs'. run_op op (ws_sched M) = Some (Inr s) \<and> winv units ok queue K T (M\<lparr>ws_sched := s\<rparr>) rs' ss' zs' ws"
proof -
  let ?s = "ws_sched M"
  note i = winvD [OF inv]
  obtain s rs' ss' zs' where s: "run_op op ?s = Some (Inr s)" "sched_ok s rs' ss' zs'" and q: "quiet ?s s"
    using tick_quiet [OF i(1)] schedule_quiet [OF i(1)] op by blast
  let ?M = "M\<lparr>ws_sched := s\<rparr>"
  have pcT: "b \<noteq> idle_thread ?s" if "ws_pc M b \<noteq> Away" for b using i(5) i(6) [of b] that by auto
  have sleep: "asleep ?M b \<longleftrightarrow> asleep M b" for b
  proof (cases "ws_pc M b = Waiting")
    case True
    with pcT [of b] have "b \<noteq> idle_thread ?s" by simp
    with q have "state_of s b = Some THREAD_BLOCKED \<longleftrightarrow> state_of ?s b = Some THREAD_BLOCKED" unfolding quiet_def by blast
    then show ?thesis by (simp add: asleep_def)
  qed (simp add: asleep_def)
  have run: "state_of s b \<in> {Some THREAD_READY, Some THREAD_RUNNING}"
    if "ws_pc M b \<noteq> Away" "state_of ?s b \<in> {Some THREAD_READY, Some THREAD_RUNNING}" for b
    using q pcT [OF that(1)] that(2) unfolding quiet_def by blast
  have "links (threads s) b = links (threads ?s) b" if b: "b \<in> set ws" for b
  proof -
    have "asleep M b" using i(7) b unfolding waiters_ok_def by blast
    then have "state_of ?s b = Some THREAD_BLOCKED" "ws_pc M b \<noteq> Away" by (simp_all add: asleep_def)
    with q pcT [of b] show ?thesis unfolding quiet_def by blast
  qed
  then have "queue_of (threads s) (wq_head (queue (ws_res M))) (wq_tail (queue (ws_res M))) ws"
    by (rule queue_of_links [OF i(2)])
  moreover have "waiters_ok ?M ws"
    using i(7) run unfolding waiters_ok_def sleep by (simp del: insert_iff) blast
  moreover have "active ?M = active M" by (simp add: active_def sleep fun_eq_iff)
  moreover have "idle_thread s = idle_thread ?s" using q by (simp add: quiet_def)
  ultimately have "winv units ok queue K T ?M rs' ss' zs' ws"
    using i(3-6,8,9) s(2) by (intro winvI) simp_all
  with s(1) show ?thesis by blast
qed


section \<open>The contract of a waitable resource\<close>

text \<open>
  What the functions of a mutex or a semaphore promise: taking a unit and giving one back change the
  number of free units by one and leave the queue alone, and a thread waits exactly when none is free.
\<close>

locale waitable =
  fixes enter :: "u32 \<Rightarrow> 'r \<Rightarrow> (bool \<times> 'r) res" and again :: "u32 \<Rightarrow> 'r \<Rightarrow> bool \<times> 'r"
    and wait :: "'r \<Rightarrow> sched \<Rightarrow> (bool \<times> 'r \<times> sched) res" and put :: "u32 \<Rightarrow> 'r \<Rightarrow> 'r res"
    and queue :: "'r \<Rightarrow> wait_queue" and set_queue :: "wait_queue \<Rightarrow> 'r \<Rightarrow> 'r"
    and units :: "'r \<Rightarrow> nat" and ok :: "'r \<Rightarrow> bool"
  assumes enter_law: "ok r \<Longrightarrow> enter c r = Inr (g, r') \<Longrightarrow> ok r' \<and> queue r' = queue r \<and> int (units r') + of_bool g = int (units r)"
    and again_law: "ok r \<Longrightarrow> again c r = (g, r') \<Longrightarrow> ok r' \<and> queue r' = queue r \<and> int (units r') + of_bool g = int (units r)"
    and wait_law: "wait r s = bindE (wait_queue_wait_step (units r > 0) (queue r) s) (\<lambda>(g, q, s1). Inr (g, set_queue q r, s1))"
    and put_law: "ok r \<Longrightarrow> put c r = Inr r' \<Longrightarrow> ok r' \<and> queue r' = queue r \<and> units r' = units r + 1"
    and set_queue_law: "units (set_queue q r) = units r" "queue (set_queue q r) = q" "ok r \<Longrightarrow> ok (set_queue q r)"
begin

abbreviation "step T \<equiv> wstep T enter again wait put queue set_queue"
abbreviation "rinv \<equiv> winv units ok queue"

lemma wait_inv:
  assumes inv: "rinv K T M rs ss zs ws" and c: "runs T M c Waiting"
  shows "\<exists>g r s ws'. wait (ws_res M) (ws_sched M) = Inr (g, r, s)
    \<and> rinv K T (goto c (if g then Testing else Waiting) r 0 (M\<lparr>ws_sched := s\<rparr>)) rs ss zs ws'"
proof (cases "units (ws_res M) > 0")
  case True
  then have "wait (ws_res M) (ws_sched M) = Inr (True, set_queue (queue (ws_res M)) (ws_res M), ws_sched M)"
    by (simp add: wait_law wait_queue_wait_step_def)
  moreover have "rinv K T (goto c Testing (set_queue (queue (ws_res M)) (ws_res M)) 0 M) rs ss zs ws"
    by (rule winv_goto [OF inv c]) (use winvD(3) [OF inv] in \<open>simp_all add: set_queue_law\<close>)
  ultimately show ?thesis by auto
next
  case False
  then have u: "units (ws_res M) = 0" by simp
  from winv_block [OF inv c u] obtain q s where s: "wait_queue_wait_step False (queue (ws_res M)) (ws_sched M) = Inr (False, q, s)"
    and i: "\<And>r. queue r = q \<Longrightarrow> units r = 0 \<Longrightarrow> ok r \<Longrightarrow> rinv K T (goto c Waiting r 0 (M\<lparr>ws_sched := s\<rparr>)) rs ss zs (ws @ [c])" by blast
  have "rinv K T (goto c Waiting (set_queue q (ws_res M)) 0 (M\<lparr>ws_sched := s\<rparr>)) rs ss zs (ws @ [c])"
    by (rule i) (use winvD(3) [OF inv] u in \<open>simp_all add: set_queue_law\<close>)
  moreover have "wait (ws_res M) (ws_sched M) = Inr (False, set_queue q (ws_res M), s)" using s u by (simp add: wait_law)
  ultimately show ?thesis by auto
qed

lemma step_inv:
  assumes "step T M M'" and inv: "rinv K T M rs ss zs ws"
  shows "\<exists>rs' ss' zs' ws'. rinv K T M' rs' ss' zs' ws'"
  using assms(1)
proof cases
  case (enter c g r)
  note l = enter_law [OF winvD(3) [OF inv] enter(3)]
  have "rinv K T (goto c (if g then Away else Waiting) r (of_bool g) M) rs ss zs ws"
    by (rule winv_goto [OF inv enter(2)]) (use l in auto)
  with enter(1) show ?thesis by blast
next
  case (wait c g r s)
  with wait_inv [OF inv wait(2)] have "\<exists>ws'. rinv K T M' rs ss zs ws'" by auto
  then show ?thesis by blast
next
  case (again c g r)
  note l = again_law [OF winvD(3) [OF inv] again(3)]
  have "rinv K T (goto c (if g then Away else Waiting) r (of_bool g) M) rs ss zs ws"
    by (rule winv_goto [OF inv again(2)]) (use l in auto)
  with again(1) show ?thesis by blast
next
  case (put c r)
  note l = put_law [OF winvD(3) [OF inv] put(3)]
  have "rinv K T (goto c Posting r (- 1) M) rs ss zs ws"
    by (rule winv_goto [OF inv put(2)]) (use l in auto)
  with put(1) show ?thesis by blast
next
  case (pop c a q s)
  from winv_pop [OF inv pop(2)] pop(3) have
    "queue r = q \<Longrightarrow> units r = units (ws_res M) \<Longrightarrow> ok r \<Longrightarrow>
     rinv K T (goto c (if a = 0 then Away else Waking a) r 0 (M\<lparr>ws_sched := s\<rparr>)) rs ss zs (tl ws)" for r by auto
  from this [of "set_queue q (ws_res M)"] show ?thesis using pop(1) winvD(3) [OF inv] set_queue_law by blast
next
  case (wake c a s)
  with winv_wake [OF inv wake(2)] show ?thesis by auto
next
  case (interrupt op s)
  with winv_interrupt [OF inv interrupt(2)] show ?thesis by auto
qed

lemma run_inv:
  assumes "(step T)\<^sup>*\<^sup>* M M'" and "rinv K T M rs ss zs ws"
  shows "\<exists>rs' ss' zs' ws'. rinv K T M' rs' ss' zs' ws'"
  using assms by (induction rule: rtranclp_induct) (use step_inv in blast)+

text \<open>The next section of the running thread succeeds: it waits exactly when no unit is free, pops the
  first waiter, and makes the popped waiter ready.\<close>

lemma wait_succeeds:
  assumes "rinv K T M rs ss zs ws" and "runs T M c Waiting"
  shows "\<exists>r s. wait (ws_res M) (ws_sched M) = Inr (units (ws_res M) > 0, r, s)"
proof -
  obtain g r s where w: "wait (ws_res M) (ws_sched M) = Inr (g, r, s)" using wait_inv [OF assms] by blast
  then have "g = (units (ws_res M) > 0)"
    by (auto simp: wait_law wait_queue_wait_step_def bindE_eq_Inr_iff Let_def split: if_splits)
  with w show ?thesis by blast
qed

lemma pop_succeeds:
  assumes "rinv K T M rs ss zs ws" and "runs T M c Posting"
  shows "\<exists>q s. wait_queue_take (queue (ws_res M)) (ws_sched M) = Inr (wq_head (queue (ws_res M)), q, s)"
proof -
  obtain a q s where w: "wait_queue_take (queue (ws_res M)) (ws_sched M) = Inr (a, q, s)" using winv_pop [OF assms] by blast
  then have "a = wq_head (queue (ws_res M))"
    by (auto simp: wait_queue_take_def wait_queue_pop_locked_def bindE_eq_Inr_iff Let_def split: if_splits)
  with w show ?thesis by blast
qed

lemma wake_succeeds:
  assumes inv: "rinv K T M rs ss zs ws" and c: "runs T M c (Waking a)"
  shows "\<exists>s. thread_wake a (ws_sched M) = Inr s \<and> state_of s a = Some THREAD_READY"
proof -
  have "asleep M a" using winvD(7) [OF inv] c unfolding waiters_ok_def runs_def by blast
  then have "state_of (ws_sched M) a = Some THREAD_BLOCKED" by (simp add: asleep_def)
  moreover from inv winvD(5,6) [OF inv] \<open>asleep M a\<close> have "a \<noteq> idle_thread (ws_sched M)" by (auto simp: asleep_def)
  ultimately show ?thesis using thread_wake_ready [OF winvD(1) [OF inv]] by fastforce
qed

lemma someone_active:
  assumes inv: "rinv K T M rs ss zs ws" and q: "wq_head (queue (ws_res M)) \<noteq> 0"
  shows "units (ws_res M) \<le> card {c \<in> T. ws_pc M c \<noteq> Away \<and> state_of (ws_sched M) c \<in> {Some THREAD_READY, Some THREAD_RUNNING}}"
proof -
  note i = winvD [OF inv]
  have "ws \<noteq> []" using i(2) q by (auto simp: queue_of_def)
  then have "units (ws_res M) \<le> card {c \<in> T. active M c}" by (rule i(8))
  also have "\<dots> \<le> card {c \<in> T. ws_pc M c \<noteq> Away \<and> state_of (ws_sched M) c \<in> {Some THREAD_READY, Some THREAD_RUNNING}}"
  proof (rule card_mono)
    show "{c \<in> T. active M c} \<subseteq> {c \<in> T. ws_pc M c \<noteq> Away \<and> state_of (ws_sched M) c \<in> {Some THREAD_READY, Some THREAD_RUNNING}}"
      using i(7) unfolding waiters_ok_def active_def by blast
  qed (use i(4) in simp)
  finally show ?thesis .
qed

end

text \<open>Threads that have not yet called any of the functions, and an empty queue.\<close>

definition fresh :: "u32 set \<Rightarrow> 'r wsys \<Rightarrow> bool" where
  "fresh T M \<longleftrightarrow> finite T \<and> idle_thread (ws_sched M) \<notin> T \<and> ws_pc M = (\<lambda>_. Away) \<and> ws_got M = (\<lambda>_. 0)
     \<and> (\<exists>rs ss zs. sched_ok (ws_sched M) rs ss zs)"

lemma fresh_winv:
  assumes "fresh T M" and "ok (ws_res M)" and "wq_head (queue (ws_res M)) = 0" and "wq_tail (queue (ws_res M)) = 0"
  shows "\<exists>rs ss zs. winv units ok queue (int (units (ws_res M))) T M rs ss zs []"
  using assms by (auto simp: winv_def fresh_def waiters_ok_def queue_of_def)

interpretation mw: waitable mutex_lock_enter mutex_lock_again mutex_lock_wait mutex_unlock_release mx_waiters
  "\<lambda>q m. m\<lparr>mx_waiters := q\<rparr>" "\<lambda>m. of_bool (\<not> mx_locked m)" "\<lambda>_. True"
  by unfold_locales (auto simp: mutex_lock_enter_def mutex_lock_again_def mutex_lock_wait_def mutex_unlock_release_def
    mutex_available_condition_def bindE_def split: if_splits sum.splits)

interpretation sw: waitable "\<lambda>_ sem. Inr (semaphore_wait_test sem)" "\<lambda>_. semaphore_wait_test" semaphore_wait_wait
  "\<lambda>_. semaphore_post" sem_waiters "\<lambda>q sem. sem\<lparr>sem_waiters := q\<rparr>" "\<lambda>sem. nat (sem_count sem)" "\<lambda>sem. 0 \<le> sem_count sem"
  by unfold_locales (auto simp: semaphore_wait_test_def semaphore_wait_wait_def semaphore_post_def
    semaphore_available_condition_def bindE_def nat_add_distrib split: if_splits sum.splits)

section \<open>Mutual exclusion and wake-ups\<close>

definition mutex_step :: "u32 set \<Rightarrow> mutex wsys \<Rightarrow> mutex wsys \<Rightarrow> bool" where
  "mutex_step T = wstep T mutex_lock_enter mutex_lock_again mutex_lock_wait mutex_unlock_release
     mx_waiters (\<lambda>q m. m\<lparr>mx_waiters := q\<rparr>)"

definition semaphore_step :: "u32 set \<Rightarrow> semaphore wsys \<Rightarrow> semaphore wsys \<Rightarrow> bool" where
  "semaphore_step T = wstep T (\<lambda>_ sem. Inr (semaphore_wait_test sem)) (\<lambda>_. semaphore_wait_test) semaphore_wait_wait
     (\<lambda>_. semaphore_post) sem_waiters (\<lambda>q sem. sem\<lparr>sem_waiters := q\<rparr>)"

definition owned :: "mutex wsys \<Rightarrow> bool" where
  "owned M \<longleftrightarrow> ws_got M = (\<lambda>c. of_bool (mx_locked (ws_res M) \<and> mx_owner (ws_res M) = c))"

lemma owned_step:
  assumes "mutex_step T M M'" and o: "owned M"
  shows "owned M'"
  using assms(1) unfolding mutex_step_def
proof cases
  case (wait c g r s)
  then have "mx_locked r = mx_locked (ws_res M) \<and> mx_owner r = mx_owner (ws_res M)"
    by (auto simp: mutex_lock_wait_def bindE_eq_Inr_iff split: prod.splits)
  with o wait(1) show ?thesis by (auto simp: owned_def)
next
  case (enter c g r)
  with o show ?thesis by (auto simp: owned_def mutex_lock_enter_def mutex_lock_again_def fun_eq_iff split: if_splits)
next
  case (again c g r)
  with o show ?thesis by (auto simp: owned_def mutex_lock_again_def fun_eq_iff split: if_splits)
next
  case (put c r)
  with o show ?thesis by (auto simp: owned_def mutex_unlock_release_def fun_eq_iff split: if_splits)
qed (use o in \<open>auto simp: owned_def\<close>)

lemma mutex_run_inv:
  assumes "fresh T M" and "ws_res M = mutex_init name m" and "(mutex_step T)\<^sup>*\<^sup>* M M'"
  obtains rs ss zs ws where "winv (\<lambda>m. of_bool (\<not> mx_locked m)) (\<lambda>_. True) mx_waiters 1 T M' rs ss zs ws"
proof -
  have "wq_head (mx_waiters (ws_res M)) = 0" "wq_tail (mx_waiters (ws_res M)) = 0" "\<not> mx_locked (ws_res M)"
    using assms(2) by (auto simp: mutex_init_def wait_queue_init_def Let_def)
  with fresh_winv [OF assms(1), of "\<lambda>_. True" mx_waiters "\<lambda>m. of_bool (\<not> mx_locked m)"]
  obtain rs ss zs where "winv (\<lambda>m. of_bool (\<not> mx_locked m)) (\<lambda>_. True) mx_waiters 1 T M rs ss zs []" by auto
  from mw.run_inv [OF assms(3) [unfolded mutex_step_def] this] that show thesis by blast
qed

lemma semaphore_run_inv:
  assumes "fresh T M" and "semaphore_init name n sem = Inr (ws_res M)" and "(semaphore_step T)\<^sup>*\<^sup>* M M'"
  obtains rs ss zs ws where "winv (\<lambda>sem. nat (sem_count sem)) (\<lambda>sem. 0 \<le> sem_count sem) sem_waiters n T M' rs ss zs ws"
proof -
  have r: "ws_res M = sem\<lparr>sem_name := (case name of None \<Rightarrow> ''unnamed'' | Some n \<Rightarrow> n), sem_count := n,
      sem_waiters := wait_queue_init (Some (case name of None \<Rightarrow> ''unnamed'' | Some n \<Rightarrow> n)) (sem_waiters sem)\<rparr>" "0 \<le> n"
    using assms(2) by (auto simp: semaphore_init_def Let_def split: if_splits)
  then have "wq_head (sem_waiters (ws_res M)) = 0" "wq_tail (sem_waiters (ws_res M)) = 0" "sem_count (ws_res M) = n"
    by (simp_all add: wait_queue_init_def)
  with fresh_winv [OF assms(1), of "\<lambda>sem. 0 \<le> sem_count sem" sem_waiters "\<lambda>sem. nat (sem_count sem)"] r(2)
  obtain rs ss zs where "winv (\<lambda>sem. nat (sem_count sem)) (\<lambda>sem. 0 \<le> sem_count sem) sem_waiters n T M rs ss zs []" by auto
  from sw.run_inv [OF assms(3) [unfolded semaphore_step_def] this] that show thesis by blast
qed

definition sample_wsys :: "'r \<Rightarrow> 'r wsys" where
  "sample_wsys r = \<lparr>ws_sched = sample_sched, ws_res = r, ws_pc = (\<lambda>_. Away), ws_got = (\<lambda>_. 0)\<rparr>"

definition sample_mutex :: mutex where
  "sample_mutex = \<lparr>mx_name = ''m'', mx_locked = False, mx_owner = 0, mx_waiters = \<lparr>wq_name = ''m'', wq_head = 0, wq_tail = 0\<rparr>\<rparr>"

definition sample_semaphore :: semaphore where
  "sample_semaphore = \<lparr>sem_name = ''s'', sem_count = 3, sem_waiters = \<lparr>wq_name = ''s'', wq_head = 0, wq_tail = 0\<rparr>\<rparr>"

lemma sample_wsys_fresh: "fresh {32} (sample_wsys r)"
  using sample_sched_ok by (auto simp: fresh_def sample_wsys_def) (simp add: sample_sched_def)

lemma sample_wsys_runs: "runs {32} (sample_wsys r) 32 Away"
  by (simp add: runs_def sample_wsys_def sample_sched_def state_of_def sample_thread_def)

lemma sample_mutex_step:
  "mutex_step {32} (sample_wsys sample_mutex)
     (goto 32 Away (sample_mutex\<lparr>mx_locked := True, mx_owner := 32\<rparr>) 1 (sample_wsys sample_mutex))"
  using wstep.enter [OF sample_wsys_runs, of mutex_lock_enter sample_mutex True]
  by (simp add: mutex_step_def mutex_lock_enter_def mutex_lock_again_def sample_mutex_def sample_wsys_def)

lemma sample_mutex_init: "ws_res (sample_wsys sample_mutex) = mutex_init (Some ''m'') sample_mutex"
  by (simp add: sample_mutex_def mutex_init_def wait_queue_init_def sample_wsys_def Let_def)

lemma owned_run:
  assumes "fresh T M" and "ws_res M = mutex_init name m" and "(mutex_step T)\<^sup>*\<^sup>* M M'"
  shows "owned M'"
proof -
  have "owned M" using assms(1,2) by (simp add: owned_def fresh_def mutex_init_def Let_def)
  with assms(3) show ?thesis by (induction rule: rtranclp_induct) (use owned_step in blast)+
qed

text \<open>
  C21. Mutual exclusion. Threads lock and unlock an initialised mutex, wait for it and wake each other
  in any interleaving with timer ticks and scheduling interrupts. At every moment the number of
  times a thread has taken the mutex and not yet given it back is one for the owner of a locked
  mutex and zero for all others.
\<close>

theorem mutex_mutual_exclusion:
  assumes "fresh T M" and "ws_res M = mutex_init name m" and "(mutex_step T)\<^sup>*\<^sup>* M M'"
  shows "ws_got M' = (\<lambda>c. of_bool (mx_locked (ws_res M') \<and> mx_owner (ws_res M') = c))"
  using owned_run [OF assms] by (simp add: owned_def)

theorem mutex_mutual_exclusion_witness:
  "ws_got (goto 32 Away (sample_mutex\<lparr>mx_locked := True, mx_owner := 32\<rparr>) 1 (sample_wsys sample_mutex)) = (\<lambda>c. of_bool (32 = c))"
  using mutex_mutual_exclusion [OF sample_wsys_fresh sample_mutex_init r_into_rtranclp [of "mutex_step {32}", OF sample_mutex_step]]
  by simp

text \<open>
  C22. No wake-up is lost and nothing fails. In any such run, whenever the mutex is free while threads
  queue for it, some thread that can run is on its way to wake one of them or to take the mutex. The
  next section of the running thread never panics: in the loop of \<open>wait_queue_wait\<close> it goes on
  exactly when the mutex is free and blocks otherwise, after the release it pops the first waiter, a
  popped waiter becomes ready, and a thread that holds the mutex can release it.
\<close>

theorem mutex_no_lost_wakeup:
  assumes "fresh T M" and "ws_res M = mutex_init name m" and "(mutex_step T)\<^sup>*\<^sup>* M M'"
  shows "(mx_locked (ws_res M') \<or> wq_head (mx_waiters (ws_res M')) = 0
      \<or> (\<exists>c\<in>T. ws_pc M' c \<noteq> Away \<and> state_of (ws_sched M') c \<in> {Some THREAD_READY, Some THREAD_RUNNING}))
    \<and> (\<forall>c. runs T M' c Waiting \<longrightarrow>
         (\<exists>r s. mutex_lock_wait (ws_res M') (ws_sched M') = Inr (\<not> mx_locked (ws_res M'), r, s)))
    \<and> (\<forall>c. runs T M' c Posting \<longrightarrow> (\<exists>q s. wait_queue_take (mx_waiters (ws_res M')) (ws_sched M')
         = Inr (wq_head (mx_waiters (ws_res M')), q, s)))
    \<and> (\<forall>c a. runs T M' c (Waking a) \<longrightarrow> (\<exists>s. thread_wake a (ws_sched M') = Inr s \<and> state_of s a = Some THREAD_READY))
    \<and> (\<forall>c. ws_got M' c = 1 \<longrightarrow> (\<exists>r. mutex_unlock_release c (ws_res M') = Inr r))"
proof -
  from mutex_run_inv [OF assms] obtain rs ss zs ws where
    inv: "winv (\<lambda>m. of_bool (\<not> mx_locked m)) (\<lambda>_. True) mx_waiters 1 T M' rs ss zs ws" .
  let ?A = "{c \<in> T. ws_pc M' c \<noteq> Away \<and> state_of (ws_sched M') c \<in> {Some THREAD_READY, Some THREAD_RUNNING}}"
  have "?A \<noteq> {}" if "\<not> mx_locked (ws_res M')" "wq_head (mx_waiters (ws_res M')) \<noteq> 0"
    using mw.someone_active [OF inv that(2)] that(1) by (intro notI) (simp only: card.empty, simp)
  moreover have "\<exists>r s. mutex_lock_wait (ws_res M') (ws_sched M') = Inr (\<not> mx_locked (ws_res M'), r, s)"
    if "runs T M' c Waiting" for c
    using mw.wait_succeeds [OF inv that] by simp
  moreover have "\<exists>r. mutex_unlock_release c (ws_res M') = Inr r" if "ws_got M' c = 1" for c
    using owned_run [OF assms] that by (auto simp: owned_def mutex_unlock_release_def split: if_splits)
  ultimately show ?thesis using mw.pop_succeeds [OF inv] mw.wake_succeeds [OF inv] by blast
qed

theorem mutex_no_lost_wakeup_witness:
  "\<exists>r q s. mutex_unlock_release 32 (sample_mutex\<lparr>mx_locked := True, mx_owner := 32\<rparr>) = Inr r
     \<and> wait_queue_take (mx_waiters r) sample_sched = Inr (0, q, s)"
proof -
  let ?M1 = "goto 32 Away (sample_mutex\<lparr>mx_locked := True, mx_owner := 32\<rparr>) 1 (sample_wsys sample_mutex)"
  let ?M2 = "goto 32 Posting sample_mutex (- 1) ?M1"
  have r: "runs {32} ?M1 32 Away" "runs {32} ?M2 32 Posting"
    using sample_wsys_runs [of sample_mutex] by (simp_all add: runs_def)
  have u: "mutex_unlock_release 32 (sample_mutex\<lparr>mx_locked := True, mx_owner := 32\<rparr>) = Inr sample_mutex"
    by (simp add: mutex_unlock_release_def sample_mutex_def)
  then have "mutex_unlock_release 32 (ws_res ?M1) = Inr sample_mutex" by simp
  with r(1) have "mutex_step {32} ?M1 ?M2" unfolding mutex_step_def by (rule wstep.put)
  with sample_mutex_step have "(mutex_step {32})\<^sup>*\<^sup>* (sample_wsys sample_mutex) ?M2" 
    by (intro rtranclp.rtrancl_into_rtrancl [OF r_into_rtranclp])
  from mutex_no_lost_wakeup [OF sample_wsys_fresh sample_mutex_init this] r(2)
  have "\<exists>q s. wait_queue_take (mx_waiters (ws_res ?M2)) (ws_sched ?M2) = Inr (wq_head (mx_waiters (ws_res ?M2)), q, s)" by blast
  then have "\<exists>q s. wait_queue_take (mx_waiters sample_mutex) sample_sched = Inr (0, q, s)"
    by (simp add: sample_wsys_def) (simp add: sample_mutex_def)
  with u show ?thesis by blast
qed

text \<open>
  C23. A semaphore neither gains nor loses a unit. In any run of threads that wait on and signal an
  initialised semaphore, the count is never negative, the count and the units taken less those given
  back add up to the initial count, and while threads queue at least as many runnable threads as
  there are free units are on their way to wake a waiter or to take a unit.
\<close>

theorem semaphore_conserves_units:
  assumes "fresh T M" and "semaphore_init name n sem = Inr (ws_res M)" and "(semaphore_step T)\<^sup>*\<^sup>* M M'"
  shows "0 \<le> sem_count (ws_res M') \<and> sem_count (ws_res M') + (\<Sum>c\<in>T. ws_got M' c) = n
    \<and> (wq_head (sem_waiters (ws_res M')) = 0 \<or> sem_count (ws_res M')
        \<le> int (card {c \<in> T. ws_pc M' c \<noteq> Away \<and> state_of (ws_sched M') c \<in> {Some THREAD_READY, Some THREAD_RUNNING}}))"
proof -
  from semaphore_run_inv [OF assms] obtain rs ss zs ws where
    inv: "winv (\<lambda>sem. nat (sem_count sem)) (\<lambda>sem. 0 \<le> sem_count sem) sem_waiters n T M' rs ss zs ws" .
  let ?n = "sem_count (ws_res M')"
  let ?A = "{c \<in> T. ws_pc M' c \<noteq> Away \<and> state_of (ws_sched M') c \<in> {Some THREAD_READY, Some THREAD_RUNNING}}"
  have n: "0 \<le> ?n" "?n + sum (ws_got M') T = n" using winvD(3,9) [OF inv] by simp_all
  have "?n \<le> int (card ?A)" if "wq_head (sem_waiters (ws_res M')) \<noteq> 0"
    using sw.someone_active [OF inv that] n(1) by linarith
  with n show ?thesis by blast
qed

theorem semaphore_conserves_units_witness:
  "0 \<le> sem_count (ws_res (goto 32 Away (sample_semaphore\<lparr>sem_count := 2\<rparr>) 1 (sample_wsys sample_semaphore)))"
proof -
  have "semaphore_step {32} (sample_wsys sample_semaphore)
     (goto 32 Away (sample_semaphore\<lparr>sem_count := 2\<rparr>) 1 (sample_wsys sample_semaphore))"
    using wstep.enter [OF sample_wsys_runs, of "\<lambda>_ sem. Inr (semaphore_wait_test sem)" sample_semaphore True]
    by (simp add: semaphore_step_def semaphore_wait_test_def sample_semaphore_def sample_wsys_def)
  moreover have "semaphore_init (Some ''s'') 3 sample_semaphore = Inr (ws_res (sample_wsys sample_semaphore))"
    by (simp add: sample_semaphore_def semaphore_init_def wait_queue_init_def sample_wsys_def Let_def)
  ultimately show ?thesis
    using semaphore_conserves_units [OF sample_wsys_fresh _ r_into_rtranclp [of "semaphore_step {32}"]] by blast
qed

end
