(* ===== verification/Console.thy ===== *)
theory Console
  imports Sync Vfs
begin

text \<open>
  The console: the drivers, the lock and the unlocked output routines of \<open>kernel/console.c\<close>, the text
  display of \<open>drivers/console/vga_text.c\<close> and the serial port of \<open>drivers/console/serial.c\<close>.
  A driver acts on a state of the devices; the console is the list of the registered drivers and that
  state. A locked routine is the unlocked one between the sections of \<open>console_lock\<close> and
  \<open>console_unlock\<close>, which take and release a mutex of \<open>Sync\<close>.
\<close>

section \<open>Drivers\<close>

abbreviation (input) MAX_CONSOLE_DRIVERS :: nat where "MAX_CONSOLE_DRIVERS \<equiv> 4"

record 'd console_driver =
  cd_name :: string
  cd_init :: "('d \<Rightarrow> 'd) option"
  cd_putc :: "(u8 \<Rightarrow> 'd \<Rightarrow> 'd) option"

record 'd console =
  drivers :: "'d console_driver list"
  devices :: 'd
  console_mutex :: mutex
  console_locking_ready :: bool

definition console_register :: "'d console_driver option \<Rightarrow> 'd console \<Rightarrow> 'd console" where
  "console_register driver c =
     (case driver of None \<Rightarrow> c
      | Some d \<Rightarrow> if length (drivers c) \<ge> MAX_CONSOLE_DRIVERS then c else c\<lparr>drivers := drivers c @ [d]\<rparr>)"

definition console_init_all :: "'d console \<Rightarrow> 'd console" where
  "console_init_all c = c\<lparr>devices := fold (\<lambda>d s. case cd_init d of None \<Rightarrow> s | Some f \<Rightarrow> f s) (drivers c) (devices c)\<rparr>"

text \<open>
  The lock is used only once it is initialised and while interrupts are enabled. As for
  \<^const>\<open>mutex_lock_enter\<close>, the first component of \<open>console_lock\<close> tells whether the lock was taken at once.
\<close>

definition console_lock :: "bool \<Rightarrow> u32 \<Rightarrow> 'd console \<Rightarrow> (bool \<times> 'd console) res" where
  "console_lock interrupts_enabled self c =
     (if console_locking_ready c \<and> interrupts_enabled
      then bindE (mutex_lock_enter self (console_mutex c)) (\<lambda>(ok, m). Inr (ok, c\<lparr>console_mutex := m\<rparr>))
      else Inr (True, c))"

definition console_unlock :: "bool \<Rightarrow> 'd console \<Rightarrow> sched \<Rightarrow> ('d console \<times> sched) res" where
  "console_unlock interrupts_enabled c s =
     (if console_locking_ready c \<and> interrupts_enabled
      then bindE (mutex_unlock (console_mutex c) s) (\<lambda>(m, s1). Inr (c\<lparr>console_mutex := m\<rparr>, s1))
      else Inr (c, s))"

definition console_raw_putc :: "u8 \<Rightarrow> 'd console \<Rightarrow> 'd console" where
  "console_raw_putc ch c = c\<lparr>devices := fold (\<lambda>d s. case cd_putc d of None \<Rightarrow> s | Some f \<Rightarrow> f ch s) (drivers c) (devices c)\<rparr>"

definition console_raw_write :: "u8 list option \<Rightarrow> 'd console \<Rightarrow> 'd console" where
  "console_raw_write text c = (case text of None \<Rightarrow> c | Some bs \<Rightarrow> fold console_raw_putc bs c)"

definition console_raw_write_n :: "u8 list option \<Rightarrow> u32 \<Rightarrow> 'd console \<Rightarrow> 'd console res" where
  "console_raw_write_n text len c =
     (case text of None \<Rightarrow> Inr c
      | Some bs \<Rightarrow> foldE (\<lambda>i c. if i < length bs then Inr (console_raw_putc (bs ! i) c) else Inl (Fault ''read past the buffer''))
                    [0..<unat len] c)"

definition console_raw_writeln :: "u8 list option \<Rightarrow> 'd console \<Rightarrow> 'd console" where
  "console_raw_writeln text c = console_raw_putc 0x0A (console_raw_write text c)"

definition console_raw_write_hex32 :: "u32 \<Rightarrow> 'd console \<Rightarrow> 'd console" where
  "console_raw_write_hex32 value c =
     fold (\<lambda>shift c. console_raw_putc (bytes ''0123456789ABCDEF'' ! unat (drop_bit shift value AND 0xF)) c)
       [28, 24, 20, 16, 12, 8, 4, 0] (console_raw_write (Some (bytes ''0x'')) c)"

function dec_fill :: "u32 \<Rightarrow> u8 list \<Rightarrow> u8 list" where
  "dec_fill value buffer =
     (if value > 0 \<and> length buffer < 11 then dec_fill (value div 10) (buffer @ [ucast (0x30 + value mod 10)]) else buffer)"
  by auto
termination by (relation "measure (\<lambda>(_, buffer). 11 - length buffer)") auto

declare dec_fill.simps [simp del]

definition console_raw_write_u32_dec :: "u32 \<Rightarrow> 'd console \<Rightarrow> 'd console" where
  "console_raw_write_u32_dec value c =
     (if value = 0 then console_raw_putc 0x30 c
      else fold console_raw_putc (rev (dec_fill value [])) c)"

section \<open>Locked output\<close>

text \<open>
  A locked routine runs the unlocked one with the mutex taken. Its first component tells whether the
  mutex was taken at once; if not, the thread goes on with the sections of \<^const>\<open>mutex_lock_wait\<close> and
  \<^const>\<open>mutex_lock_again\<close>, and the routine with the output and \<open>console_unlock\<close>.
\<close>

definition console_locked :: "bool \<Rightarrow> ('d console \<Rightarrow> 'd console res) \<Rightarrow> 'd console \<Rightarrow> sched \<Rightarrow> (bool \<times> 'd console \<times> sched) res" where
  "console_locked interrupts_enabled output c s =
     bindE (console_lock interrupts_enabled (thread_current s) c) (\<lambda>(ok, c1).
     if ok then bindE (output c1) (\<lambda>c2. bindE (console_unlock interrupts_enabled c2 s) (\<lambda>(c3, s1). Inr (True, c3, s1)))
     else Inr (False, c1, s))"

definition console_putc :: "bool \<Rightarrow> u8 \<Rightarrow> 'd console \<Rightarrow> sched \<Rightarrow> (bool \<times> 'd console \<times> sched) res" where
  "console_putc ie ch = console_locked ie (\<lambda>c. Inr (console_raw_putc ch c))"

definition console_write :: "bool \<Rightarrow> u8 list option \<Rightarrow> 'd console \<Rightarrow> sched \<Rightarrow> (bool \<times> 'd console \<times> sched) res" where
  "console_write ie text = console_locked ie (\<lambda>c. Inr (console_raw_write text c))"

definition console_write_n :: "bool \<Rightarrow> u8 list option \<Rightarrow> u32 \<Rightarrow> 'd console \<Rightarrow> sched \<Rightarrow> (bool \<times> 'd console \<times> sched) res" where
  "console_write_n ie text len = console_locked ie (console_raw_write_n text len)"

definition console_writeln :: "bool \<Rightarrow> u8 list option \<Rightarrow> 'd console \<Rightarrow> sched \<Rightarrow> (bool \<times> 'd console \<times> sched) res" where
  "console_writeln ie text = console_locked ie (\<lambda>c. Inr (console_raw_writeln text c))"

definition console_write_hex32 :: "bool \<Rightarrow> u32 \<Rightarrow> 'd console \<Rightarrow> sched \<Rightarrow> (bool \<times> 'd console \<times> sched) res" where
  "console_write_hex32 ie v = console_locked ie (\<lambda>c. Inr (console_raw_write_hex32 v c))"

definition console_write_u32_dec :: "bool \<Rightarrow> u32 \<Rightarrow> 'd console \<Rightarrow> sched \<Rightarrow> (bool \<times> 'd console \<times> sched) res" where
  "console_write_u32_dec ie v = console_locked ie (\<lambda>c. Inr (console_raw_write_u32_dec v c))"

definition console_locking_init :: "bool \<Rightarrow> 'd console \<Rightarrow> sched \<Rightarrow> (bool \<times> 'd console \<times> sched) res" where
  "console_locking_init ie c = console_writeln ie (Some (bytes ''Console: output mutex enabled''))
     (c\<lparr>console_mutex := mutex_init (Some ''console'') (console_mutex c), console_locking_ready := True\<rparr>)"

text \<open>
  With a free mutex that nobody waits for, the locked routine is the unlocked one: it returns at once,
  leaves the scheduler as it is and the mutex free again.
\<close>

definition console_free :: "'d console \<Rightarrow> bool" where
  "console_free c \<longleftrightarrow> \<not> mx_locked (console_mutex c) \<and> mx_owner (console_mutex c) = 0 \<and> wq_head (mx_waiters (console_mutex c)) = 0"

lemma console_locked_uncontended:
  assumes "console_free c" and "\<And>m. output (c\<lparr>console_mutex := m\<rparr>) = Inr (c'\<lparr>console_mutex := m\<rparr>)"
    and "console_mutex c' = console_mutex c" and "console_locking_ready c' = console_locking_ready c"
  shows "console_locked ie output c s = Inr (True, c', s)"
  using assms(1,3,4) assms(2) [of "console_mutex c"]
  by (auto simp: console_locked_def console_lock_def console_unlock_def console_free_def mutex_lock_enter_def
      mutex_lock_again_def mutex_unlock_def mutex_unlock_release_def wait_queue_wake_one_def wait_queue_take_def
      wait_queue_pop_locked_def assms(2))

lemma console_raw_putc_mutex: "console_raw_putc ch (c\<lparr>console_mutex := m\<rparr>) = (console_raw_putc ch c)\<lparr>console_mutex := m\<rparr>"
  by (simp add: console_raw_putc_def)

lemma fold_raw_putc_mutex: "fold console_raw_putc bs (c\<lparr>console_mutex := m\<rparr>) = (fold console_raw_putc bs c)\<lparr>console_mutex := m\<rparr>"
  by (induction bs arbitrary: c) (simp_all add: console_raw_putc_mutex)

lemma fold_raw_putc_fields [simp]:
  "console_mutex (fold console_raw_putc bs c) = console_mutex c"
  "console_locking_ready (fold console_raw_putc bs c) = console_locking_ready c"
  by (induction bs arbitrary: c) (simp_all add: console_raw_putc_def)

lemma console_raw_writes_bytes:
  "console_raw_write (Some bs) c = fold console_raw_putc bs c"
  "console_raw_writeln (Some bs) c = fold console_raw_putc (bs @ [0x0A]) c"
  "console_raw_write_u32_dec v c = fold console_raw_putc (if v = 0 then [0x30] else rev (dec_fill v [])) c"
  by (simp_all add: console_raw_write_def console_raw_writeln_def console_raw_write_u32_dec_def)

lemma console_locked_bytes:
  assumes "console_free c" and "\<And>c. output c = Inr (fold console_raw_putc bs c)"
  shows "console_locked ie output c s = Inr (True, fold console_raw_putc bs c, s)"
  by (rule console_locked_uncontended [OF assms(1)]) (simp_all add: assms(2) fold_raw_putc_mutex)

lemma console_uncontended:
  assumes "console_free c"
  shows "console_putc ie ch c s = Inr (True, console_raw_putc ch c, s)"
    and "console_write ie (Some bs) c s = Inr (True, console_raw_write (Some bs) c, s)"
    and "console_writeln ie (Some bs) c s = Inr (True, console_raw_writeln (Some bs) c, s)"
    and "console_write_u32_dec ie v c s = Inr (True, console_raw_write_u32_dec v c, s)"
  using console_locked_bytes [OF assms, of "\<lambda>c. Inr (console_raw_putc ch c)" "[ch]"]
  by (simp_all add: console_putc_def console_write_def console_writeln_def console_write_u32_dec_def
      console_raw_writes_bytes console_locked_bytes [OF assms] del: fold_append)

section \<open>The text display\<close>

abbreviation (input) VGA_WIDTH :: u32 where "VGA_WIDTH \<equiv> 80"
abbreviation (input) VGA_HEIGHT :: u32 where "VGA_HEIGHT \<equiv> 25"
abbreviation (input) VGA_BLACK :: u8 where "VGA_BLACK \<equiv> 0"
abbreviation (input) VGA_LIGHT_GREY :: u8 where "VGA_LIGHT_GREY \<equiv> 7"

record vga =
  vga_buffer :: "u32 \<Rightarrow> u16"
  vga_row :: u32
  vga_column :: u32
  vga_color :: u8

definition vga_entry_color :: "u8 \<Rightarrow> u8 \<Rightarrow> u8" where
  "vga_entry_color fg bg = fg OR push_bit 4 bg"

definition vga_entry :: "u8 \<Rightarrow> u8 \<Rightarrow> u16" where
  "vga_entry ch entry_color = ucast ch OR push_bit 8 (ucast entry_color)"

definition vga_set :: "u32 \<Rightarrow> u16 \<Rightarrow> vga \<Rightarrow> vga" where
  "vga_set i e s = s\<lparr>vga_buffer := (vga_buffer s)(i := e)\<rparr>"

definition vga_clear_row :: "u32 \<Rightarrow> vga \<Rightarrow> vga" where
  "vga_clear_row y s =
     fold (\<lambda>x s. vga_set (y * VGA_WIDTH + word_of_nat x) (vga_entry 0x20 (vga_color s)) s) [0..<unat VGA_WIDTH] s"

definition vga_scroll :: "vga \<Rightarrow> vga" where
  "vga_scroll s =
     (let s1 = fold (\<lambda>y s. fold (\<lambda>x s. vga_set ((word_of_nat y - 1) * VGA_WIDTH + word_of_nat x)
                                        (vga_buffer s (word_of_nat y * VGA_WIDTH + word_of_nat x)) s)
                        [0..<unat VGA_WIDTH] s) [1..<unat VGA_HEIGHT] s
      in (vga_clear_row (VGA_HEIGHT - 1) s1)\<lparr>vga_row := VGA_HEIGHT - 1\<rparr>)"

definition vga_newline :: "vga \<Rightarrow> vga" where
  "vga_newline s =
     (let s1 = s\<lparr>vga_column := 0, vga_row := vga_row s + 1\<rparr> in
      if vga_row s1 \<ge> VGA_HEIGHT then vga_scroll s1 else s1)"

definition vga_backspace :: "vga \<Rightarrow> vga" where
  "vga_backspace s =
     (if vga_column s > 0
      then let s1 = s\<lparr>vga_column := vga_column s - 1\<rparr> in
        vga_set (vga_row s1 * VGA_WIDTH + vga_column s1) (vga_entry 0x20 (vga_color s1)) s1
      else if vga_row s > 0
      then let s1 = s\<lparr>vga_row := vga_row s - 1, vga_column := VGA_WIDTH - 1\<rparr> in
        vga_set (vga_row s1 * VGA_WIDTH + vga_column s1) (vga_entry 0x20 (vga_color s1)) s1
      else s)"

definition vga_putc :: "u8 \<Rightarrow> vga \<Rightarrow> vga" where
  "vga_putc c s =
     (if c = 0x0A then vga_newline s
      else if c = 0x08 then vga_backspace s
      else
        (let s1 = vga_set (vga_row s * VGA_WIDTH + vga_column s) (vga_entry c (vga_color s)) s;
             s2 = s1\<lparr>vga_column := vga_column s1 + 1\<rparr>
         in if vga_column s2 \<ge> VGA_WIDTH then vga_newline s2 else s2))"

definition vga_init :: "vga \<Rightarrow> vga" where
  "vga_init s =
     fold (\<lambda>y s. vga_clear_row (word_of_nat y) s) [0..<unat VGA_HEIGHT]
       (s\<lparr>vga_row := 0, vga_column := 0, vga_color := vga_entry_color VGA_LIGHT_GREY VGA_BLACK\<rparr>)"

section \<open>The serial port\<close>

text \<open>
  The writes to the I/O ports in order. What the line status register reads is an input: the byte
  \<open>line_status n\<close> is what the read number \<open>n\<close> of the port returns.
\<close>

abbreviation (input) COM1 :: u16 where "COM1 \<equiv> 0x3F8"

record serial =
  port_writes :: "(u16 \<times> u8) list"
  line_status :: "nat \<Rightarrow> u8"
  polls :: nat

definition outb :: "u16 \<Rightarrow> u8 \<Rightarrow> serial \<Rightarrow> serial" where
  "outb port value s = s\<lparr>port_writes := port_writes s @ [(port, value)]\<rparr>"

definition serial_transmit_ready :: "serial \<Rightarrow> bool \<times> serial" where
  "serial_transmit_ready s =
     (line_status s (polls s) AND 0x20 \<noteq> 0, s\<lparr>polls := polls s + 1\<rparr>)"

definition serial_init :: "serial \<Rightarrow> serial" where
  "serial_init s = fold (\<lambda>(i, v). outb (COM1 + i) v)
     [(1, 0x00), (3, 0x80), (0, 0x03), (1, 0x00), (3, 0x03), (2, 0xC7), (4, 0x0B)] s"

primrec serial_send :: "nat \<Rightarrow> u8 \<Rightarrow> serial \<Rightarrow> serial" where
  "serial_send 0 c s = s"
| "serial_send (Suc n) c s =
     (let (ready, s1) = serial_transmit_ready s in if ready then outb COM1 c s1 else serial_send n c s1)"

definition serial_putc :: "u8 \<Rightarrow> serial \<Rightarrow> serial" where
  "serial_putc c s = serial_send 100000 c (if c = 0x0A then serial_send 100000 0x0D s else s)"

definition vga_text_console_driver :: "(vga \<times> serial) console_driver" where
  "vga_text_console_driver = \<lparr>cd_name = ''vga_text'', cd_init = Some (apfst vga_init), cd_putc = Some (\<lambda>c. apfst (vga_putc c))\<rparr>"

definition serial_console_driver :: "(vga \<times> serial) console_driver" where
  "serial_console_driver = \<lparr>cd_name = ''serial'', cd_init = Some (apsnd serial_init), cd_putc = Some (\<lambda>c. apsnd (serial_putc c))\<rparr>"

section \<open>The display stays in its buffer\<close>

text \<open>The cursor is on the screen.\<close>

definition vga_ok :: "vga \<Rightarrow> bool" where
  "vga_ok s \<longleftrightarrow> vga_row s < 25 \<and> vga_column s < 80"

definition outside_same :: "vga \<Rightarrow> vga \<Rightarrow> bool" where
  "outside_same s s' \<longleftrightarrow> (\<forall>i\<ge>2000. vga_buffer s' i = vga_buffer s i)"

lemma outside_same_refl [simp]: "outside_same s s"
  and outside_same_trans: "outside_same s t \<Longrightarrow> outside_same t u \<Longrightarrow> outside_same s u"
  by (simp_all add: outside_same_def)

lemma cell_index: "(r :: u32) < 25 \<Longrightarrow> c < 80 \<Longrightarrow> r * 80 + c < 2000"
  by (simp add: word_less_nat_alt unat_word_ariths)

lemma nat_cell: "n < 4294967296 \<Longrightarrow> (word_of_nat n :: u32) < w \<longleftrightarrow> n < unat w"
  by (simp add: word_less_nat_alt unat_of_nat take_bit_eq_mod)

lemma vga_set_sel [simp]:
  "vga_row (vga_set i e s) = vga_row s" "vga_column (vga_set i e s) = vga_column s" "vga_color (vga_set i e s) = vga_color s"
  by (simp_all add: vga_set_def)

lemma vga_set_outside: "i < 2000 \<Longrightarrow> outside_same s (vga_set i e s)"
  by (auto simp: outside_same_def vga_set_def)

text \<open>A loop of cell writes in the buffer keeps the cursor and everything outside the buffer.\<close>

definition quiet :: "(vga \<Rightarrow> vga) \<Rightarrow> bool" where
  "quiet f \<longleftrightarrow> (\<forall>s. vga_row (f s) = vga_row s \<and> vga_column (f s) = vga_column s \<and> outside_same s (f s))"

lemma quiet_set: "i < 2000 \<Longrightarrow> quiet (\<lambda>s. vga_set i (e s) s)"
  by (simp add: quiet_def vga_set_outside)

lemma quiet_fold: "(\<And>x. x \<in> set xs \<Longrightarrow> quiet (f x)) \<Longrightarrow> quiet (fold f xs)"
proof (induction xs)
  case (Cons x xs)
  then have "quiet (f x)" "quiet (fold f xs)" by simp_all
  then show ?case by (auto simp: quiet_def intro: outside_same_trans)
qed (simp add: quiet_def)

lemma quiet_clear_row: "y < 25 \<Longrightarrow> quiet (vga_clear_row y)"
  unfolding vga_clear_row_def
  by (intro quiet_fold quiet_set cell_index) (simp_all only: set_upt atLeastLessThan_iff nat_cell, auto simp: nat_cell)

lemma quiet_scroll_copy:
  "quiet (fold (\<lambda>y s. fold (\<lambda>x s. vga_set ((word_of_nat y - 1) * VGA_WIDTH + word_of_nat x)
       (vga_buffer s (word_of_nat y * VGA_WIDTH + word_of_nat x)) s) [0..<unat VGA_WIDTH] s) [1..<unat VGA_HEIGHT])"
proof (intro quiet_fold quiet_set cell_index)
  fix y x assume y: "y \<in> set [1..<unat VGA_HEIGHT]" and x: "x \<in> set [0..<unat VGA_WIDTH]"
  from x have "x < 80" unfolding set_upt by simp
  then show "word_of_nat x < (80 :: u32)" by (simp add: nat_cell)
  from y have "1 \<le> y" "y < 25" unfolding set_upt by simp_all
  then obtain z where "y = Suc z" "z < 24" by (cases y) auto
  then show "word_of_nat y - 1 < (25 :: u32)" by (simp add: nat_cell)
qed

lemma vga_scroll_keeps: "outside_same s (vga_scroll s)" "vga_row (vga_scroll s) = 24" "vga_column (vga_scroll s) = vga_column s"
  using quiet_scroll_copy quiet_clear_row [of 24] outside_same_trans
  by (auto simp: vga_scroll_def Let_def quiet_def outside_same_def simp del: upt_rec_numeral)

text \<open>
  Every character written keeps the cursor on the screen and changes no memory outside the 80 by 25
  cells of the display.
\<close>

lemma vga_newline_ok: "vga_row s < 25 \<Longrightarrow> vga_ok (vga_newline s) \<and> outside_same s (vga_newline s)"
proof -
  assume "vga_row s < 25"
  then have "\<not> vga_row s + 1 \<ge> 25 \<Longrightarrow> vga_row s + 1 < 25" by simp
  moreover have "outside_same s (vga_scroll (s\<lparr>vga_column := 0, vga_row := vga_row s + 1\<rparr>))"
    using vga_scroll_keeps(1) [of "s\<lparr>vga_column := 0, vga_row := vga_row s + 1\<rparr>"] by (simp add: outside_same_def)
  ultimately show ?thesis by (auto simp: vga_newline_def Let_def vga_ok_def vga_scroll_keeps outside_same_def)
qed

lemma vga_backspace_ok: "vga_ok s \<Longrightarrow> vga_ok (vga_backspace s) \<and> outside_same s (vga_backspace s)"
proof -
  assume ok: "vga_ok s"
  have d: "x - 1 < n" if "0 < x" "x < n" for x n :: u32
  proof -
    from that have "unat (x - 1) = unat x - 1" by (simp add: unat_sub_if' word_le_nat_alt word_less_nat_alt Suc_le_eq unat_gt_0)
    with that show ?thesis by (simp add: word_less_nat_alt)
  qed
  have "vga_row s * 80 + (vga_column s - 1) < 2000" if "0 < vga_column s" using ok d that by (intro cell_index) (auto simp: vga_ok_def)
  moreover have "(vga_row s - 1) * 80 + 79 < 2000" if "0 < vga_row s" using ok d that by (intro cell_index) (auto simp: vga_ok_def)
  ultimately show ?thesis using ok d
    by (auto simp: vga_backspace_def Let_def vga_ok_def outside_same_def vga_set_def)
qed

lemma vga_putc_ok: "vga_ok s \<Longrightarrow> vga_ok (vga_putc c s) \<and> outside_same s (vga_putc c s)"
proof -
  assume ok: "vga_ok s"
  let ?s = "(vga_set (vga_row s * VGA_WIDTH + vga_column s) (vga_entry c (vga_color s)) s)\<lparr>vga_column := vga_column s + 1\<rparr>"
  have "vga_row s * 80 + vga_column s < 2000" using ok by (intro cell_index) (simp_all add: vga_ok_def)
  then have o: "outside_same s ?s" by (auto simp: outside_same_def vga_set_def)
  show ?thesis using ok vga_newline_ok [of s] vga_newline_ok [of ?s] vga_backspace_ok [OF ok] outside_same_trans [OF o] o
    by (auto simp: vga_putc_def Let_def vga_ok_def)
qed

section \<open>Decimal numerals\<close>

fun digits :: "nat \<Rightarrow> nat list" where
  "digits n = (if n = 0 then [] else digits (n div 10) @ [n mod 10])"

declare digits.simps [simp del]

definition digit_char :: "nat \<Rightarrow> u8" where
  "digit_char d = word_of_nat (48 + d)"

definition decimal :: "nat \<Rightarrow> u8 list" where
  "decimal n = (if n = 0 then [0x30] else map digit_char (digits n))"

definition numeral_value :: "nat list \<Rightarrow> nat" where
  "numeral_value ds = foldl (\<lambda>a d. 10 * a + d) 0 ds"

lemma numeral_value_digits: "numeral_value (digits n) = n"
proof (induction n rule: digits.induct)
  case (1 n)
  show ?case using 1 by (cases "n = 0") (simp_all add: digits.simps [of n] digits.simps [of 0] numeral_value_def)
qed

lemma digits_less: "d \<in> set (digits n) \<Longrightarrow> d < 10"
  by (induction n rule: digits.induct) (subst (asm) digits.simps, auto split: if_splits)

lemma length_digits: "n < 10 ^ k \<Longrightarrow> length (digits n) \<le> k"
proof (induction k arbitrary: n)
  case (Suc k)
  have "length (digits (n div 10)) \<le> k" using Suc.prems by (intro Suc.IH) (simp add: less_mult_imp_div_less mult.commute)
  then show ?case by (subst digits.simps) simp
qed (simp add: digits.simps)

lemma digits_eq_Nil [simp]: "digits n = [] \<longleftrightarrow> n = 0"
  by (subst digits.simps) simp

lemma hd_digits: "0 < n \<Longrightarrow> hd (digits n) \<noteq> 0"
proof (induction n rule: digits.induct)
  case (1 n)
  then show ?case by (subst digits.simps) (auto simp: hd_append digits_eq_Nil)
qed

lemma dec_fill_digits:
  "length buffer + length (digits (unat v)) \<le> 11 \<Longrightarrow> dec_fill v buffer = buffer @ rev (map digit_char (digits (unat v)))"
proof (induction v buffer rule: dec_fill.induct)
  case (1 v buffer)
  show ?case
  proof (cases "v = 0")
    case True
    then show ?thesis by (simp add: dec_fill.simps digits.simps)
  next
    case False
    have d: "digits (unat v) = digits (unat (v div 10)) @ [unat (v mod 10)]"
      using False by (subst digits.simps) (simp add: unat_div unat_mod unat_eq_0)
    have c: "ucast (0x30 + v mod 10) = digit_char (unat (v mod 10))"
    proof -
      have "unat (v mod 10) < 10" by (simp add: unat_mod)
      then have "unat (0x30 + v mod 10 :: u32) = 48 + unat (v mod 10)" by (simp add: unat_word_ariths)
      then show ?thesis unfolding digit_char_def by (metis of_nat_unat)
    qed
    have "dec_fill v buffer = dec_fill (v div 10) (buffer @ [ucast (0x30 + v mod 10)])"
      using False 1(2) by (subst dec_fill.simps) (simp add: d word_gt_0)
    also have "\<dots> = (buffer @ [ucast (0x30 + v mod 10)]) @ rev (map digit_char (digits (unat (v div 10))))"
      using False 1(2) by (intro 1(1)) (simp_all add: d word_gt_0)
    finally show ?thesis by (simp add: d c)
  qed
qed

lemma digits_u32: "length (digits (unat (v :: u32))) \<le> 10"
  by (rule length_digits) (rule order.strict_trans [OF unat_u32_less], simp)

lemma foldl_digits_mono: "a \<le> foldl (\<lambda>a d. 10 * a + d) a ds" for a :: nat
proof (induction ds arbitrary: a)
  case (Cons d ds)
  have "a \<le> 10 * a + d" by simp
  also have "\<dots> \<le> foldl (\<lambda>a d. 10 * a + d) (10 * a + d) ds" by (rule Cons.IH)
  finally show ?case by simp
qed simp

lemma decimal_digits:
  obtains ds where "decimal n = map digit_char ds" and "\<forall>d\<in>set ds. d < 10" and "ds \<noteq> []" and "foldl (\<lambda>a d. 10 * a + d) 0 ds = n"
proof (cases "n = 0")
  case True
  then show ?thesis using that [of "[0]"] by (simp add: decimal_def digit_char_def)
next
  case False
  then show ?thesis using that [of "digits n"] numeral_value_digits [of n] digits_less by (auto simp: decimal_def numeral_value_def)
qed

text \<open>\<open>console_raw_write_u32_dec\<close> writes the decimal numeral of its argument.\<close>

lemma console_raw_write_u32_dec_decimal:
  "console_raw_write_u32_dec v c = fold console_raw_putc (decimal (unat v)) c"
proof (cases "v = 0")
  case False
  then have "rev (dec_fill v []) = decimal (unat v)"
    using digits_u32 [of v] by (subst dec_fill_digits) (simp_all add: decimal_def unat_eq_0)
  with False show ?thesis by (simp add: console_raw_write_u32_dec_def)
qed (simp add: console_raw_write_u32_dec_def decimal_def)

lemma console_raw_write_n_take:
  assumes "unat len \<le> length bs"
  shows "console_raw_write_n (Some bs) len c = Inr (fold console_raw_putc (take (unat len) bs) c)"
proof -
  have "foldE (\<lambda>i c. if i < length bs then Inr (console_raw_putc (bs ! i) c) else Inl (Fault ''read past the buffer'')) [0..<n] c
      = Inr (fold console_raw_putc (take n bs) c)" if "n \<le> length bs" for n
    using that by (induction n) (simp_all add: foldE_append take_Suc_conv_app_nth)
  with assms show ?thesis by (simp add: console_raw_write_n_def)
qed

end
