(* ===== verification/Program.thy ===== *)
theory Program
  imports Loaders Console
begin

text \<open>
  The embedded programs of \<open>kernel/program.c\<close>. The images of the programs are linked in by the
  build, so their addresses and bytes are a parameter. Waiting for a foreground program splits
  \<open>program_run_foreground\<close> into the code before and after the wait.
\<close>

section \<open>The program table\<close>

record embedded_program =
  pg_name :: string
  pg_description :: string
  pg_image_start :: u32
  pg_image_end :: u32

text \<open>
  The symbols of the linked images: for each program the addresses of its first byte and of the byte
  after its last, and the bytes from a given address on.
\<close>

record images =
  im_start :: "string \<Rightarrow> u32"
  im_end :: "string \<Rightarrow> u32"
  im_bytes :: "u32 \<Rightarrow> u8 list"

definition programs :: "images \<Rightarrow> embedded_program list" where
  "programs im = map (\<lambda>(name, text). \<lparr>pg_name = name, pg_description = text, pg_image_start = im_start im name, pg_image_end = im_end im name\<rparr>)
     [(''demo'', ''interactive stdin/stdout demo''), (''counter'', ''background-safe counter demo''),
      (''shell'', ''interactive user-mode shell''), (''fstest'', ''user-mode filesystem smoke test'')]"

definition program_find :: "images \<Rightarrow> u8 list option \<Rightarrow> embedded_program option" where
  "program_find im name =
     (case name of None \<Rightarrow> None | Some n \<Rightarrow> find (\<lambda>p. strcmp (bytes (pg_name p)) n = 0) (programs im))"

definition program_list :: "images \<Rightarrow> 'd console \<Rightarrow> 'd console" where
  "program_list im c =
     fold (\<lambda>p c. console_raw_writeln (Some (bytes (pg_description p)))
            (console_raw_write (Some (bytes '' - '')) (console_raw_write (Some (bytes (pg_name p)))
            (console_raw_write (Some (bytes ''  '')) c))))
       (programs im) (console_raw_writeln (Some (bytes ''Embedded programs:'')) c)"

definition program_image_size :: "embedded_program option \<Rightarrow> u32" where
  "program_image_size program =
     (case program of None \<Rightarrow> 0
      | Some p \<Rightarrow> if pg_image_start p = 0 \<or> pg_image_end p = 0 \<or> pg_image_end p \<le> pg_image_start p then 0
                  else pg_image_end p - pg_image_start p)"

definition program_create_process ::
  "images \<Rightarrow> u8 list option \<Rightarrow> int \<Rightarrow> u8 list option list option \<Rightarrow> kernel \<Rightarrow> (u32 \<times> kernel) res option" where
  "program_create_process im name argc argv k =
     (case program_find im name of None \<Rightarrow> Some (Inr (0, k))
      | Some program \<Rightarrow>
          (let image_size = program_image_size (Some program) in
           if image_size = 0 then Some (Inl (Panic ''embedded program image is empty''))
           else bindO (elf_create_process_suspended (Some (pg_name program)) (Some (im_bytes im (pg_image_start program))) image_size k) (\<lambda>(process, k1).
             bindO (Some (process_current k1)) (\<lambda>parent.
             bindO (Some (if parent \<noteq> 0
                          then bindE (get_process parent k1) (\<lambda>p. process_set_parent process (p_pid p) k1)
                          else Inr k1)) (\<lambda>k2.
             let (argc, argv) = (if argc \<le> 0 \<or> argv = None then (1, Some [Some (bytes (pg_name program))]) else (argc, argv)) in
             bindO (Some (process_setup_arguments process argc argv k2)) (\<lambda>(rc, k3).
             if rc \<noteq> 0 then Some (Inl (Panic ''program argument setup failed''))
             else bindO (Some (process_parent_pid process k3)) (\<lambda>_.
               bindO (process_start_user process k3) (\<lambda>k4. Some (Inr (process, k4)))))))))) "

definition program_run_background ::
  "images \<Rightarrow> u8 list option \<Rightarrow> int \<Rightarrow> u8 list option list option \<Rightarrow> kernel \<Rightarrow> (int \<times> u32 \<times> kernel) res option" where
  "program_run_background im name argc argv k =
     bindO (program_create_process im name argc argv k) (\<lambda>(process, k1).
     Some (Inr (if process = 0 then (-1, 0, k1) else (0, process, k1))))"

text \<open>
  \<open>program_run_foreground\<close> starts the process and waits for it with \<open>process_wait\<close>; the second
  definition is the code after the wait.
\<close>

definition program_run_foreground_start ::
  "images \<Rightarrow> u8 list option \<Rightarrow> int \<Rightarrow> u8 list option list option \<Rightarrow> kernel \<Rightarrow> (int \<times> u32 \<times> kernel) res option" where
  "program_run_foreground_start im name argc argv k =
     bindO (program_run_background im name argc argv k) (\<lambda>(rc, process, k1).
     if rc \<noteq> 0 \<or> process = 0 then Some (Inr (-1, 0, k1))
     else bindO (Some (process_wait_begin process k1)) (\<lambda>_. Some (Inr (0, process, k1))))"

definition program_run_foreground_finish :: "u32 \<Rightarrow> u32 \<Rightarrow> kernel \<Rightarrow> (int \<times> u32 \<times> kernel) res option" where
  "program_run_foreground_finish process exit_code k =
     bindO (process_destroy process k) (\<lambda>k1. Some (Inr (0, exit_code, k1)))"

end
