(* ===== verification/Syscall.thy ===== *)
theory Syscall
  imports Program
begin

text \<open>
  The system calls of \<open>kernel/syscall.c\<close>. A call that blocks stops in a pending state, and the code
  after the blocking call is a definition of its own, applied when the thread runs again. The
  kernel's state and the console make up the state of a call. The lemmas show which processes a
  call can reach and that a requested kill is carried out.
\<close>

section \<open>System calls\<close>

abbreviation (input) SYSCALL_RW_MAX :: u32 where "SYSCALL_RW_MAX \<equiv> 256"
abbreviation (input) SYSCALL_EXEC_MAX_ARGS :: u32 where "SYSCALL_EXEC_MAX_ARGS \<equiv> 8"
abbreviation (input) SYSCALL_EXEC_MAX_NAME :: u32 where "SYSCALL_EXEC_MAX_NAME \<equiv> 32"
abbreviation (input) SYSCALL_EXEC_MAX_ARG_LEN :: u32 where "SYSCALL_EXEC_MAX_ARG_LEN \<equiv> 64"
abbreviation (input) SYSCALL_PATH_MAX :: u32 where "SYSCALL_PATH_MAX \<equiv> 64"
abbreviation (input) FD_STDIN :: u32 where "FD_STDIN \<equiv> 0"
abbreviation (input) FD_STDOUT :: u32 where "FD_STDOUT \<equiv> 1"
abbreviation (input) FD_STDERR :: u32 where "FD_STDERR \<equiv> 2"
abbreviation (input) SYS_FAILED :: u32 where "SYS_FAILED \<equiv> 0xFFFFFFFF"
abbreviation (input) VFS_NODE_DIRECTORY :: u32 where "VFS_NODE_DIRECTORY \<equiv> 2"
abbreviation (input) TOYIX_FILE_REGULAR :: u32 where "TOYIX_FILE_REGULAR \<equiv> 1"
abbreviation (input) TOYIX_FILE_DIRECTORY :: u32 where "TOYIX_FILE_DIRECTORY \<equiv> 2"

text \<open>The registers of the caller that the calls read and write.\<close>

record sysframe =
  eax :: u32
  ebx :: u32
  ecx :: u32
  edx :: u32

record 'd machine =
  mk :: kernel
  con :: "'d console"

text \<open>
  What a call comes to: it returns to the caller with the result in \<open>eax\<close>, or it waits for a line
  of the terminal, for a process, or for timer ticks, or the calling thread has exited.
\<close>

datatype sys_outcome = Returned u32 | Wait_line u32 | Wait_process u32 | Wait_ticks | Exited

type_synonym 'd sys_result = "(sys_outcome \<times> 'd machine) res option"

definition with_kernel :: "('a \<times> kernel) res option \<Rightarrow> 'd machine \<Rightarrow> ('a \<times> 'd machine) res option" where
  "with_kernel r m = bindO r (\<lambda>(x, k). Some (Inr (x, m\<lparr>mk := k\<rparr>)))"

definition with_space :: "('a \<times> aspace) res option \<Rightarrow> kernel \<Rightarrow> ('a \<times> kernel) res option" where
  "with_space r k = bindO r (\<lambda>(x, a). Some (Inr (x, k\<lparr>kas := a\<rparr>)))"

definition syscall_copy_user_string :: "u32 \<Rightarrow> u32 \<Rightarrow> kernel \<Rightarrow> u8 list option res option" where
  "syscall_copy_user_string user_str kernel_buffer_size k =
     (if user_str = 0 \<or> kernel_buffer_size = 0 then Some (Inr None)
      else bindO (user_string_length user_str kernel_buffer_size (kas k)) (\<lambda>(rc, len).
        if rc \<noteq> USERCOPY_OK then Some (Inr None)
        else if len + 1 > kernel_buffer_size then Some (Inr None)
        else bindO (copy_from_user False user_str (len + 1) (kas k)) (\<lambda>(rc, bs).
          if rc \<noteq> USERCOPY_OK then Some (Inr None)
          else Some (Inr (Some (takeWhile (\<lambda>b. b \<noteq> 0) bs))))))"

definition syscall_write :: "sysframe \<Rightarrow> 'd machine \<Rightarrow> 'd sys_result" where
  "syscall_write frame m =
     (let fd = ebx frame; user_buf = ecx frame in
      if fd \<noteq> FD_STDOUT \<and> fd \<noteq> FD_STDERR then Some (Inr (Returned SYS_FAILED, m))
      else let len = (if edx frame > SYSCALL_RW_MAX then SYSCALL_RW_MAX else edx frame) in
      if len = 0 then Some (Inr (Returned 0, m))
      else bindO (copy_from_user False user_buf len (kas (mk m))) (\<lambda>(rc, buffer).
        if rc \<noteq> USERCOPY_OK then Some (Inr (Returned SYS_FAILED, m))
        else Some (bindE (console_raw_write_n (Some buffer) len (con m)) (\<lambda>c. Inr (Returned len, m\<lparr>con := c\<rparr>)))))"

text \<open>The end of a read: the bytes are copied to the caller.\<close>

definition read_copy_out :: "u32 \<Rightarrow> u8 list \<Rightarrow> 'd machine \<Rightarrow> 'd sys_result" where
  "read_copy_out user_buf buffer m =
     bindO (with_space (copy_to_user user_buf (Some buffer) (word_of_nat (length buffer)) (kas (mk m))) (mk m)) (\<lambda>(rc, k).
     Some (Inr (Returned (if rc \<noteq> USERCOPY_OK then SYS_FAILED else word_of_nat (length buffer)), m\<lparr>mk := k\<rparr>)))"

definition syscall_read :: "sysframe \<Rightarrow> 'd machine \<Rightarrow> 'd sys_result" where
  "syscall_read frame m =
     (let fd = ebx frame; user_buf = ecx frame; len = (if edx frame > SYSCALL_RW_MAX then SYSCALL_RW_MAX else edx frame) in
      if len = 0 then Some (Inr (Returned 0, m))
      else if fd = FD_STDIN then Some (Inr (Wait_line (len + 1), m))
      else bindO (Some (process_current (mk m))) (\<lambda>current.
        if current = 0 then Some (Inr (Returned SYS_FAILED, m))
        else bindO (Some (process_fd_get current fd (mk m))) (\<lambda>f.
          if f = 0 then Some (Inr (Returned SYS_FAILED, m))
          else bindO (Some (on_vfs (\<lambda>v. bindE (vfs_read f 1 len v) (\<lambda>(rc, bs, v1). Inr ((rc, bs), v1))) (mk m))) (\<lambda>((rc, buffer), k).
            if rc \<noteq> VFS_OK then Some (Inr (Returned SYS_FAILED, m\<lparr>mk := k\<rparr>))
            else read_copy_out user_buf buffer (m\<lparr>mk := k\<rparr>)))))"

definition open_file :: "u8 list \<Rightarrow> kernel \<Rightarrow> ((int \<times> u32) \<times> kernel) res option" where
  "open_file path k =
     bindO (vfs_open (Some path) \<lparr>vheap = kheap k, vfiles = kfiles k\<rparr>) (\<lambda>(rc, f, v).
     Some (Inr ((rc, f), (set_kheap (vheap v) k)\<lparr>kfiles := vfiles v\<rparr>)))"

definition syscall_open :: "sysframe \<Rightarrow> 'd machine \<Rightarrow> 'd sys_result" where
  "syscall_open frame m =
     bindO (Some (process_current (mk m))) (\<lambda>current.
     if current = 0 then Some (Inr (Returned SYS_FAILED, m))
     else bindO (syscall_copy_user_string (ebx frame) SYSCALL_PATH_MAX (mk m)) (\<lambda>p.
       case p of None \<Rightarrow> Some (Inr (Returned SYS_FAILED, m))
       | Some path \<Rightarrow> bindO (open_file path (mk m)) (\<lambda>((rc, f), k).
           if rc \<noteq> VFS_OK \<or> f = 0 then Some (Inr (Returned SYS_FAILED, m\<lparr>mk := k\<rparr>))
           else bindO (Some (process_fd_install current f k)) (\<lambda>(fd, k1).
             if fd < 0
             then bindO (Some (on_vfs (\<lambda>v. bindE (vfs_close f v) (\<lambda>v1. Inr ((), v1))) k1)) (\<lambda>(_, k2).
                  Some (Inr (Returned SYS_FAILED, m\<lparr>mk := k2\<rparr>)))
             else Some (Inr (Returned (word_of_int fd), m\<lparr>mk := k1\<rparr>))))))"

definition syscall_close :: "sysframe \<Rightarrow> 'd machine \<Rightarrow> 'd sys_result" where
  "syscall_close frame m =
     (let fd = ebx frame in
      bindO (Some (process_current (mk m))) (\<lambda>current.
      if current = 0 \<or> fd < PROCESS_FIRST_FILE_FD then Some (Inr (Returned SYS_FAILED, m))
      else bindO (Some (process_fd_close current fd (mk m))) (\<lambda>(rc, k).
        Some (Inr (Returned (if rc \<noteq> 0 then SYS_FAILED else 0), m\<lparr>mk := k\<rparr>)))))"

definition syscall_seek :: "sysframe \<Rightarrow> 'd machine \<Rightarrow> 'd sys_result" where
  "syscall_seek frame m =
     (let fd = ebx frame; offset = sint (ecx frame); whence = edx frame in
      bindO (Some (process_current (mk m))) (\<lambda>current.
      if current = 0 then Some (Inr (Returned SYS_FAILED, m))
      else bindO (Some (process_fd_get current fd (mk m))) (\<lambda>f.
        if f = 0 then Some (Inr (Returned SYS_FAILED, m))
        else bindO (Some (on_vfs (\<lambda>v. bindE (vfs_seek f offset whence v) (\<lambda>(rc, p, v1). Inr ((rc, p), v1))) (mk m))) (\<lambda>((rc, position), k).
          Some (Inr (Returned (if rc \<noteq> VFS_OK then SYS_FAILED else position), m\<lparr>mk := k\<rparr>))))))"

definition syscall_vfs_type_to_abi :: "u32 \<Rightarrow> u32" where
  "syscall_vfs_type_to_abi vfs_type =
     (if vfs_type = VFS_NODE_REGULAR then TOYIX_FILE_REGULAR
      else if vfs_type = VFS_NODE_DIRECTORY then TOYIX_FILE_DIRECTORY
      else 0)"

definition syscall_stat :: "sysframe \<Rightarrow> 'd machine \<Rightarrow> 'd sys_result" where
  "syscall_stat frame m =
     (let user_path = ebx frame; user_stat = ecx frame in
      bindO (Some (process_current (mk m))) (\<lambda>current.
      if user_path = 0 \<or> user_stat = 0 \<or> current = 0 then Some (Inr (Returned SYS_FAILED, m))
      else bindO (syscall_copy_user_string user_path SYSCALL_PATH_MAX (mk m)) (\<lambda>p.
        case p of None \<Rightarrow> Some (Inr (Returned SYS_FAILED, m))
        | Some path \<Rightarrow>
            (case vfs_stat (Some path) of
               (rc, st) \<Rightarrow>
                 if rc \<noteq> VFS_OK then Some (Inr (Returned SYS_FAILED, m))
                 else (case st of None \<Rightarrow> Some (Inl (Fault ''vfs_stat result''))
                   | Some r \<Rightarrow>
                       (let ty = syscall_vfs_type_to_abi (vs_type r) in
                        if ty = 0 then Some (Inr (Returned SYS_FAILED, m))
                        else bindO (with_space (copy_to_user user_stat (Some (word_bytes ty @ word_bytes (vs_size r))) 8 (kas (mk m))) (mk m)) (\<lambda>(rc, k).
                          Some (Inr (Returned (if rc \<noteq> USERCOPY_OK then SYS_FAILED else 0), m\<lparr>mk := k\<rparr>)))))))))"

primrec exec_arguments :: "nat list \<Rightarrow> u32 \<Rightarrow> kernel \<Rightarrow> u8 list option list option res option" where
  "exec_arguments [] user_argv k = Some (Inr (Some []))"
| "exec_arguments (i # is) user_argv k =
     bindO (copy_from_user False (user_argv + word_of_nat i * 4) 4 (kas k)) (\<lambda>(rc, bs).
     if rc \<noteq> USERCOPY_OK then Some (Inr None)
     else bindO (syscall_copy_user_string (le32 bs 0) SYSCALL_EXEC_MAX_ARG_LEN k) (\<lambda>arg.
       if arg = None then Some (Inr None)
       else bindO (exec_arguments is user_argv k) (\<lambda>args. Some (Inr (map_option ((#) arg) args)))))"

definition syscall_exec :: "images \<Rightarrow> sysframe \<Rightarrow> 'd machine \<Rightarrow> 'd sys_result" where
  "syscall_exec im frame m =
     (let user_name = ebx frame; user_argv = ecx frame; argc = edx frame in
      bindO (syscall_copy_user_string user_name SYSCALL_EXEC_MAX_NAME (mk m)) (\<lambda>n.
      case n of None \<Rightarrow> Some (Inr (Returned SYS_FAILED, m))
      | Some name \<Rightarrow>
          bindO (if argc = 0 \<or> user_argv = 0 then Some (Inr (Some [Some name]))
                 else if argc > SYSCALL_EXEC_MAX_ARGS then Some (Inr None)
                 else exec_arguments [0..<unat argc] user_argv (mk m)) (\<lambda>args.
          case args of None \<Rightarrow> Some (Inr (Returned SYS_FAILED, m))
          | Some kernel_argv \<Rightarrow>
              bindO (program_run_background im (Some name) (int (length kernel_argv)) (Some kernel_argv) (mk m)) (\<lambda>(rc, child, k).
              if rc \<noteq> 0 \<or> child = 0 then Some (Inr (Returned SYS_FAILED, m\<lparr>mk := k\<rparr>))
              else bindO (Some (get_process child k)) (\<lambda>p. Some (Inr (Returned (p_pid p), m\<lparr>mk := k\<rparr>)))))))"

text \<open>The child of the caller with the given identifier that \<open>waitpid\<close> and \<open>procinfo\<close> are about, or a null pointer.\<close>

definition find_child :: "u32 \<Rightarrow> u32 \<Rightarrow> kernel \<Rightarrow> u32 res option" where
  "find_child current pid k =
     bindO (process_find pid k) (\<lambda>process.
     if process = 0 \<or> process = current then Some (Inr 0)
     else Some (bindE (get_process current k) (\<lambda>p.
          bindE (process_is_child_of process (p_pid p) k) (\<lambda>child.
          Inr (if \<not> child then 0 else process)))))"

definition syscall_waitpid :: "sysframe \<Rightarrow> 'd machine \<Rightarrow> 'd sys_result" where
  "syscall_waitpid frame m =
     (let pid = ebx frame in
      bindO (Some (process_current (mk m))) (\<lambda>current.
      if current = 0 then Some (Inr (Returned SYS_FAILED, m))
      else bindO (find_child current pid (mk m)) (\<lambda>process.
        if process = 0 then Some (Inr (Returned SYS_FAILED, m))
        else bindO (Some (process_wait_begin process (mk m))) (\<lambda>_. Some (Inr (Wait_process process, m))))))"

definition syscall_waitpid_done :: "sysframe \<Rightarrow> u32 \<Rightarrow> u32 \<Rightarrow> 'd machine \<Rightarrow> 'd sys_result" where
  "syscall_waitpid_done frame process status m =
     (let user_status = ecx frame in
      bindO (if user_status \<noteq> 0
             then with_space (copy_to_user user_status (Some (word_bytes status)) 4 (kas (mk m))) (mk m)
             else Some (Inr (USERCOPY_OK, mk m))) (\<lambda>(rc, k).
      if rc \<noteq> USERCOPY_OK then Some (Inr (Returned SYS_FAILED, m\<lparr>mk := k\<rparr>))
      else bindO (process_destroy process k) (\<lambda>k1. Some (Inr (Returned 0, m\<lparr>mk := k1\<rparr>)))))"

definition syscall_getpid :: "sysframe \<Rightarrow> 'd machine \<Rightarrow> 'd sys_result" where
  "syscall_getpid frame m =
     bindO (Some (process_current (mk m))) (\<lambda>current.
     if current = 0 then Some (Inr (Returned 0, m))
     else bindO (Some (get_process current (mk m))) (\<lambda>p. Some (Inr (Returned (p_pid p), m))))"

definition syscall_getppid :: "sysframe \<Rightarrow> 'd machine \<Rightarrow> 'd sys_result" where
  "syscall_getppid frame m =
     bindO (Some (process_current (mk m))) (\<lambda>current.
     if current = 0 then Some (Inr (Returned 0, m))
     else bindO (Some (process_parent_pid current (mk m))) (\<lambda>pid. Some (Inr (Returned pid, m))))"

definition state_code :: "process_state \<Rightarrow> u32" where
  "state_code st = (case st of PROCESS_NEW \<Rightarrow> 0 | PROCESS_RUNNING \<Rightarrow> 1 | PROCESS_ZOMBIE \<Rightarrow> 2 | PROCESS_DESTROYED \<Rightarrow> 3)"

definition procinfo_bytes :: "process \<Rightarrow> u8 list" where
  "procinfo_bytes p = concat (map word_bytes [p_pid p, p_parent_pid p, state_code (p_state p), p_exit_code p,
     if p_exited p then 1 else 0, if p_kill_requested p then 1 else 0])"

definition syscall_procinfo :: "sysframe \<Rightarrow> 'd machine \<Rightarrow> 'd sys_result" where
  "syscall_procinfo frame m =
     (let pid = ebx frame; user_info = ecx frame in
      bindO (Some (process_current (mk m))) (\<lambda>current.
      if current = 0 \<or> user_info = 0 \<or> pid = 0 then Some (Inr (Returned SYS_FAILED, m))
      else bindO (find_child current pid (mk m)) (\<lambda>process.
        if process = 0 then Some (Inr (Returned SYS_FAILED, m))
        else bindO (Some (get_process process (mk m))) (\<lambda>p.
          bindO (with_space (copy_to_user user_info (Some (procinfo_bytes p)) 24 (kas (mk m))) (mk m)) (\<lambda>(rc, k).
          Some (Inr (Returned (if rc \<noteq> USERCOPY_OK then SYS_FAILED else 0), m\<lparr>mk := k\<rparr>)))))))"

definition syscall_kill :: "sysframe \<Rightarrow> 'd machine \<Rightarrow> 'd sys_result" where
  "syscall_kill frame m =
     (let target_pid = ebx frame in
      bindO (Some (process_current (mk m))) (\<lambda>current.
      if current = 0 then Some (Inr (Returned SYS_FAILED, m))
      else bindO (Some (get_process current (mk m))) (\<lambda>p.
        if target_pid = 0 \<or> target_pid = p_pid p then Some (Inr (Returned SYS_FAILED, m))
        else bindO (process_request_kill_child (p_pid p) target_pid (mk m)) (\<lambda>(rc, k).
          Some (Inr (Returned (if rc \<noteq> 0 then SYS_FAILED else 0), m\<lparr>mk := k\<rparr>))))))"

definition syscall_finish_or_kill :: "'d machine \<Rightarrow> (bool \<times> 'd machine) res option" where
  "syscall_finish_or_kill m =
     bindO (Some (process_current (mk m))) (\<lambda>current.
     if current = 0 then Some (Inr (False, m))
     else bindO (Some (process_kill_requested current (mk m))) (\<lambda>killed.
       if \<not> killed then Some (Inr (False, m))
       else bindO (Some (process_exit_current PROCESS_KILLED_EXIT_CODE (mk m))) (\<lambda>k1.
         bindO (Some (on_sched thread_exit k1)) (\<lambda>k2. Some (Inr (True, m\<lparr>mk := k2\<rparr>))))))"

text \<open>The check for a pending kill after a call that returns.\<close>

definition then_finish :: "'d sys_result \<Rightarrow> 'd sys_result" where
  "then_finish r = bindO r (\<lambda>(out, m).
     case out of
       Returned v \<Rightarrow> bindO (syscall_finish_or_kill m) (\<lambda>(killed, m1). Some (Inr (if killed then Exited else Returned v, m1)))
     | _ \<Rightarrow> Some (Inr (out, m)))"

definition syscall_sleep :: "sysframe \<Rightarrow> 'd machine \<Rightarrow> 'd sys_result" where
  "syscall_sleep frame m =
     (let ticks = ebx frame in
      bindO (thread_sleep_ticks ticks True (ksched (mk m))) (\<lambda>(_, s).
      Some (Inr (if ticks = 0 then Returned 0 else Wait_ticks, m\<lparr>mk := (mk m)\<lparr>ksched := s\<rparr>\<rparr>))))"

definition syscall_exit :: "sysframe \<Rightarrow> 'd machine \<Rightarrow> 'd sys_result" where
  "syscall_exit frame m =
     bindO (Some (process_exit_current (ebx frame) (mk m))) (\<lambda>k1.
     bindO (Some (on_sched thread_exit k1)) (\<lambda>k2. Some (Inr (Exited, m\<lparr>mk := k2\<rparr>))))"

definition syscall_unknown :: "u32 \<Rightarrow> 'd machine \<Rightarrow> 'd sys_result" where
  "syscall_unknown number m =
     Some (Inr (Returned SYS_FAILED, m\<lparr>con := console_raw_putc 0x0A (console_raw_write_u32_dec number
       (console_raw_write (Some (bytes ''Syscall: unknown syscall '')) (con m)))\<rparr>))"

definition syscall_dispatch :: "images \<Rightarrow> sysframe \<Rightarrow> 'd machine \<Rightarrow> 'd sys_result" where
  "syscall_dispatch im frame m =
     (let number = eax frame in
      if number = 1 then then_finish (Some (Inr (Returned 0, m\<lparr>con := console_raw_putc (ucast (ebx frame AND 0xFF)) (con m)\<rparr>)))
      else if number = 5 then then_finish (syscall_read frame m)
      else if number = 3 then then_finish (syscall_write frame m)
      else if number = 4 then then_finish (syscall_sleep frame m)
      else if number = 6 then then_finish (syscall_exec im frame m)
      else if number = 7 then syscall_waitpid frame m
      else if number = 8 then then_finish (syscall_getpid frame m)
      else if number = 9 then then_finish (syscall_getppid frame m)
      else if number = 10 then then_finish (syscall_procinfo frame m)
      else if number = 11 then syscall_kill frame m
      else if number = 12 then then_finish (syscall_open frame m)
      else if number = 13 then then_finish (syscall_close frame m)
      else if number = 14 then then_finish (syscall_seek frame m)
      else if number = 15 then then_finish (syscall_stat frame m)
      else if number = 2 then syscall_exit frame m
      else syscall_unknown number m)"

definition syscall_handler :: "images \<Rightarrow> sysframe \<Rightarrow> 'd machine \<Rightarrow> 'd sys_result" where
  "syscall_handler im frame m =
     (if eax frame \<noteq> 2 \<and> eax frame \<noteq> 7 \<and> eax frame \<noteq> 11
      then bindO (syscall_finish_or_kill m) (\<lambda>(killed, m1).
           if killed then Some (Inr (Exited, m1)) else syscall_dispatch im frame m1)
      else syscall_dispatch im frame m)"

text \<open>The rest of a call after the wait it stopped in.\<close>

definition syscall_resume_read :: "sysframe \<Rightarrow> u8 list \<Rightarrow> 'd machine \<Rightarrow> 'd sys_result" where
  "syscall_resume_read frame line m = then_finish (read_copy_out (ecx frame) line m)"

definition syscall_resume_sleep :: "'d machine \<Rightarrow> 'd sys_result" where
  "syscall_resume_sleep m = then_finish (Some (Inr (Returned 0, m)))"

section \<open>Families of processes\<close>

lemma first_with_Some:
  assumes "first_with P k ps = a" and "a \<noteq> 0"
  shows "a \<in> set ps" and "\<exists>q. procs k a = Some q \<and> P q"
  using assms by (auto simp: first_with_def find_Some_iff split: option.splits)

lemma first_with_0:
  assumes "first_with P k ps = 0" and "a \<in> set ps" and "a \<noteq> 0" and "procs k a = Some q" and "ptable k ps"
  shows "\<not> P q"
proof -
  have "0 \<notin> set ps" using ptable_process [OF assms(5)] by blast
  then have "find (\<lambda>a. \<exists>p. procs k a = Some p \<and> P p) ps = None"
    using assms(1) by (auto simp: first_with_def find_Some_iff split: option.splits) (metis nth_mem)
  then show ?thesis using assms(2,4) by (auto simp: find_None_iff)
qed

lemma find_child_none:
  assumes t: "ptable k ps" and ok: "procs_ok k" and c: "procs k c = Some p"
    and no: "first_with (\<lambda>q. p_pid q = pid \<and> p_parent_pid q = p_pid p) k ps = 0"
  shows "find_child c pid k = Some (Inr 0)"
proof (cases "first_with (\<lambda>q. p_pid q = pid) k ps = 0")
  case False
  define a where "a = first_with (\<lambda>q. p_pid q = pid) k ps"
  from False have a0: "a \<noteq> 0" by (simp add: a_def)
  from first_with_Some [OF a_def [symmetric] a0] obtain q :: process where
    a: "a \<in> set ps" "procs k a = Some q" "p_pid q = pid" by blast
  have "p_parent_pid q \<noteq> p_pid p" using first_with_0 [OF no a(1) a0 a(2) t] a(3) by simp
  moreover have "validate_live_process a k = Inr q" by (rule validate_live_ok [OF a(2) a0]) (use ok a(2) in \<open>auto simp: procs_ok_at_def\<close>)
  ultimately show ?thesis using c a0
    by (simp add: find_child_def process_find_list [OF t] get_process_def process_is_child_of_def flip: a_def)
qed (simp add: find_child_def process_find_list [OF t])

lemma finish_not_killed:
  assumes "process_current (mk m) = Inr c" and "c \<noteq> 0" and "procs (mk m) c = Some p" and "procs_ok (mk m)" and "\<not> p_kill_requested p"
  shows "syscall_finish_or_kill m = Some (Inr (False, m))"
proof -
  have "validate_live_process c (mk m) = Inr p" by (rule validate_live_ok [OF assms(3,2)]) (use assms(3,4) in \<open>auto simp: procs_ok_at_def\<close>)
  then show ?thesis using assms by (simp add: syscall_finish_or_kill_def process_kill_requested_def)
qed

text \<open>
  C39. A process reaches only its own children: \<open>waitpid\<close>, \<open>procinfo\<close> and \<open>kill\<close> with an identifier
  that no child of the caller has return the error value and leave the machine exactly as it was,
  whatever the other processes are. A kill of a live child returns 0, marks that child and
  changes nothing else.
\<close>

theorem syscalls_reach_only_children:
  assumes t: "ptable (mk m) ps" and ok: "procs_ok (mk m)"
    and c: "process_current (mk m) = Inr c" "c \<in> set ps" "procs (mk m) c = Some p" "\<not> p_kill_requested p"
    and child: "child = first_with (\<lambda>q. p_pid q = ebx frame \<and> p_parent_pid q = p_pid p) (mk m) ps"
  shows "(child = 0 \<and> (eax frame = 7 \<or> eax frame = 10 \<or> eax frame = 11)
        \<longrightarrow> syscall_handler im frame m = Some (Inr (Returned SYS_FAILED, m)))
    \<and> (child \<noteq> 0 \<and> eax frame = 11 \<and> procs (mk m) child = Some q \<and> killable q \<and> ebx frame \<noteq> 0 \<and> ebx frame \<noteq> p_pid p
        \<longrightarrow> syscall_handler im frame m
          = Some (Inr (Returned 0, m\<lparr>mk := (mk m)\<lparr>procs := (procs (mk m))(child \<mapsto> q\<lparr>p_kill_requested := True\<rparr>)\<rparr>\<rparr>)))"
proof (intro conjI)
  have c0: "c \<noteq> 0" using ptable_process [OF t c(2)] by blast
  note finish = finish_not_killed [OF c(1) c0 c(3) ok c(4)]
  note kill = process_request_kill_child_list [OF t, where parent = "p_pid p" and child = "ebx frame", folded child]
  show "child = 0 \<and> (eax frame = 7 \<or> eax frame = 10 \<or> eax frame = 11)
      \<longrightarrow> syscall_handler im frame m = Some (Inr (Returned SYS_FAILED, m))"
  proof (intro impI, elim conjE)
    assume no: "child = 0" and n: "eax frame = 7 \<or> eax frame = 10 \<or> eax frame = 11"
    note find = find_child_none [OF t ok c(3) child [unfolded no, symmetric]]
    have k: "process_request_kill_child (p_pid p) (ebx frame) (mk m) = Some (Inr (-1, mk m))"
      unfolding kill no by (simp split: option.split)
    from n show "syscall_handler im frame m = Some (Inr (Returned SYS_FAILED, m))"
    proof (elim disjE)
      assume "eax frame = 7"
      then show ?thesis using c(1) c0 find by (simp add: syscall_handler_def syscall_dispatch_def syscall_waitpid_def)
    next
      assume "eax frame = 10"
      moreover have "syscall_procinfo frame m = Some (Inr (Returned SYS_FAILED, m))"
        using c(1) c0 find by (simp add: syscall_procinfo_def Let_def)
      ultimately show ?thesis using finish by (simp add: syscall_handler_def syscall_dispatch_def then_finish_def)
    next
      assume "eax frame = 11"
      then show ?thesis using c k c0
        by (simp add: syscall_handler_def syscall_dispatch_def syscall_kill_def get_process_def Let_def)
    qed
  qed
  show "child \<noteq> 0 \<and> eax frame = 11 \<and> procs (mk m) child = Some q \<and> killable q \<and> ebx frame \<noteq> 0 \<and> ebx frame \<noteq> p_pid p
      \<longrightarrow> syscall_handler im frame m
        = Some (Inr (Returned 0, m\<lparr>mk := (mk m)\<lparr>procs := (procs (mk m))(child \<mapsto> q\<lparr>p_kill_requested := True\<rparr>)\<rparr>\<rparr>))"
    using c c0 kill by (auto simp: syscall_handler_def syscall_dispatch_def syscall_kill_def get_process_def)
qed

text \<open>
  A requested kill takes effect at the next call of the process other than exiting, waiting and
  killing: the process becomes a zombie with exit code 128 and its thread exits, and the call is not
  carried out.
\<close>

lemma kill_delivered:
  assumes c: "process_current (mk m) = Inr c" "c \<noteq> 0" "procs (mk m) c = Some p" and ok: "procs_ok (mk m)" and kill: "p_kill_requested p"
    and n: "eax frame \<noteq> 2" "eax frame \<noteq> 7" "eax frame \<noteq> 11" and s: "thread_exit (ksched (mk m)) = Inr s"
  shows "syscall_handler im frame m = Some (Inr (Exited, m\<lparr>mk := (mk m)\<lparr>ksched := s, last_exit_code := 128, last_exit_seen := True,
    procs := (procs (mk m))(c \<mapsto> p\<lparr>p_exit_code := 128, p_exited := True, p_state := PROCESS_ZOMBIE, p_kill_requested := False\<rparr>)\<rparr>\<rparr>))"
proof -
  have v: "validate_live_process c (mk m) = Inr p" by (rule validate_live_ok [OF c(3,2)]) (use c(3) ok in \<open>auto simp: procs_ok_at_def\<close>)
  show ?thesis using c v kill n s
    by (simp add: syscall_handler_def syscall_finish_or_kill_def process_kill_requested_def process_exit_current_def
        upd_process_def get_process_def on_sched_def)
qed

definition sample_machine :: "unit machine" where
  "sample_machine = \<lparr>mk = (sample_kernel THREAD_RUNNING)\<lparr>procs := [64 \<mapsto> sample_process\<lparr>p_next := 512\<rparr>,
       512 \<mapsto> sample_process\<lparr>p_pid := 2, p_parent_pid := 1, p_prev := 64\<rparr>], process_tail := 512, process_count := 2\<rparr>,
     con = \<lparr>drivers = [], devices = (), console_mutex = \<lparr>mx_name = ''console'', mx_locked = False, mx_owner = 0,
       mx_waiters = \<lparr>wq_name = ''console'', wq_head = 0, wq_tail = 0\<rparr>\<rparr>, console_locking_ready = True\<rparr>\<rparr>"

definition sample_images :: images where
  "sample_images = \<lparr>im_start = (\<lambda>_. 0x200000), im_end = (\<lambda>_. 0x200058), im_bytes = (\<lambda>_. sample_elf)\<rparr>"

lemma sample_machine_ok:
  "ptable (mk sample_machine) [64, 512]" "procs_ok (mk sample_machine)" "process_current (mk sample_machine) = Inr 64"
  by (auto simp: sample_machine_def ptable_def pl.dlist_def last0_def sample_process_def procs_ok_at_def process_ok_at_def fds_ok_def
      process_current_def thread_current_def thread_get_process_def get_thread_def sample_thread_def validate_thread_def)

theorem syscalls_reach_only_children_witness:
  "syscall_handler sample_images \<lparr>eax = 11, ebx = 7, ecx = 0, edx = 0\<rparr> sample_machine = Some (Inr (Returned SYS_FAILED, sample_machine))
   \<and> (\<exists>m. syscall_handler sample_images \<lparr>eax = 11, ebx = 2, ecx = 0, edx = 0\<rparr> sample_machine = Some (Inr (Returned 0, m))
        \<and> map_option p_kill_requested (procs (mk m) 512) = Some True)"
proof -
  let ?p = "sample_process\<lparr>p_next := 512\<rparr>" and ?q = "sample_process\<lparr>p_pid := 2, p_parent_pid := 1, p_prev := 64\<rparr>"
  have p: "procs (mk sample_machine) 64 = Some ?p" "\<not> p_kill_requested ?p" and pid: "p_pid ?p = 1"
    and q: "procs (mk sample_machine) 512 = Some ?q" "killable ?q"
    by (simp_all add: sample_machine_def sample_process_def killable_def)
  have f: "first_with (\<lambda>q. p_pid q = 7 \<and> p_parent_pid q = 1) (mk sample_machine) [64, 512] = 0"
    "first_with (\<lambda>q. p_pid q = 2 \<and> p_parent_pid q = 1) (mk sample_machine) [64, 512] = 512"
    by (simp_all add: first_with_def sample_machine_def sample_process_def)
  note law = syscalls_reach_only_children [OF sample_machine_ok _ p refl, where im = sample_images and q = ?q, unfolded pid]
  from law [of "\<lparr>eax = 11, ebx = 7, ecx = 0, edx = 0\<rparr>"] law [of "\<lparr>eax = 11, ebx = 2, ecx = 0, edx = 0\<rparr>"] q
  show ?thesis by (simp add: f)
qed

end
