(* ===== verification/Keyboard.thy ===== *)
theory Keyboard
  imports Console
begin

text \<open>
  Input: the keyboard driver of \<open>drivers/input/keyboard.c\<close> and the line discipline of
  \<open>kernel/terminal.c\<close>. The ring buffer is a function from indices to characters with the driver's
  head, tail and count. Scancodes arrive one interrupt at a time; the byte read from the data port
  is the argument of the handler. One turn of \<open>keyboard_getchar_blocking\<close> either gets a character or
  leaves the thread blocked. \<open>terminal_readline\<close> consumes the characters the keyboard hands to it.
\<close>

section \<open>The keyboard driver\<close>

abbreviation (input) KEYBOARD_RING_SIZE :: u32 where "KEYBOARD_RING_SIZE \<equiv> 128"
abbreviation (input) SC_LSHIFT :: u8 where "SC_LSHIFT \<equiv> 0x2A"
abbreviation (input) SC_RSHIFT :: u8 where "SC_RSHIFT \<equiv> 0x36"
abbreviation (input) SC_CAPSLOCK :: u8 where "SC_CAPSLOCK \<equiv> 0x3A"

record keyboard =
  keyboard_wait_queue :: wait_queue
  keyboard_ring :: "u32 \<Rightarrow> u8"
  keyboard_head :: u32
  keyboard_tail :: u32
  keyboard_count :: u32
  keyboard_shift_down :: bool
  keyboard_caps_lock :: bool

definition scancode_set1_ascii :: "u8 list" where
  "scancode_set1_ascii =
     [0, 0] @ bytes ''1234567890-='' @ [0x08, 0x09] @ bytes ''qwertyuiop[]'' @ [0x0A, 0] @ bytes ''asdfghjkl;'' @ [0x27, 0x60, 0, 0x5C]
     @ bytes ''zxcvbnm,./'' @ [0, 0, 0, 0x20] @ replicate 70 0"

definition scancode_set1_shifted_ascii :: "u8 list" where
  "scancode_set1_shifted_ascii =
     [0, 0] @ bytes ''!@#$%^&*()_+'' @ replicate 12 0 @ bytes ''{}'' @ replicate 11 0 @ [0x3A, 0x22, 0x7E, 0, 0x7C]
     @ replicate 7 0 @ bytes ''<>?'' @ replicate 74 0"

definition keyboard_has_data :: "keyboard \<Rightarrow> bool" where
  "keyboard_has_data kb \<longleftrightarrow> keyboard_count kb > 0"

definition ascii_is_lower :: "u8 \<Rightarrow> bool" where
  "ascii_is_lower ch \<longleftrightarrow> sint ch \<ge> 0x61 \<and> sint ch \<le> 0x7A"

definition ascii_is_upper :: "u8 \<Rightarrow> bool" where
  "ascii_is_upper ch \<longleftrightarrow> sint ch \<ge> 0x41 \<and> sint ch \<le> 0x5A"

definition ascii_to_upper :: "u8 \<Rightarrow> u8" where
  "ascii_to_upper ch = (if ascii_is_lower ch then ch - 0x61 + 0x41 else ch)"

definition keyboard_translate_scancode :: "u8 \<Rightarrow> keyboard \<Rightarrow> u8 res" where
  "keyboard_translate_scancode scancode kb =
     (if unat scancode \<ge> 128 then Inl (Fault ''scancode table index'')
      else
        (let base = scancode_set1_ascii ! unat scancode; shifted = scancode_set1_shifted_ascii ! unat scancode in
         Inr (if base = 0 then 0
              else if ascii_is_lower base \<or> ascii_is_upper base
              then if keyboard_shift_down kb \<noteq> keyboard_caps_lock kb then ascii_to_upper base else base
              else if keyboard_shift_down kb \<and> shifted \<noteq> 0 then shifted
              else base)))"

definition keyboard_ring_push :: "u8 \<Rightarrow> keyboard \<Rightarrow> bool \<times> keyboard" where
  "keyboard_ring_push ch kb =
     (if keyboard_count kb \<ge> KEYBOARD_RING_SIZE then (False, kb)
      else (True, kb\<lparr>keyboard_ring := (keyboard_ring kb)(keyboard_tail kb := ch),
                     keyboard_tail := (keyboard_tail kb + 1) mod KEYBOARD_RING_SIZE,
                     keyboard_count := keyboard_count kb + 1\<rparr>))"

definition keyboard_ring_pop :: "bool \<Rightarrow> keyboard \<Rightarrow> u8 option \<times> keyboard" where
  "keyboard_ring_pop out_null kb =
     (if keyboard_count kb = 0 \<or> out_null then (None, kb)
      else (Some (keyboard_ring kb (keyboard_head kb)),
            kb\<lparr>keyboard_head := (keyboard_head kb + 1) mod KEYBOARD_RING_SIZE, keyboard_count := keyboard_count kb - 1\<rparr>))"

definition keyboard_deliver_char :: "u8 \<Rightarrow> keyboard \<times> sched \<Rightarrow> (keyboard \<times> sched) res" where
  "keyboard_deliver_char ch = (\<lambda>(kb, s).
     let (pushed, kb1) = keyboard_ring_push ch kb in
     if pushed
     then bindE (wait_queue_wake_one (keyboard_wait_queue kb1) s) (\<lambda>(q, s1). Inr (kb1\<lparr>keyboard_wait_queue := q\<rparr>, s1))
     else Inr (kb1, s))"

definition keyboard_handle_modifier :: "u8 \<Rightarrow> keyboard \<Rightarrow> keyboard" where
  "keyboard_handle_modifier scancode kb =
     (let released = (scancode AND 0x80 \<noteq> 0); code = scancode AND 0x7F in
      if code = SC_LSHIFT \<or> code = SC_RSHIFT then kb\<lparr>keyboard_shift_down := \<not> released\<rparr>
      else if \<not> released \<and> code = SC_CAPSLOCK then kb\<lparr>keyboard_caps_lock := \<not> keyboard_caps_lock kb\<rparr>
      else kb)"

definition keyboard_is_modifier :: "u8 \<Rightarrow> bool" where
  "keyboard_is_modifier scancode \<longleftrightarrow>
     (let code = scancode AND 0x7F in code = SC_LSHIFT \<or> code = SC_RSHIFT \<or> code = SC_CAPSLOCK)"

definition keyboard_irq_handler :: "u8 \<Rightarrow> keyboard \<times> sched \<Rightarrow> (keyboard \<times> sched) res" where
  "keyboard_irq_handler scancode = (\<lambda>(kb, s).
     if keyboard_is_modifier scancode then Inr (keyboard_handle_modifier scancode kb, s)
     else if scancode AND 0x80 \<noteq> 0 then Inr (kb, s)
     else if scancode < 128
     then bindE (keyboard_translate_scancode scancode kb) (\<lambda>ch.
          if ch \<noteq> 0 then keyboard_deliver_char ch (kb, s) else Inr (kb, s))
     else Inr (kb, s))"

definition keyboard_init :: "keyboard \<Rightarrow> keyboard" where
  "keyboard_init kb = kb\<lparr>keyboard_head := 0, keyboard_tail := 0, keyboard_count := 0, keyboard_shift_down := False,
     keyboard_caps_lock := False, keyboard_wait_queue := wait_queue_init (Some ''keyboard'') (keyboard_wait_queue kb)\<rparr>"

definition keyboard_try_getchar :: "bool \<Rightarrow> keyboard \<Rightarrow> u8 option \<times> keyboard" where
  "keyboard_try_getchar out_null kb = (if out_null then (None, kb) else keyboard_ring_pop out_null kb)"

definition keyboard_getchar_turn :: "keyboard \<times> sched \<Rightarrow> (u8 option \<times> keyboard \<times> sched) res" where
  "keyboard_getchar_turn = (\<lambda>(kb, s).
     bindE (wait_queue_wait_step (keyboard_has_data kb) (keyboard_wait_queue kb) s) (\<lambda>(ok, q, s1).
     if ok then let (ch, kb1) = keyboard_ring_pop False (kb\<lparr>keyboard_wait_queue := q\<rparr>) in Inr (ch, kb1, s1)
     else Inr (None, kb\<lparr>keyboard_wait_queue := q\<rparr>, s1)))"

definition keyboard_debug_inject_char :: "u8 \<Rightarrow> keyboard \<times> sched \<Rightarrow> (keyboard \<times> sched) res" where
  "keyboard_debug_inject_char ch = keyboard_deliver_char ch"

section \<open>The line discipline\<close>

definition terminal_is_printable :: "u8 \<Rightarrow> bool" where
  "terminal_is_printable ch \<longleftrightarrow> sint ch \<ge> 32 \<and> sint ch \<le> 126"

text \<open>
  The buffer is given by the characters before its terminator. The result is the line, the console
  after the echo, and the characters not read yet; \<open>None\<close> means that the line has not ended and
  the thread waits for more characters.
\<close>

fun readline_loop :: "nat \<Rightarrow> u8 list \<Rightarrow> u8 list \<Rightarrow> 'd console \<Rightarrow> (u8 list \<times> 'd console \<times> u8 list) option" where
  "readline_loop buffer_size [] buffer c = None"
| "readline_loop buffer_size (ch0 # chs) buffer c =
     (let ch = (if ch0 = 0x0D then 0x0A else ch0) in
      if ch = 0x0A then Some (buffer, console_raw_putc 0x0A c, chs)
      else if ch = 0x08 \<or> ch = 127
      then if length buffer > 0
           then readline_loop buffer_size chs (butlast buffer) (console_raw_write (Some [0x08, 0x20, 0x08]) c)
           else readline_loop buffer_size chs buffer c
      else if terminal_is_printable ch \<and> length buffer + 1 < buffer_size
      then readline_loop buffer_size chs (buffer @ [ch]) (console_raw_putc ch c)
      else readline_loop buffer_size chs buffer c)"

definition terminal_readline :: "bool \<Rightarrow> u32 \<Rightarrow> u8 list \<Rightarrow> 'd console \<Rightarrow> (u8 list \<times> 'd console \<times> u8 list) option" where
  "terminal_readline buffer_null buffer_size chs c =
     (if buffer_null \<or> buffer_size = 0 then Some ([], c, chs)
      else readline_loop (unat buffer_size) chs [] c)"

section \<open>Bounded queues\<close>

text \<open>
  The contract of a bounded queue: what pushing and popping do to the list of its elements. A run of
  pushes and pops then behaves as the list does.
\<close>

primrec run_list :: "nat \<Rightarrow> 'a option list \<Rightarrow> 'a list \<Rightarrow> 'a option list \<times> 'a list" where
  "run_list n [] q = ([], q)"
| "run_list n (e # es) q =
     (case e of
        Some x \<Rightarrow> run_list n es (if length q < n then q @ [x] else q)
      | None \<Rightarrow> (case q of [] \<Rightarrow> apfst ((#) None) (run_list n es []) | x # xs \<Rightarrow> apfst ((#) (Some x)) (run_list n es xs)))"

locale bounded_queue =
  fixes push :: "'a \<Rightarrow> 's \<Rightarrow> bool \<times> 's" and pop :: "'s \<Rightarrow> 'a option \<times> 's"
    and contents_of :: "'s \<Rightarrow> 'a list" and ok :: "'s \<Rightarrow> bool" and capacity :: nat
  assumes push_law: "ok s \<Longrightarrow> ok (snd (push x s)) \<and> fst (push x s) = (length (contents_of s) < capacity)
      \<and> contents_of (snd (push x s)) = (if length (contents_of s) < capacity then contents_of s @ [x] else contents_of s)"
    and pop_law: "ok s \<Longrightarrow> ok (snd (pop s))
      \<and> (case contents_of s of [] \<Rightarrow> fst (pop s) = None \<and> contents_of (snd (pop s)) = []
         | x # xs \<Rightarrow> fst (pop s) = Some x \<and> contents_of (snd (pop s)) = xs)"
begin

primrec run_queue :: "'a option list \<Rightarrow> 's \<Rightarrow> 'a option list \<times> 's" where
  "run_queue [] s = ([], s)"
| "run_queue (e # es) s =
     (case e of Some x \<Rightarrow> run_queue es (snd (push x s)) | None \<Rightarrow> apfst ((#) (fst (pop s))) (run_queue es (snd (pop s))))"

lemma run_queue_list:
  "ok s \<Longrightarrow> fst (run_queue es s) = fst (run_list capacity es (contents_of s))
     \<and> contents_of (snd (run_queue es s)) = snd (run_list capacity es (contents_of s)) \<and> ok (snd (run_queue es s))"
proof (induction es arbitrary: s)
  case (Cons e es)
  show ?case
  proof (cases e)
    case None
    then show ?thesis using Cons.IH [of "snd (pop s)"] pop_law [OF Cons.prems] by (auto split: list.splits)
  next
    case (Some x)
    then show ?thesis using Cons.IH [of "snd (push x s)"] push_law [OF Cons.prems, of x] by simp
  qed
qed simp

end

section \<open>The ring buffer\<close>

definition ring_contents :: "keyboard \<Rightarrow> u8 list" where
  "ring_contents kb = map (\<lambda>i. keyboard_ring kb ((keyboard_head kb + word_of_nat i) mod 128)) [0..<unat (keyboard_count kb)]"

definition ring_ok :: "keyboard \<Rightarrow> bool" where
  "ring_ok kb \<longleftrightarrow> keyboard_head kb < 128 \<and> keyboard_count kb \<le> 128
     \<and> keyboard_tail kb = (keyboard_head kb + keyboard_count kb) mod 128"

lemma unat_ring_index: "(h :: u32) < 128 \<Longrightarrow> i \<le> 128 \<Longrightarrow> unat ((h + word_of_nat i) mod 128) = (unat h + i) mod 128"
  by (simp add: unat_mod unat_word_ariths unat_of_nat take_bit_eq_mod word_less_nat_alt)

lemma ring_index_distinct:
  assumes "(h :: u32) < 128" and "i < c" and "c < 128"
  shows "(h + word_of_nat i) mod 128 \<noteq> (h + word_of_nat c) mod 128"
proof
  assume "(h + word_of_nat i) mod 128 = (h + word_of_nat c) mod 128"
  then have "unat ((h + word_of_nat i) mod 128) = unat ((h + word_of_nat c) mod 128)" by simp
  then have "(unat h + c) mod 128 = (unat h + i) mod 128" using assms by (simp add: unat_ring_index)
  then have "128 dvd (unat h + c) - (unat h + i)" using assms(2) by (subst (asm) mod_eq_dvd_iff_nat) simp_all
  with assms(2,3) show False by (auto dest: dvd_imp_le)
qed

lemma ring_index_next:
  assumes "(h :: u32) < 128" and "i < 128"
  shows "((h + 1) mod 128 + word_of_nat i) mod 128 = (h + word_of_nat (Suc i)) mod 128"
proof -
  have h: "(h + 1) mod 128 < 128" by (simp add: word_less_nat_alt unat_mod)
  have "unat ((h + 1) mod 128) = (unat h + 1) mod 128" using unat_ring_index [of h 1] assms(1) by simp
  then have "unat (((h + 1) mod 128 + word_of_nat i) mod 128) = unat ((h + word_of_nat (Suc i)) mod 128)"
    using assms h by (simp add: unat_ring_index mod_simps del: of_nat_Suc)
  then show ?thesis by (rule word_unat_eq_iff [THEN iffD2])
qed

lemma word_of_nat_count: "word_of_nat (unat (x :: u32)) = x"
  by simp

lemma ring_push_law:
  assumes ok: "ring_ok kb"
  shows "ring_ok (snd (keyboard_ring_push ch kb)) \<and> fst (keyboard_ring_push ch kb) = (length (ring_contents kb) < 128)
    \<and> ring_contents (snd (keyboard_ring_push ch kb)) = (if length (ring_contents kb) < 128 then ring_contents kb @ [ch] else ring_contents kb)"
proof (cases "keyboard_count kb < 128")
  case True
  let ?h = "keyboard_head kb" and ?c = "unat (keyboard_count kb)"
  have h: "?h < 128" and t: "keyboard_tail kb = (?h + word_of_nat ?c) mod 128" and c: "?c < 128"
    using ok True by (simp_all add: ring_ok_def word_less_nat_alt)
  have c1: "unat (keyboard_count kb + 1) = Suc ?c" using c by (simp add: unat_word_ariths)
  have "((?h + keyboard_count kb) mod 128 + 1) mod 128 = (?h + (keyboard_count kb + 1)) mod 128"
  proof -
    have "unat (((?h + keyboard_count kb) mod 128 + 1) mod 128) = ((unat ?h + ?c) mod 128 + 1) mod 128"
      using unat_ring_index [of ?h ?c] unat_ring_index [of "(?h + keyboard_count kb) mod 128" 1] h c
      by (simp add: word_less_nat_alt unat_mod)
    also have "\<dots> = (unat ?h + Suc ?c) mod 128" by (simp add: mod_simps)
    also have "\<dots> = unat ((?h + word_of_nat (Suc ?c)) mod 128)" using h c by (subst unat_ring_index) simp_all
    finally have "((?h + keyboard_count kb) mod 128 + 1) mod 128 = (?h + word_of_nat (Suc ?c)) mod 128"
      by (rule word_unat_eq_iff [THEN iffD2])
    then show ?thesis by (simp add: ac_simps)
  qed
  then have "ring_ok (snd (keyboard_ring_push ch kb))"
    using True ok h c1 c by (simp add: keyboard_ring_push_def ring_ok_def word_le_nat_alt)
  moreover have "ring_contents (snd (keyboard_ring_push ch kb)) = ring_contents kb @ [ch]"
    using True c1 ring_index_distinct [OF h _ c] by (auto simp: keyboard_ring_push_def ring_contents_def t simp del: word_of_nat_count)
  ultimately show ?thesis using True c by (simp add: keyboard_ring_push_def ring_contents_def)
qed (use ok in \<open>auto simp: keyboard_ring_push_def ring_contents_def word_le_nat_alt word_less_nat_alt\<close>)

lemma ring_pop_law:
  assumes ok: "ring_ok kb"
  shows "ring_ok (snd (keyboard_ring_pop False kb))
    \<and> (case ring_contents kb of
         [] \<Rightarrow> fst (keyboard_ring_pop False kb) = None \<and> ring_contents (snd (keyboard_ring_pop False kb)) = []
       | x # xs \<Rightarrow> fst (keyboard_ring_pop False kb) = Some x \<and> ring_contents (snd (keyboard_ring_pop False kb)) = xs)"
proof (cases "keyboard_count kb = 0")
  case False
  let ?h = "keyboard_head kb" and ?c = "unat (keyboard_count kb)"
  have h: "?h < 128" and c: "?c \<le> 128" using ok by (simp_all add: ring_ok_def word_le_nat_alt)
  have c1: "unat (keyboard_count kb - 1) = ?c - 1" and c0: "0 < ?c"
    using False by (simp_all add: unat_sub_if' Suc_le_eq unat_gt_0)
  have h0: "?h mod 128 = ?h" using h by (simp add: mod_word_less)
  have "[0..<?c] = 0 # map Suc [0..<?c - 1]" using c0 by (metis Suc_pred' map_Suc_upt upt_conv_Cons)
  then have e: "ring_contents kb = keyboard_ring kb ?h # map (\<lambda>i. keyboard_ring kb ((?h + word_of_nat (Suc i)) mod 128)) [0..<?c - 1]"
    unfolding ring_contents_def by (simp add: h0 del: of_nat_Suc)
  have "map (\<lambda>i. keyboard_ring kb ((?h + word_of_nat (Suc i)) mod 128)) [0..<?c - 1]
      = map (\<lambda>i. keyboard_ring kb (((?h + 1) mod 128 + word_of_nat i) mod 128)) [0..<?c - 1]"
    using ring_index_next [OF h] c by (intro map_cong) (auto simp del: of_nat_Suc)
  moreover have "(?h + keyboard_count kb) mod 128 = ((?h + 1) mod 128 + (keyboard_count kb - 1)) mod 128"
  proof -
    have w: "word_of_nat (?c - 1) = keyboard_count kb - 1" "word_of_nat (Suc (?c - 1)) = keyboard_count kb"
      subgoal unfolding c1 [symmetric] by simp
      subgoal using c0 by (simp add: Suc_diff_1 del: of_nat_Suc)
      done
    have "?c - 1 < 128" using c c0 by linarith
    from ring_index_next [OF h this] show ?thesis unfolding w by simp
  qed
  moreover have "(?h + 1) mod 128 < 128" by (simp add: word_less_nat_alt unat_mod)
  ultimately show ?thesis
    using False ok c c1 unfolding e by (simp add: keyboard_ring_pop_def ring_ok_def ring_contents_def word_le_nat_alt)
qed (use ok in \<open>simp add: keyboard_ring_pop_def ring_contents_def\<close>)

interpretation kbd: bounded_queue keyboard_ring_push "keyboard_ring_pop False" ring_contents ring_ok 128
  by unfold_locales (use ring_push_law ring_pop_law in blast)+

section \<open>From scancodes to characters\<close>

text \<open>
  The reference: which character a scancode types, given the state of the shift and the caps lock
  keys, and what it does to that state.
\<close>

definition key_char :: "bool \<Rightarrow> bool \<Rightarrow> u8 \<Rightarrow> u8 option" where
  "key_char shift caps c =
     (let base = scancode_set1_ascii ! unat c; shifted = scancode_set1_shifted_ascii ! unat c in
      if base = 0 then None
      else if ascii_is_lower base then Some (if shift \<noteq> caps then base - 32 else base)
      else Some (if shift \<and> shifted \<noteq> 0 then shifted else base))"

definition typed :: "u8 \<Rightarrow> bool \<Rightarrow> bool \<Rightarrow> bool \<times> bool \<times> u8 option" where
  "typed c shift caps =
     (if c = 0x2A \<or> c = 0x36 then (True, caps, None)
      else if c = 0xAA \<or> c = 0xB6 then (False, caps, None)
      else if c = 0x3A then (shift, \<not> caps, None)
      else if c \<ge> 128 then (shift, caps, None)
      else (shift, caps, key_char shift caps c))"

datatype input_event = Scancode u8 | Getchar

fun spec_run :: "input_event list \<Rightarrow> bool \<times> bool \<times> u8 list \<Rightarrow> u8 option list" where
  "spec_run [] t = []"
| "spec_run (Scancode c # es) (shift, caps, q) =
     (case typed c shift caps of (shift', caps', ch) \<Rightarrow>
        spec_run es (shift', caps', case ch of None \<Rightarrow> q | Some x \<Rightarrow> if length q < 128 then q @ [x] else q))"
| "spec_run (Getchar # es) (shift, caps, []) = None # spec_run es (shift, caps, [])"
| "spec_run (Getchar # es) (shift, caps, x # q) = Some x # spec_run es (shift, caps, q)"

fun run_events :: "input_event list \<Rightarrow> keyboard \<times> sched \<Rightarrow> (u8 option list \<times> keyboard \<times> sched) res" where
  "run_events [] (kb, s) = Inr ([], kb, s)"
| "run_events (Scancode c # es) (kb, s) = bindE (keyboard_irq_handler c (kb, s)) (run_events es)"
| "run_events (Getchar # es) (kb, s) =
     (case keyboard_try_getchar False kb of (ch, kb1) \<Rightarrow>
        bindE (run_events es (kb1, s)) (\<lambda>(chs, r). Inr (ch # chs, r)))"

lemma u8_high_bit: "(c :: u8) AND 0x80 \<noteq> 0 \<longleftrightarrow> 128 \<le> c"
proof -
  have "c AND 0x80 \<noteq> 0 \<longleftrightarrow> bit c 7" using and_single_bit [of c 7] by simp
  also have "\<dots> \<longleftrightarrow> bit (unat c) 7" by (simp add: bit_unsigned_iff)
  also have "\<dots> \<longleftrightarrow> odd (unat c div 128)" by (simp add: bit_iff_odd)
  also have "\<dots> \<longleftrightarrow> 128 \<le> unat c"
  proof -
    have "unat c < 256" using unsigned_less [of c, where ?'a = nat] by simp
    then show ?thesis by (cases "unat c < 128") (simp_all add: le_div_geq)
  qed
  finally show ?thesis by (simp add: word_le_nat_alt)
qed

lemma u8_low_bits:
  "k < 128 \<Longrightarrow> (c :: u8) AND 0x7F = word_of_nat k \<longleftrightarrow> c = word_of_nat k \<or> c = word_of_nat (k + 128)"
proof -
  assume k: "k < 128"
  have "c AND 0x7F = take_bit 7 c" by (simp add: take_bit_eq_mask mask_eq_exp_minus_1)
  then have "unat (c AND 0x7F) = unat c mod 128" by (simp add: unat_mod take_bit_eq_mod)
  moreover have "unat (word_of_nat k :: u8) = k" "unat (word_of_nat (k + 128) :: u8) = k + 128"
    using k by (simp_all add: unat_of_nat take_bit_eq_mod del: of_nat_add)
  moreover have "unat c mod 128 = (if unat c < 128 then unat c else unat c - 128)"
    using unsigned_less [of c, where ?'a = nat] by (simp add: le_mod_geq)
  ultimately show ?thesis unfolding word_unat_eq_iff [where 'a = 8] using k by auto
qed

lemma is_modifier_iff: "keyboard_is_modifier c \<longleftrightarrow> c = 0x2A \<or> c = 0xAA \<or> c = 0x36 \<or> c = 0xB6 \<or> c = 0x3A \<or> c = 0xBA"
  using u8_low_bits [of 42 c] u8_low_bits [of 54 c] u8_low_bits [of 58 c] by (auto simp: keyboard_is_modifier_def Let_def)

lemma handle_modifier_typed:
  assumes "keyboard_is_modifier c"
  shows "keyboard_handle_modifier c kb = kb\<lparr>keyboard_shift_down := fst (typed c (keyboard_shift_down kb) (keyboard_caps_lock kb)),
      keyboard_caps_lock := fst (snd (typed c (keyboard_shift_down kb) (keyboard_caps_lock kb)))\<rparr>"
    and "snd (snd (typed c (keyboard_shift_down kb) (keyboard_caps_lock kb))) = None"
  using assms unfolding is_modifier_iff
  by (elim disjE; simp add: keyboard_handle_modifier_def typed_def Let_def)+

text \<open>No character of the table is an upper case letter, so that case of the driver is the shifted one.\<close>

lemma table_lengths: "length scancode_set1_ascii = 128" "length scancode_set1_shifted_ascii = 128"
  by (simp_all add: scancode_set1_ascii_def scancode_set1_shifted_ascii_def bytes_def)

lemma table_no_upper: "list_all (\<lambda>b. \<not> ascii_is_upper b) scancode_set1_ascii"
  by (simp add: scancode_set1_ascii_def bytes_def ascii_is_upper_def list.pred_set)

lemma translate_key_char:
  assumes "c < 128"
  shows "keyboard_translate_scancode c kb = Inr (case key_char (keyboard_shift_down kb) (keyboard_caps_lock kb) c of None \<Rightarrow> 0 | Some x \<Rightarrow> x)"
    and "key_char (keyboard_shift_down kb) (keyboard_caps_lock kb) c \<noteq> Some 0"
proof -
  have c: "unat c < 128" using assms by (simp add: word_less_nat_alt)
  then have u: "\<not> ascii_is_upper (scancode_set1_ascii ! unat c)" using table_no_upper table_lengths(1) by (simp add: list_all_length)
  show "keyboard_translate_scancode c kb = Inr (case key_char (keyboard_shift_down kb) (keyboard_caps_lock kb) c of None \<Rightarrow> 0 | Some x \<Rightarrow> x)"
    using c u by (simp add: keyboard_translate_scancode_def key_char_def Let_def ascii_to_upper_def)
  have "base - 32 \<noteq> 0" if "ascii_is_lower base" for base :: u8
  proof
    assume "base - 32 = 0"
    then have "base = 32" by simp
    with that show False by (simp add: ascii_is_lower_def)
  qed
  then show "key_char (keyboard_shift_down kb) (keyboard_caps_lock kb) c \<noteq> Some 0" by (auto simp: key_char_def Let_def)
qed

lemma wake_nobody: "wq_head q = 0 \<Longrightarrow> wait_queue_wake_one q s = Inr (q, s)"
  by (simp add: wait_queue_wake_one_def wait_queue_take_def wait_queue_pop_locked_def)

lemma ring_push_sel [simp]:
  "keyboard_wait_queue (snd (keyboard_ring_push ch kb)) = keyboard_wait_queue kb"
  "keyboard_shift_down (snd (keyboard_ring_push ch kb)) = keyboard_shift_down kb"
  "keyboard_caps_lock (snd (keyboard_ring_push ch kb)) = keyboard_caps_lock kb"
  by (simp_all add: keyboard_ring_push_def)

lemma ring_pop_sel [simp]:
  "keyboard_wait_queue (snd (keyboard_ring_pop n kb)) = keyboard_wait_queue kb"
  "keyboard_shift_down (snd (keyboard_ring_pop n kb)) = keyboard_shift_down kb"
  "keyboard_caps_lock (snd (keyboard_ring_pop n kb)) = keyboard_caps_lock kb"
  by (simp_all add: keyboard_ring_pop_def)

lemma deliver_char:
  assumes "wq_head (keyboard_wait_queue kb) = 0"
  shows "keyboard_deliver_char ch (kb, s) = Inr (snd (keyboard_ring_push ch kb), s)"
proof -
  have q: "wq_head (keyboard_wait_queue (snd (keyboard_ring_push ch kb))) = 0" using assms by simp
  show ?thesis using wake_nobody [OF q, of s] by (simp add: keyboard_deliver_char_def case_prod_unfold Let_def)
qed

abbreviation (input) input_state :: "keyboard \<Rightarrow> bool \<times> bool \<times> u8 list" where
  "input_state kb \<equiv> (keyboard_shift_down kb, keyboard_caps_lock kb, ring_contents kb)"

lemma irq_handler_spec:
  assumes ok: "ring_ok kb" and q: "wq_head (keyboard_wait_queue kb) = 0"
  shows "\<exists>kb'. keyboard_irq_handler c (kb, s) = Inr (kb', s) \<and> ring_ok kb' \<and> wq_head (keyboard_wait_queue kb') = 0
    \<and> input_state kb' = (case typed c (keyboard_shift_down kb) (keyboard_caps_lock kb) of (shift, caps, ch) \<Rightarrow>
        (shift, caps, case ch of None \<Rightarrow> ring_contents kb | Some x \<Rightarrow> if length (ring_contents kb) < 128 then ring_contents kb @ [x] else ring_contents kb))"
proof (cases "keyboard_is_modifier c")
  case True
  have "ring_ok (keyboard_handle_modifier c kb)" "ring_contents (keyboard_handle_modifier c kb) = ring_contents kb"
    using ok unfolding handle_modifier_typed(1) [OF True] by (simp_all add: ring_ok_def ring_contents_def)
  then show ?thesis using True q handle_modifier_typed [OF True, of kb]
    by (simp add: keyboard_irq_handler_def case_prod_unfold)
next
  case False
  have t: "typed c (keyboard_shift_down kb) (keyboard_caps_lock kb) = (keyboard_shift_down kb, keyboard_caps_lock kb,
      if c \<ge> 128 then None else key_char (keyboard_shift_down kb) (keyboard_caps_lock kb) c)"
    using False unfolding is_modifier_iff typed_def by simp
  show ?thesis
  proof (cases "c \<ge> 128")
    case True
    then show ?thesis using False ok q t by (simp add: keyboard_irq_handler_def u8_high_bit)
  next
    case lt: False
    then have c: "c < 128" by simp
    show ?thesis
    proof (cases "key_char (keyboard_shift_down kb) (keyboard_caps_lock kb) c")
      case None
      then show ?thesis using False lt c ok q t translate_key_char(1) [OF c, of kb] by (simp add: keyboard_irq_handler_def u8_high_bit)
    next
      case (Some x)
      then have "x \<noteq> 0" using translate_key_char(2) [OF c, of kb] by simp
      then have "keyboard_irq_handler c (kb, s) = Inr (snd (keyboard_ring_push x kb), s)"
        using False lt c translate_key_char(1) [OF c, of kb] Some deliver_char [OF q, of x s] by (simp add: keyboard_irq_handler_def u8_high_bit)
      then show ?thesis using kbd.push_law [OF ok, of x] q t lt Some by simp
    qed
  qed
qed

lemma run_events_spec:
  "ring_ok kb \<Longrightarrow> wq_head (keyboard_wait_queue kb) = 0 \<Longrightarrow> \<exists>kb'. run_events es (kb, s) = Inr (spec_run es (input_state kb), kb', s)"
proof (induction es arbitrary: kb)
  case (Cons e es)
  show ?case
  proof (cases e)
    case (Scancode c)
    from irq_handler_spec [OF Cons.prems, of c s] obtain kb1 where
      1: "keyboard_irq_handler c (kb, s) = Inr (kb1, s)" "ring_ok kb1" "wq_head (keyboard_wait_queue kb1) = 0"
      and st: "input_state kb1 = (case typed c (keyboard_shift_down kb) (keyboard_caps_lock kb) of (shift, caps, ch) \<Rightarrow>
        (shift, caps, case ch of None \<Rightarrow> ring_contents kb | Some x \<Rightarrow> if length (ring_contents kb) < 128 then ring_contents kb @ [x] else ring_contents kb))"
      by blast
    have "spec_run (e # es) (input_state kb) = spec_run es (input_state kb1)"
      unfolding st Scancode by (simp add: case_prod_unfold)
    then show ?thesis using Cons.IH [OF 1(2,3)] 1(1) Scancode by simp
  next
    case Getchar
    let ?kb = "snd (keyboard_ring_pop False kb)"
    have p: "ring_ok ?kb" "case ring_contents kb of [] \<Rightarrow> fst (keyboard_ring_pop False kb) = None \<and> ring_contents ?kb = []
         | x # xs \<Rightarrow> fst (keyboard_ring_pop False kb) = Some x \<and> ring_contents ?kb = xs"
      using kbd.pop_law [OF Cons.prems(1)] by blast+
    obtain kb' where "run_events es (?kb, s) = Inr (spec_run es (input_state ?kb), kb', s)" using Cons.IH [OF p(1)] Cons.prems(2) by auto
    then show ?thesis using p(2) Getchar by (cases "ring_contents kb") (simp_all add: keyboard_try_getchar_def case_prod_unfold)
  qed
qed simp

text \<open>
  C38. Whatever scancodes arrive and whenever characters are asked for, with no thread blocked on the
  driver's queue, the keyboard driver delivers exactly the characters the keys stand for, in the order they were typed: the ring buffer with its
  wrapping indices behaves as a queue of at most 128 characters, a key pressed when it is full is
  dropped, shift and caps lock select the character, releases of other keys type nothing, and no
  index leaves the tables.
\<close>

theorem keyboard_delivers_typed_characters:
  "\<exists>kb'. run_events es (keyboard_init kb, s) = Inr (spec_run es (False, False, []), kb', s)"
proof -
  have "ring_ok (keyboard_init kb)" "wq_head (keyboard_wait_queue (keyboard_init kb)) = 0" "input_state (keyboard_init kb) = (False, False, [])"
    by (simp_all add: keyboard_init_def ring_ok_def ring_contents_def wait_queue_init_def)
  then show ?thesis using run_events_spec [of "keyboard_init kb" es s] by simp
qed

section \<open>Lines\<close>

text \<open>The characters of a line, edited: each printable one appended while there is room, backspace taking the last one off.\<close>

definition edit :: "nat \<Rightarrow> u8 \<Rightarrow> u8 list \<Rightarrow> u8 list" where
  "edit n ch line =
     (if ch = 0x08 \<or> ch = 127 then butlast line
      else if terminal_is_printable ch \<and> length line + 1 < n then line @ [ch] else line)"

definition newline_char :: "u8 \<Rightarrow> bool" where
  "newline_char ch \<longleftrightarrow> ch = 0x0A \<or> ch = 0x0D"

lemma readline_loop_edit:
  "(\<forall>ch\<in>set chs. \<not> newline_char ch) \<Longrightarrow> newline_char nl
    \<Longrightarrow> \<exists>c'. readline_loop n (chs @ nl # rest) line c = Some (fold (edit n) chs line, c', rest)"
proof (induction chs arbitrary: line c)
  case Nil
  then show ?case by (auto simp: newline_char_def)
next
  case (Cons ch chs)
  then have ch: "ch \<noteq> 0x0A" "ch \<noteq> 0x0D" by (auto simp: newline_char_def)
  note IH = Cons.IH [of "edit n ch line"] Cons.prems
  show ?case using IH ch by (auto simp: edit_def Let_def)
qed

lemma edit_bounded: "length line < n \<Longrightarrow> list_all terminal_is_printable line
    \<Longrightarrow> length (edit n ch line) < n \<and> list_all terminal_is_printable (edit n ch line)"
  by (auto simp: edit_def list.pred_set dest: in_set_butlastD)

text \<open>
  A line that ends with a newline is read: its characters after editing, all printable and fewer
  than the size of the buffer.
\<close>

lemma terminal_readline_line:
  assumes "\<forall>ch\<in>set chs. \<not> newline_char ch" and "newline_char nl" and "0 < n"
  shows "\<exists>line c'. terminal_readline False n (chs @ nl # rest) c = Some (line, c', rest)
    \<and> line = fold (edit (unat n)) chs [] \<and> length line < unat n \<and> list_all terminal_is_printable line"
proof -
  have n: "0 < unat n" using assms(3) by (simp add: unat_gt_0 word_gt_0)
  have "length (fold (edit (unat n)) chs line) < unat n \<and> list_all terminal_is_printable (fold (edit (unat n)) chs line)"
    if "length line < unat n" "list_all terminal_is_printable line" for line
    using that by (induction chs arbitrary: line) (simp_all add: edit_bounded)
  from this [of "[]"] show ?thesis
    using readline_loop_edit [OF assms(1,2), of "unat n" rest "[]" c] n assms(3) by (auto simp: terminal_readline_def word_gt_0)
qed

end
