(* ===== verification/Monitor.thy ===== *)
theory Monitor
  imports Syscall Keyboard
begin

text \<open>
  The kernel monitor of \<open>kernel/monitor.c\<close> and the reports it prints: \<open>pmm_dump_stats\<close>,
  \<open>heap_dump_stats\<close>, \<open>thread_dump_state\<close> and \<open>process_list\<close>. A string is the list of its bytes
  before the terminator. A command that waits for a process or for timer ticks stops in a pending
  state; what it does afterwards is a definition of its own. The lemmas give the arguments that a line is
  split into and show that the numbers the kernel prints are read back.
\<close>

section \<open>Printing\<close>

text \<open>The calls of the console's routines of a report, in order.\<close>

datatype print = Text string | Bytes "u8 list" | Dec u32 | Hex u32 | Newline

fun print_one :: "print \<Rightarrow> 'd console \<Rightarrow> 'd console" where
  "print_one (Text t) c = console_raw_write (Some (bytes t)) c"
| "print_one (Bytes bs) c = console_raw_write (Some bs) c"
| "print_one (Dec v) c = console_raw_write_u32_dec v c"
| "print_one (Hex v) c = console_raw_write_hex32 v c"
| "print_one Newline c = console_raw_putc 0x0A c"

definition print_all :: "print list \<Rightarrow> 'd console \<Rightarrow> 'd console" where
  "print_all ps c = fold print_one ps c"

definition pmm_dump_stats :: "pmm \<Rightarrow> print list" where
  "pmm_dump_stats s =
     (let stats = pmm_get_stats s in
      [Text ''PMM: highest physical address '', Hex (st_highest_physical_addr stats), Newline,
       Text ''PMM: usable frames '', Dec (st_usable_frames stats), Newline,
       Text ''PMM: free frames '', Dec (st_free_frames stats), Newline,
       Text ''PMM: used/reserved frames '', Dec (st_used_frames stats), Newline])"

definition heap_dump_stats :: "heap \<Rightarrow> print list res option" where
  "heap_dump_stats h =
     bindO (heap_get_stats h) (\<lambda>stats. Some (Inr
      [Text ''Heap: virtual base '', Hex (virtual_base stats), Newline,
       Text ''Heap: virtual next '', Hex (virtual_next stats), Newline,
       Text ''Heap: virtual limit '', Hex (virtual_limit stats), Newline,
       Text ''Heap: region bytes '', Dec (region_bytes stats), Newline,
       Text ''Heap: mapped pages '', Dec (mapped_pages stats), Newline,
       Text ''Heap: free payload bytes '', Dec (free_payload_bytes stats), Newline,
       Text ''Heap: used payload bytes '', Dec (used_payload_bytes stats), Newline,
       Text ''Heap: block count '', Dec (block_count stats), Newline,
       Text ''Heap: active allocations '', Dec (active_allocations stats), Newline,
       Text ''Heap: total allocations '', Dec (total_allocations stats), Newline]))"

partial_function (option) dump_queue :: "(thread \<Rightarrow> print list) \<Rightarrow> u32 \<Rightarrow> threads \<Rightarrow> print list \<Rightarrow> print list res option" where
  "dump_queue line t st out =
     (if t = 0 then Some (Inr out)
      else case validate_thread t st of
        Inl e \<Rightarrow> Some (Inl e)
      | Inr r \<Rightarrow> dump_queue line (t_next r) st (out @ line r))"

definition thread_dump_state :: "sched \<Rightarrow> print list res option" where
  "thread_dump_state s =
     bindO (thread_ready_count s) (\<lambda>ready_count.
     bindO (thread_sleeping_count s) (\<lambda>sleeping_count.
     bindO (thread_zombie_count s) (\<lambda>zombie_count.
     bindO (Some (if current_thread s \<noteq> 0 then bindE (get_thread (current_thread s) (threads s)) (\<lambda>t. Inr (t_name t))
                  else Inr ''(null)'')) (\<lambda>current_name.
     bindO (dump_queue (\<lambda>t. [Text ''  ready id='', Dec (t_id t), Text '' name='', Text (t_name t), Text '' state='',
                             Text (thread_state_name (t_state t)), Newline])
              (q_head (ready s)) (threads s)
              [Text ''Threads: current='', Text current_name, Text '' ready='', Dec ready_count, Text '' sleeping='', Dec sleeping_count,
               Text '' zombies='', Dec zombie_count, Text '' ticks='', Dec (scheduler_ticks s), Newline,
               Text ''Threads: zombies created='', Dec (zombie_created_count s), Text '' reaped='', Dec (zombie_reaped_count s), Newline]) (\<lambda>out.
     dump_queue (\<lambda>t. [Text ''  sleeping id='', Dec (t_id t), Text '' name='', Text (t_name t), Text '' wake='', Dec (t_wake_tick t), Newline])
       (q_head (sleeping s)) (threads s) out)))))"

abbreviation (input) PROCESS_SNAPSHOT_MAX :: u32 where "PROCESS_SNAPSHOT_MAX \<equiv> 32"

primrec process_snapshots :: "nat \<Rightarrow> u32 \<Rightarrow> kernel \<Rightarrow> process list res" where
  "process_snapshots 0 cur k = Inr []"
| "process_snapshots (Suc n) cur k =
     (if cur = 0 then Inr []
      else bindE (get_process cur k) (\<lambda>p. bindE (process_snapshots n (p_next p) k) (\<lambda>ps. Inr (p # ps))))"

function decimal_width :: "u32 \<Rightarrow> nat" where
  "decimal_width tmp = (if tmp \<ge> 10 then Suc (decimal_width (tmp div 10)) else 1)"
  by auto
termination by (relation "measure unat") (auto simp: unat_div word_le_nat_alt)

definition print_padded_u32 :: "u32 \<Rightarrow> nat \<Rightarrow> print list" where
  "print_padded_u32 value width = Dec value # replicate (width - decimal_width value) (Text '' '')"

definition process_list :: "kernel \<Rightarrow> print list res" where
  "process_list k =
     bindE (process_snapshots (unat PROCESS_SNAPSHOT_MAX) (process_head k) k) (\<lambda>snapshots.
     Inr ([Text ''PID  PPID STATE     EXIT  KILL NAME'', Newline]
       @ concat (map (\<lambda>p. print_padded_u32 (p_pid p) 5 @ print_padded_u32 (p_parent_pid p) 5
           @ [Text (process_state_name (p_state p))] @ replicate (10 - length (process_state_name (p_state p))) (Text '' '')
           @ [if p_exited p then Dec (p_exit_code p) else Text ''-'', Text ''     '',
              Text (if p_kill_requested p then ''yes  '' else ''no   ''), Text (p_name p), Newline]) snapshots)
       @ (if process_count k > word_of_nat (length snapshots)
          then [Text ''ps: truncated process list at '', Dec PROCESS_SNAPSHOT_MAX, Text '' entries'', Newline] else [])))"

section \<open>Parsing a line\<close>

abbreviation (input) MONITOR_LINE_SIZE :: u32 where "MONITOR_LINE_SIZE \<equiv> 128"
abbreviation (input) MONITOR_MAX_ARGS :: int where "MONITOR_MAX_ARGS \<equiv> 8"

fun parse_digits :: "u8 list \<Rightarrow> u32 \<Rightarrow> bool \<Rightarrow> (u32 \<times> bool \<times> u8 list) option" where
  "parse_digits [] value any = Some (value, any, [])"
| "parse_digits (c # cs) value any =
     (if kchar_is_digit c
      then let digit = ucast c - 0x30 in
        if value > (0xFFFFFFFF - digit) div 10 then None else parse_digits cs (value * 10 + digit) True
      else Some (value, any, c # cs))"

text \<open>The value is the number read, if the function returns 1.\<close>

definition parse_u32 :: "u8 list option \<Rightarrow> u32 option" where
  "parse_u32 text =
     (case text of None \<Rightarrow> None
      | Some t \<Rightarrow>
          (case parse_digits (dropWhile kchar_is_space t) 0 False of
             None \<Rightarrow> None
           | Some (value, any, rest) \<Rightarrow> if rest \<noteq> [] then None else if any then Some value else None))"

function tokenize_loop :: "u8 list \<Rightarrow> u8 list list \<Rightarrow> int \<Rightarrow> u8 list list option" where
  "tokenize_loop cursor argv max_args =
     (let start = dropWhile kchar_is_space cursor in
      if start = [] then Some argv
      else if int (length argv) \<ge> max_args then None
      else tokenize_loop (dropWhile (\<lambda>c. \<not> kchar_is_space c) start) (argv @ [takeWhile (\<lambda>c. \<not> kchar_is_space c) start]) max_args)"
  by auto
termination
proof (relation "measure (\<lambda>(cursor, _, _). length cursor)")
  fix cursor :: "u8 list" and argv :: "u8 list list" and max_args :: int and start
  assume start: "start = dropWhile kchar_is_space cursor" and ne: "start \<noteq> []"
  from ne obtain c cs where c: "start = c # cs" by (meson neq_Nil_conv)
  have "\<not> kchar_is_space c" using hd_dropWhile [of kchar_is_space cursor] ne c unfolding start by (metis list.sel(1))
  then have "length (dropWhile (\<lambda>c. \<not> kchar_is_space c) start) \<le> length cs" using c by (simp add: length_dropWhile_le)
  also have "\<dots> < length cursor" using length_dropWhile_le [of kchar_is_space cursor] unfolding start [symmetric] c by simp
  finally show "((dropWhile (\<lambda>c. \<not> kchar_is_space c) start, argv @ [takeWhile (\<lambda>c. \<not> kchar_is_space c) start], max_args), cursor, argv, max_args)
      \<in> measure (\<lambda>(cursor, _, _). length cursor)" by simp
qed simp

declare tokenize_loop.simps [simp del]

definition tokenize_line :: "u8 list option \<Rightarrow> int \<Rightarrow> u8 list list option" where
  "tokenize_line line max_args =
     (if max_args \<le> 0 then None else case line of None \<Rightarrow> Some [] | Some l \<Rightarrow> tokenize_loop l [] max_args)"

section \<open>Commands\<close>

text \<open>
  What a command comes to: it is done, or it waits for a process that it started or that it was asked
  to wait for, or it sleeps.
\<close>

datatype mon_outcome = Done | Run_waits u32 "u8 list" | Wait_waits u32 u32 | Sleeps

type_synonym 'd mon_result = "(mon_outcome \<times> 'd machine) res option"

definition say :: "print list \<Rightarrow> 'd machine \<Rightarrow> 'd machine" where
  "say ps m = m\<lparr>con := print_all ps (con m)\<rparr>"

definition done_with :: "print list \<Rightarrow> 'd machine \<Rightarrow> 'd mon_result" where
  "done_with ps m = Some (Inr (Done, say ps m))"

datatype command = Cmd_help | Cmd_ticks | Cmd_threads | Cmd_ps | Cmd_mem | Cmd_heap | Cmd_programs | Cmd_run | Cmd_runbg
  | Cmd_wait | Cmd_sleep | Cmd_echo | Cmd_clear

record monitor_command =
  mc_name :: string
  mc_usage :: string
  mc_help :: string
  mc_handler :: command

definition commands :: "monitor_command list" where
  "commands = map (\<lambda>(n, u, h, f). \<lparr>mc_name = n, mc_usage = u, mc_help = h, mc_handler = f\<rparr>)
     [(''help'', ''help [command]'', ''show command list or details for one command'', Cmd_help),
      (''ticks'', ''ticks'', ''show scheduler tick count'', Cmd_ticks),
      (''threads'', ''threads'', ''show thread queues and scheduler state'', Cmd_threads),
      (''ps'', ''ps'', ''list processes'', Cmd_ps),
      (''mem'', ''mem'', ''show physical memory manager stats'', Cmd_mem),
      (''heap'', ''heap'', ''show kernel heap stats'', Cmd_heap),
      (''programs'', ''programs'', ''list embedded user programs'', Cmd_programs),
      (''run'', ''run PROGRAM [ARGS...]'', ''run an embedded user program in the foreground'', Cmd_run),
      (''runbg'', ''runbg PROGRAM [ARGS...]'', ''run an embedded user program in the background'', Cmd_runbg),
      (''wait'', ''wait PID'', ''wait for a process and collect its exit code'', Cmd_wait),
      (''sleep'', ''sleep N'', ''sleep monitor thread for N timer ticks'', Cmd_sleep),
      (''echo'', ''echo TEXT...'', ''print text'', Cmd_echo),
      (''clear'', ''clear'', ''scroll the display down'', Cmd_clear)]"

definition find_command :: "u8 list option \<Rightarrow> monitor_command option" where
  "find_command name = (case name of None \<Rightarrow> None | Some n \<Rightarrow> find (\<lambda>c. strcmp (bytes (mc_name c)) n = 0) commands)"

definition mon_cmd_help :: "u8 list list \<Rightarrow> 'd machine \<Rightarrow> 'd mon_result" where
  "mon_cmd_help argv m =
     (if length argv = 1
      then done_with ([Text ''Available commands:'', Newline]
             @ concat (map (\<lambda>c. [Text ''  '', Text (mc_usage c), Text '' - '', Text (mc_help c), Newline]) commands)) m
      else if length argv = 2
      then (case find_command (Some (argv ! 1)) of
              None \<Rightarrow> done_with [Text ''help: unknown command '', Bytes (argv ! 1), Newline] m
            | Some c \<Rightarrow> done_with [Text ''usage: '', Text (mc_usage c), Newline, Text ''  '', Text (mc_help c), Newline] m)
      else done_with [Text ''usage: help [command]'', Newline] m)"

definition mon_cmd_ticks :: "u8 list list \<Rightarrow> 'd machine \<Rightarrow> 'd mon_result" where
  "mon_cmd_ticks argv m =
     (if length argv \<noteq> 1 then done_with [Text ''usage: ticks'', Newline] m
      else done_with [Text ''ticks: '', Dec (thread_ticks (ksched (mk m))), Newline] m)"

definition mon_cmd_threads :: "u8 list list \<Rightarrow> 'd machine \<Rightarrow> 'd mon_result" where
  "mon_cmd_threads argv m =
     (if length argv \<noteq> 1 then done_with [Text ''usage: threads'', Newline] m
      else bindO (thread_dump_state (ksched (mk m))) (\<lambda>ps. done_with ps m))"

definition mon_cmd_ps :: "u8 list list \<Rightarrow> 'd machine \<Rightarrow> 'd mon_result" where
  "mon_cmd_ps argv m =
     (if length argv \<noteq> 1 then done_with [Text ''usage: ps'', Newline] m
      else bindO (Some (process_list (mk m))) (\<lambda>ps. done_with ps m))"

definition mon_cmd_mem :: "u8 list list \<Rightarrow> 'd machine \<Rightarrow> 'd mon_result" where
  "mon_cmd_mem argv m =
     (if length argv \<noteq> 1 then done_with [Text ''usage: mem'', Newline] m
      else done_with (pmm_dump_stats (frames (kas (mk m)))) m)"

definition mon_cmd_heap :: "u8 list list \<Rightarrow> 'd machine \<Rightarrow> 'd mon_result" where
  "mon_cmd_heap argv m =
     (if length argv \<noteq> 1 then done_with [Text ''usage: heap'', Newline] m
      else bindO (heap_dump_stats (kheap (mk m))) (\<lambda>ps. done_with ps m))"

definition mon_cmd_programs :: "images \<Rightarrow> u8 list list \<Rightarrow> 'd machine \<Rightarrow> 'd mon_result" where
  "mon_cmd_programs im argv m =
     (if length argv \<noteq> 1 then done_with [Text ''usage: programs'', Newline] m
      else Some (Inr (Done, m\<lparr>con := program_list im (con m)\<rparr>)))"

definition mon_cmd_run :: "images \<Rightarrow> u8 list list \<Rightarrow> 'd machine \<Rightarrow> 'd mon_result" where
  "mon_cmd_run im argv m =
     (if length argv < 2 then done_with [Text ''usage: run PROGRAM [ARGS...]'', Newline] m
      else bindO (program_run_foreground_start im (Some (argv ! 1)) (int (length argv) - 1) (Some (map Some (tl argv))) (mk m)) (\<lambda>(rc, process, k).
        if rc \<noteq> 0
        then done_with [Text ''run: unknown program '', Bytes (argv ! 1), Newline, Text ''type '', Bytes [0x27], Text ''programs'', Bytes [0x27], Text '' to list available programs'', Newline] (m\<lparr>mk := k\<rparr>)
        else Some (Inr (Run_waits process (argv ! 1), m\<lparr>mk := k\<rparr>))))"

definition mon_cmd_run_done :: "u32 \<Rightarrow> u8 list \<Rightarrow> u32 \<Rightarrow> 'd machine \<Rightarrow> 'd mon_result" where
  "mon_cmd_run_done process name exit_code m =
     bindO (program_run_foreground_finish process exit_code (mk m)) (\<lambda>(rc, code, k).
     done_with [Text ''run: '', Bytes name, Text '' exited code '', Dec code, Newline] (m\<lparr>mk := k\<rparr>))"

definition mon_cmd_runbg :: "images \<Rightarrow> u8 list list \<Rightarrow> 'd machine \<Rightarrow> 'd mon_result" where
  "mon_cmd_runbg im argv m =
     (if length argv < 2 then done_with [Text ''usage: runbg PROGRAM [ARGS...]'', Newline] m
      else bindO (program_run_background im (Some (argv ! 1)) (int (length argv) - 1) (Some (map Some (tl argv))) (mk m)) (\<lambda>(rc, process, k).
        if rc \<noteq> 0 \<or> process = 0
        then done_with [Text ''runbg: unknown program '', Bytes (argv ! 1), Newline, Text ''type '', Bytes [0x27], Text ''programs'', Bytes [0x27], Text '' to list available programs'', Newline] (m\<lparr>mk := k\<rparr>)
        else bindO (Some (get_process process k)) (\<lambda>p.
          done_with [Text ''runbg: started '', Bytes (argv ! 1), Text '' pid='', Dec (p_pid p), Newline] (m\<lparr>mk := k\<rparr>))))"

definition mon_cmd_wait :: "u8 list list \<Rightarrow> 'd machine \<Rightarrow> 'd mon_result" where
  "mon_cmd_wait argv m =
     (if length argv \<noteq> 2 then done_with [Text ''usage: wait PID'', Newline] m
      else case parse_u32 (Some (argv ! 1)) of
        None \<Rightarrow> done_with [Text ''wait: expected decimal PID'', Newline] m
      | Some pid \<Rightarrow>
          bindO (process_find pid (mk m)) (\<lambda>process.
          if process = 0 then done_with [Text ''wait: no such PID '', Dec pid, Newline] m
          else bindO (Some (process_wait_begin process (mk m))) (\<lambda>_. Some (Inr (Wait_waits process pid, m)))))"

definition mon_cmd_wait_done :: "u32 \<Rightarrow> u32 \<Rightarrow> u32 \<Rightarrow> 'd machine \<Rightarrow> 'd mon_result" where
  "mon_cmd_wait_done process pid exit_code m =
     (let m1 = say [Text ''wait: pid '', Dec pid, Text '' exited code '', Dec exit_code, Newline] m in
      bindO (process_destroy process (mk m1)) (\<lambda>k. Some (Inr (Done, m1\<lparr>mk := k\<rparr>))))"

definition mon_cmd_sleep :: "u8 list list \<Rightarrow> 'd machine \<Rightarrow> 'd mon_result" where
  "mon_cmd_sleep argv m =
     (case (if length argv \<noteq> 2 then None else parse_u32 (Some (argv ! 1))) of
        None \<Rightarrow> done_with [Text ''usage: sleep N'', Newline] m
      | Some ticks \<Rightarrow>
          (let m1 = say [Text ''sleeping for '', Dec ticks, Text '' ticks'', Newline] m in
           bindO (thread_sleep_ticks ticks True (ksched (mk m1))) (\<lambda>(_, s). Some (Inr (Sleeps, m1\<lparr>mk := (mk m1)\<lparr>ksched := s\<rparr>\<rparr>)))))"

definition mon_cmd_sleep_done :: "'d machine \<Rightarrow> 'd mon_result" where
  "mon_cmd_sleep_done m = done_with [Text ''awake'', Newline] m"

definition mon_cmd_echo :: "u8 list list \<Rightarrow> 'd machine \<Rightarrow> 'd mon_result" where
  "mon_cmd_echo argv m =
     (if length argv < 2 then done_with [Bytes [], Newline] m
      else done_with (concat (map (\<lambda>i. (if i > 1 then [Text '' ''] else []) @ [Bytes (argv ! i)]) [1..<length argv]) @ [Newline]) m)"

definition mon_cmd_clear :: "u8 list list \<Rightarrow> 'd machine \<Rightarrow> 'd mon_result" where
  "mon_cmd_clear argv m =
     (if length argv \<noteq> 1 then done_with [Text ''usage: clear'', Newline] m else done_with (replicate 30 Newline) m)"

definition run_command :: "images \<Rightarrow> command \<Rightarrow> u8 list list \<Rightarrow> 'd machine \<Rightarrow> 'd mon_result" where
  "run_command im cmd argv m =
     (case cmd of
        Cmd_help \<Rightarrow> mon_cmd_help argv m | Cmd_ticks \<Rightarrow> mon_cmd_ticks argv m | Cmd_threads \<Rightarrow> mon_cmd_threads argv m
      | Cmd_ps \<Rightarrow> mon_cmd_ps argv m | Cmd_mem \<Rightarrow> mon_cmd_mem argv m | Cmd_heap \<Rightarrow> mon_cmd_heap argv m
      | Cmd_programs \<Rightarrow> mon_cmd_programs im argv m | Cmd_run \<Rightarrow> mon_cmd_run im argv m | Cmd_runbg \<Rightarrow> mon_cmd_runbg im argv m
      | Cmd_wait \<Rightarrow> mon_cmd_wait argv m | Cmd_sleep \<Rightarrow> mon_cmd_sleep argv m | Cmd_echo \<Rightarrow> mon_cmd_echo argv m
      | Cmd_clear \<Rightarrow> mon_cmd_clear argv m)"

text \<open>The first component is the value returned; the working copy of the line holds at most 127 characters.\<close>

definition monitor_execute_command :: "images \<Rightarrow> u8 list option \<Rightarrow> 'd machine \<Rightarrow> (int \<times> mon_outcome \<times> 'd machine) res option" where
  "monitor_execute_command im line m =
     (case line of None \<Rightarrow> Some (Inr (0, Done, m))
      | Some l \<Rightarrow>
          (case tokenize_line (Some (take (unat MONITOR_LINE_SIZE - 1) l)) MONITOR_MAX_ARGS of
             None \<Rightarrow> Some (Inr (0, Done, say [Text ''too many arguments; max is '', Dec 8, Newline] m))
           | Some argv \<Rightarrow>
               if argv = [] then Some (Inr (0, Done, m))
               else (case find_command (Some (argv ! 0)) of
                  None \<Rightarrow> Some (Inr (0, Done, say [Text ''unknown command: '', Bytes (argv ! 0), Newline, Text ''type '', Bytes [0x27], Text ''help'', Bytes [0x27], Text '' for commands'', Newline] m))
                | Some cmd \<Rightarrow> bindO (run_command im (mc_handler cmd) argv m) (\<lambda>(out, m1). Some (Inr (1, out, m1))))))"

section \<open>The arguments of a line\<close>

text \<open>\<open>tokenize_line\<close> gives the words of the line, and fails exactly when there are more than the arguments allow.\<close>

lemma tokenize_loop_words:
  "int (length argv) \<le> n \<Longrightarrow>
    tokenize_loop l argv n = (if int (length argv + length (words_by kchar_is_space l [])) \<le> n then Some (argv @ words_by kchar_is_space l []) else None)"
proof (induction l argv n rule: tokenize_loop.induct)
  case (1 l argv n)
  define start where "start = dropWhile kchar_is_space l"
  show ?case
  proof (cases "start = []")
    case True
    then have "words_by kchar_is_space l [] = []" unfolding start_def by (rule words_by_end)
    then show ?thesis using True 1(2) by (subst tokenize_loop.simps) (simp add: Let_def flip: start_def)
  next
    case False
    note w = words_by_start [OF start_def False]
    show ?thesis
    proof (cases "int (length argv) \<ge> n")
      case True
      then show ?thesis using False 1(2) w by (subst tokenize_loop.simps) (simp add: Let_def flip: start_def)
    next
      case more: False
      have "tokenize_loop l argv n = tokenize_loop (dropWhile (\<lambda>c. \<not> kchar_is_space c) start) (argv @ [takeWhile (\<lambda>c. \<not> kchar_is_space c) start]) n"
        using False more by (subst tokenize_loop.simps) (simp add: Let_def flip: start_def)
      then show ?thesis using 1(1) [OF start_def False more] more w by simp
    qed
  qed
qed

lemma tokenize_line_words:
  "0 < n \<Longrightarrow> tokenize_line (Some l) n = (if int (length (words_by kchar_is_space l [])) \<le> n then Some (words_by kchar_is_space l []) else None)"
  by (simp add: tokenize_line_def tokenize_loop_words)

section \<open>Reading numbers back\<close>

lemma digit_char_is_digit:
  assumes "d < 10"
  shows "kchar_is_digit (digit_char d)" and "ucast (digit_char d) - 0x30 = (word_of_nat d :: u32)" and "\<not> kchar_is_space (digit_char d)"
proof -
  from assms have "d \<in> {0, 1, 2, 3, 4, 5, 6, 7, 8, 9}" by auto
  then show "kchar_is_digit (digit_char d)" "ucast (digit_char d) - 0x30 = (word_of_nat d :: u32)" "\<not> kchar_is_space (digit_char d)"
    by (auto simp: kchar_is_digit_def kchar_is_space_def digit_char_def)
qed

lemma parse_digits_value:
  "\<forall>d\<in>set ds. d < 10 \<Longrightarrow> foldl (\<lambda>a d. 10 * a + d) (unat v) ds < 4294967296 \<Longrightarrow>
    parse_digits (map digit_char ds) v any = Some (word_of_nat (foldl (\<lambda>a d. 10 * a + d) (unat v) ds), any \<or> ds \<noteq> [], [])"
proof (induction ds arbitrary: v any)
  case (Cons d ds)
  have d: "d < 10" using Cons.prems(1) by simp
  have "10 * unat v + d \<le> foldl (\<lambda>a d. 10 * a + d) (10 * unat v + d) ds" by (rule foldl_digits_mono)
  then have b: "10 * unat v + d < 4294967296" using Cons.prems(2) by simp
  have w: "unat (word_of_nat d :: u32) = d" using d by (simp add: unat_of_nat take_bit_eq_mod)
  have "unat (v * 10 + word_of_nat d) = 10 * unat v + d" using b w by (simp add: unat_word_ariths mult.commute)
  moreover have "\<not> v > (0xFFFFFFFF - word_of_nat d) div 10"
  proof -
    have "unat (0xFFFFFFFF - word_of_nat d :: u32) = 4294967295 - d" using d w by (simp add: unat_sub_if')
    then show ?thesis using b by (simp add: not_less word_le_nat_alt unat_div)
  qed
  ultimately show ?case using Cons.IH [of "v * 10 + word_of_nat d" True] Cons.prems digit_char_is_digit(1,2) [OF d] by simp
qed simp

lemma parse_u32_decimal:
  assumes "n < 4294967296"
  shows "parse_u32 (Some (decimal n)) = Some (word_of_nat n)"
proof -
  obtain ds where ds: "decimal n = map digit_char ds" "\<forall>d\<in>set ds. d < 10" "ds \<noteq> []" "foldl (\<lambda>a d. 10 * a + d) 0 ds = n"
    by (rule decimal_digits)
  have "dropWhile kchar_is_space (decimal n) = decimal n"
    using ds(1-3) digit_char_is_digit(3) by (cases ds) auto
  then show ?thesis using parse_digits_value [OF ds(2), of 0 False] ds assms by (simp add: parse_u32_def)
qed

end
