(* ===== verification/User_Lib.thy ===== *)
theory User_Lib
  imports Console
begin

text \<open>
  The user library of \<open>user/lib/toyix.c\<close>. A user program
  reaches the kernel only through the system call stubs of \<open>toyix_syscall.h\<close>, so its code is
  modelled over a record of those calls acting on the state \<open>'m\<close> of the rest of the machine; a call
  that fills a buffer of the program returns the bytes. A string is the list of its bytes before the
  terminator. Numbers of type \<open>toyix_i32\<close> are integers, and a signed overflow is a fault.
\<close>

section \<open>System calls\<close>

record procinfo =
  pi_pid :: u32
  pi_parent_pid :: u32
  pi_state :: u32
  pi_exit_code :: u32
  pi_exited :: u32
  pi_kill_requested :: u32

record 'm syscalls =
  sys_write :: "u32 \<Rightarrow> u8 list \<Rightarrow> 'm \<Rightarrow> int \<times> 'm"
  sys_read :: "u32 \<Rightarrow> u32 \<Rightarrow> 'm \<Rightarrow> (int \<times> u8 list) \<times> 'm"
  sys_open :: "u8 list \<Rightarrow> u32 \<Rightarrow> 'm \<Rightarrow> int \<times> 'm"
  sys_close :: "u32 \<Rightarrow> 'm \<Rightarrow> int \<times> 'm"
  sys_stat :: "u8 list \<Rightarrow> 'm \<Rightarrow> (int \<times> u32 \<times> u32) \<times> 'm"
  sys_exec :: "u8 list \<Rightarrow> u8 list list \<Rightarrow> 'm \<Rightarrow> int \<times> 'm"
  sys_waitpid :: "u32 \<Rightarrow> 'm \<Rightarrow> (int \<times> u32) \<times> 'm"
  sys_procinfo :: "u32 \<Rightarrow> 'm \<Rightarrow> (int \<times> procinfo) \<times> 'm"
  sys_kill :: "u32 \<Rightarrow> 'm \<Rightarrow> int \<times> 'm"
  sys_sleep :: "u32 \<Rightarrow> 'm \<Rightarrow> int \<times> 'm"
  sys_seek :: "u32 \<Rightarrow> int \<Rightarrow> u32 \<Rightarrow> 'm \<Rightarrow> int \<times> 'm"

section \<open>The library\<close>

definition toyix_strlen :: "u8 list option \<Rightarrow> u32" where
  "toyix_strlen text = (case text of None \<Rightarrow> 0 | Some t \<Rightarrow> word_of_nat (length t))"

definition toyix_putchar :: "'m syscalls \<Rightarrow> u8 \<Rightarrow> 'm \<Rightarrow> 'm" where
  "toyix_putchar sys ch m = snd (sys_write sys 1 [ch] m)"

definition toyix_write_str :: "'m syscalls \<Rightarrow> u8 list option \<Rightarrow> 'm \<Rightarrow> 'm" where
  "toyix_write_str sys text m = (case text of None \<Rightarrow> m | Some t \<Rightarrow> snd (sys_write sys 1 (take (unat (toyix_strlen text)) t) m))"

definition toyix_puts :: "'m syscalls \<Rightarrow> u8 list option \<Rightarrow> 'm \<Rightarrow> 'm" where
  "toyix_puts sys text m = toyix_putchar sys 0x0A (toyix_write_str sys text m)"

function uint_fill :: "u32 \<Rightarrow> u8 list \<Rightarrow> u8 list" where
  "uint_fill value buffer =
     (if value > 0 \<and> length buffer < 11 then uint_fill (value div 10) (buffer @ [ucast (0x30 + value mod 10)]) else buffer)"
  by auto
termination by (relation "measure (\<lambda>(_, buffer). 11 - length buffer)") auto

definition toyix_write_uint :: "'m syscalls \<Rightarrow> u32 \<Rightarrow> 'm \<Rightarrow> 'm" where
  "toyix_write_uint sys value m =
     (if value = 0 then toyix_putchar sys 0x30 m else fold (toyix_putchar sys) (rev (uint_fill value [])) m)"

definition toyix_write_int :: "'m syscalls \<Rightarrow> int \<Rightarrow> 'm \<Rightarrow> 'm" where
  "toyix_write_int sys value m =
     (if value < 0 then toyix_write_uint sys (word_of_int (- (value + 1)) + 1) (toyix_putchar sys 0x2D m)
      else toyix_write_uint sys (word_of_int value) m)"

function hex_fill :: "u32 \<Rightarrow> u8 list \<Rightarrow> u8 list" where
  "hex_fill value buffer =
     (if value \<noteq> 0 \<and> length buffer < 8
      then let nibble = value AND 0xF in
        hex_fill (drop_bit 4 value) (buffer @ [ucast (if nibble < 10 then 0x30 + nibble else 0x61 + (nibble - 10))])
      else buffer)"
  by auto
termination by (relation "measure (\<lambda>(_, buffer). 8 - length buffer)") auto

declare uint_fill.simps [simp del] hex_fill.simps [simp del]

definition toyix_write_hex :: "'m syscalls \<Rightarrow> u32 \<Rightarrow> 'm \<Rightarrow> 'm" where
  "toyix_write_hex sys value m =
     (if value = 0 then toyix_putchar sys 0x30 m else fold (toyix_putchar sys) (rev (hex_fill value [])) m)"

fun streq_loop :: "u8 list \<Rightarrow> u8 list \<Rightarrow> bool" where
  "streq_loop (a # as) (b # bs) = (if a \<noteq> b then False else streq_loop as bs)"
| "streq_loop [] [] = True"
| "streq_loop _ _ = False"

definition toyix_streq :: "u8 list option \<Rightarrow> u8 list option \<Rightarrow> bool" where
  "toyix_streq a b = (case (a, b) of (Some x, Some y) \<Rightarrow> streq_loop x y | (None, None) \<Rightarrow> True | _ \<Rightarrow> False)"

fun user_strcmp :: "u8 list \<Rightarrow> u8 list \<Rightarrow> int" where
  "user_strcmp (a # as) (b # bs) = (if a \<noteq> b then uint a - uint b else user_strcmp as bs)"
| "user_strcmp (a # as) [] = uint a"
| "user_strcmp [] (b # bs) = - uint b"
| "user_strcmp [] [] = 0"

definition toyix_strcmp :: "u8 list option \<Rightarrow> u8 list option \<Rightarrow> int" where
  "toyix_strcmp a b =
     (case (a, b) of (None, None) \<Rightarrow> 0 | (None, Some _) \<Rightarrow> - 1 | (Some _, None) \<Rightarrow> 1 | (Some x, Some y) \<Rightarrow> user_strcmp x y)"

definition toyix_isspace :: "u8 \<Rightarrow> bool" where
  "toyix_isspace ch \<longleftrightarrow> ch = 0x20 \<or> ch = 0x09 \<or> ch = 0x0D \<or> ch = 0x0A"

definition ascii_digit :: "u8 \<Rightarrow> bool" where
  "ascii_digit ch \<longleftrightarrow> sint ch \<ge> 0x30 \<and> sint ch \<le> 0x39"

fun atoi_digits :: "u8 list \<Rightarrow> int \<Rightarrow> (int \<times> u8 list) res" where
  "atoi_digits [] value = Inr (value, [])"
| "atoi_digits (c # cs) value =
     (if ascii_digit c
      then let next = value * 10 + (sint c - 0x30) in
        if next > 0x7FFFFFFF then Inl (Fault ''signed overflow'') else atoi_digits cs next
      else Inr (value, c # cs))"

definition atoi_sign :: "u8 list \<Rightarrow> bool \<times> u8 list" where
  "atoi_sign t = (case t of c # cs \<Rightarrow> if c = 0x2D then (True, cs) else if c = 0x2B then (False, cs) else (False, t) | [] \<Rightarrow> (False, t))"

text \<open>The result pointer of the callers is the address of a variable, so its null test has no counterpart.\<close>

definition toyix_atoi :: "u8 list option \<Rightarrow> int option res" where
  "toyix_atoi text =
     (case text of None \<Rightarrow> Inr None
      | Some t0 \<Rightarrow>
          (let (negative, t) = atoi_sign (dropWhile toyix_isspace t0) in
           if t = [] \<or> \<not> ascii_digit (hd t) then Inr None
           else bindE (atoi_digits t 0) (\<lambda>(value, rest).
             if dropWhile toyix_isspace rest \<noteq> [] then Inr None
             else Inr (Some (if negative then - value else value)))))"

text \<open>The buffer after the call is given by its characters before the terminator written.\<close>

definition toyix_readline :: "'m syscalls \<Rightarrow> bool \<Rightarrow> u32 \<Rightarrow> 'm \<Rightarrow> (int \<times> u8 list) \<times> 'm" where
  "toyix_readline sys buffer_null n m =
     (if buffer_null \<or> n = 0 then ((- 1, []), m)
      else if n = 1 then ((0, []), m)
      else
        (case sys_read sys 0 (n - 1) m of
           ((got, bs), m1) \<Rightarrow>
             if got < 0 then ((got, []), m1)
             else let got = (if word_of_int got \<ge> n then uint (n - 1) else got) in
               ((got, takeWhile (\<lambda>b. b \<noteq> 0) (take (nat got) bs)), m1)))"

datatype va = Va_int int | Va_uint u32 | Va_str "u8 list option"

fun toyix_vprintf :: "'m syscalls \<Rightarrow> u8 list \<Rightarrow> va list \<Rightarrow> 'm \<Rightarrow> 'm res" where
  "toyix_vprintf sys [] ap m = Inr m"
| "toyix_vprintf sys (c # cs) ap m =
     (if c \<noteq> 0x25 then toyix_vprintf sys cs ap (toyix_putchar sys c m)
      else case cs of
        [] \<Rightarrow> Inr (toyix_putchar sys 0x25 m)
      | f # fs \<Rightarrow>
          if f = 0x25 then toyix_vprintf sys fs ap (toyix_putchar sys 0x25 m)
          else if f = 0x63 then
            (case ap of Va_int v # ap1 \<Rightarrow> toyix_vprintf sys fs ap1 (toyix_putchar sys (word_of_int v) m) | _ \<Rightarrow> Inl (Fault ''va_arg''))
          else if f = 0x64 then
            (case ap of Va_int v # ap1 \<Rightarrow> toyix_vprintf sys fs ap1 (toyix_write_int sys v m) | _ \<Rightarrow> Inl (Fault ''va_arg''))
          else if f = 0x75 then
            (case ap of Va_uint v # ap1 \<Rightarrow> toyix_vprintf sys fs ap1 (toyix_write_uint sys v m) | _ \<Rightarrow> Inl (Fault ''va_arg''))
          else if f = 0x78 then
            (case ap of Va_uint v # ap1 \<Rightarrow> toyix_vprintf sys fs ap1 (toyix_write_hex sys v m) | _ \<Rightarrow> Inl (Fault ''va_arg''))
          else if f = 0x73 then
            (case ap of Va_str t # ap1 \<Rightarrow> toyix_vprintf sys fs ap1 (toyix_write_str sys (if t \<noteq> None then t else Some (bytes ''(null)'')) m)
             | _ \<Rightarrow> Inl (Fault ''va_arg''))
          else toyix_vprintf sys fs ap (toyix_putchar sys f (toyix_putchar sys 0x25 m)))"

definition toyix_printf :: "'m syscalls \<Rightarrow> u8 list option \<Rightarrow> va list \<Rightarrow> 'm \<Rightarrow> 'm res" where
  "toyix_printf sys format ap m = (case format of None \<Rightarrow> Inr m | Some f \<Rightarrow> toyix_vprintf sys f ap m)"

section \<open>Printing and reading numbers\<close>

lemma uint_fill_dec_fill: "uint_fill v b = dec_fill v b"
  by (induction v b rule: uint_fill.induct) (subst uint_fill.simps, subst dec_fill.simps, simp)

lemma write_uint_decimal: "toyix_write_uint sys v m = fold (toyix_putchar sys) (decimal (unat v)) m"
proof (cases "v = 0")
  case False
  then have "rev (uint_fill v []) = decimal (unat v)"
    unfolding uint_fill_dec_fill using digits_u32 [of v] by (subst dec_fill_digits) (simp_all add: decimal_def unat_eq_0)
  with False show ?thesis by (simp add: toyix_write_uint_def)
qed (simp add: toyix_write_uint_def decimal_def)

text \<open>The numeral of an integer, with a minus sign for a negative one.\<close>

definition signed_decimal :: "int \<Rightarrow> u8 list" where
  "signed_decimal v = (if v < 0 then 0x2D # decimal (nat (- v)) else decimal (nat v))"

lemma unat_word_of_int: "0 \<le> v \<Longrightarrow> v < 4294967296 \<Longrightarrow> unat (word_of_int v :: u32) = nat v"
  by (simp add: unat_eq_nat_uint unsigned_of_int take_bit_int_eq_self)

text \<open>The smallest integer is printed too: its magnitude is computed on unsigned numbers.\<close>

lemma write_int_decimal:
  assumes "- 2147483648 \<le> v" and "v < 2147483648"
  shows "toyix_write_int sys v m = fold (toyix_putchar sys) (signed_decimal v) m"
proof (cases "v < 0")
  case True
  have "word_of_int (- (v + 1)) + 1 = (word_of_int (- v) :: u32)" by simp
  then have "unat (word_of_int (- (v + 1)) + 1 :: u32) = nat (- v)" using True assms unat_word_of_int [of "- v"] by (simp only:)
  with True show ?thesis by (simp add: toyix_write_int_def write_uint_decimal signed_decimal_def)
next
  case False
  then show ?thesis using assms unat_word_of_int [of v] by (simp add: toyix_write_int_def write_uint_decimal signed_decimal_def)
qed

lemma digit_char_ascii:
  assumes "d < 10"
  shows "ascii_digit (digit_char d)" and "sint (digit_char d) - 0x30 = int d" and "\<not> toyix_isspace (digit_char d)"
    and "digit_char d \<noteq> 0x2D" and "digit_char d \<noteq> 0x2B"
proof -
  from assms have "d \<in> {0, 1, 2, 3, 4, 5, 6, 7, 8, 9}" by auto
  then show "ascii_digit (digit_char d)" "sint (digit_char d) - 0x30 = int d" "\<not> toyix_isspace (digit_char d)"
    "digit_char d \<noteq> 0x2D" "digit_char d \<noteq> 0x2B"
    by (auto simp: ascii_digit_def toyix_isspace_def digit_char_def)
qed

lemma atoi_digits_value:
  "\<forall>d\<in>set ds. d < 10 \<Longrightarrow> a < 2147483648 \<Longrightarrow> atoi_digits (map digit_char ds) (int a)
     = (if foldl (\<lambda>a d. 10 * a + d) a ds < 2147483648 then Inr (int (foldl (\<lambda>a d. 10 * a + d) a ds), []) else Inl (Fault ''signed overflow''))"
proof (induction ds arbitrary: a)
  case (Cons d ds)
  have d: "d < 10" using Cons.prems(1) by simp
  have n: "int a * 10 + (sint (digit_char d) - 48) = int (10 * a + d)" using digit_char_ascii(2) [OF d] by simp
  show ?case
  proof (cases "10 * a + d < 2147483648")
    case True
    then show ?thesis using Cons.IH [of "10 * a + d"] Cons.prems digit_char_ascii(1) [OF d] n by (simp add: Let_def mult.commute)
  next
    case False
    have "10 * a + d \<le> foldl (\<lambda>a d. 10 * a + d) (10 * a + d) ds" by (rule foldl_digits_mono)
    then have "\<not> foldl (\<lambda>a d. 10 * a + d) a (d # ds) < 2147483648" using False by simp
    moreover have "int (10 * a + d) > 2147483647" using False by linarith
    ultimately show ?thesis using n digit_char_ascii(1) [OF d] by (simp add: Let_def)
  qed
qed simp

lemma atoi_decimal:
  "toyix_atoi (Some (decimal n)) = (if n < 2147483648 then Inr (Some (int n)) else Inl (Fault ''signed overflow''))"
  "toyix_atoi (Some (0x2D # decimal n)) = (if n < 2147483648 then Inr (Some (- int n)) else Inl (Fault ''signed overflow''))"
proof -
  obtain ds where ds: "decimal n = map digit_char ds" "\<forall>d\<in>set ds. d < 10" "ds \<noteq> []" "foldl (\<lambda>a d. 10 * a + d) 0 ds = n"
    by (rule decimal_digits)
  then obtain d es where c: "ds = d # es" "d < 10" by (cases ds) auto
  have "atoi_sign (dropWhile toyix_isspace (decimal n)) = (False, decimal n)"
    using ds(1) c digit_char_ascii(3-5) [OF c(2)] by (simp add: atoi_sign_def)
  moreover have "atoi_sign (dropWhile toyix_isspace (0x2D # decimal n)) = (True, decimal n)" by (simp add: atoi_sign_def toyix_isspace_def)
  moreover have "decimal n \<noteq> []" "ascii_digit (hd (decimal n))" using ds(1) c digit_char_ascii(1) [OF c(2)] by simp_all
  moreover have "atoi_digits (decimal n) 0 = (if n < 2147483648 then Inr (int n, []) else Inl (Fault ''signed overflow''))"
    using atoi_digits_value [OF ds(2), of 0] ds(1,4) by simp
  ultimately show "toyix_atoi (Some (decimal n)) = (if n < 2147483648 then Inr (Some (int n)) else Inl (Fault ''signed overflow''))"
    "toyix_atoi (Some (0x2D # decimal n)) = (if n < 2147483648 then Inr (Some (- int n)) else Inl (Fault ''signed overflow''))"
    by (simp_all add: toyix_atoi_def)
qed

lemma atoi_signed_decimal:
  assumes "- 2147483648 < v" and "v < 2147483648"
  shows "toyix_atoi (Some (signed_decimal v)) = Inr (Some v)"
  using assms by (cases "v < 0") (simp_all add: signed_decimal_def atoi_decimal nat_less_iff)

text \<open>The smallest integer is the one the library prints and cannot read: the digits overflow before the sign is applied.\<close>

lemma atoi_smallest: "toyix_atoi (Some (signed_decimal (- 2147483648))) = Inl (Fault ''signed overflow'')"
  by (simp add: signed_decimal_def atoi_decimal)

lemma streq_loop_eq: "streq_loop a b \<longleftrightarrow> a = b"
  by (induction a b rule: streq_loop.induct) auto

end
