(* ===== verification/Shell.thy ===== *)
theory Shell
  imports User_Lib
begin

text \<open>
  The user shell of \<open>user/shell.c\<close>: the words of a line, the table of background jobs, the commands
  and one turn of the main loop, over the system calls of \<open>User_Lib\<close>. The lemmas show that the
  arguments of a command are the first words of the line and that the job table remembers the jobs it tracks.
\<close>

section \<open>Words and jobs\<close>

abbreviation (input) SHELL_LINE_MAX :: u32 where "SHELL_LINE_MAX \<equiv> 96"
abbreviation (input) SHELL_ARG_MAX :: int where "SHELL_ARG_MAX \<equiv> 12"
abbreviation (input) SHELL_JOB_MAX :: nat where "SHELL_JOB_MAX \<equiv> 8"
abbreviation (input) SHELL_JOB_NAME_MAX :: int where "SHELL_JOB_NAME_MAX \<equiv> 32"

record shell_job =
  sj_pid :: u32
  sj_active :: bool
  sj_name :: "u8 list"

function shell_tokenize_loop :: "u8 list \<Rightarrow> u8 list list \<Rightarrow> int \<Rightarrow> u8 list list" where
  "shell_tokenize_loop p argv max_args =
     (let start = dropWhile toyix_isspace p in
      if start = [] then argv
      else if int (length argv) \<ge> max_args then argv
      else shell_tokenize_loop (tl (dropWhile (\<lambda>c. \<not> toyix_isspace c) start)) (argv @ [takeWhile (\<lambda>c. \<not> toyix_isspace c) start]) max_args)"
  by auto
termination
proof (relation "measure (\<lambda>(p, _, _). length p)")
  fix p :: "u8 list" and argv :: "u8 list list" and max_args :: int and start
  assume start: "start = dropWhile toyix_isspace p" and ne: "start \<noteq> []"
  have "length (tl (dropWhile (\<lambda>c. \<not> toyix_isspace c) start)) \<le> length start - 1"
    using length_dropWhile_le [of "\<lambda>c. \<not> toyix_isspace c" start] by (simp add: diff_le_mono)
  also have "\<dots> < length p" using length_dropWhile_le [of toyix_isspace p] ne unfolding start [symmetric] by (cases start) auto
  finally show "((tl (dropWhile (\<lambda>c. \<not> toyix_isspace c) start), argv @ [takeWhile (\<lambda>c. \<not> toyix_isspace c) start], max_args), p, argv, max_args)
      \<in> measure (\<lambda>(p, _, _). length p)" by simp
qed simp

declare shell_tokenize_loop.simps [simp del]

definition tokenize :: "u8 list \<Rightarrow> int \<Rightarrow> u8 list list" where
  "tokenize line max_args = shell_tokenize_loop line [] max_args"

definition copy_job_name :: "u8 list \<Rightarrow> u8 list option \<Rightarrow> int \<Rightarrow> u8 list" where
  "copy_job_name dest src dest_size =
     (case src of None \<Rightarrow> dest | Some s \<Rightarrow> if dest_size \<le> 0 then dest else take (nat (dest_size - 1)) s)"

definition shell_find_job_index :: "u32 \<Rightarrow> shell_job list \<Rightarrow> nat option" where
  "shell_find_job_index pid jobs = find (\<lambda>i. sj_active (jobs ! i) \<and> sj_pid (jobs ! i) = pid) [0..<SHELL_JOB_MAX]"

definition shell_alloc_job_slot :: "shell_job list \<Rightarrow> nat option" where
  "shell_alloc_job_slot jobs = find (\<lambda>i. \<not> sj_active (jobs ! i)) [0..<SHELL_JOB_MAX]"

definition shell_track_job :: "u32 \<Rightarrow> u8 list \<Rightarrow> shell_job list \<Rightarrow> shell_job list" where
  "shell_track_job pid name jobs =
     (case (case shell_find_job_index pid jobs of Some i \<Rightarrow> Some i | None \<Rightarrow> shell_alloc_job_slot jobs) of
        None \<Rightarrow> jobs
      | Some i \<Rightarrow> jobs[i := \<lparr>sj_pid = pid, sj_active = True, sj_name = copy_job_name (sj_name (jobs ! i)) (Some name) SHELL_JOB_NAME_MAX\<rparr>])"

definition shell_forget_job :: "u32 \<Rightarrow> shell_job list \<Rightarrow> shell_job list" where
  "shell_forget_job pid jobs =
     (case shell_find_job_index pid jobs of None \<Rightarrow> jobs
      | Some i \<Rightarrow> jobs[i := \<lparr>sj_pid = 0, sj_active = False, sj_name = []\<rparr>])"

definition shell_job_name :: "u32 \<Rightarrow> shell_job list \<Rightarrow> u8 list" where
  "shell_job_name pid jobs =
     (case shell_find_job_index pid jobs of None \<Rightarrow> bytes ''unknown''
      | Some i \<Rightarrow> if sj_name (jobs ! i) = [] then bytes ''unknown'' else sj_name (jobs ! i))"

definition shell_process_state_name :: "u32 \<Rightarrow> string" where
  "shell_process_state_name state =
     (if state = 0 then ''new'' else if state = 1 then ''running'' else if state = 2 then ''zombie''
      else if state = 3 then ''destroyed'' else ''unknown'')"

definition file_type_name :: "u32 \<Rightarrow> string" where
  "file_type_name type = (if type = 1 then ''file'' else if type = 2 then ''directory'' else ''unknown'')"

section \<open>Commands\<close>

text \<open>A format or text followed by a newline.\<close>

abbreviation (input) msg :: "string \<Rightarrow> u8 list option" where "msg s \<equiv> Some (bytes s)"
abbreviation (input) msg_line :: "string \<Rightarrow> u8 list option" where "msg_line s \<equiv> Some (bytes s @ [0x0A])"

definition cmd_help :: "'m syscalls \<Rightarrow> 'm \<Rightarrow> 'm" where
  "cmd_help sys m = toyix_puts sys (msg ''commands: help, echo, args, cat, stat, run, runbg, jobs, wait, kill, exit'') m"

definition cmd_echo :: "'m syscalls \<Rightarrow> u8 list list \<Rightarrow> 'm \<Rightarrow> 'm" where
  "cmd_echo sys argv m =
     toyix_putchar sys 0x0A (fold (\<lambda>i m. toyix_write_str sys (Some (argv ! i)) (if i > 1 then toyix_putchar sys 0x20 m else m))
       [1..<length argv] m)"

definition cmd_args :: "'m syscalls \<Rightarrow> u8 list list \<Rightarrow> 'm \<Rightarrow> 'm res" where
  "cmd_args sys argv m =
     bindE (toyix_printf sys (msg_line ''argc=%d'') [Va_int (int (length argv))] m) (\<lambda>m.
     foldE (\<lambda>i m. toyix_printf sys (msg_line ''argv[%d]=%s'') [Va_int (int i), Va_str (Some (argv ! i))] m) [0..<length argv] m)"

partial_function (option) cat_loop :: "'m syscalls \<Rightarrow> u32 \<Rightarrow> 'm \<Rightarrow> 'm option" where
  "cat_loop sys fd m =
     (let r = sys_read sys fd 64 m; got = fst (fst r); bs = snd (fst r); m1 = snd r in
      if got < 0 then Some (toyix_puts sys (msg ''cat: read failed'') m1)
      else if got = 0 then Some m1
      else cat_loop sys fd (snd (sys_write sys 1 (take (nat got) bs) m1)))"

definition cmd_cat :: "'m syscalls \<Rightarrow> u8 list list \<Rightarrow> 'm \<Rightarrow> 'm res option" where
  "cmd_cat sys argv m =
     (if length argv \<noteq> 2 then Some (Inr (toyix_puts sys (msg ''usage: cat PATH'') m))
      else
        (case sys_open sys (argv ! 1) 0 m of
           (fd, m1) \<Rightarrow>
             if fd < 0 then Some (toyix_printf sys (msg_line ''cat: could not open %s'') [Va_str (Some (argv ! 1))] m1)
             else bindO (map_option Inr (cat_loop sys (word_of_int fd) m1)) (\<lambda>m2.
               case sys_close sys (word_of_int fd) m2 of
                 (rc, m3) \<Rightarrow> Some (Inr (if rc \<noteq> 0 then toyix_puts sys (msg ''cat: close failed'') m3 else m3)))))"

definition cmd_stat :: "'m syscalls \<Rightarrow> u8 list list \<Rightarrow> 'm \<Rightarrow> 'm res" where
  "cmd_stat sys argv m =
     (if length argv \<noteq> 2 then Inr (toyix_puts sys (msg ''usage: stat PATH'') m)
      else
        (case sys_stat sys (argv ! 1) m of
           ((rc, ty, sz), m1) \<Rightarrow>
             if rc \<noteq> 0 then toyix_printf sys (msg_line ''stat: could not stat %s'') [Va_str (Some (argv ! 1))] m1
             else toyix_printf sys (msg_line ''stat: path=%s type=%s size=%u'') [Va_str (Some (argv ! 1)), Va_str (msg (file_type_name ty)), Va_uint sz] m1))"

definition cmd_run :: "'m syscalls \<Rightarrow> u8 list list \<Rightarrow> 'm \<Rightarrow> 'm res" where
  "cmd_run sys argv m =
     (if length argv < 2 then Inr (toyix_puts sys (msg ''usage: run PROGRAM [ARGS...]'') m)
      else
        (case sys_exec sys (argv ! 1) (tl argv) m of
           (pid, m1) \<Rightarrow>
             if pid < 0 then toyix_printf sys (msg_line ''run: failed to launch %s'') [Va_str (Some (argv ! 1))] m1
             else bindE (toyix_printf sys (msg_line ''shell: run %s pid=%d'') [Va_str (Some (argv ! 1)), Va_int pid] m1) (\<lambda>m2.
               case sys_waitpid sys (word_of_int pid) m2 of
                 ((rc, status), m3) \<Rightarrow>
                   if rc \<noteq> 0
                   then bindE (toyix_printf sys (msg_line ''run: wait failed for pid %d'') [Va_int pid] m3) (\<lambda>m4.
                        Inr (toyix_puts sys (msg ''run: process may not be a child or may not exist'') m4))
                   else toyix_printf sys (msg_line ''shell: %s exited code %u'') [Va_str (Some (argv ! 1)), Va_uint status] m3)))"

definition cmd_runbg :: "'m syscalls \<Rightarrow> u8 list list \<Rightarrow> shell_job list \<times> 'm \<Rightarrow> (shell_job list \<times> 'm) res" where
  "cmd_runbg sys argv = (\<lambda>(jobs, m).
     if length argv < 2 then Inr (jobs, toyix_puts sys (msg ''usage: runbg PROGRAM [ARGS...]'') m)
     else if shell_alloc_job_slot jobs = None then Inr (jobs, toyix_puts sys (msg ''runbg: job table full'') m)
     else
       (case sys_exec sys (argv ! 1) (tl argv) m of
          (pid, m1) \<Rightarrow>
            if pid < 0
            then bindE (toyix_printf sys (msg_line ''runbg: failed to launch %s'') [Va_str (Some (argv ! 1))] m1) (\<lambda>m2. Inr (jobs, m2))
            else bindE (toyix_printf sys (msg_line ''shell: runbg %s pid=%d'') [Va_str (Some (argv ! 1)), Va_int pid] m1) (\<lambda>m2.
              Inr (shell_track_job (word_of_int pid) (argv ! 1) jobs, m2))))"

definition jobs_line :: "'m syscalls \<Rightarrow> nat \<Rightarrow> bool \<times> shell_job list \<times> 'm \<Rightarrow> (bool \<times> shell_job list \<times> 'm) res" where
  "jobs_line sys i = (\<lambda>(found, jobs, m).
     if \<not> sj_active (jobs ! i) then Inr (found, jobs, m)
     else
       (case sys_procinfo sys (sj_pid (jobs ! i)) m of
          ((rc, info), m1) \<Rightarrow>
            if rc \<noteq> 0 then Inr (found, shell_forget_job (sj_pid (jobs ! i)) jobs, m1)
            else bindE (toyix_printf sys (msg ''  pid=%u parent=%u name=%s state=%s'')
                     [Va_uint (pi_pid info), Va_uint (pi_parent_pid info), Va_str (Some (sj_name (jobs ! i))),
                      Va_str (msg (shell_process_state_name (pi_state info)))] m1) (\<lambda>m2.
              bindE (if pi_exited info \<noteq> 0 then toyix_printf sys (msg '' code=%u'') [Va_uint (pi_exit_code info)] m2 else Inr m2) (\<lambda>m3.
              Inr (True, jobs, toyix_putchar sys 0x0A
                (if pi_kill_requested info \<noteq> 0 then toyix_write_str sys (msg '' kill=yes'') m3 else m3))))))"

definition cmd_jobs :: "'m syscalls \<Rightarrow> shell_job list \<times> 'm \<Rightarrow> (shell_job list \<times> 'm) res" where
  "cmd_jobs sys = (\<lambda>(jobs, m).
     bindE (foldE (jobs_line sys) [0..<SHELL_JOB_MAX] (False, jobs, toyix_puts sys (msg ''shell jobs:'') m)) (\<lambda>(found, jobs, m1).
     Inr (jobs, if \<not> found then toyix_puts sys (msg ''  none'') m1 else m1)))"

definition cmd_wait :: "'m syscalls \<Rightarrow> u8 list list \<Rightarrow> shell_job list \<times> 'm \<Rightarrow> (shell_job list \<times> 'm) res" where
  "cmd_wait sys argv = (\<lambda>(jobs, m).
     if length argv \<noteq> 2 then Inr (jobs, toyix_puts sys (msg ''usage: wait PID'') m)
     else bindE (toyix_atoi (Some (argv ! 1))) (\<lambda>parsed.
       case parsed of None \<Rightarrow> Inr (jobs, toyix_puts sys (msg ''wait: expected positive PID'') m)
       | Some n \<Rightarrow>
           if n \<le> 0 then Inr (jobs, toyix_puts sys (msg ''wait: expected positive PID'') m)
           else let pid = word_of_int n in
             (case sys_waitpid sys pid m of
                ((rc, status), m1) \<Rightarrow>
                  if rc \<noteq> 0 then bindE (toyix_printf sys (msg_line ''wait: failed for pid %u'') [Va_uint pid] m1) (\<lambda>m2. Inr (jobs, m2))
                  else bindE (toyix_printf sys (msg_line ''shell: wait pid=%u name=%s code=%u'')
                         [Va_uint pid, Va_str (Some (shell_job_name pid jobs)), Va_uint status] m1) (\<lambda>m2.
                    Inr (shell_forget_job pid jobs, m2)))))"

definition cmd_kill :: "'m syscalls \<Rightarrow> u8 list list \<Rightarrow> 'm \<Rightarrow> 'm res" where
  "cmd_kill sys argv m =
     (if length argv \<noteq> 2 then Inr (toyix_puts sys (msg ''usage: kill PID'') m)
      else bindE (toyix_atoi (Some (argv ! 1))) (\<lambda>parsed.
        case parsed of None \<Rightarrow> Inr (toyix_puts sys (msg ''kill: expected positive PID'') m)
        | Some n \<Rightarrow>
            if n \<le> 0 then Inr (toyix_puts sys (msg ''kill: expected positive PID'') m)
            else let pid = word_of_int n in
              (case sys_kill sys pid m of
                 (rc, m1) \<Rightarrow>
                   if rc \<noteq> 0 then toyix_printf sys (msg_line ''kill: failed for pid %u'') [Va_uint pid] m1
                   else toyix_printf sys (msg_line ''shell: kill requested pid=%u'') [Va_uint pid] m1)))"

text \<open>The exit code, if the shell is to exit.\<close>

definition cmd_exit :: "'m syscalls \<Rightarrow> u8 list list \<Rightarrow> 'm \<Rightarrow> (int option \<times> 'm) res" where
  "cmd_exit sys argv m =
     (if length argv > 2 then Inr (None, toyix_puts sys (msg ''usage: exit [CODE]'') m)
      else if length argv = 2
      then bindE (toyix_atoi (Some (argv ! 1))) (\<lambda>code.
           case code of None \<Rightarrow> Inr (None, toyix_puts sys (msg ''exit: expected numeric code'') m) | Some c \<Rightarrow> Inr (Some c, m))
      else Inr (Some 0, m))"

definition print_startup_args :: "'m syscalls \<Rightarrow> u8 list list \<Rightarrow> 'm \<Rightarrow> 'm res" where
  "print_startup_args sys argv m =
     bindE (toyix_printf sys (msg_line ''shell: startup argc=%d'') [Va_int (int (length argv))] m) (\<lambda>m.
     foldE (\<lambda>i m. toyix_printf sys (msg_line ''shell: argv[%d]=%s'') [Va_int (int i), Va_str (Some (argv ! i))] m) [0..<length argv] m)"

section \<open>The main loop\<close>

definition keep_jobs :: "shell_job list \<Rightarrow> 'm res \<Rightarrow> (int option \<times> shell_job list \<times> 'm) res option" where
  "keep_jobs jobs r = Some (bindE r (\<lambda>m. Inr (None, jobs, m)))"

text \<open>One turn of the loop: the exit code, if the turn ends the shell, and the state after it.\<close>

definition shell_turn :: "'m syscalls \<Rightarrow> u8 list list \<Rightarrow> shell_job list \<times> 'm \<Rightarrow> (int option \<times> shell_job list \<times> 'm) res option" where
  "shell_turn sys main_argv = (\<lambda>(jobs, m0).
     case toyix_readline sys False SHELL_LINE_MAX (toyix_write_str sys (msg ''ush> '') m0) of
       ((got, l), m) \<Rightarrow>
         if got < 0 then Some (Inr (Some 1, jobs, toyix_puts sys (msg ''shell: read failed'') m))
         else let argv = tokenize l SHELL_ARG_MAX; is = (\<lambda>name. toyix_streq (Some (argv ! 0)) (msg name)) in
         if argv = [] then Some (Inr (None, jobs, m))
         else if is ''help'' then keep_jobs jobs (Inr (cmd_help sys m))
         else if is ''echo'' then keep_jobs jobs (Inr (cmd_echo sys argv m))
         else if is ''args'' then keep_jobs jobs (cmd_args sys main_argv m)
         else if is ''cat'' then bindO (cmd_cat sys argv m) (\<lambda>m1. keep_jobs jobs (Inr m1))
         else if is ''stat'' then keep_jobs jobs (cmd_stat sys argv m)
         else if is ''run'' then keep_jobs jobs (cmd_run sys argv m)
         else if is ''runbg'' then Some (bindE (cmd_runbg sys argv (jobs, m)) (\<lambda>r. Inr (None, r)))
         else if is ''jobs'' then Some (bindE (cmd_jobs sys (jobs, m)) (\<lambda>r. Inr (None, r)))
         else if is ''wait'' then Some (bindE (cmd_wait sys argv (jobs, m)) (\<lambda>r. Inr (None, r)))
         else if is ''kill'' then keep_jobs jobs (cmd_kill sys argv m)
         else if is ''exit'' then Some (bindE (cmd_exit sys argv m) (\<lambda>(code, m1). Inr (code, jobs, m1)))
         else keep_jobs jobs (bindE (toyix_printf sys (msg_line ''unknown command: %s'') [Va_str (Some (argv ! 0))] m) (\<lambda>m1.
                Inr (toyix_puts sys (Some (bytes ''type '' @ [0x27] @ bytes ''help'' @ [0x27])) m1))))"

definition shell_start :: "'m syscalls \<Rightarrow> u8 list list \<Rightarrow> 'm \<Rightarrow> 'm res" where
  "shell_start sys main_argv m = print_startup_args sys main_argv (toyix_puts sys (msg ''shell: Toyix user shell'') m)"

section \<open>What the shell's parts do\<close>

text \<open>The arguments of a command are the first words of the line, at most as many as fit.\<close>

lemma shell_loop_words:
  "int (length argv) \<le> n \<Longrightarrow> shell_tokenize_loop l argv n = take (nat n) (argv @ words_by toyix_isspace l [])"
proof (induction l argv n rule: shell_tokenize_loop.induct)
  case (1 l argv n)
  define start where "start = dropWhile toyix_isspace l"
  show ?case
  proof (cases "start = []")
    case True
    then have "words_by toyix_isspace l [] = []" unfolding start_def by (rule words_by_end)
    then show ?thesis using True 1(2) by (subst shell_tokenize_loop.simps) (simp add: Let_def nat_le_iff flip: start_def)
  next
    case False
    note w = words_by_start [OF start_def False]
    show ?thesis
    proof (cases "int (length argv) \<ge> n")
      case True
      then show ?thesis using False 1(2) by (subst shell_tokenize_loop.simps) (simp add: Let_def flip: start_def)
    next
      case more: False
      have "shell_tokenize_loop l argv n
          = shell_tokenize_loop (tl (dropWhile (\<lambda>c. \<not> toyix_isspace c) start)) (argv @ [takeWhile (\<lambda>c. \<not> toyix_isspace c) start]) n"
        using False more by (subst shell_tokenize_loop.simps) (simp add: Let_def flip: start_def)
      then show ?thesis using 1(1) [OF start_def False more] more w by (simp add: words_by_tl)
    qed
  qed
qed

lemma shell_tokenize_words: "0 \<le> n \<Longrightarrow> tokenize l n = take (nat n) (words_by toyix_isspace l [])"
  by (simp add: tokenize_def shell_loop_words)

text \<open>The active jobs of the table have different identifiers.\<close>

definition jobs_ok :: "shell_job list \<Rightarrow> bool" where
  "jobs_ok jobs \<longleftrightarrow> length jobs = SHELL_JOB_MAX
     \<and> (\<forall>i<SHELL_JOB_MAX. \<forall>j<SHELL_JOB_MAX. sj_active (jobs ! i) \<and> sj_active (jobs ! j) \<and> sj_pid (jobs ! i) = sj_pid (jobs ! j) \<longrightarrow> i = j)"

lemma find_upt_Some: "find P [0..<n] = Some i \<Longrightarrow> i < n \<and> P i"
  by (auto simp: find_Some_iff)

lemma find_upt_None: "find P [0..<n] = None \<Longrightarrow> i < n \<Longrightarrow> \<not> P i"
  by (auto simp: find_None_iff)

lemma shell_find_job_index_iff:
  assumes "jobs_ok jobs"
  shows "shell_find_job_index pid jobs = Some i \<longleftrightarrow> i < SHELL_JOB_MAX \<and> sj_active (jobs ! i) \<and> sj_pid (jobs ! i) = pid"
proof (cases "shell_find_job_index pid jobs")
  case None
  have "\<not> (sj_active (jobs ! i) \<and> sj_pid (jobs ! i) = pid)" if "i < SHELL_JOB_MAX"
    by (rule find_upt_None [OF None [unfolded shell_find_job_index_def] that])
  with None show ?thesis by auto
next
  case (Some j)
  then have "j < SHELL_JOB_MAX \<and> sj_active (jobs ! j) \<and> sj_pid (jobs ! j) = pid"
    unfolding shell_find_job_index_def by (rule find_upt_Some)
  with Some assms show ?thesis unfolding jobs_ok_def by (metis option.inject)
qed

lemma jobs_ok_update:
  assumes ok: "jobs_ok jobs" and i: "i < SHELL_JOB_MAX"
    and v: "\<And>j. sj_active v \<Longrightarrow> j < SHELL_JOB_MAX \<Longrightarrow> sj_active (jobs ! j) \<Longrightarrow> sj_pid (jobs ! j) = sj_pid v \<Longrightarrow> j = i"
  shows "jobs_ok (jobs[i := v])" and "a < SHELL_JOB_MAX \<Longrightarrow> jobs[i := v] ! a = (if a = i then v else jobs ! a)"
proof -
  have l: "length jobs = SHELL_JOB_MAX" using ok by (simp add: jobs_ok_def)
  then show n: "jobs[i := v] ! a = (if a = i then v else jobs ! a)" if "a < SHELL_JOB_MAX" for a using i that by simp
  have uniq: "a = b" if ab: "a < SHELL_JOB_MAX" "b < SHELL_JOB_MAX" and act: "sj_active (jobs[i := v] ! a)" "sj_active (jobs[i := v] ! b)"
    and pid: "sj_pid (jobs[i := v] ! a) = sj_pid (jobs[i := v] ! b)" for a b
  proof (cases "a = i")
    case True
    then have "b = i" if "b \<noteq> i"
      using v [OF _ ab(2)] act pid that unfolding n [OF ab(1)] n [OF ab(2)] by simp
    with True show ?thesis by blast
  next
    case a: False
    show ?thesis
    proof (cases "b = i")
      case True
      then show ?thesis using v [OF _ ab(1)] a act pid unfolding n [OF ab(1)] n [OF ab(2)] by simp
    next
      case False
      then have "sj_active (jobs ! a)" "sj_active (jobs ! b)" "sj_pid (jobs ! a) = sj_pid (jobs ! b)"
        using a act pid unfolding n [OF ab(1)] n [OF ab(2)] by simp_all
      with ab ok show ?thesis unfolding jobs_ok_def by blast
    qed
  qed
  show "jobs_ok (jobs[i := v])" unfolding jobs_ok_def
  proof (intro conjI allI impI)
    show "length (jobs[i := v]) = SHELL_JOB_MAX" by (simp add: l)
  qed (elim conjE, rule uniq)
qed

text \<open>A job that finds room is remembered under its name, cut to 31 characters, and the others are kept.\<close>

lemma shell_track_job_ok:
  assumes ok: "jobs_ok jobs" and room: "shell_find_job_index pid jobs \<noteq> None \<or> shell_alloc_job_slot jobs \<noteq> None" and name: "name \<noteq> []"
  shows "jobs_ok (shell_track_job pid name jobs)" and "shell_job_name pid (shell_track_job pid name jobs) = take 31 name"
    and "q \<noteq> pid \<Longrightarrow> shell_job_name q (shell_track_job pid name jobs) = shell_job_name q jobs"
proof -
  obtain i where i: "(case shell_find_job_index pid jobs of Some i \<Rightarrow> Some i | None \<Rightarrow> shell_alloc_job_slot jobs) = Some i"
    using room by (cases "shell_find_job_index pid jobs") auto
  have l: "length jobs = 8" using ok by (simp add: jobs_ok_def)
  have "i < 8 \<and> (\<forall>j<8. sj_active (jobs ! j) \<and> sj_pid (jobs ! j) = pid \<longrightarrow> j = i) \<and> (sj_active (jobs ! i) \<longrightarrow> sj_pid (jobs ! i) = pid)"
  proof (cases "shell_find_job_index pid jobs")
    case None
    then have "\<not> (j < 8 \<and> sj_active (jobs ! j) \<and> sj_pid (jobs ! j) = pid)" for j
      using shell_find_job_index_iff [OF ok, of pid j] by simp
    moreover have "i < 8 \<and> \<not> sj_active (jobs ! i)" using i None unfolding shell_alloc_job_slot_def by (intro find_upt_Some) simp
    ultimately show ?thesis by blast
  next
    case (Some j)
    then have f: "shell_find_job_index pid jobs = Some i" using i by simp
    have "k = i" if "k < 8" "sj_active (jobs ! k)" "sj_pid (jobs ! k) = pid" for k
    proof -
      have "shell_find_job_index pid jobs = Some k" unfolding shell_find_job_index_iff [OF ok] using that by blast
      with f show ?thesis by simp
    qed
    moreover from f have "i < 8 \<and> sj_active (jobs ! i) \<and> sj_pid (jobs ! i) = pid" unfolding shell_find_job_index_iff [OF ok] .
    ultimately show ?thesis by blast
  qed
  then have b: "i < 8" and other: "\<And>j. j < 8 \<Longrightarrow> sj_active (jobs ! j) \<Longrightarrow> sj_pid (jobs ! j) = pid \<Longrightarrow> j = i"
    and free: "sj_active (jobs ! i) \<Longrightarrow> sj_pid (jobs ! i) = pid" by blast+
  let ?v = "\<lparr>sj_pid = pid, sj_active = True, sj_name = take 31 name\<rparr>"
  have t: "shell_track_job pid name jobs = jobs[i := ?v]" using i by (simp add: shell_track_job_def copy_job_name_def)
  have v: "j = i" if "sj_active ?v" "j < 8" "sj_active (jobs ! j)" "sj_pid (jobs ! j) = sj_pid ?v" for j using other that by simp
  show ok': "jobs_ok (shell_track_job pid name jobs)" unfolding t by (rule jobs_ok_update(1) [OF ok b, where v = ?v, OF v])
  note n = jobs_ok_update(2) [OF ok b, where v = ?v, OF v]
  have "shell_find_job_index pid (shell_track_job pid name jobs) = Some i"
    unfolding shell_find_job_index_iff [OF ok'] using b l by (simp add: t)
  then show "shell_job_name pid (shell_track_job pid name jobs) = take 31 name" using b l name by (simp add: shell_job_name_def t)
  show "shell_job_name q (shell_track_job pid name jobs) = shell_job_name q jobs" if q: "q \<noteq> pid"
  proof -
    have e: "shell_find_job_index q (shell_track_job pid name jobs) = Some j \<longleftrightarrow> shell_find_job_index q jobs = Some j" for j
      unfolding shell_find_job_index_iff [OF ok'] shell_find_job_index_iff [OF ok] unfolding t using n [of j] q free by (cases "j = i") auto
    then have eq: "shell_find_job_index q (shell_track_job pid name jobs) = shell_find_job_index q jobs" by (metis not_Some_eq)
    have "j \<noteq> i \<and> j < 8" if "shell_find_job_index q jobs = Some j" for j
      using that q free unfolding shell_find_job_index_iff [OF ok] by auto
    then show ?thesis unfolding shell_job_name_def eq unfolding t by (auto split: option.split)
  qed
qed

lemma shell_forget_job_ok:
  assumes ok: "jobs_ok jobs"
  shows "jobs_ok (shell_forget_job pid jobs)" and "shell_find_job_index pid (shell_forget_job pid jobs) = None"
proof (atomize (full), cases "shell_find_job_index pid jobs")
  case (Some i)
  let ?v = "\<lparr>sj_pid = 0, sj_active = False, sj_name = []\<rparr>"
  have i: "i < SHELL_JOB_MAX" "sj_active (jobs ! i)" "sj_pid (jobs ! i) = pid" using Some shell_find_job_index_iff [OF ok] by auto
  have t: "shell_forget_job pid jobs = jobs[i := ?v]" using Some by (simp add: shell_forget_job_def)
  have ok': "jobs_ok (shell_forget_job pid jobs)" unfolding t by (rule jobs_ok_update(1) [OF ok i(1)]) simp
  have "shell_find_job_index pid (shell_forget_job pid jobs) \<noteq> Some j" for j
  proof
    assume j: "shell_find_job_index pid (shell_forget_job pid jobs) = Some j"
    then have a: "j < SHELL_JOB_MAX" "sj_active (jobs[i := ?v] ! j)" "sj_pid (jobs[i := ?v] ! j) = pid"
      unfolding shell_find_job_index_iff [OF ok'] unfolding t by blast+
    then have "j \<noteq> i" "sj_active (jobs ! j)" "sj_pid (jobs ! j) = pid"
      using jobs_ok_update(2) [OF ok i(1), where v = ?v and a = j] by (auto split: if_splits)
    then have "shell_find_job_index pid jobs = Some j" unfolding shell_find_job_index_iff [OF ok] using a(1) by blast
    with Some \<open>j \<noteq> i\<close> show False by simp
  qed
  with ok' show "jobs_ok (shell_forget_job pid jobs) \<and> shell_find_job_index pid (shell_forget_job pid jobs) = None" by blast
qed (use ok in \<open>simp add: shell_forget_job_def\<close>)

end
