(* ===== verification/User_Programs.thy ===== *)
theory User_Programs
  imports Shell
begin

text \<open>
  The small user programs \<open>user/counter.c\<close>, \<open>user/demo.c\<close> and \<open>user/fstest.c\<close> over the system calls
  of \<open>User_Lib\<close>. A program gives its exit code and the state after it.
\<close>

definition counter_main :: "'m syscalls \<Rightarrow> u8 list list \<Rightarrow> 'm \<Rightarrow> int \<times> 'm" where
  "counter_main sys argv m =
     (let m1 = toyix_putchar sys 0x0A (toyix_write_int sys (int (length argv)) (toyix_write_str sys (msg ''counter: argc='') m));
          m2 = fold (\<lambda>i m. toyix_puts sys (Some (argv ! i)) (toyix_write_str sys (msg '']='')
                 (toyix_write_int sys (int i) (toyix_write_str sys (msg ''counter: argv['') m)))) [0..<length argv] m1;
          m3 = fold (\<lambda>i m. snd (sys_sleep sys 2 (toyix_putchar sys 0x0A (toyix_write_uint sys (word_of_nat i)
                 (toyix_write_str sys (msg ''counter: tick '') m))))) [1..<4] m2
      in (4, m3))"

definition demo_main :: "'m syscalls \<Rightarrow> u8 list list \<Rightarrow> 'm \<Rightarrow> int \<times> 'm" where
  "demo_main sys argv m =
     (let m1 = toyix_putchar sys 0x0A (toyix_write_int sys (int (length argv)) (toyix_write_str sys (msg ''argc='') m));
          m2 = fold (\<lambda>i m. toyix_puts sys (Some (argv ! i)) (toyix_write_str sys (msg '']='')
                 (toyix_write_int sys (int i) (toyix_write_str sys (msg ''argv['') m)))) [0..<length argv] m1;
          ((got, buffer), m3) = sys_read sys 0 32 (toyix_write_str sys (msg ''user> '') m2)
      in if got < 0 then (1, toyix_puts sys (msg ''read failed'') m3)
         else let m4 = toyix_write_str sys (msg ''echo: '') m3;
                  m5 = (if got > 0 then snd (sys_write sys 1 (take (nat got) buffer) m4) else m4)
           in (9, snd (sys_sleep sys 3 (toyix_putchar sys 0x0A m5))))"

definition print_chunk :: "'m syscalls \<Rightarrow> string \<Rightarrow> u8 list \<Rightarrow> int \<Rightarrow> 'm \<Rightarrow> 'm res" where
  "print_chunk sys label buffer got m =
     bindE (toyix_printf sys (msg ''%s'') [Va_str (msg label)] m) (\<lambda>m1.
     Inr (toyix_putchar sys 0x0A (if got > 0 then snd (sys_write sys 1 (take (nat got) buffer) m1) else m1)))"

text \<open>A failing step of \<open>fstest\<close>: the message, closing the file, the exit code.\<close>

definition fstest_fail :: "'m syscalls \<Rightarrow> u32 \<Rightarrow> string \<Rightarrow> int \<Rightarrow> 'm \<Rightarrow> (int \<times> 'm) res" where
  "fstest_fail sys fd message code m = Inr (code, snd (sys_close sys fd (toyix_puts sys (msg message) m)))"

definition fstest_read :: "'m syscalls \<Rightarrow> u32 \<Rightarrow> u32 \<Rightarrow> string \<Rightarrow> int \<Rightarrow> string \<Rightarrow> 'm \<Rightarrow> ('m \<Rightarrow> (int \<times> 'm) res) \<Rightarrow> (int \<times> 'm) res" where
  "fstest_read sys fd len message code label m rest =
     (case sys_read sys fd len m of
        ((got, buffer), m1) \<Rightarrow>
          if got < 0 then fstest_fail sys fd message code m1
          else bindE (print_chunk sys label buffer got m1) rest)"

definition fstest_seek :: "'m syscalls \<Rightarrow> u32 \<Rightarrow> int \<Rightarrow> string \<Rightarrow> int \<Rightarrow> 'm \<Rightarrow> ('m \<Rightarrow> (int \<times> 'm) res) \<Rightarrow> (int \<times> 'm) res" where
  "fstest_seek sys fd offset message code m rest =
     (case sys_seek sys fd offset 0 m of (rc, m1) \<Rightarrow> if rc < 0 then fstest_fail sys fd message code m1 else rest m1)"

definition fstest_stats :: "'m syscalls \<Rightarrow> 'm \<Rightarrow> (int \<times> 'm) res" where
  "fstest_stats sys m =
     (case sys_stat sys (bytes ''/README'') m of
        ((rc, ty, sz), m1) \<Rightarrow>
          if rc \<noteq> 0 then Inr (8, toyix_puts sys (msg ''fstest: stat failed for /README'') m1)
          else bindE (toyix_printf sys (msg_line ''fstest: README type=%s size=%u'') [Va_str (msg (file_type_name ty)), Va_uint sz] m1) (\<lambda>m2.
            case sys_stat sys (bytes ''/programs'') m2 of
              ((rc, ty, sz), m3) \<Rightarrow>
                if rc \<noteq> 0 then Inr (9, toyix_puts sys (msg ''fstest: stat failed for /programs'') m3)
                else bindE (toyix_printf sys (msg_line ''fstest: /programs type=%s size=%u'') [Va_str (msg (file_type_name ty)), Va_uint sz] m3) (\<lambda>m4.
                  case sys_stat sys (bytes ''/missing'') m4 of
                    ((rc, _), m5) \<Rightarrow>
                      if rc = 0 then Inr (10, toyix_puts sys (msg ''fstest: missing path unexpectedly succeeded'') m5)
                      else Inr (0, toyix_puts sys (msg ''fstest: completed filesystem smoke test'')
                             (toyix_puts sys (msg ''fstest: missing path check passed'') m5)))))"

definition fstest_main :: "'m syscalls \<Rightarrow> 'm \<Rightarrow> (int \<times> 'm) res" where
  "fstest_main sys m =
     (case sys_open sys (bytes ''/README'') 0 (toyix_puts sys (msg ''fstest: starting filesystem smoke test'') m) of
        (rc, m1) \<Rightarrow>
          if rc < 0 then Inr (1, toyix_puts sys (msg ''fstest: could not open /README'') m1)
          else let fd = word_of_int rc in
            fstest_read sys fd 8 ''fstest: first read failed'' 2 ''fstest: README first read: '' m1 (\<lambda>m2.
            fstest_seek sys fd 0 ''fstest: rewind failed'' 3 m2 (\<lambda>m3.
            fstest_read sys fd 8 ''fstest: rewind read failed'' 4 ''fstest: README rewind read: '' m3 (\<lambda>m4.
            fstest_seek sys fd 6 ''fstest: skip seek failed'' 5 m4 (\<lambda>m5.
            fstest_read sys fd 5 ''fstest: skip read failed'' 6 ''fstest: README skip read: '' m5 (\<lambda>m6.
            case sys_close sys fd m6 of
              (rc, m7) \<Rightarrow> if rc \<noteq> 0 then Inr (7, toyix_puts sys (msg ''fstest: close failed'') m7) else fstest_stats sys m7))))))"

end
