(* ===== verification/Platform.thy ===== *)
theory Platform
  imports Kernel Keyboard
begin

text \<open>
  The processor's tables and the interrupt hardware: \<open>gdt.c\<close>, \<open>idt.c\<close>, \<open>pic.c\<close>, \<open>pit.c\<close> and
  \<open>interrupts.c\<close> of \<open>arch/x86\<close>. Writes to I/O ports are the list of the port and value pairs in order; a
  value read from a port is an input. The addresses of the assembly stubs are parameters. The lemmas
  decode the descriptors the way the processor does and show which gates user mode can use.
\<close>

section \<open>Segment descriptors\<close>

record gdt_entry =
  ge_limit_low :: u16
  ge_base_low :: u16
  ge_base_middle :: u8
  ge_access :: u8
  ge_granularity :: u8
  ge_base_high :: u8

text \<open>The fields of the task state segment that the kernel sets; the others are zero.\<close>

record tss_entry =
  tss_esp0_field :: u32
  tss_ss0 :: u32
  tss_iomap_base :: u16

record gdt_state =
  gdt :: "u32 \<Rightarrow> gdt_entry"
  gdt_limit :: u16
  gdt_base :: u32
  tss :: tss_entry

abbreviation (input) SIZEOF_TSS :: u32 where "SIZEOF_TSS \<equiv> 104"
abbreviation (input) SIZEOF_GDT :: u32 where "SIZEOF_GDT \<equiv> 48"

definition gdt_set_entry :: "u32 \<Rightarrow> u32 \<Rightarrow> u32 \<Rightarrow> u8 \<Rightarrow> u8 \<Rightarrow> gdt_state \<Rightarrow> gdt_state" where
  "gdt_set_entry index base limit access granularity s = s\<lparr>gdt := (gdt s)(index := \<lparr>
     ge_limit_low = ucast (limit AND 0xFFFF),
     ge_base_low = ucast (base AND 0xFFFF),
     ge_base_middle = ucast (drop_bit 16 base AND 0xFF),
     ge_access = access,
     ge_granularity = ucast (drop_bit 16 limit AND 0x0F) OR (granularity AND 0xF0),
     ge_base_high = ucast (drop_bit 24 base AND 0xFF)\<rparr>)\<rparr>"

definition tss_init :: "u32 \<Rightarrow> gdt_state \<Rightarrow> gdt_state" where
  "tss_init tss_addr s =
     gdt_set_entry 5 tss_addr (SIZEOF_TSS - 1) 0x89 0x00
       (s\<lparr>tss := \<lparr>tss_esp0_field = 0, tss_ss0 = X86_KERNEL_DATA_SELECTOR, tss_iomap_base = ucast SIZEOF_TSS\<rparr>\<rparr>)"

definition tss_set_kernel_stack :: "u32 \<Rightarrow> gdt_state \<Rightarrow> gdt_state" where
  "tss_set_kernel_stack esp0 s = s\<lparr>tss := (tss s)\<lparr>tss_esp0_field := esp0\<rparr>\<rparr>"

definition gdt_init :: "u32 \<Rightarrow> u32 \<Rightarrow> gdt_state \<Rightarrow> gdt_state" where
  "gdt_init gdt_addr tss_addr s =
     tss_init tss_addr
      (gdt_set_entry 4 0 0xFFFFF 0xF2 0xCF
      (gdt_set_entry 3 0 0xFFFFF 0xFA 0xCF
      (gdt_set_entry 2 0 0xFFFFF 0x92 0xCF
      (gdt_set_entry 1 0 0xFFFFF 0x9A 0xCF
      (gdt_set_entry 0 0 0 0 0
        (s\<lparr>gdt_limit := ucast (SIZEOF_GDT - 1), gdt_base := gdt_addr\<rparr>))))))"

section \<open>Interrupt gates\<close>

abbreviation (input) X86_SYSCALL_INTERRUPT_VECTOR :: u8 where "X86_SYSCALL_INTERRUPT_VECTOR \<equiv> 0x80"

record idt_entry =
  ie_base_low :: u16
  ie_selector :: u16
  ie_always_zero :: u8
  ie_flags :: u8
  ie_base_high :: u16

record stubs =
  exception_stub :: "nat \<Rightarrow> u32"
  irq_stub :: "nat \<Rightarrow> u32"
  sched_stub :: u32
  syscall_stub :: u32

definition idt_set_gate :: "u8 \<Rightarrow> u32 \<Rightarrow> u16 \<Rightarrow> u8 \<Rightarrow> (u8 \<Rightarrow> idt_entry) \<Rightarrow> u8 \<Rightarrow> idt_entry" where
  "idt_set_gate vector handler_addr selector flags idt = idt(vector := \<lparr>
     ie_base_low = ucast (handler_addr AND 0xFFFF), ie_selector = selector, ie_always_zero = 0, ie_flags = flags,
     ie_base_high = ucast (drop_bit 16 handler_addr AND 0xFFFF)\<rparr>)"

definition idt_init :: "stubs \<Rightarrow> (u8 \<Rightarrow> idt_entry) \<Rightarrow> u8 \<Rightarrow> idt_entry" where
  "idt_init st idt =
     (let code = ucast X86_KERNEL_CODE_SELECTOR;
          idt1 = fold (\<lambda>i. idt_set_gate (word_of_nat i) 0 0 0) [0..<256] idt;
          idt2 = fold (\<lambda>i. idt_set_gate (word_of_nat i) (exception_stub st i) code 0x8E) [0..<32] idt1;
          idt3 = fold (\<lambda>i. idt_set_gate (word_of_nat (32 + i)) (irq_stub st i) code 0x8E) [0..<16] idt2;
          idt4 = idt_set_gate (ucast X86_SCHED_INTERRUPT_VECTOR) (sched_stub st) code 0x8E idt3
      in idt_set_gate X86_SYSCALL_INTERRUPT_VECTOR (syscall_stub st) code 0xEE idt4)"

section \<open>The interrupt controllers and the timer\<close>

abbreviation (input) PIC1_COMMAND :: u16 where "PIC1_COMMAND \<equiv> 0x20"
abbreviation (input) PIC1_DATA :: u16 where "PIC1_DATA \<equiv> 0x21"
abbreviation (input) PIC2_COMMAND :: u16 where "PIC2_COMMAND \<equiv> 0xA0"
abbreviation (input) PIC2_DATA :: u16 where "PIC2_DATA \<equiv> 0xA1"
abbreviation (input) PIC_EOI :: u8 where "PIC_EOI \<equiv> 0x20"
abbreviation (input) ICW1_ICW4 :: u8 where "ICW1_ICW4 \<equiv> 0x20"
abbreviation (input) ICW1_INIT :: u8 where "ICW1_INIT \<equiv> 0x10"
abbreviation (input) ICW4_8086 :: u8 where "ICW4_8086 \<equiv> 0x01"
abbreviation (input) PIT_INPUT_HZ :: u32 where "PIT_INPUT_HZ \<equiv> 1193182"

type_synonym ports = "(u16 \<times> u8) list"

definition io_wait :: ports where
  "io_wait = [(0x80, 0)]"

definition pic_send_eoi :: "u8 \<Rightarrow> ports" where
  "pic_send_eoi irq_line = (if irq_line \<ge> 8 then [(PIC2_COMMAND, PIC_EOI)] else []) @ [(PIC1_COMMAND, PIC_EOI)]"

definition pic_line :: "u8 \<Rightarrow> u16 \<times> u8" where
  "pic_line irq_line = (if irq_line < 8 then (PIC1_DATA, irq_line) else (PIC2_DATA, irq_line - 8))"

definition pic_set_mask :: "(u16 \<Rightarrow> u8) \<Rightarrow> u8 \<Rightarrow> ports" where
  "pic_set_mask inb irq_line =
     (case pic_line irq_line of (port, l) \<Rightarrow> [(port, inb port OR ucast (push_bit (unat l) 1 :: u32))])"

definition pic_clear_mask :: "(u16 \<Rightarrow> u8) \<Rightarrow> u8 \<Rightarrow> ports" where
  "pic_clear_mask inb irq_line =
     (case pic_line irq_line of (port, l) \<Rightarrow> [(port, inb port AND ucast (NOT (push_bit (unat l) 1) :: u32))])
     @ (if irq_line \<ge> 8 then [(PIC1_DATA, inb PIC1_DATA AND NOT 4)] else [])"

definition pic_init :: ports where
  "pic_init =
     [(PIC1_COMMAND, ICW1_INIT OR ICW1_ICW4)] @ io_wait @ [(PIC2_COMMAND, ICW1_INIT OR ICW1_ICW4)] @ io_wait
     @ [(PIC1_DATA, 0x20)] @ io_wait @ [(PIC2_DATA, 0x28)] @ io_wait
     @ [(PIC1_DATA, 0x04)] @ io_wait @ [(PIC2_DATA, 0x02)] @ io_wait
     @ [(PIC1_DATA, ICW4_8086)] @ io_wait @ [(PIC2_DATA, ICW4_8086)] @ io_wait
     @ [(PIC1_DATA, 0xFF), (PIC2_DATA, 0xFF)]"

definition pit_divisor :: "u32 \<Rightarrow> u32" where
  "pit_divisor frequency_hz =
     (let f = (if frequency_hz = 0 then 100 else frequency_hz);
          d = PIT_INPUT_HZ div f;
          d1 = (if d = 0 then 1 else d)
      in if d1 > 0xFFFF then 0xFFFF else d1)"

datatype irq_routine = Pit_irq_handler | Keyboard_irq_handler

record platform =
  pf_kernel :: kernel
  pf_keyboard :: keyboard
  pit_ticks :: u32
  interrupt_handlers :: "u32 \<Rightarrow> irq_routine option"
  pf_ports :: ports

definition interrupt_register_handler :: "u8 \<Rightarrow> irq_routine \<Rightarrow> platform \<Rightarrow> platform" where
  "interrupt_register_handler vector handler p = p\<lparr>interrupt_handlers := (interrupt_handlers p)(ucast vector := Some handler)\<rparr>"

definition pit_init :: "(u16 \<Rightarrow> u8) \<Rightarrow> u32 \<Rightarrow> platform \<Rightarrow> platform" where
  "pit_init inb frequency_hz p =
     (let d = pit_divisor frequency_hz; p1 = interrupt_register_handler 32 Pit_irq_handler (p\<lparr>pit_ticks := 0\<rparr>) in
      p1\<lparr>pf_ports := pf_ports p1 @ [(0x43, 0x36), (0x40, ucast (d AND 0xFF)), (0x40, ucast (drop_bit 8 d AND 0xFF))] @ pic_clear_mask inb 0\<rparr>)"

text \<open>The whole of \<open>keyboard_init\<close>: its own state, then the handler of vector 33 and the mask of line 1.\<close>

definition keyboard_install :: "(u16 \<Rightarrow> u8) \<Rightarrow> platform \<Rightarrow> platform" where
  "keyboard_install inb p =
     (let p1 = interrupt_register_handler 33 Keyboard_irq_handler (p\<lparr>pf_keyboard := keyboard_init (pf_keyboard p)\<rparr>) in
      p1\<lparr>pf_ports := pf_ports p1 @ pic_clear_mask inb 1\<rparr>)"

definition pit_irq_handler :: "platform \<Rightarrow> platform res option" where
  "pit_irq_handler p =
     bindO (thread_on_timer_tick (ksched (pf_kernel p))) (\<lambda>s.
     Some (Inr (p\<lparr>pit_ticks := pit_ticks p + 1, pf_kernel := (pf_kernel p)\<lparr>ksched := s\<rparr>\<rparr>)))"

definition pit_wait_over :: "u32 \<Rightarrow> u32 \<Rightarrow> platform \<Rightarrow> bool" where
  "pit_wait_over start ticks p \<longleftrightarrow> \<not> pit_ticks p - start < ticks"

definition run_irq_routine :: "irq_routine \<Rightarrow> u8 \<Rightarrow> platform \<Rightarrow> platform res option" where
  "run_irq_routine r scancode p =
     (case r of
        Pit_irq_handler \<Rightarrow> pit_irq_handler p
      | Keyboard_irq_handler \<Rightarrow>
          Some (bindE (keyboard_irq_handler scancode (pf_keyboard p, ksched (pf_kernel p))) (\<lambda>(kb, s).
          Inr (p\<lparr>pf_keyboard := kb, pf_kernel := (pf_kernel p)\<lparr>ksched := s\<rparr>\<rparr>))))"

definition isr_handler :: "u32 \<Rightarrow> u8 \<Rightarrow> platform \<Rightarrow> platform res option" where
  "isr_handler vector scancode p =
     (if vector \<ge> 256 then Some (Inl (Fault ''interrupt_handlers index''))
      else case interrupt_handlers p vector of
        Some r \<Rightarrow> run_irq_routine r scancode p
      | None \<Rightarrow> Some (Inl (Panic ''unhandled CPU exception'')))"

text \<open>The frame is the stack pointer of the interrupted thread; the result 0 means that it goes on.\<close>

definition irq_handler :: "u32 \<Rightarrow> u32 \<Rightarrow> u8 \<Rightarrow> platform \<Rightarrow> (u32 \<times> platform) res option" where
  "irq_handler frame vector scancode p =
     (if frame = 0 then Some (Inl (Panic ''null IRQ frame''))
      else if vector \<ge> 32 \<and> vector \<le> 47
      then bindO (case interrupt_handlers p vector of Some r \<Rightarrow> run_irq_routine r scancode p | None \<Rightarrow> Some (Inr p)) (\<lambda>p1.
           let p2 = p1\<lparr>pf_ports := pf_ports p1 @ pic_send_eoi (ucast (vector - 32))\<rparr> in
           if vector = 32 \<and> thread_should_reschedule (ksched (pf_kernel p2))
           then bindO (Some (thread_schedule_from_interrupt frame (pf_kernel p2))) (\<lambda>(esp, k). Some (Inr (esp, p2\<lparr>pf_kernel := k\<rparr>)))
           else Some (Inr (0, p2)))
      else Some (Inr (0, p)))"

section \<open>What the processor reads\<close>

text \<open>Base and limit as the processor assembles them from a descriptor.\<close>

definition descriptor_base :: "gdt_entry \<Rightarrow> u32" where
  "descriptor_base e = ucast (ge_base_low e) OR push_bit 16 (ucast (ge_base_middle e)) OR push_bit 24 (ucast (ge_base_high e))"

definition descriptor_limit :: "gdt_entry \<Rightarrow> u32" where
  "descriptor_limit e = ucast (ge_limit_low e) OR push_bit 16 (ucast (ge_granularity e AND 0x0F))"

definition gate_address :: "idt_entry \<Rightarrow> u32" where
  "gate_address e = ucast (ie_base_low e) OR push_bit 16 (ucast (ie_base_high e))"

lemma u32_bits: "(\<And>n. n < 32 \<Longrightarrow> bit (a :: u32) n = bit b n) \<Longrightarrow> a = b"
  by (rule bit_word_eqI) simp

lemma low_masks: "(65535 :: u32) = mask 16" "(255 :: u32) = mask 8" "(15 :: u32) = mask 4" "(15 :: u8) = mask 4"
  by (simp_all add: mask_eq_exp_minus_1)

lemma gate_address_set: "gate_address (idt_set_gate v a s f idt v) = a"
  unfolding gate_address_def idt_set_gate_def low_masks
  by (rule u32_bits) (auto simp: bit_simps)

lemma byte_split: "n < 32 \<Longrightarrow> n < 16 \<or> 16 \<le> n \<and> n < 24 \<or> 24 \<le> n \<and> n < (32 :: nat)"
  by linarith

lemma descriptor_base_set: "descriptor_base (gdt (gdt_set_entry i base limit access gran s) i) = base"
  unfolding descriptor_base_def gdt_set_entry_def low_masks
  by (rule u32_bits, drule byte_split) (elim disjE; auto simp: bit_simps)

lemma limit_split: "n < 32 \<Longrightarrow> n < 16 \<or> 16 \<le> n \<and> n - 16 < 4 \<and> n - 16 < 8 \<or> 20 \<le> n \<and> \<not> n < 16 \<and> \<not> n - 16 < (4 :: nat)"
  by linarith

lemma bit_240: "bit (240 :: int) n \<longleftrightarrow> 4 \<le> n \<and> n < 8" "bit (240 :: nat) n \<longleftrightarrow> 4 \<le> n \<and> n < 8"
proof -
  have "(240 :: int) = push_bit 4 (mask 4)" "(240 :: nat) = push_bit 4 (mask 4)" by (simp_all add: mask_eq_exp_minus_1 push_bit_eq_mult)
  then show "bit (240 :: int) n \<longleftrightarrow> 4 \<le> n \<and> n < 8" "bit (240 :: nat) n \<longleftrightarrow> 4 \<le> n \<and> n < 8"
    by (simp_all only: bit_push_bit_iff bit_mask_iff) auto
qed

lemma descriptor_limit_set:
  assumes "limit < 0x100000"
  shows "descriptor_limit (gdt (gdt_set_entry i base limit access gran s) i) = limit"
proof -
  have high: "\<not> bit limit n" if "20 \<le> n" for n
  proof -
    have "limit = take_bit 20 limit" using assms by (simp add: word_unat_eq_iff unat_mod take_bit_eq_mod word_less_nat_alt)
    then show ?thesis using that by (metis bit_take_bit_iff not_less)
  qed
  show ?thesis unfolding descriptor_limit_def gdt_set_entry_def low_masks
    by (rule u32_bits, drule limit_split) (elim disjE; auto simp: bit_simps high bit_240)
qed

text \<open>The segments after \<open>gdt_init\<close>: flat code and data for the kernel and for user mode, and the task state segment.\<close>

lemma gdt_init_segments:
  "descriptor_base (gdt (gdt_init ga ta s) 5) = ta" "descriptor_limit (gdt (gdt_init ga ta s) 5) = 103"
  "i \<in> {1, 2, 3, 4} \<Longrightarrow> descriptor_base (gdt (gdt_init ga ta s) i) = 0 \<and> descriptor_limit (gdt (gdt_init ga ta s) i) = 0xFFFFF"
  "map (\<lambda>i. ge_access (gdt (gdt_init ga ta s) i)) [0, 1, 2, 3, 4, 5] = [0, 0x9A, 0x92, 0xFA, 0xF2, 0x89]"
proof -
  show "descriptor_base (gdt (gdt_init ga ta s) 5) = ta" "descriptor_limit (gdt (gdt_init ga ta s) 5) = 103"
    unfolding gdt_init_def tss_init_def by (simp_all only: descriptor_base_set) (subst descriptor_limit_set, simp_all)
  show "map (\<lambda>i. ge_access (gdt (gdt_init ga ta s) i)) [0, 1, 2, 3, 4, 5] = [0, 0x9A, 0x92, 0xFA, 0xF2, 0x89]"
    by (simp add: gdt_init_def tss_init_def gdt_set_entry_def)
  show "i \<in> {1, 2, 3, 4} \<Longrightarrow> descriptor_base (gdt (gdt_init ga ta s) i) = 0 \<and> descriptor_limit (gdt (gdt_init ga ta s) i) = 0xFFFFF"
    by (auto simp: gdt_init_def tss_init_def gdt_set_entry_def descriptor_base_def descriptor_limit_def)
qed

text \<open>A gate is open to user mode if it is present and its privilege level is 3.\<close>

definition user_gate :: "idt_entry \<Rightarrow> bool" where
  "user_gate e \<longleftrightarrow> bit (ie_flags e) 7 \<and> drop_bit 5 (ie_flags e) AND 3 = 3"

lemma fold_gates_flags:
  assumes "\<not> (bit f 7 \<and> drop_bit 5 f AND 3 = (3 :: u8))" and "\<not> user_gate (idt v)"
  shows "\<not> user_gate (fold (\<lambda>i. idt_set_gate (g i) (a i) c f) is idt v)"
  using assms
proof (induction "is" arbitrary: idt)
  case (Cons i "is")
  have "\<not> user_gate (idt_set_gate (g i) (a i) c f idt v)" using Cons.prems by (auto simp: idt_set_gate_def user_gate_def)
  from Cons.IH [of "idt_set_gate (g i) (a i) c f idt", OF Cons.prems(1) this] show ?case by simp
qed simp

lemma fold_gates_all:
  assumes "v \<in> g ` set is"
  shows "ie_flags (fold (\<lambda>i. idt_set_gate (g i) (a i) c f) is idt v) = f"
proof -
  have keep: "ie_flags (fold (\<lambda>i. idt_set_gate (g i) (a i) c f) is idt w) = f" if "ie_flags (idt w) = f" for "is" idt w
    using that by (induction "is" arbitrary: idt) (simp_all add: idt_set_gate_def)
  have set: "ie_flags (idt_set_gate (g i) (a i) c f idt (g i)) = f" for i idt by (simp add: idt_set_gate_def)
  show ?thesis using assms
  proof (induction "is" arbitrary: idt)
    case (Cons i "is")
    show ?case
    proof (cases "v = g i")
      case True
      then show ?thesis using keep [of "idt_set_gate (g i) (a i) c f idt" v "is"] set [of i idt] by simp
    next
      case False
      then show ?thesis using Cons.IH [of "idt_set_gate (g i) (a i) c f idt"] Cons.prems by simp
    qed
  qed simp
qed

text \<open>User mode can enter the kernel by the system call gate and by no other gate.\<close>

lemma idt_user_gate: "user_gate (idt_init st idt v) \<longleftrightarrow> v = X86_SYSCALL_INTERRUPT_VECTOR"
proof (cases "v = X86_SYSCALL_INTERRUPT_VECTOR")
  case True
  then show ?thesis by (simp add: idt_init_def Let_def idt_set_gate_def user_gate_def bit_iff_odd)
next
  case False
  define idt1 where "idt1 = fold (\<lambda>i. idt_set_gate (word_of_nat i) 0 0 0) [0..<256] idt"
  have "unat v < 256" using unsigned_less [of v, where ?'a = nat] by simp
  then have "v \<in> word_of_nat ` set [0..<256]" by (intro image_eqI [of _ _ "unat v"]) (simp_all only: set_upt, simp_all)
  then have "ie_flags (idt1 v) = 0" unfolding idt1_def by (rule fold_gates_all)
  then have 1: "\<not> user_gate (idt1 v)" by (simp add: user_gate_def)
  have f: "\<not> (bit (0x8E :: u8) 7 \<and> drop_bit 5 (0x8E :: u8) AND 3 = 3)" by simp
  define idt2 where "idt2 = fold (\<lambda>i. idt_set_gate (word_of_nat i) (exception_stub st i) (ucast X86_KERNEL_CODE_SELECTOR) 0x8E) [0..<32] idt1"
  have 2: "\<not> user_gate (idt2 v)" unfolding idt2_def by (rule fold_gates_flags) (rule f, rule 1)
  define idt3 where "idt3 = fold (\<lambda>i. idt_set_gate (word_of_nat (32 + i)) (irq_stub st i) (ucast X86_KERNEL_CODE_SELECTOR) 0x8E) [0..<16] idt2"
  have 3: "\<not> user_gate (idt3 v)" unfolding idt3_def by (rule fold_gates_flags) (rule f, rule 2)
  have "idt_init st idt v = idt_set_gate (ucast X86_SCHED_INTERRUPT_VECTOR) (sched_stub st) (ucast X86_KERNEL_CODE_SELECTOR) 0x8E idt3 v"
    unfolding idt_init_def Let_def idt1_def [symmetric] idt2_def [symmetric] idt3_def [symmetric] using False
    by (simp add: idt_set_gate_def)
  then show ?thesis using 3 f False by (auto simp: idt_set_gate_def user_gate_def)
qed

lemma pit_divisor_range: "1 \<le> pit_divisor f \<and> pit_divisor f \<le> 0xFFFF"
proof -
  have "1 \<le> d" if "d \<noteq> 0" for d :: u32 using that by (simp add: word_le_nat_alt Suc_le_eq unat_gt_0)
  then show ?thesis by (auto simp: pit_divisor_def Let_def not_less)
qed

text \<open>The first initialisation word of both controllers does not announce a fourth one: its lowest bit is clear.\<close>

lemma pic_init_icw1: "(PIC1_COMMAND, b) \<in> set pic_init \<or> (PIC2_COMMAND, b) \<in> set pic_init \<Longrightarrow> \<not> bit b 0"
  by (auto simp: pic_init_def io_wait_def)

end
