(* ===== verification/Spec2Isabelle.thy ===== *)
theory Spec2Isabelle
  imports Monitor User_Programs Platform
begin

text \<open>
  A verification development of Toyix, a teaching operating system for the 32-bit x86.

  \<^bold>\<open>The program.\<close> Toyix is one kernel image and a few user programs embedded in it. At boot
  \<open>kernel_main\<close> (\<open>kernel/kmain.c\<close>) starts the console, the descriptor tables and the interrupt
  controller, takes the physical memory from the Multiboot map, turns paging on, builds the kernel heap
  on it, and then starts threads, processes, the RAM file system, the program registry, the timer and the
  keyboard, and the kernel monitor. The timer interrupt preempts threads; the scheduler switches the page
  directory with the thread. A user process runs one thread in its own address space and enters the
  kernel by interrupt 0x80. The kernel copies its arguments in and out of user memory after checking
  every page. The shell and the other programs are written against a small library over these calls.

  \<^bold>\<open>Foundations.\<close>
  \<^item> \<open>Toyix_Prelude\<close>: machine words, the result type \<open>kerror + 'a\<close> (a panic or a C fault) with its
    sequencing, \<open>None\<close> for a loop that does not end, pages, and facts about words of a text.
  \<^item> \<open>Byte_Memory\<close>, \<open>Kstring\<close>: byte-addressed memory and \<open>kernel/lib/mem.c\<close>. \<open>kstrcmp\<close> is the
    lexicographic comparison (C24) and \<open>kstrlcpy\<close> stays in its buffer (C25).

  \<^bold>\<open>Memory.\<close>
  \<^item> \<open>Pmm\<close>: \<open>kernel/pmm.c\<close>. The bitmap after \<open>pmm_init\<close> is the memory map minus the reserved ranges, in
    exact arithmetic and for maps without the two kinds of region that the code gets wrong (C1, C2); the allocators are sound and complete (C3, C4); no page is handed out twice (C5). Both
    single-page allocators satisfy the locale \<open>page_allocator\<close>.
  \<^item> \<open>Page_Tables\<close>, \<open>Vmm\<close>: \<open>arch/x86/paging.c\<close>, \<open>arch/x86/vmm.c\<close>, \<open>kernel/vmem.c\<close>, over the page tables in
    physical memory. The boot tables are the identity (C6); mapping refines the update of an abstract
    translation (C7), reads back and is undone by unmapping (C8); C9 is the missing check for table memory.
  \<^item> \<open>Heap\<close>: \<open>kernel/heap.c\<close>, with the block headers in a store of their own, apart from the payload bytes.
    \<open>kmalloc\<close> and \<open>kfree\<close> (C10, C11), double frees (C12), and clients kept apart over any run (C13).
  \<^item> \<open>Address_Space\<close>, \<open>Usercopy\<close>: \<open>kernel/address_space.c\<close> and \<open>kernel/usercopy.c\<close>. Isolation (C18), refusals
    (C19), complete release (C20); user copies check every byte and read back (C29, C30).

  \<^bold>\<open>Threads.\<close>
  \<^item> \<open>Thread_Queue\<close>, \<open>Linked_Store\<close>: doubly linked queues of thread records, the locale \<open>thread_fifo\<close> for the
    ready queues and the wait queues (C14), and the locale of linked records that the process table uses.
  \<^item> \<open>Scheduler\<close>: \<open>kernel/thread.c\<close>. Its invariant under any interleaving of operations (C15), sleeping (C16)
    and round robin (C17). \<open>Kernel\<close> joins it with memory and files: a thread runs in its own space (C31).
  \<^item> \<open>Sync\<close>: \<open>kernel/wait_queue.c\<close> and \<open>kernel/sync.c\<close> by their atomic sections, as a step relation; the
    locale \<open>waitable\<close> covers mutexes and semaphores (C21, C22, C23).

  \<^bold>\<open>Files, processes and programs.\<close>
  \<^item> \<open>Vfs\<close>: \<open>kernel/vfs.c\<close>; reading, seeking, opening and closing (C26, C27, C28).
  \<^item> \<open>Process\<close>, \<open>User_Stack\<close>: \<open>kernel/process.c\<close> and \<open>kernel/usermode.c\<close>; the table (C32), destruction
    (C33), well-formed records (C34), descriptors (C35) and the initial user stack (C36).
  \<^item> \<open>Loaders\<close>: \<open>kernel/elf_loader.c\<close> and \<open>kernel/toyexe.c\<close>. The checks the ELF loader makes before it
    loads anything accept exactly the well-formed images, whose segments lie in the image and in user
    memory (C37); the entry point is checked after loading.
  \<^item> \<open>Program\<close>: \<open>kernel/program.c\<close>, the registry of embedded programs. The images themselves are built by the
    linker and are a parameter.
  \<^item> \<open>Syscall\<close>: \<open>kernel/syscall.c\<close>, the whole dispatcher. A call that waits gives an outcome that says what it
    waits for, and a resume definition finishes it. Only children can be waited for or killed (C39).

  \<^bold>\<open>Devices and user interface.\<close>
  \<^item> \<open>Console\<close>: \<open>kernel/console.c\<close>, \<open>drivers/console/vga_text.c\<close>, \<open>drivers/console/serial.c\<close>, over any list of
    drivers. The locked routines equal the unlocked ones while nobody holds the mutex
    (\<open>console_uncontended\<close>); the cursor stays on the screen and nothing is written outside it
    (\<open>vga_putc_ok\<close>). Components above the console use the unlocked routines.
  \<^item> \<open>Keyboard\<close>: \<open>drivers/input/keyboard.c\<close> and \<open>kernel/terminal.c\<close>. The ring is a bounded queue (locale
    \<open>bounded_queue\<close>), and any sequence of scan codes and reads behaves as a bounded list of typed
    characters (C38); \<open>terminal_readline\<close> returns the edited line.
  \<^item> \<open>Monitor\<close>: \<open>kernel/monitor.c\<close> and the reports it prints. The tokenizer gives the words of the line.
  \<^item> \<open>User_Lib\<close>, \<open>Shell\<close>, \<open>User_Programs\<close>: \<open>user/lib/toyix.c\<close>, \<open>user/shell.c\<close>, and the programs \<open>counter\<close>,
    \<open>demo\<close> and \<open>fstest\<close>, over a record of system calls. The job table keeps distinct identifiers.
  \<^item> \<open>Platform\<close>: \<open>gdt.c\<close>, \<open>idt.c\<close>, \<open>pic.c\<close>, \<open>pit.c\<close>, \<open>interrupts.c\<close> of \<open>arch/x86\<close>. Descriptors and gates decode
    to the base, limit and address they were given; vector 0x80 is the only gate open to user code.

  This theory adds what spans the components: numbers printed by kernel and user code are read back by
  their own parsers (C40).

  \<^bold>\<open>Bounds and fuel.\<close> Nothing is bounded by fuel. Loops over an index are folds, other loops are recursive
  functions with a termination proof, and loops that follow pointers or table entries, which do not end
  on every memory, are partial functions into \<open>option\<close>; the properties prove that they return. A
  blocking call is split at its atomic sections, so that interleavings are sequences of sections.

  \<^bold>\<open>Not modelled.\<close>
  \<^item> The assembly files (\<open>boot.asm\<close>, \<open>isr.asm\<close>, \<open>irq.asm\<close>, \<open>syscall.asm\<close>, \<open>context_switch.asm\<close>,
    \<open>sched_interrupt.asm\<close>, \<open>user_enter.asm\<close>, \<open>gdt_flush.asm\<close>, \<open>paging_asm.asm\<close>, \<open>crt0.S\<close>) and the inline
    assembly of \<open>toyix_syscall.h\<close>, \<open>irq_state.h\<close> and \<open>io.h\<close>: their effect on registers is outside of a model
    of the C code. The addresses of the interrupt stubs are a parameter.
  \<^item> The order of calls in \<open>kernel_main\<close>, \<open>kernel_panic\<close>, \<open>kernel_halt\<close> and \<open>kernel_idle\<close>: a panic is an error value, and the
    rest only prints, halts or waits.
  \<^item> The self tests (functions named \<open>..._test_once\<close> and the threads they start) and the register dump of an unhandled
    exception or a page fault, which only print.
  \<^item> The endless loop of the monitor thread around \<open>terminal_readline\<close> and \<open>monitor_execute_command\<close>.
\<close>

section \<open>Numbers as text\<close>

text \<open>
  C40. Decimal numbers survive printing and parsing, in the kernel and in user programs. The console
  prints a 32-bit number as its decimal digits without leading zeros, and the monitor's \<open>parse_u32\<close> reads
  these digits back as the same number. The user library prints a signed number with its sign, and
  \<open>toyix_atoi\<close> reads it back without a signed overflow for every 32-bit integer but the smallest one.
\<close>

theorem decimal_numbers_read_back:
  assumes "- 2147483648 < v" and "v < 2147483648"
  shows "console_raw_write_u32_dec n c = fold console_raw_putc (decimal (unat n)) c
    \<and> parse_u32 (Some (decimal (unat n))) = Some n
    \<and> toyix_write_int sys v m = fold (toyix_putchar sys) (signed_decimal v) m
    \<and> toyix_atoi (Some (signed_decimal v)) = Inr (Some v)"
  using assms parse_u32_decimal [OF unat_u32_less, of n]
  by (simp add: console_raw_write_u32_dec_decimal write_int_decimal atoi_signed_decimal)

theorem decimal_numbers_read_back_witness:
  "parse_u32 (Some (decimal (unat (1234 :: u32)))) = Some 1234 \<and> toyix_atoi (Some (signed_decimal (- 42))) = Inr (Some (- 42))"
  using decimal_numbers_read_back [of "- 42" 1234 undefined undefined undefined] by auto

end
